(* ===== verification/Prelude.thy ===== *)
theory Prelude
  imports Complex_Main "HOL-Library.Word" "HOL-Library.Monad_Syntax"
begin

text \<open>
  Shared vocabulary of the development: the machine integers of the C code, pointers as
  64-bit words with \<open>NULL\<close> as 0, and the option monad in which the operations are
  written. The value \<open>None\<close> of an operation means that the process stops there: a failed
  \<open>assert\<close>, a call of \<open>exit\<close> or \<open>abort\<close>, or a read through a null pointer. Every
  other outcome, error returns included, is a value under \<open>Some\<close>.
  The collection \<open>abort_simps\<close> holds the rules that turn an operation in the monad into
  nested conditionals; the bound lemmas on words at the end are used by the queues and rings.
\<close>

unbundle bit_operations_syntax

named_theorems abort_simps \<open>unfolding rules of the abort monad\<close>

section \<open>Machine integers and pointers\<close>

type_synonym u8 = "8 word"
type_synonym u16 = "16 word"
type_synonym u32 = "32 word"
type_synonym u64 = "64 word"

type_synonym addr = "64 word"

abbreviation NULL :: addr where
  "NULL \<equiv> 0"

section \<open>The abort monad\<close>

definition assert_that :: "bool \<Rightarrow> unit option" where
  "assert_that b = (if b then Some () else None)"

lemma assert_that_True [simp]: "assert_that True = Some ()"
  by (simp add: assert_that_def)

lemma assert_that_False [simp]: "assert_that False = None"
  by (simp add: assert_that_def)

lemma assert_that_eq_Some [simp]: "assert_that b = Some u \<longleftrightarrow> b"
  by (simp add: assert_that_def)

lemma bind_assert_that [abort_simps]:
  "Option.bind (assert_that b) f = (if b then f () else None)"
  by (simp add: assert_that_def)

lemma bind_if [abort_simps]:
  "Option.bind (if b then m else n) f = (if b then Option.bind m f else Option.bind n f)"
  by simp

lemma bind_Some_iff: "Option.bind m f = Some y \<longleftrightarrow> (\<exists>x. m = Some x \<and> f x = Some y)"
  by (cases m) auto

lemma if_None_eq_Some [simp]: "(if b then m else None) = Some x \<longleftrightarrow> b \<and> m = Some x"
  by simp

section \<open>Lists\<close>

lemma hd_append_if: "hd (xs @ ys) = (if xs = [] then hd ys else hd xs)"
  by simp

lemma last_neq: "y \<notin> set xs \<Longrightarrow> xs \<noteq> [] \<Longrightarrow> last xs \<noteq> y"
  using last_in_set by metis

lemma hd_neq: "y \<notin> set xs \<Longrightarrow> xs \<noteq> [] \<Longrightarrow> hd xs \<noteq> y"
  using hd_in_set by metis

lemma butlast_snoc_last: "xs \<noteq> [] \<Longrightarrow> butlast xs @ [last xs] = xs"
  by simp

lemma remove1_split: "x \<notin> set ys \<Longrightarrow> remove1 x (ys @ x # zs) = ys @ zs"
  by (simp add: remove1_append)

lemma distinct_last_not_in_butlast: "distinct xs \<Longrightarrow> xs \<noteq> [] \<Longrightarrow> last xs \<notin> set (butlast xs)"
  by (metis append_butlast_last_id distinct_butlast not_distinct_conv_prefix)

section \<open>Words\<close>

lemma unat_less_u64: "unat (x :: u64) < 2 ^ 64"
proof -
  have "unat x < 2 ^ LENGTH(64)" by (rule unsigned_less)
  then show ?thesis by simp
qed

lemma mod_add_left_inj:
  fixes i j t c :: nat
  assumes "(t + i) mod c = (t + j) mod c" and "i < c" and "j < c"
  shows "i = j"
proof -
  have "int (t + i) mod int c = int (t + j) mod int c" using assms(1) by (metis of_nat_mod)
  then have "(int i - int j) mod int c = 0" by (simp add: mod_eq_dvd_iff)
  then have "int c dvd int i - int j" by (simp add: dvd_eq_mod_eq_0)
  then have "\<bar>int c\<bar> \<le> \<bar>int i - int j\<bar>" if "int i - int j \<noteq> 0"
    using that by (rule dvd_imp_le_int [rotated])
  then show ?thesis using assms(2,3) by fastforce
qed

lemma distinct_addr_length:
  fixes xs :: "addr list"
  assumes "distinct xs" and "NULL \<notin> set xs"
  shows "length xs < 2 ^ 64"
proof -
  have "length xs = card (set xs)"
    using assms(1) by (simp add: distinct_card)
  also have "\<dots> \<le> card (UNIV - {NULL})"
    by (rule card_mono) (use assms(2) in auto)
  also have "\<dots> = 2 ^ 64 - 1"
    by (simp add: card_Diff_subset card_word)
  finally show ?thesis by simp
qed

lemma of_nat_length_eq_0:
  fixes xs :: "addr list"
  assumes "distinct xs" and "NULL \<notin> set xs"
  shows "(of_nat (length xs) :: u64) = 0 \<longleftrightarrow> xs = []"
proof -
  have len: "unat (of_nat (length xs) :: u64) = length xs"
    using distinct_addr_length [OF assms] by (simp add: unat_of_nat)
  show ?thesis
  proof
    assume "(of_nat (length xs) :: u64) = 0"
    with len show "xs = []" by simp
  qed simp
qed

end
