(* ===== verification/Spsc_Ring.thy ===== *)
theory Spsc_Ring
  imports Prelude
begin

text \<open>
  The ring buffer of \<open>src/spsc-ring.c\<close>: an array of pointers with a head (next slot to write)
  and a tail (oldest element). \<open>ring_list\<close> is the sequence of stored elements, oldest first;
  the ring refines a bounded queue that holds at most \<open>capacity - 1\<close> elements. The locale
  \<open>bounded_queue\<close> is that contract. A write or a read outside the array is \<open>None\<close>.
\<close>

record ring_buf =
  r_buffer :: "addr list"
  r_head :: u64
  r_tail :: u64
  r_capacity :: u64

section \<open>The operations\<close>

definition ring_buf_full :: "ring_buf \<Rightarrow> bool" where
  "ring_buf_full r = (
     let head = r_head r + 1;
         head = (if head = r_capacity r then 0 else head)
     in head = r_tail r)"

definition inc_tail_pointer :: "ring_buf \<Rightarrow> ring_buf" where
  "inc_tail_pointer r = (
     let r = r\<lparr>r_tail := r_tail r + 1\<rparr>
     in if r_tail r = r_capacity r then r\<lparr>r_tail := 0\<rparr> else r)"

definition inc_head_pointer :: "ring_buf \<Rightarrow> ring_buf" where
  "inc_head_pointer r = (
     let r = (if ring_buf_full r
              then let r = r\<lparr>r_tail := r_tail r + 1\<rparr>
                   in if r_tail r = r_capacity r then r\<lparr>r_tail := 0\<rparr> else r
              else r);
         r = r\<lparr>r_head := r_head r + 1\<rparr>
     in if r_head r = r_capacity r then r\<lparr>r_head := 0\<rparr> else r)"

definition ring_buf_empty :: "ring_buf \<Rightarrow> bool" where
  "ring_buf_empty r = (\<not> ring_buf_full r \<and> r_head r = r_tail r)"

definition ring_buf_reset :: "ring_buf \<Rightarrow> ring_buf option" where
  "ring_buf_reset r = do {
     let r = r\<lparr>r_head := 0, r_tail := 0\<rparr>;
     assert_that (unat (r_capacity r) \<le> length (r_buffer r));
     Some (r\<lparr>r_buffer := replicate (unat (r_capacity r)) NULL @
                         drop (unat (r_capacity r)) (r_buffer r)\<rparr>)
   }"

definition ring_buf_init :: "addr list \<Rightarrow> u64 \<Rightarrow> ring_buf option" where
  "ring_buf_init buffer sz = do {
     assert_that (sz \<noteq> 0);
     r \<leftarrow> ring_buf_reset \<lparr>r_buffer = buffer, r_head = 0, r_tail = 0, r_capacity = sz\<rparr>;
     assert_that (ring_buf_empty r);
     Some r
   }"

definition ring_buf_size :: "ring_buf \<Rightarrow> u64" where
  "ring_buf_size r =
     (if \<not> ring_buf_full r
      then if r_head r \<ge> r_tail r then r_head r - r_tail r
           else r_capacity r + r_head r - r_tail r
      else r_capacity r)"

definition ring_buf_capacity :: "ring_buf \<Rightarrow> u64" where
  "ring_buf_capacity r = r_capacity r"

definition buf_write :: "ring_buf \<Rightarrow> u64 \<Rightarrow> addr \<Rightarrow> ring_buf option" where
  "buf_write r i data = do {
     assert_that (unat i < length (r_buffer r));
     Some (r\<lparr>r_buffer := (r_buffer r)[unat i := data]\<rparr>)
   }"

definition buf_read :: "ring_buf \<Rightarrow> u64 \<Rightarrow> addr option" where
  "buf_read r i = do {
     assert_that (unat i < length (r_buffer r));
     Some (r_buffer r ! unat i)
   }"

definition ring_buf_put :: "ring_buf \<Rightarrow> addr \<Rightarrow> ring_buf option" where
  "ring_buf_put r data = do {
     r \<leftarrow> buf_write r (r_head r) data;
     Some (inc_head_pointer r)
   }"

definition ring_buf_put_r :: "ring_buf \<Rightarrow> addr \<Rightarrow> ring_buf option" where
  "ring_buf_put_r r data = do {
     r \<leftarrow> buf_write r (r_tail r) data;
     Some (inc_tail_pointer r)
   }"

definition ring_buf_put2 :: "ring_buf \<Rightarrow> addr \<Rightarrow> (int \<times> ring_buf) option" where
  "ring_buf_put2 r data =
     (if \<not> ring_buf_full r then do {
        r \<leftarrow> buf_write r (r_head r) data;
        Some (0, inc_head_pointer r)
      } else Some (-1, r))"

definition ring_buf_get :: "ring_buf \<Rightarrow> (addr \<times> ring_buf) option" where
  "ring_buf_get r =
     (if \<not> ring_buf_empty r then do {
        cur_read \<leftarrow> buf_read r (r_tail r);
        Some (cur_read, inc_tail_pointer r)
      } else Some (NULL, r))"

definition ring_buf_peek_tail :: "ring_buf \<Rightarrow> u64 \<Rightarrow> addr option" where
  "ring_buf_peek_tail r index =
     (if index < ring_buf_size r then
        let i = r_tail r + index;
            i = (if i \<ge> r_capacity r then i - r_capacity r else i)
        in buf_read r i
      else Some NULL)"

section \<open>Well-formed rings and their contents\<close>

definition ring_wf :: "ring_buf \<Rightarrow> bool" where
  "ring_wf r \<longleftrightarrow> 1 < r_capacity r \<and> unat (r_capacity r) \<le> length (r_buffer r) \<and>
     r_head r < r_capacity r \<and> r_tail r < r_capacity r"

definition ring_len :: "ring_buf \<Rightarrow> nat" where
  "ring_len r = (unat (r_capacity r) + unat (r_head r) - unat (r_tail r)) mod unat (r_capacity r)"

definition ring_list :: "ring_buf \<Rightarrow> addr list" where
  "ring_list r = map (\<lambda>i. r_buffer r ! ((unat (r_tail r) + i) mod unat (r_capacity r))) [0..<ring_len r]"

lemma length_ring_list [simp]: "length (ring_list r) = ring_len r"
  by (simp add: ring_list_def)

lemma ring_list_nth:
  "i < ring_len r \<Longrightarrow> ring_list r ! i = r_buffer r ! ((unat (r_tail r) + i) mod unat (r_capacity r))"
  by (simp add: ring_list_def)

text \<open>Advancing an index of the ring is addition modulo the capacity.\<close>

lemma unat_wrap_inc:
  fixes h c :: u64
  assumes "h < c"
  shows "unat (if h + 1 = c then 0 else h + 1) = Suc (unat h) mod unat c"
proof -
  have "unat h < unat c" using assms by (simp add: word_less_nat_alt)
  moreover have "unat c < 2 ^ 64" by (rule unat_less_u64)
  ultimately have inc: "unat (h + 1) = Suc (unat h)"
    by (simp add: unat_word_ariths)
  show ?thesis
  proof (cases "h + 1 = c")
    case True
    with inc have "unat c = Suc (unat h)" by simp
    with True show ?thesis by simp
  next
    case False
    then have "unat (h + 1) \<noteq> unat c" using word_unat_eq_iff by blast
    with inc \<open>unat h < unat c\<close> False show ?thesis by simp
  qed
qed

lemma ring_wfD:
  assumes "ring_wf r"
  shows "1 < unat (r_capacity r)" "unat (r_capacity r) \<le> length (r_buffer r)"
    "unat (r_head r) < unat (r_capacity r)" "unat (r_tail r) < unat (r_capacity r)"
    "r_head r < r_capacity r" "r_tail r < r_capacity r"
  using assms by (auto simp: ring_wf_def word_less_nat_alt)

lemma ring_len_less: "ring_wf r \<Longrightarrow> ring_len r < unat (r_capacity r)"
  using ring_wfD(1) [of r] by (simp add: ring_len_def)

lemma ring_len_cases:
  assumes "ring_wf r"
  shows "ring_len r = (if r_tail r \<le> r_head r then unat (r_head r) - unat (r_tail r)
                       else unat (r_capacity r) + unat (r_head r) - unat (r_tail r))"
  using ring_wfD [OF assms] by (auto simp: ring_len_def word_le_nat_alt mod_if)

lemma ring_buf_full_iff:
  assumes "ring_wf r"
  shows "ring_buf_full r \<longleftrightarrow> ring_len r = unat (r_capacity r) - 1"
proof -
  note W = ring_wfD [OF assms]
  have "ring_buf_full r \<longleftrightarrow> Suc (unat (r_head r)) mod unat (r_capacity r) = unat (r_tail r)"
    using unat_wrap_inc [OF W(5)] by (auto simp: ring_buf_full_def Let_def
      word_unat_eq_iff)
  also have "\<dots> \<longleftrightarrow> ring_len r = unat (r_capacity r) - 1"
    using W ring_len_cases [OF assms] by (auto simp: mod_if word_le_nat_alt split: if_splits)
  finally show ?thesis .
qed

lemma ring_buf_empty_iff:
  assumes "ring_wf r"
  shows "ring_buf_empty r \<longleftrightarrow> ring_len r = 0"
  using ring_wfD [OF assms] ring_len_cases [OF assms] ring_buf_full_iff [OF assms]
  by (auto simp: ring_buf_empty_def word_le_nat_alt word_unat_eq_iff split: if_splits)

text \<open>The head is the slot after the last element, and this determines the length.\<close>

lemma ring_head_eq:
  assumes "ring_wf r"
  shows "unat (r_head r) = (unat (r_tail r) + ring_len r) mod unat (r_capacity r)"
  using ring_wfD [OF assms] ring_len_cases [OF assms] by (auto simp: word_le_nat_alt mod_if)

lemma ring_len_unique:
  assumes "ring_wf r" and "n < unat (r_capacity r)"
    and "unat (r_head r) = (unat (r_tail r) + n) mod unat (r_capacity r)"
  shows "ring_len r = n"
  using mod_add_left_inj [of "unat (r_tail r)" "ring_len r" "unat (r_capacity r)" n]
    ring_head_eq [OF assms(1)] ring_len_less [OF assms(1)] assms(2,3) by simp

lemma inc_tail_pointer_eq:
  assumes "r_tail r < r_capacity r"
  shows "\<exists>t. inc_tail_pointer r = r\<lparr>r_tail := t\<rparr> \<and> t < r_capacity r \<and>
    unat t = Suc (unat (r_tail r)) mod unat (r_capacity r)"
proof (intro exI conjI)
  let ?t = "if r_tail r + 1 = r_capacity r then 0 else r_tail r + 1"
  show u: "unat ?t = Suc (unat (r_tail r)) mod unat (r_capacity r)"
    by (rule unat_wrap_inc [OF assms])
  show "inc_tail_pointer r = r\<lparr>r_tail := ?t\<rparr>" by (simp add: inc_tail_pointer_def)
  have "unat (r_capacity r) \<noteq> 0" using assms by (simp add: word_less_nat_alt)
  then show "?t < r_capacity r" unfolding word_less_nat_alt u by simp
qed

lemma inc_head_pointer_eq:
  assumes "r_head r < r_capacity r" and "r_tail r < r_capacity r"
  shows "\<exists>h. inc_head_pointer r =
      (if ring_buf_full r then inc_tail_pointer r else r)\<lparr>r_head := h\<rparr> \<and> h < r_capacity r \<and>
    unat h = Suc (unat (r_head r)) mod unat (r_capacity r)"
proof (intro exI conjI)
  let ?h = "if r_head r + 1 = r_capacity r then 0 else r_head r + 1"
  show u: "unat ?h = Suc (unat (r_head r)) mod unat (r_capacity r)"
    by (rule unat_wrap_inc [OF assms(1)])
  show "inc_head_pointer r = (if ring_buf_full r then inc_tail_pointer r else r)\<lparr>r_head := ?h\<rparr>"
    by (simp add: inc_head_pointer_def inc_tail_pointer_def Let_def)
  have "unat (r_capacity r) \<noteq> 0" using assms by (simp add: word_less_nat_alt)
  then show "?h < r_capacity r" unfolding word_less_nat_alt u by simp
qed

lemma ring_buf_full_buffer [simp]: "ring_buf_full (r\<lparr>r_buffer := b\<rparr>) = ring_buf_full r"
  by (simp add: ring_buf_full_def)

section \<open>Each operation refines the bounded queue\<close>

lemma ring_put_contents:
  assumes wf: "ring_wf r"
  shows "\<exists>r'. ring_buf_put r x = Some r' \<and> ring_wf r' \<and> r_capacity r' = r_capacity r \<and>
    ring_list r' = (if ring_len r = unat (r_capacity r) - 1 then tl (ring_list r) else ring_list r) @ [x]"
proof -
  note W = ring_wfD [OF wf]
  let ?c = "unat (r_capacity r)" and ?n = "ring_len r" and ?t = "unat (r_tail r)"
  define r1 where "r1 = r\<lparr>r_buffer := (r_buffer r)[unat (r_head r) := x]\<rparr>"
  have r1: "r_head r1 < r_capacity r1" "r_tail r1 < r_capacity r1" using W by (simp_all add: r1_def)
  obtain h where h: "inc_head_pointer r1 = (if ring_buf_full r1 then inc_tail_pointer r1 else r1)\<lparr>r_head := h\<rparr>"
    "h < r_capacity r1" "unat h = Suc (unat (r_head r1)) mod unat (r_capacity r1)"
    using inc_head_pointer_eq [OF r1] by blast
  obtain t where t: "inc_tail_pointer r1 = r1\<lparr>r_tail := t\<rparr>" "t < r_capacity r1"
    "unat t = Suc (unat (r_tail r1)) mod unat (r_capacity r1)"
    using inc_tail_pointer_eq [OF r1(2)] by blast
  have put: "ring_buf_put r x = Some (inc_head_pointer r1)"
    using W by (simp add: ring_buf_put_def buf_write_def r1_def abort_simps)
  have hd: "unat (r_head r) = (?t + ?n) mod ?c" by (rule ring_head_eq [OF wf])
  have slot: "(r_buffer r)[unat (r_head r) := x] ! ((?t + i) mod ?c) =
      (if i = ?n then x else r_buffer r ! ((?t + i) mod ?c))" if "i < ?c" for i
  proof -
    have "(?t + ?n) mod ?c < length (r_buffer r)"
      using W(1,2) by (intro less_le_trans [OF mod_less_divisor]) auto
    then show ?thesis
      using that mod_add_left_inj [of ?t i ?c ?n] ring_len_less [OF wf]
      by (auto simp: hd nth_list_update)
  qed
  define r' where "r' = inc_head_pointer r1"
  show ?thesis
  proof (cases "?n = ?c - 1")
    case True
    then have r': "r' = r1\<lparr>r_tail := t, r_head := h\<rparr>"
      using h(1) t(1) ring_buf_full_iff [OF wf] by (simp add: r'_def r1_def)
    have wf': "ring_wf r'" using wf h(2) t(2) by (simp add: r' r1_def ring_wf_def)
    have len: "ring_len r' = ?n"
      using ring_len_less [OF wf] h(3) t(3) hd
      by (intro ring_len_unique [OF wf']) (simp_all add: r' r1_def mod_simps)
    have "ring_list r' = tl (ring_list r) @ [x]"
    proof (rule nth_equalityI)
      show "length (ring_list r') = length (tl (ring_list r) @ [x])"
        using len True W(1) by simp
      fix i assume "i < length (ring_list r')"
      then have i: "i < ?n" using len by simp
      have "ring_list r' ! i = (r_buffer r)[unat (r_head r) := x] ! ((?t + Suc i) mod ?c)"
        using i len t(3) by (simp add: ring_list_def r' r1_def mod_simps)
      also have "\<dots> = (if Suc i = ?n then x else r_buffer r ! ((?t + Suc i) mod ?c))"
        using i ring_len_less [OF wf] by (intro slot) simp
      also have "\<dots> = (tl (ring_list r) @ [x]) ! i"
        using i by (auto simp: nth_append nth_tl ring_list_def)
      finally show "ring_list r' ! i = (tl (ring_list r) @ [x]) ! i" .
    qed
    with put wf' True show ?thesis by (simp add: r'_def [symmetric]) (simp add: r' r1_def)
  next
    case False
    then have r': "r' = r1\<lparr>r_head := h\<rparr>"
      using h(1) ring_buf_full_iff [OF wf] by (simp add: r'_def r1_def)
    have wf': "ring_wf r'" using wf h(2) by (simp add: r' r1_def ring_wf_def)
    have n: "Suc ?n < ?c" using False ring_len_less [OF wf] by simp
    have len: "ring_len r' = Suc ?n"
      using n h(3) hd by (intro ring_len_unique [OF wf']) (simp_all add: r' r1_def mod_simps)
    have "ring_list r' = ring_list r @ [x]"
    proof (rule nth_equalityI)
      show "length (ring_list r') = length (ring_list r @ [x])" using len by simp
      fix i assume "i < length (ring_list r')"
      then have i: "i < Suc ?n" using len by simp
      have "ring_list r' ! i = (r_buffer r)[unat (r_head r) := x] ! ((?t + i) mod ?c)"
        using i len by (subst ring_list_nth) (simp_all add: r' r1_def)
      also have "\<dots> = (if i = ?n then x else r_buffer r ! ((?t + i) mod ?c))"
        using i n by (intro slot) simp
      also have "\<dots> = (ring_list r @ [x]) ! i"
        using i by (auto simp: nth_append ring_list_nth less_Suc_eq)
      finally show "ring_list r' ! i = (ring_list r @ [x]) ! i" .
    qed
    with put wf' False show ?thesis by (simp add: r'_def [symmetric]) (simp add: r' r1_def)
  qed
qed

lemma ring_put2_contents:
  assumes wf: "ring_wf r"
  shows "if ring_len r = unat (r_capacity r) - 1 then ring_buf_put2 r x = Some (-1, r)
    else \<exists>r'. ring_buf_put2 r x = Some (0, r') \<and> ring_wf r' \<and> r_capacity r' = r_capacity r \<and>
      ring_list r' = ring_list r @ [x]"
proof (cases "ring_len r = unat (r_capacity r) - 1")
  case True
  then show ?thesis using ring_buf_full_iff [OF wf] by (simp add: ring_buf_put2_def)
next
  case False
  obtain r' where r': "ring_buf_put r x = Some r'" "ring_wf r'" "r_capacity r' = r_capacity r"
    "ring_list r' = ring_list r @ [x]"
    using ring_put_contents [OF wf, of x] False by auto
  then have "ring_buf_put2 r x = Some (0, r')"
    using False ring_buf_full_iff [OF wf]
    by (auto simp: ring_buf_put2_def ring_buf_put_def bind_Some_iff)
  with r' False show ?thesis by auto
qed

lemma ring_get_empty:
  assumes "ring_wf r" and "ring_list r = []"
  shows "ring_buf_get r = Some (NULL, r)"
proof -
  have "ring_len r = 0" using assms(2) length_ring_list [of r] by simp
  then show ?thesis using ring_buf_empty_iff [OF assms(1)] by (simp add: ring_buf_get_def)
qed

lemma ring_get_contents:
  assumes wf: "ring_wf r" and ne: "ring_list r \<noteq> []"
  shows "\<exists>r'. ring_buf_get r = Some (hd (ring_list r), r') \<and> ring_wf r' \<and>
    r_capacity r' = r_capacity r \<and> ring_list r' = tl (ring_list r)"
proof -
  note W = ring_wfD [OF wf]
  let ?c = "unat (r_capacity r)" and ?n = "ring_len r" and ?t = "unat (r_tail r)"
  have n: "0 < ?n" using ne length_ring_list [of r] by (metis length_greater_0_conv)
  obtain t where t: "inc_tail_pointer r = r\<lparr>r_tail := t\<rparr>" "t < r_capacity r"
    "unat t = Suc ?t mod ?c"
    using inc_tail_pointer_eq [OF W(6)] by blast
  define r' where "r' = inc_tail_pointer r"
  have wf': "ring_wf r'" using wf t(2) by (simp add: r'_def t(1) ring_wf_def)
  obtain m where m: "?n = Suc m" using n gr0_implies_Suc by blast
  have len: "ring_len r' = ?n - 1"
    using ring_len_less [OF wf] t(3) ring_head_eq [OF wf]
    by (intro ring_len_unique [OF wf']) (simp_all add: r'_def t(1) mod_simps m)
  have "ring_list r' = tl (ring_list r)"
  proof (rule nth_equalityI)
    show "length (ring_list r') = length (tl (ring_list r))" using len by simp
    fix i assume "i < length (ring_list r')"
    then have "i < ?n - 1" using len by simp
    moreover from this have "tl (ring_list r) ! i = ring_list r ! Suc i" by (simp add: nth_tl)
    ultimately show "ring_list r' ! i = tl (ring_list r) ! i"
      using len t(3) by (simp add: ring_list_nth r'_def t(1) mod_simps)
  qed
  moreover have "ring_buf_get r = Some (hd (ring_list r), r')"
  proof -
    have "hd (ring_list r) = r_buffer r ! ?t"
      using n W(4) by (simp add: ring_list_def hd_map hd_upt)
    then show ?thesis
      using n W(2,4) ring_buf_empty_iff [OF wf]
      by (simp add: ring_buf_get_def buf_read_def r'_def abort_simps)
  qed
  ultimately show ?thesis using wf' by (simp add: r'_def t(1))
qed

lemma ring_reset_contents:
  assumes "1 < r_capacity r" and "unat (r_capacity r) \<le> length (r_buffer r)"
  shows "\<exists>r'. ring_buf_reset r = Some r' \<and> ring_wf r' \<and> r_capacity r' = r_capacity r \<and> ring_list r' = []"
  using assms
  by (simp add: ring_buf_reset_def abort_simps ring_wf_def ring_list_def ring_len_def
      word_less_nat_alt)

section \<open>The contract of a bounded queue\<close>

locale bounded_queue =
  fixes wf :: "'s \<Rightarrow> bool"
    and contents :: "'s \<Rightarrow> addr list"
    and room :: "'s \<Rightarrow> nat"
    and put :: "'s \<Rightarrow> addr \<Rightarrow> 's option"
    and get :: "'s \<Rightarrow> (addr \<times> 's) option"
  assumes length_le: "wf s \<Longrightarrow> length (contents s) \<le> room s"
    and room_pos: "wf s \<Longrightarrow> 0 < room s"
    and put_ok: "wf s \<Longrightarrow> \<exists>s'. put s x = Some s' \<and> wf s' \<and> room s' = room s \<and>
      contents s' = (if length (contents s) = room s then tl (contents s) else contents s) @ [x]"
    and get_none: "wf s \<Longrightarrow> contents s = [] \<Longrightarrow> get s = Some (NULL, s)"
    and get_some: "wf s \<Longrightarrow> contents s \<noteq> [] \<Longrightarrow>
      \<exists>s'. get s = Some (hd (contents s), s') \<and> wf s' \<and> room s' = room s \<and> contents s' = tl (contents s)"

fun put_all :: "('s \<Rightarrow> addr \<Rightarrow> 's option) \<Rightarrow> 's \<Rightarrow> addr list \<Rightarrow> 's option" where
  "put_all put s [] = Some s"
| "put_all put s (x # xs) = do { s \<leftarrow> put s x; put_all put s xs }"

context bounded_queue
begin

text \<open>Whatever is put, the queue holds the most recent elements that fit.\<close>

lemma put_all_window:
  assumes "wf s"
  shows "\<exists>s'. put_all put s xs = Some s' \<and> wf s' \<and> room s' = room s \<and>
    contents s' = drop (length (contents s) + length xs - room s) (contents s @ xs)"
  using assms
proof (induction xs arbitrary: s)
  case Nil
  then show ?case using length_le [of s] by simp
next
  case (Cons x xs)
  obtain s1 where 1: "put s x = Some s1" "wf s1" "room s1 = room s"
    "contents s1 = (if length (contents s) = room s then tl (contents s) else contents s) @ [x]"
    using put_ok [OF Cons.prems] by blast
  obtain s2 where 2: "put_all put s1 xs = Some s2" "wf s2" "room s2 = room s1"
    "contents s2 = drop (length (contents s1) + length xs - room s1) (contents s1 @ xs)"
    using Cons.IH [OF 1(2)] by blast
  have "contents s2 = drop (length (contents s) + length (x # xs) - room s) (contents s @ x # xs)"
  proof (cases "length (contents s) = room s")
    case True
    then show ?thesis
      using 1(3,4) 2(4) room_pos [OF Cons.prems] by (cases "contents s") auto
  qed (use 1(3,4) 2(4) in simp)
  with 1 2 show ?case by simp
qed

lemma put_get_fifo:
  assumes "wf s" and "contents s = []" and "put s x = Some s'"
  shows "\<exists>s''. get s' = Some (x, s'') \<and> contents s'' = []"
proof -
  have "wf s'" "contents s' = [x]"
    using put_ok [OF assms(1), of x] room_pos [OF assms(1)] assms(2,3) by auto
  then show ?thesis using get_some [of s'] by auto
qed

end

interpretation ring: bounded_queue ring_wf ring_list "\<lambda>r. unat (r_capacity r) - 1" ring_buf_put ring_buf_get
proof unfold_locales
  fix r x
  assume wf: "ring_wf r"
  show "length (ring_list r) \<le> unat (r_capacity r) - 1" using ring_len_less [OF wf] by simp
  show "0 < unat (r_capacity r) - 1" using ring_wfD(1) [OF wf] by simp
  show "\<exists>r'. ring_buf_put r x = Some r' \<and> ring_wf r' \<and>
      unat (r_capacity r') - 1 = unat (r_capacity r) - 1 \<and>
      ring_list r' = (if length (ring_list r) = unat (r_capacity r) - 1 then tl (ring_list r)
        else ring_list r) @ [x]"
    using ring_put_contents [OF wf, of x] by auto
  show "ring_list r = [] \<Longrightarrow> ring_buf_get r = Some (NULL, r)" by (rule ring_get_empty [OF wf])
  show "ring_list r \<noteq> [] \<Longrightarrow> \<exists>r'. ring_buf_get r = Some (hd (ring_list r), r') \<and> ring_wf r' \<and>
      unat (r_capacity r') - 1 = unat (r_capacity r) - 1 \<and> ring_list r' = tl (ring_list r)"
    using ring_get_contents [OF wf] by auto
qed

section \<open>Properties\<close>

text \<open>
  C12: Whatever is put into a ring buffer, it holds the most recent elements that fit, in order:
  with a capacity of c at most c - 1 of them, the oldest overwritten first.
\<close>

lemma ring_keeps_newest:
  assumes "ring_wf r"
  shows "\<exists>r'. put_all ring_buf_put r xs = Some r' \<and> ring_wf r' \<and> r_capacity r' = r_capacity r \<and>
    ring_list r' = drop (length (ring_list r) + length xs - (unat (r_capacity r) - 1)) (ring_list r @ xs)"
proof -
  obtain r' where r': "put_all ring_buf_put r xs = Some r'" "ring_wf r'"
    "unat (r_capacity r') - 1 = unat (r_capacity r) - 1"
    "ring_list r' = drop (length (ring_list r) + length xs - (unat (r_capacity r) - 1)) (ring_list r @ xs)"
    using ring.put_all_window [OF assms, of xs] by blast
  have "unat (r_capacity r') = unat (r_capacity r)"
    using r'(3) ring_wfD(1) [OF assms] ring_wfD(1) [OF r'(2)] by linarith
  then have "r_capacity r' = r_capacity r" by (rule unsigned_word_eqI)
  then show ?thesis using r' by blast
qed

lemma ring_keeps_newest_witness:
  "\<exists>r r'. ring_buf_init [0, 0, 0, 0] 4 = Some r \<and> put_all ring_buf_put r [11, 12, 13, 14, 15] = Some r' \<and>
    ring_list r' = [13, 14, 15]"
proof -
  let ?r = "\<lparr>r_buffer = [0, 0, 0, 0], r_head = 0, r_tail = 0, r_capacity = 4\<rparr>"
  have wf: "ring_wf ?r" and nil: "ring_list ?r = []" by (simp_all add: ring_wf_def ring_list_def ring_len_def)
  have "ring_buf_init [0, 0, 0, 0] 4 = Some ?r" by code_simp
  with ring_keeps_newest [OF wf, of "[11, 12, 13, 14, 15]"] nil show ?thesis by auto
qed

end
