(* ===== verification/Fifo.thy ===== *)
theory Fifo
  imports Prelude
begin

text \<open>
  The intrusive doubly linked queues of \<open>src/fifo.c\<close>. A node is an address; the link fields
  \<open>next\<close>, \<open>prev\<close> and \<open>list\<close> of \<open>struct arms_page\<close> and \<open>struct migration_req\<close> are one heap
  per field, the list heads (\<open>struct fifo_list\<close>, \<open>struct migration_req_list\<close>) are indexed by
  the identity of the list. New nodes enter at \<open>first\<close>, the oldest leaves at \<open>last\<close>.
  The locks of the lists are not state: every operation runs with the lock of its list
  held from its first to its last statement, so it is one step.
  \<open>dll_rep\<close> relates a heap to the contents of all its lists; the locale \<open>fifo_store\<close> is
  the contract the policies rely on.
\<close>

record 'l dll =
  d_next :: "addr \<Rightarrow> addr"
  d_prev :: "addr \<Rightarrow> addr"
  d_list :: "addr \<Rightarrow> 'l option"
  l_first :: "'l \<Rightarrow> addr"
  l_last :: "'l \<Rightarrow> addr"
  l_num :: "'l \<Rightarrow> u64"

section \<open>The operations\<close>

definition enqueue_fifo :: "'l dll \<Rightarrow> 'l \<Rightarrow> addr \<Rightarrow> 'l dll option" where
  "enqueue_fifo s queue entry = do {
     assert_that (entry \<noteq> NULL);
     assert_that (d_prev s entry = NULL);
     let s = s\<lparr>d_next := (d_next s)(entry := l_first s queue)\<rparr>;
     s \<leftarrow> (if l_first s queue \<noteq> NULL then do {
             assert_that (d_prev s (l_first s queue) = NULL);
             Some (s\<lparr>d_prev := (d_prev s)(l_first s queue := entry)\<rparr>)
           } else do {
             assert_that (l_last s queue = NULL);
             assert_that (l_num s queue = 0);
             Some (s\<lparr>l_last := (l_last s)(queue := entry)\<rparr>)
           });
     let s = s\<lparr>l_first := (l_first s)(queue := entry)\<rparr>;
     let s = s\<lparr>d_list := (d_list s)(entry := Some queue)\<rparr>;
     Some (s\<lparr>l_num := (l_num s)(queue := l_num s queue + 1)\<rparr>)
   }"

definition dequeue_fifo :: "'l dll \<Rightarrow> 'l \<Rightarrow> (addr \<times> 'l dll) option" where
  "dequeue_fifo s queue = (
     let ret = l_last s queue in
     if ret = NULL then Some (ret, s)
     else do {
       let s = s\<lparr>l_last := (l_last s)(queue := d_prev s ret)\<rparr>;
       let s = (if l_last s queue \<noteq> NULL
                then s\<lparr>d_next := (d_next s)(l_last s queue := NULL)\<rparr>
                else s\<lparr>l_first := (l_first s)(queue := NULL)\<rparr>);
       let s = s\<lparr>d_prev := (d_prev s)(ret := NULL), d_next := (d_next s)(ret := NULL)\<rparr>;
       let s = s\<lparr>d_list := (d_list s)(ret := None)\<rparr>;
       assert_that (l_num s queue > 0);
       Some (ret, s\<lparr>l_num := (l_num s)(queue := l_num s queue - 1)\<rparr>)
     })"

definition page_list_remove_page :: "'l dll \<Rightarrow> 'l \<Rightarrow> addr \<Rightarrow> 'l dll option" where
  "page_list_remove_page s l page =
     (if l_first s l = NULL then do {
        assert_that (l_last s l = NULL);
        assert_that (l_num s l = 0);
        Some s
      } else do {
        assert_that (page \<noteq> NULL);
        let s = (if l_first s l = page then s\<lparr>l_first := (l_first s)(l := d_next s page)\<rparr> else s);
        let s = (if l_last s l = page then s\<lparr>l_last := (l_last s)(l := d_prev s page)\<rparr> else s);
        let s = (if d_next s page \<noteq> NULL
                 then s\<lparr>d_prev := (d_prev s)(d_next s page := d_prev s page)\<rparr> else s);
        let s = (if d_prev s page \<noteq> NULL
                 then s\<lparr>d_next := (d_next s)(d_prev s page := d_next s page)\<rparr> else s);
        assert_that (l_num s l > 0);
        let s = s\<lparr>l_num := (l_num s)(l := l_num s l - 1)\<rparr>;
        let s = s\<lparr>d_next := (d_next s)(page := NULL)\<rparr>;
        let s = s\<lparr>d_prev := (d_prev s)(page := NULL)\<rparr>;
        Some (s\<lparr>d_list := (d_list s)(page := None)\<rparr>)
      })"

definition next_page :: "'l dll \<Rightarrow> 'l \<Rightarrow> addr \<Rightarrow> addr option" where
  "next_page s l page =
     (if page = NULL then Some (l_last s l)
      else do {
        assert_that (d_list s page = Some l);
        Some (d_prev s page)
      })"

text \<open>The queue of migration requests has its own copy of the first two operations.\<close>

definition enqueue_fifo_m :: "'l dll \<Rightarrow> 'l \<Rightarrow> addr \<Rightarrow> 'l dll option" where
  "enqueue_fifo_m s queue entry = do {
     assert_that (entry \<noteq> NULL);
     assert_that (d_prev s entry = NULL);
     let s = s\<lparr>d_next := (d_next s)(entry := l_first s queue)\<rparr>;
     s \<leftarrow> (if l_first s queue \<noteq> NULL then do {
             assert_that (d_prev s (l_first s queue) = NULL);
             Some (s\<lparr>d_prev := (d_prev s)(l_first s queue := entry)\<rparr>)
           } else do {
             assert_that (l_last s queue = NULL);
             assert_that (l_num s queue = 0);
             Some (s\<lparr>l_last := (l_last s)(queue := entry)\<rparr>)
           });
     let s = s\<lparr>l_first := (l_first s)(queue := entry)\<rparr>;
     let s = s\<lparr>d_list := (d_list s)(entry := Some queue)\<rparr>;
     Some (s\<lparr>l_num := (l_num s)(queue := l_num s queue + 1)\<rparr>)
   }"

definition dequeue_fifo_m :: "'l dll \<Rightarrow> 'l \<Rightarrow> (addr \<times> 'l dll) option" where
  "dequeue_fifo_m s queue = (
     let ret = l_last s queue in
     if ret = NULL then Some (ret, s)
     else do {
       let s = s\<lparr>l_last := (l_last s)(queue := d_prev s ret)\<rparr>;
       let s = (if l_last s queue \<noteq> NULL
                then s\<lparr>d_next := (d_next s)(l_last s queue := NULL)\<rparr>
                else s\<lparr>l_first := (l_first s)(queue := NULL)\<rparr>);
       let s = s\<lparr>d_prev := (d_prev s)(ret := NULL), d_next := (d_next s)(ret := NULL)\<rparr>;
       let s = s\<lparr>d_list := (d_list s)(ret := None)\<rparr>;
       assert_that (l_num s queue > 0);
       Some (ret, s\<lparr>l_num := (l_num s)(queue := l_num s queue - 1)\<rparr>)
     })"

lemma enqueue_fifo_m_eq: "enqueue_fifo_m = enqueue_fifo"
  by (intro ext) (simp add: enqueue_fifo_m_def enqueue_fifo_def)

lemma dequeue_fifo_m_eq: "dequeue_fifo_m = dequeue_fifo"
  by (intro ext) (simp add: dequeue_fifo_m_def dequeue_fifo_def)

section \<open>Segments of a list\<close>

text \<open>
  \<open>dseg nx pv p xs n\<close>: the nodes \<open>xs\<close> are linked in this order, the first one points back to
  \<open>p\<close> and the last one on to \<open>n\<close>.
\<close>

fun dseg :: "(addr \<Rightarrow> addr) \<Rightarrow> (addr \<Rightarrow> addr) \<Rightarrow> addr \<Rightarrow> addr list \<Rightarrow> addr \<Rightarrow> bool" where
  "dseg nx pv p [] n = True"
| "dseg nx pv p (x # xs) n =
     (pv x = p \<and> nx x = (if xs = [] then n else hd xs) \<and> dseg nx pv x xs n)"

lemma dseg_append:
  "dseg nx pv p (xs @ ys) n =
     (dseg nx pv p xs (if ys = [] then n else hd ys) \<and>
      dseg nx pv (if xs = [] then p else last xs) ys n)"
  by (induction xs arbitrary: p) auto

lemma dseg_frame:
  assumes "dseg nx pv p xs n"
    and "\<And>x. x \<in> set xs \<Longrightarrow> nx' x = nx x" and "\<And>x. x \<in> set xs \<Longrightarrow> pv' x = pv x"
  shows "dseg nx' pv' p xs n"
  using assms by (induction xs arbitrary: p) auto

lemma dseg_set_prev:
  assumes "dseg nx pv p xs n" and "distinct xs"
    and "\<And>x. x \<in> set xs \<Longrightarrow> nx' x = nx x"
    and "\<And>x. x \<in> set (tl xs) \<Longrightarrow> pv' x = pv x" and "xs \<noteq> [] \<Longrightarrow> pv' (hd xs) = p'"
  shows "dseg nx' pv' p' xs n"
  using assms by (cases xs) (auto intro: dseg_frame)

lemma dseg_set_next:
  assumes "dseg nx pv p xs n" and "distinct xs"
    and "\<And>x. x \<in> set (butlast xs) \<Longrightarrow> nx' x = nx x"
    and "\<And>x. x \<in> set xs \<Longrightarrow> pv' x = pv x" and "xs \<noteq> [] \<Longrightarrow> nx' (last xs) = n'"
  shows "dseg nx' pv' p xs n'"
  using assms by (induction xs arbitrary: p) auto

lemma dseg_hd_prev: "dseg nx pv p xs n \<Longrightarrow> xs \<noteq> [] \<Longrightarrow> pv (hd xs) = p"
  by (cases xs) auto

lemma dseg_last_next: "dseg nx pv p xs n \<Longrightarrow> xs \<noteq> [] \<Longrightarrow> nx (last xs) = n"
  by (induction xs arbitrary: p) auto

section \<open>A heap and the contents of its lists\<close>

definition dll_rep :: "'l dll \<Rightarrow> ('l \<Rightarrow> addr list) \<Rightarrow> bool" where
  "dll_rep s Q \<longleftrightarrow>
     (\<forall>l. distinct (Q l) \<and> NULL \<notin> set (Q l) \<and>
          dseg (d_next s) (d_prev s) NULL (Q l) NULL \<and>
          l_first s l = (if Q l = [] then NULL else hd (Q l)) \<and>
          l_last s l = (if Q l = [] then NULL else last (Q l)) \<and>
          l_num s l = of_nat (length (Q l))) \<and>
     (\<forall>x l. x \<in> set (Q l) \<longleftrightarrow> d_list s x = Some l) \<and>
     (\<forall>x. d_list s x = None \<longrightarrow> d_prev s x = NULL \<and> d_next s x = NULL)"

definition dll_empty :: "'l dll" where
  "dll_empty = \<lparr>d_next = \<lambda>_. NULL, d_prev = \<lambda>_. NULL, d_list = \<lambda>_. None,
                l_first = \<lambda>_. NULL, l_last = \<lambda>_. NULL, l_num = \<lambda>_. 0\<rparr>"


lemma dll_repD:
  assumes "dll_rep s Q"
  shows "distinct (Q l)" "NULL \<notin> set (Q l)" "dseg (d_next s) (d_prev s) NULL (Q l) NULL"
    "l_first s l = (if Q l = [] then NULL else hd (Q l))"
    "l_last s l = (if Q l = [] then NULL else last (Q l))"
    "l_num s l = of_nat (length (Q l))"
    "x \<in> set (Q l) \<longleftrightarrow> d_list s x = Some l"
    "d_list s x = None \<Longrightarrow> d_prev s x = NULL" "d_list s x = None \<Longrightarrow> d_next s x = NULL"
  using assms by (auto simp: dll_rep_def)

lemma dll_rep_disjoint: "dll_rep s Q \<Longrightarrow> x \<in> set (Q l) \<Longrightarrow> x \<in> set (Q k) \<Longrightarrow> k = l"
  by (simp add: dll_repD(7))

lemma dll_rep_hd_neq_NULL: "dll_rep s Q \<Longrightarrow> Q l \<noteq> [] \<Longrightarrow> hd (Q l) \<noteq> NULL"
  by (metis dll_repD(2) hd_in_set)

lemma dll_rep_last_neq_NULL: "dll_rep s Q \<Longrightarrow> Q l \<noteq> [] \<Longrightarrow> last (Q l) \<noteq> NULL"
  by (metis dll_repD(2) last_in_set)

lemma dll_rep_empty: "dll_rep dll_empty (\<lambda>_. [])"
  by (simp add: dll_rep_def dll_empty_def)

lemma dll_rep_num_pos: "dll_rep s Q \<Longrightarrow> Q l \<noteq> [] \<Longrightarrow> l_num s l > 0"
  by (metis dll_repD(1,2,6) of_nat_length_eq_0 word_gt_0)

subsection \<open>Enqueue\<close>

lemma enqueue_fifo_rep:
  assumes rep: "dll_rep s Q" and x: "x \<noteq> NULL" and free: "d_list s x = None"
  shows "\<exists>s'. enqueue_fifo s l x = Some s' \<and> dll_rep s' (Q(l := x # Q l))"
proof -
  note D = dll_repD [OF rep]
  have notin: "x \<notin> set (Q k)" for k using free by (simp add: D(7))
  define nx where "nx = (d_next s)(x := l_first s l)"
  define pv where "pv = (if Q l = [] then d_prev s else (d_prev s)(hd (Q l) := x))"
  define s' where "s' = s\<lparr>d_next := nx, d_prev := pv, d_list := (d_list s)(x := Some l),
    l_first := (l_first s)(l := x),
    l_last := (if Q l = [] then (l_last s)(l := x) else l_last s),
    l_num := (l_num s)(l := l_num s l + 1)\<rparr>"
  have "enqueue_fifo s l x = Some s'"
    using x free D(4,5,6) [of l] dseg_hd_prev [OF D(3) [of l]] dll_rep_hd_neq_NULL [OF rep, of l]
    by (auto simp: enqueue_fifo_def s'_def nx_def pv_def D abort_simps)
  moreover have "dll_rep s' (Q(l := x # Q l))"
    unfolding dll_rep_def
  proof (intro conjI allI)
    fix k
    let ?Q = "Q(l := x # Q l)"
    show "distinct (?Q k)" "NULL \<notin> set (?Q k)" using D(1,2) x notin by auto
    show "l_first s' k = (if ?Q k = [] then NULL else hd (?Q k))"
      "l_last s' k = (if ?Q k = [] then NULL else last (?Q k))"
      "l_num s' k = of_nat (length (?Q k))"
      using D(4,5,6) by (auto simp: s'_def)
    have nx: "nx y = d_next s y" if "y \<in> set (Q j)" for y j
      using that notin by (auto simp: nx_def)
    have pv: "pv y = d_prev s y" if "Q l \<noteq> [] \<Longrightarrow> y \<noteq> hd (Q l)" for y
      using that by (auto simp: pv_def)
    have "hd (Q l) \<notin> set (tl (Q l))" if "Q l \<noteq> []"
      using that D(1) [of l] by (cases "Q l") auto
    then have pv_tl: "pv y = d_prev s y" if "y \<in> set (tl (Q l))" for y
      using that by (intro pv) auto
    have seg: "dseg nx pv x (Q l) NULL"
      by (rule dseg_set_prev [OF D(3) D(1) nx pv_tl]) (auto simp: pv_def)
    have "pv y = d_prev s y" if "k \<noteq> l" "y \<in> set (Q k)" for y
      using that dll_rep_disjoint [OF rep, of y k l] by (intro pv) auto
    then have "dseg nx pv NULL (Q k) NULL" if "k \<noteq> l"
      using that by (intro dseg_frame [OF D(3) nx])
    moreover have "pv x = NULL" "nx x = (if Q l = [] then NULL else hd (Q l))"
      using D(4) [of l] D(8) [OF free] notin [of l] hd_in_set [of "Q l"]
      by (auto simp: nx_def pv_def)
    ultimately show "dseg (d_next s') (d_prev s') NULL (?Q k) NULL"
      using seg by (auto simp: s'_def)
  next
    fix y k
    show "y \<in> set ((Q(l := x # Q l)) k) \<longleftrightarrow> d_list s' y = Some k"
      using D(7) notin by (auto simp: s'_def)
    show "d_list s' y = None \<longrightarrow> d_prev s' y = NULL \<and> d_next s' y = NULL"
      using D(7) [of _ l] D(8,9) [of y] hd_in_set [of "Q l"]
      by (auto simp: s'_def nx_def pv_def)
  qed
  ultimately show ?thesis by blast
qed

subsection \<open>Removal\<close>

text \<open>
  Unlinking a node \<open>x\<close> from the middle of \<open>ys @ x # zs\<close>. Both ways of leaving a list, from
  its end and from the middle, are this one change of the links.
\<close>

lemma dseg_unlink:
  assumes seg: "dseg nx pv NULL (ys @ x # zs) NULL" and dist: "distinct (ys @ x # zs)"
    and nx': "nx' = (if ys = [] then nx else nx(last ys := nx x))"
    and pv': "pv' = (if zs = [] then pv else pv(hd zs := pv x))"
  shows "dseg nx' pv' NULL (ys @ zs) NULL"
proof -
  have ys: "dseg nx pv NULL ys x" and x: "pv x = (if ys = [] then NULL else last ys)"
    "nx x = (if zs = [] then NULL else hd zs)" and zs: "dseg nx pv x zs NULL"
    using seg by (auto simp: dseg_append)
  have "last ys \<notin> set (butlast ys)" if "ys \<noteq> []"
    using that dist by (intro distinct_last_not_in_butlast) auto
  then have "nx' y = nx y" if "y \<in> set (butlast ys)" for y
    using that by (auto simp: nx')
  moreover have "pv' y = pv y" if "y \<in> set ys" for y
    using that dist hd_in_set [of zs] by (auto simp: pv')
  ultimately have "dseg nx' pv' NULL ys (nx x)"
    using dist by (intro dseg_set_next [OF ys]) (auto simp: nx')
  moreover have "set ys \<inter> set zs = {}" using dist by auto
  then have "last ys \<notin> set zs" if "ys \<noteq> []"
    using last_in_set [OF that] by blast
  then have "nx' y = nx y" if "y \<in> set zs" for y
    using that by (auto simp: nx')
  moreover have "hd zs \<notin> set (tl zs)" if "zs \<noteq> []"
    using that dist by (cases zs) auto
  then have "pv' y = pv y" if "y \<in> set (tl zs)" for y
    using that by (auto simp: pv')
  ultimately have "dseg nx' pv' NULL ys (nx x)" "dseg nx' pv' (pv x) zs NULL"
    using dist by (auto intro!: dseg_set_prev [OF zs] simp: pv')
  then show ?thesis using x by (auto simp: dseg_append)
qed

lemma dll_rep_unlink:
  assumes rep: "dll_rep s Q" and Q: "Q l = ys @ x # zs"
    and s': "s' = s\<lparr>d_next := (if ys = [] then d_next s else (d_next s)(last ys := d_next s x))(x := NULL),
                   d_prev := (if zs = [] then d_prev s else (d_prev s)(hd zs := d_prev s x))(x := NULL),
                   d_list := (d_list s)(x := None),
                   l_first := (l_first s)(l := (if ys = [] then d_next s x else l_first s l)),
                   l_last := (l_last s)(l := (if zs = [] then d_prev s x else l_last s l)),
                   l_num := (l_num s)(l := l_num s l - 1)\<rparr>"
  shows "dll_rep s' (Q(l := ys @ zs))"
proof -
  note D = dll_repD [OF rep]
  have dist: "distinct (ys @ x # zs)" using D(1) [of l] Q by simp
  have mem: "y \<in> set (Q l) \<longleftrightarrow> y \<in> set ys \<or> y = x \<or> y \<in> set zs" for y using Q by auto
  let ?nx = "if ys = [] then d_next s else (d_next s)(last ys := d_next s x)"
  let ?pv = "if zs = [] then d_prev s else (d_prev s)(hd zs := d_prev s x)"
  have seg: "dseg ?nx ?pv NULL (ys @ zs) NULL"
    using D(3) [of l] dist unfolding Q by (rule dseg_unlink) simp_all
  have x: "d_prev s x = (if ys = [] then NULL else last ys)"
    "d_next s x = (if zs = [] then NULL else hd zs)"
    using D(3) [of l] unfolding Q by (auto simp: dseg_append)
  show ?thesis
    unfolding dll_rep_def
  proof (intro conjI allI)
    fix k
    let ?Q = "Q(l := ys @ zs)"
    show "distinct (?Q k)" "NULL \<notin> set (?Q k)" using D(1,2) [of k] D(2) [of l] dist Q by auto
    show "l_first s' k = (if ?Q k = [] then NULL else hd (?Q k))"
      "l_last s' k = (if ?Q k = [] then NULL else last (?Q k))"
      "l_num s' k = of_nat (length (?Q k))"
      using D(4,5,6) [of k] x Q by (auto simp: s')
    have "dseg (?nx(x := NULL)) (?pv(x := NULL)) NULL (ys @ zs) NULL"
      by (rule dseg_frame [OF seg]) (use dist in auto)
    moreover have "y \<noteq> x" "ys \<noteq> [] \<Longrightarrow> y \<noteq> last ys" "zs \<noteq> [] \<Longrightarrow> y \<noteq> hd zs"
      if "k \<noteq> l" "y \<in> set (Q k)" for y
      using that mem [of y] dll_rep_disjoint [OF rep, of y k l] by auto
    then have "dseg (?nx(x := NULL)) (?pv(x := NULL)) NULL (Q k) NULL" if "k \<noteq> l"
      using that by (intro dseg_frame [OF D(3)]) auto
    ultimately show "dseg (d_next s') (d_prev s') NULL (?Q k) NULL" by (simp add: s')
  next
    fix y k
    show "y \<in> set ((Q(l := ys @ zs)) k) \<longleftrightarrow> d_list s' y = Some k"
      using D(7) [of y k] D(7) [of x k] D(7) [of x l] mem [of y] mem [of x] dist by (auto simp: s')
    show "d_list s' y = None \<longrightarrow> d_prev s' y = NULL \<and> d_next s' y = NULL"
    proof
      assume y: "d_list s' y = None"
      show "d_prev s' y = NULL \<and> d_next s' y = NULL"
      proof (cases "y = x")
        case False
        with y have "d_list s y = None" by (simp add: s')
        then have "y \<notin> set (Q l)" and "d_prev s y = NULL" "d_next s y = NULL"
          using D(7) [of y l] D(8,9) [of y] by simp_all
        moreover from this mem [of y] have "ys \<noteq> [] \<Longrightarrow> y \<noteq> last ys" "zs \<noteq> [] \<Longrightarrow> y \<noteq> hd zs"
          by auto
        ultimately show ?thesis using False by (simp add: s')
      qed (simp add: s')
    qed
  qed
qed

subsection \<open>Dequeue, removal from the middle, traversal\<close>

lemma dequeue_fifo_empty: "dll_rep s Q \<Longrightarrow> Q l = [] \<Longrightarrow> dequeue_fifo s l = Some (NULL, s)"
  by (simp add: dequeue_fifo_def dll_repD(5))

lemma dequeue_fifo_rep:
  assumes rep: "dll_rep s Q" and ne: "Q l \<noteq> []"
  shows "\<exists>s'. dequeue_fifo s l = Some (last (Q l), s') \<and> dll_rep s' (Q(l := butlast (Q l)))"
proof -
  note D = dll_repD [OF rep]
  let ?x = "last (Q l)" and ?ys = "butlast (Q l)"
  have Q: "Q l = ?ys @ ?x # []" using ne by simp
  have links: "d_prev s ?x = (if ?ys = [] then NULL else last ?ys)" "d_next s ?x = NULL"
    using D(3) [of l] by (subst (asm) Q, simp add: dseg_append)+
  have x: "?x \<noteq> NULL" "l_last s l = ?x" using dll_rep_last_neq_NULL [OF rep ne] D(5) ne by auto
  have ys: "?ys \<noteq> [] \<Longrightarrow> last ?ys \<noteq> NULL \<and> last ?ys \<noteq> ?x"
    using D(2) [of l] D(1) [of l] ne
    by (intro conjI last_neq) (auto dest: in_set_butlastD distinct_last_not_in_butlast)
  define s' where "s' = s\<lparr>d_next := (if ?ys = [] then d_next s else (d_next s)(last ?ys := d_next s ?x))(?x := NULL),
     d_prev := (d_prev s)(?x := NULL), d_list := (d_list s)(?x := None),
     l_first := (l_first s)(l := (if ?ys = [] then d_next s ?x else l_first s l)),
     l_last := (l_last s)(l := d_prev s ?x), l_num := (l_num s)(l := l_num s l - 1)\<rparr>"
  have "dequeue_fifo s l = Some (?x, s')"
    using x ys links dll_rep_num_pos [OF rep ne]
    by (auto simp: dequeue_fifo_def s'_def abort_simps fun_upd_twist Let_def)
  moreover have "dll_rep s' (Q(l := ?ys @ []))"
    by (rule dll_rep_unlink [OF rep Q]) (simp add: s'_def)
  ultimately show ?thesis by auto
qed

lemma page_list_remove_page_rep:
  assumes rep: "dll_rep s Q" and mem: "x \<in> set (Q l)"
  shows "\<exists>s'. page_list_remove_page s l x = Some s' \<and> dll_rep s' (Q(l := remove1 x (Q l)))"
proof -
  note D = dll_repD [OF rep]
  obtain ys zs where Q: "Q l = ys @ x # zs" and x: "x \<notin> set ys"
    using split_list_first [OF mem] by blast
  have dist: "distinct (ys @ x # zs)" using D(1) [of l] Q by simp
  have nonnull: "NULL \<notin> set (ys @ x # zs)" using D(2) [of l] Q by simp
  have links: "d_prev s x = (if ys = [] then NULL else last ys)"
    "d_next s x = (if zs = [] then NULL else hd zs)"
    using D(3) [of l] unfolding Q by (auto simp: dseg_append)
  have ne: "Q l \<noteq> []" using Q by simp
  have ends: "l_first s l = (if ys = [] then x else hd ys)" "l_last s l = (if zs = [] then x else last zs)"
    using D(4,5) [of l] Q by auto
  have ys: "ys \<noteq> [] \<Longrightarrow> hd ys \<noteq> x \<and> hd ys \<noteq> NULL \<and> last ys \<noteq> NULL \<and> last ys \<noteq> x"
    using dist nonnull by (intro conjI last_neq hd_neq) auto
  have zs: "zs \<noteq> [] \<Longrightarrow> last zs \<noteq> x \<and> hd zs \<noteq> NULL \<and> hd zs \<noteq> x \<and> x \<noteq> hd zs"
    using dist nonnull by (intro conjI last_neq hd_neq not_sym [OF hd_neq]) auto
  define s' where "s' = s\<lparr>d_next := (if ys = [] then d_next s else (d_next s)(last ys := d_next s x))(x := NULL),
     d_prev := (if zs = [] then d_prev s else (d_prev s)(hd zs := d_prev s x))(x := NULL),
     d_list := (d_list s)(x := None),
     l_first := (l_first s)(l := (if ys = [] then d_next s x else l_first s l)),
     l_last := (l_last s)(l := (if zs = [] then d_prev s x else l_last s l)),
     l_num := (l_num s)(l := l_num s l - 1)\<rparr>"
  have "page_list_remove_page s l x = Some s'"
    using ys zs links ends nonnull dll_rep_num_pos [OF rep ne]
    by (cases "ys = []"; cases "zs = []")
       (simp_all add: page_list_remove_page_def s'_def abort_simps fun_upd_twist fun_upd_idem)
  moreover have "dll_rep s' (Q(l := ys @ zs))"
    by (rule dll_rep_unlink [OF rep Q]) (simp add: s'_def)
  ultimately show ?thesis using x Q by (simp add: remove1_append)
qed

lemma page_list_remove_page_empty:
  "dll_rep s Q \<Longrightarrow> Q l = [] \<Longrightarrow> page_list_remove_page s l x = Some s"
  by (simp add: page_list_remove_page_def dll_repD abort_simps)

lemma next_page_last: "dll_rep s Q \<Longrightarrow> next_page s l NULL = Some (if Q l = [] then NULL else last (Q l))"
  by (simp add: next_page_def dll_repD(5))

lemma next_page_prev:
  assumes "dll_rep s Q" and "Q l = ys @ x # zs"
  shows "next_page s l x = Some (if ys = [] then NULL else last ys)"
proof -
  note D = dll_repD [OF assms(1)]
  have "x \<noteq> NULL" "d_list s x = Some l"
    using D(2) [of l] D(7) [of x l] assms(2) by auto
  moreover have "d_prev s x = (if ys = [] then NULL else last ys)"
    using D(3) [of l] unfolding assms(2) by (auto simp: dseg_append)
  ultimately show ?thesis by (simp add: next_page_def)
qed

section \<open>The contract of a store of queues\<close>

locale fifo_store =
  fixes rep :: "'s \<Rightarrow> ('l \<Rightarrow> addr list) \<Rightarrow> bool"
    and enq :: "'s \<Rightarrow> 'l \<Rightarrow> addr \<Rightarrow> 's option"
    and deq :: "'s \<Rightarrow> 'l \<Rightarrow> (addr \<times> 's) option"
    and del :: "'s \<Rightarrow> 'l \<Rightarrow> addr \<Rightarrow> 's option"
  assumes rep_nonnull: "rep s Q \<Longrightarrow> NULL \<notin> set (Q l)"
    and rep_distinct: "rep s Q \<Longrightarrow> distinct (Q l)"
    and rep_disjoint: "rep s Q \<Longrightarrow> x \<in> set (Q l) \<Longrightarrow> x \<in> set (Q k) \<Longrightarrow> k = l"
    and enq_rep: "rep s Q \<Longrightarrow> x \<noteq> NULL \<Longrightarrow> (\<And>k. x \<notin> set (Q k)) \<Longrightarrow>
      \<exists>s'. enq s l x = Some s' \<and> rep s' (Q(l := x # Q l))"
    and deq_empty: "rep s Q \<Longrightarrow> Q l = [] \<Longrightarrow> deq s l = Some (NULL, s)"
    and deq_rep: "rep s Q \<Longrightarrow> Q l \<noteq> [] \<Longrightarrow>
      \<exists>s'. deq s l = Some (last (Q l), s') \<and> rep s' (Q(l := butlast (Q l)))"
    and del_rep: "rep s Q \<Longrightarrow> x \<in> set (Q l) \<Longrightarrow>
      \<exists>s'. del s l x = Some s' \<and> rep s' (Q(l := remove1 x (Q l)))"

text \<open>Clients that run a whole queue: insert a list of nodes, take out the oldest \<open>n\<close>.\<close>

fun enq_all :: "('s \<Rightarrow> 'l \<Rightarrow> addr \<Rightarrow> 's option) \<Rightarrow> 's \<Rightarrow> 'l \<Rightarrow> addr list \<Rightarrow> 's option" where
  "enq_all enq s l [] = Some s"
| "enq_all enq s l (x # xs) = do { s \<leftarrow> enq s l x; enq_all enq s l xs }"

fun deq_many :: "('s \<Rightarrow> 'l \<Rightarrow> (addr \<times> 's) option) \<Rightarrow> 's \<Rightarrow> 'l \<Rightarrow> nat \<Rightarrow> (addr list \<times> 's) option" where
  "deq_many deq s l 0 = Some ([], s)"
| "deq_many deq s l (Suc n) = do {
     (x, s) \<leftarrow> deq s l;
     (xs, s) \<leftarrow> deq_many deq s l n;
     Some (x # xs, s)
   }"

context fifo_store
begin

lemma deq_cases:
  assumes "rep s Q"
  obtains "Q l = []" "deq s l = Some (NULL, s)"
  | s' where "Q l \<noteq> []" "last (Q l) \<noteq> NULL" "deq s l = Some (last (Q l), s')"
      "rep s' (Q(l := butlast (Q l)))"
  using assms deq_empty deq_rep rep_nonnull [of s Q l] last_in_set [of "Q l"] by metis

lemma deq_total: "rep s Q \<Longrightarrow> \<exists>x s' Q'. deq s l = Some (x, s') \<and> rep s' Q'"
  by (cases "Q l = []") (use deq_empty [of s Q l] deq_rep [of s Q l] in blast)+

lemma enq_all_rep:
  assumes "rep s Q" and "distinct xs" and "NULL \<notin> set xs" and "\<And>x k. x \<in> set xs \<Longrightarrow> x \<notin> set (Q k)"
  shows "\<exists>s'. enq_all enq s l xs = Some s' \<and> rep s' (Q(l := rev xs @ Q l))"
  using assms
proof (induction xs arbitrary: s Q)
  case (Cons x xs)
  from Cons.prems obtain s1 where 1: "enq s l x = Some s1" "rep s1 (Q(l := x # Q l))"
    using enq_rep [of s Q x l] by auto
  have "y \<notin> set ((Q(l := x # Q l)) k)" if "y \<in> set xs" for y k
    using that Cons.prems by auto
  then have "\<exists>s'. enq_all enq s1 l xs = Some s' \<and>
      rep s' ((Q(l := x # Q l))(l := rev xs @ (Q(l := x # Q l)) l))"
    using Cons.prems by (intro Cons.IH [OF 1(2)]) auto
  moreover have "(Q(l := x # Q l))(l := rev xs @ (Q(l := x # Q l)) l) = Q(l := rev (x # xs) @ Q l)"
    by simp
  ultimately obtain s2 where 2: "enq_all enq s1 l xs = Some s2" "rep s2 (Q(l := rev (x # xs) @ Q l))"
    by metis
  with 1(1) have "enq_all enq s l (x # xs) = Some s2" by simp
  with 2(2) show ?case by blast
qed simp

lemma deq_many_rep:
  assumes "rep s Q" and "n \<le> length (Q l)"
  shows "\<exists>s'. deq_many deq s l n = Some (take n (rev (Q l)), s') \<and>
    rep s' (Q(l := take (length (Q l) - n) (Q l)))"
  using assms
proof (induction n arbitrary: s Q)
  case (Suc n)
  then have ne: "Q l \<noteq> []" by auto
  obtain s1 where 1: "deq s l = Some (last (Q l), s1)" "rep s1 (Q(l := butlast (Q l)))"
    using deq_rep [OF Suc.prems(1) ne] by blast
  obtain ys where ys: "Q l = ys @ [last (Q l)]"
    using append_butlast_last_id [OF ne] by metis
  have n: "n \<le> length ys" using Suc.prems(2) by (subst (asm) ys) simp
  have Q1: "(Q(l := butlast (Q l))) l = ys" by (subst ys) simp
  have upd: "(Q(l := butlast (Q l)))(l := zs) = Q(l := zs)" for zs by simp
  from Suc.IH [OF 1(2)] n obtain s2 where
    2: "deq_many deq s1 l n = Some (take n (rev ys), s2)" "rep s2 (Q(l := take (length ys - n) ys))"
    unfolding Q1 upd by blast
  have "take (Suc n) (rev (Q l)) = last (Q l) # take n (rev ys)"
    by (subst ys) simp
  moreover have "take (length (Q l) - Suc n) (Q l) = take (length ys - n) ys"
    by (subst (1 2) ys) simp
  moreover have "deq_many deq s l (Suc n) = Some (last (Q l) # take n (rev ys), s2)"
    using 1(1) 2(1) by simp
  ultimately show ?case using 2(2) by metis
qed simp

end

interpretation pageq: fifo_store dll_rep enqueue_fifo dequeue_fifo page_list_remove_page
proof unfold_locales
  fix s :: "'l dll" and Q x and l :: 'l
  assume "dll_rep s Q" "x \<noteq> NULL" "\<And>k. x \<notin> set (Q k)"
  then show "\<exists>s'. enqueue_fifo s l x = Some s' \<and> dll_rep s' (Q(l := x # Q l))"
    using dll_repD(7) [of s Q x] by (intro enqueue_fifo_rep) (auto intro: option.exhaust)
qed (auto intro: dll_repD(1) dll_rep_disjoint dequeue_fifo_empty dequeue_fifo_rep
       page_list_remove_page_rep dest: dll_repD(2))

section \<open>Properties\<close>

text \<open>
  C10: Nodes put into a queue leave it in the order in which they entered, after those that were
  there before, and the heap of link fields stays a well-formed set of disjoint lists.
\<close>

lemma fifo_order:
  assumes "dll_rep s Q" "distinct xs" "NULL \<notin> set xs" "\<And>k. set xs \<inter> set (Q k) = {}"
  shows "\<exists>s' s''. enq_all enqueue_fifo s l xs = Some s' \<and>
    deq_many dequeue_fifo s' l (length (Q l) + length xs) = Some (rev (Q l) @ xs, s'') \<and>
    dll_rep s'' (Q(l := []))"
proof -
  have "\<exists>s'. enq_all enqueue_fifo s l xs = Some s' \<and> dll_rep s' (Q(l := rev xs @ Q l))"
    using assms by (intro pageq.enq_all_rep) auto
  then obtain s' where 1: "enq_all enqueue_fifo s l xs = Some s'" "dll_rep s' (Q(l := rev xs @ Q l))" by blast
  from pageq.deq_many_rep [OF 1(2), of "length (Q l) + length xs" l] show ?thesis
    using 1(1) by auto
qed

lemma fifo_order_witness:
  "\<exists>s' s''. enq_all enqueue_fifo dll_empty (1 :: nat) [4096, 8192, 16384] = Some s' \<and>
    deq_many dequeue_fifo s' 1 3 = Some ([4096, 8192, 16384], s'') \<and> dll_rep s'' ((\<lambda>_. [])(1 := []))"
  using fifo_order [OF dll_rep_empty, of "[4096, 8192, 16384]" "1 :: nat"]
  by (simp add: numeral_3_eq_3)

text \<open>
  C11: Unlinking a node from the middle of a list leaves the rest of the list in order, a
  traversal that still stands on the node is stopped by the assertion of next_page, and the node
  can be put into any list again.
\<close>

lemma remove_then_requeue:
  assumes "dll_rep s Q" "x \<in> set (Q l)"
  shows "\<exists>s' s''. page_list_remove_page s l x = Some s' \<and> next_page s' l x = None \<and>
    enqueue_fifo s' k x = Some s'' \<and>
    dll_rep s'' (let R = Q(l := remove1 x (Q l)) in R(k := x # R k))"
proof -
  obtain s' where 1: "page_list_remove_page s l x = Some s'" "dll_rep s' (Q(l := remove1 x (Q l)))"
    using page_list_remove_page_rep [OF assms] by blast
  have x: "x \<noteq> NULL" using dll_repD(2) [OF assms(1), of l] assms(2) by auto
  have gone: "d_list s' x = None"
  proof (rule ccontr)
    assume "d_list s' x \<noteq> None"
    then obtain m where "x \<in> set ((Q(l := remove1 x (Q l))) m)" using dll_repD(7) [OF 1(2)] by auto
    then show False using dll_repD(1) [OF assms(1), of l] dll_rep_disjoint [OF assms(1,2), of m]
      by (auto split: if_splits)
  qed
  then obtain s'' where 2: "enqueue_fifo s' k x = Some s''"
    "dll_rep s'' ((Q(l := remove1 x (Q l)))(k := x # (Q(l := remove1 x (Q l))) k))"
    using enqueue_fifo_rep [OF 1(2) x] by blast
  show ?thesis using 1(1) 2 x gone by (auto simp: next_page_def Let_def)
qed

lemma remove_then_requeue_witness:
  "\<exists>s s' s''. enq_all enqueue_fifo dll_empty (1 :: nat) [4096, 8192, 16384] = Some s \<and>
    page_list_remove_page s 1 8192 = Some s' \<and> enqueue_fifo s' 2 8192 = Some s'' \<and>
    dll_rep s'' ((\<lambda>_. [])(1 := [16384, 4096], 2 := [8192]))"
proof -
  obtain s where s: "enq_all enqueue_fifo dll_empty (1 :: nat) [4096, 8192, 16384] = Some s"
    "dll_rep s ((\<lambda>_. [])(1 := [16384, 8192, 4096]))"
    using pageq.enq_all_rep [OF dll_rep_empty, of "[4096, 8192, 16384]" "1 :: nat"] by auto
  from remove_then_requeue [OF this(2), of 8192 1 2] show ?thesis using s(1) by (auto simp: Let_def fun_upd_twist)
qed

end
