(* ===== verification/Ieee.thy ===== *)
theory Ieee
  imports Prelude "HOL-Library.Log_Nat"
begin

text \<open>
  The floating-point arithmetic of the scoring code. A finite \<open>float\<close> or \<open>double\<close> is the
  rational number it denotes; \<open>f32\<close> and \<open>f64\<close> round an exact result to the nearest value of the
  format, ties to even, with gradual underflow. Infinities and NaN are left out: no value
  of the scoring code comes near the largest finite number, and its divisors are not 0.
  Each C operation is the exact operation followed by the rounding of its type.
  The main lemma is \<open>fl_mono\<close>: rounding keeps the order.
\<close>

section \<open>Rounding to an integer, and the binary exponent\<close>

definition round_half_even :: "rat \<Rightarrow> int" where
  "round_half_even x = (
     let f = \<lfloor>x\<rfloor>; r = x - of_int f
     in if r < 1 / 2 \<or> (r = 1 / 2 \<and> even f) then f else f + 1)"

definition bexp :: "rat \<Rightarrow> int" where
  "bexp x = (
     let (n, d) = quotient_of x; e = bitlen \<bar>n\<bar> - bitlen d
     in if 2 powi e \<le> \<bar>x\<bar> then e else e - 1)"

definition ulp :: "nat \<Rightarrow> int \<Rightarrow> rat \<Rightarrow> rat" where
  "ulp p emin x = 2 powi (max (bexp x - int p + 1) emin)"

definition fl :: "nat \<Rightarrow> int \<Rightarrow> rat \<Rightarrow> rat" where
  "fl p emin x = (if x = 0 then 0 else of_int (round_half_even (x / ulp p emin x)) * ulp p emin x)"

text \<open>IEEE binary32 (24 bits of precision) and binary64 (53 bits).\<close>

definition f32 :: "rat \<Rightarrow> rat" where "f32 = fl 24 (-149)"
definition f64 :: "rat \<Rightarrow> rat" where "f64 = fl 53 (-1074)"

lemma round_half_even_of_int [simp]: "round_half_even (of_int k) = k"
  by (simp add: round_half_even_def)

lemma round_half_even_bounds:
  "of_int (round_half_even x) \<le> x + 1 / 2" "x - 1 / 2 \<le> of_int (round_half_even x)"
  by (auto simp: round_half_even_def Let_def; linarith)+

lemma round_half_even_mono:
  assumes "x \<le> y"
  shows "round_half_even x \<le> round_half_even y"
proof (cases "\<lfloor>x\<rfloor> = \<lfloor>y\<rfloor>")
  case True
  then show ?thesis using assms by (auto simp: round_half_even_def Let_def)
next
  case False
  then have "\<lfloor>x\<rfloor> + 1 \<le> \<lfloor>y\<rfloor>" using assms floor_mono [of x y] by linarith
  moreover have "round_half_even x \<le> \<lfloor>x\<rfloor> + 1" "\<lfloor>y\<rfloor> \<le> round_half_even y"
    by (auto simp: round_half_even_def Let_def)
  ultimately show ?thesis by linarith
qed

lemma round_half_even_uminus: "round_half_even (- x) = - round_half_even x"
proof (cases "x = of_int \<lfloor>x\<rfloor>")
  case True
  then show ?thesis by (metis of_int_minus round_half_even_of_int)
next
  case False
  then have "of_int \<lfloor>x\<rfloor> < x" using of_int_floor_le [of x] by linarith
  then have "\<lfloor>- x\<rfloor> = - \<lfloor>x\<rfloor> - 1"
    by (intro floor_unique) (auto intro: less_imp_le, linarith+)
  then show ?thesis by (auto simp: round_half_even_def Let_def)
qed

lemma powi2_less: "i < j \<Longrightarrow> (2 :: rat) powi i < 2 powi j"
  by (rule power_int_strict_increasing) simp_all

lemma powi2_le: "i \<le> j \<Longrightarrow> (2 :: rat) powi i \<le> 2 powi j"
  by (rule power_int_increasing) simp_all

lemma powi2_less_iff: "(2 :: rat) powi i < 2 powi j \<longleftrightarrow> i < j"
  using powi2_less [of i j] powi2_le [of j i] by (cases "i < j") auto

lemma powi2_int: "0 \<le> k \<Longrightarrow> (2 :: rat) powi k = of_int (2 ^ nat k)"
  by (simp add: power_int_def)

lemma powi2_split: "k \<le> n \<Longrightarrow> (2 :: rat) powi n = of_int (2 ^ nat (n - k)) * 2 powi k"
proof -
  assume k: "k \<le> n"
  have "(2 :: rat) powi n = 2 powi (n - k) * 2 powi k" by (simp flip: power_int_add)
  then show ?thesis using k by (simp add: power_int_def [of _ "n - k"])
qed

lemma bexp_bounds:
  assumes "x \<noteq> 0"
  shows "2 powi bexp x \<le> \<bar>x\<bar>" "\<bar>x\<bar> < 2 powi (bexp x + 1)"
proof -
  obtain n d where q: "quotient_of x = (n, d)" by (cases "quotient_of x")
  have d: "0 < d" using quotient_of_denom_pos [OF q] .
  have x: "x = of_int n / of_int d" using quotient_of_div [OF q] .
  have n: "0 < \<bar>n\<bar>" using assms x by auto
  let ?e = "bitlen \<bar>n\<bar> - bitlen d"
  have bounds: "2 powi (bitlen k - 1) \<le> (of_int k :: rat)" "(of_int k :: rat) < 2 powi bitlen k"
    if "0 < k" for k
  proof -
    have "0 < bitlen k" using that bitlen_eq_zero_iff [of k] bitlen_nonneg [of k] by linarith
    then show "2 powi (bitlen k - 1) \<le> (of_int k :: rat)" "(of_int k :: rat) < 2 powi bitlen k"
      using bitlen_bounds [OF that] by (simp_all only: powi2_int of_int_le_iff of_int_less_iff)
  qed
  note n1 = bounds [OF n] and d1 = bounds [OF d]
  have ax: "\<bar>x\<bar> = of_int \<bar>n\<bar> / of_int d" using d by (simp add: x)
  have "2 powi (?e - 1) * of_int d \<le> (2 powi (?e - 1) * 2 powi bitlen d :: rat)"
    using d1(2) by (intro mult_left_mono) auto
  also have "\<dots> = 2 powi (bitlen \<bar>n\<bar> - 1)" by (simp flip: power_int_add)
  also have "\<dots> \<le> of_int \<bar>n\<bar>" by (rule n1(1))
  finally have low: "2 powi (?e - 1) \<le> \<bar>x\<bar>" using d by (simp add: ax field_simps)
  have "(of_int \<bar>n\<bar> :: rat) < 2 powi bitlen \<bar>n\<bar>" by (rule n1(2))
  also have "\<dots> = 2 powi (?e + 1) * 2 powi (bitlen d - 1)" by (simp flip: power_int_add)
  also have "\<dots> \<le> 2 powi (?e + 1) * of_int d" using d1(1) by (intro mult_left_mono) auto
  finally have high: "\<bar>x\<bar> < 2 powi (?e + 1)" using d by (simp add: ax field_simps)
  show "2 powi bexp x \<le> \<bar>x\<bar>" "\<bar>x\<bar> < 2 powi (bexp x + 1)"
    using low high by (auto simp: bexp_def q Let_def)
qed

lemma bexp_mono:
  assumes "0 < x" and "x \<le> y"
  shows "bexp x \<le> bexp y"
proof -
  have "2 powi bexp x \<le> x" "y < 2 powi (bexp y + 1)"
    using bexp_bounds [of x] bexp_bounds [of y] assms by auto
  then have "(2 :: rat) powi bexp x < 2 powi (bexp y + 1)" using assms by linarith
  then show ?thesis by (simp only: powi2_less_iff)
qed

lemma bexp_less: "0 < x \<Longrightarrow> x < 2 powi k \<Longrightarrow> bexp x < k"
  using bexp_bounds(1) [of x] powi2_less_iff [of "bexp x" k] by auto

lemma bexp_uminus [simp]: "bexp (- x) = bexp x"
  by (simp add: bexp_def rat_uminus_code split: prod.splits)

section \<open>Rounding to a format\<close>

lemma ulp_pos: "0 < ulp p emin x"
  by (simp add: ulp_def)

lemma fl_0 [simp]: "fl p emin 0 = 0"
  by (simp add: fl_def)

lemma fl_uminus: "fl p emin (- x) = - fl p emin x"
  by (simp add: fl_def ulp_def round_half_even_uminus)

abbreviation ulp_exp :: "nat \<Rightarrow> int \<Rightarrow> rat \<Rightarrow> int" where
  "ulp_exp p emin x \<equiv> max (bexp x - int p + 1) emin"

lemma fl_multiple:
  assumes "x = of_int k * ulp p emin x"
  shows "fl p emin x = x"
proof -
  have "x / ulp p emin x = of_int k" using assms ulp_pos [of p emin x] by (simp add: field_simps)
  then show ?thesis using assms by (simp add: fl_def)
qed

text \<open>Every integer multiple of a spacing of the format that is not too large is kept.\<close>

lemma fl_grid:
  assumes e: "emin \<le> e" and m: "\<bar>m\<bar> \<le> 2 ^ p" and p: "0 < p"
  shows "fl p emin (of_int m * 2 powi e) = of_int m * 2 powi e"
proof (cases "m = 0")
  case False
  let ?x = "of_int m * 2 powi e :: rat" and ?k = "ulp_exp p emin (of_int m * 2 powi e)"
  have x: "?x \<noteq> 0" using False by simp
  have ax: "\<bar>?x\<bar> = of_int \<bar>m\<bar> * 2 powi e" by (simp add: abs_mult)
  have "of_int \<bar>m\<bar> \<le> (of_int (2 ^ p) :: rat)" using m by (simp only: of_int_le_iff)
  then have m': "of_int \<bar>m\<bar> \<le> (2 :: rat) powi int p" by simp
  have "2 powi bexp ?x \<le> of_int \<bar>m\<bar> * (2 :: rat) powi e" using bexp_bounds(1) [OF x] ax by simp
  also have "\<dots> \<le> 2 powi int p * 2 powi e" using m' by (intro mult_right_mono) auto
  also have "\<dots> = 2 powi (int p + e)" by (rule power_int_add [symmetric]) simp
  also have "\<dots> < 2 powi (int p + e + 1)" by (rule powi2_less) simp
  finally have b: "bexp ?x \<le> int p + e" by (simp only: powi2_less_iff)
  consider "?k \<le> e" | "?k = e + 1" "bexp ?x = int p + e" using b e by linarith
  then show ?thesis
  proof cases
    case 1
    then have "?x = of_int (m * 2 ^ nat (e - ?k)) * 2 powi ?k"
      using powi2_split [of ?k e] by simp
    then show ?thesis by (intro fl_multiple [of _ "m * 2 ^ nat (e - ?k)"]) (simp only: ulp_def)
  next
    case 2
    have "(2 :: rat) powi int p * 2 powi e \<le> of_int \<bar>m\<bar> * 2 powi e"
      using bexp_bounds(1) [OF x] ax 2(2) by (simp flip: power_int_add del: power_int_of_nat)
    then have "(2 :: rat) powi int p \<le> of_int \<bar>m\<bar>" by simp
    with m' have "of_int \<bar>m\<bar> = (of_int (2 ^ p) :: rat)" by simp
    then have "\<bar>m\<bar> = 2 ^ p" by (simp only: of_int_eq_iff)
    moreover obtain r where "p = Suc r" using p by (cases p) auto
    ultimately have "m = sgn m * 2 ^ r * 2" using sgn_mult_abs [of m] by (simp add: mult.assoc)
    then have "(of_int m :: rat) = of_int (sgn m * 2 ^ r * 2)" by (rule arg_cong)
    then have "?x = of_int (sgn m * 2 ^ r) * 2 * 2 powi e" by (simp only: of_int_mult of_int_numeral)
    then have "?x = of_int (sgn m * 2 ^ r) * (2 * 2 powi e)" by (simp only: mult.assoc)
    also have "2 * (2 :: rat) powi e = 2 powi ?k" using 2(1) by (simp add: power_int_add)
    finally show ?thesis by (intro fl_multiple [of _ "sgn m * 2 ^ r"]) (simp only: ulp_def)
  qed
qed simp

lemma fl_of_int: "\<bar>k\<bar> \<le> 2 ^ p \<Longrightarrow> 0 < p \<Longrightarrow> emin \<le> 0 \<Longrightarrow> fl p emin (of_int k) = of_int k"
  using fl_grid [of emin 0 k p] by simp

lemma fl_pos_mono:
  assumes "0 < x" and "x \<le> y" and p: "0 < p"
  shows "fl p emin x \<le> fl p emin y"
proof -
  let ?ex = "ulp_exp p emin x" and ?ey = "ulp_exp p emin y"
  have nz: "x \<noteq> 0" "y \<noteq> 0" using assms by auto
  have fl: "fl p emin z = of_int (round_half_even (z / 2 powi ulp_exp p emin z)) * 2 powi ulp_exp p emin z"
    if "z \<noteq> 0" for z using that by (simp add: fl_def ulp_def)
  have "bexp x \<le> bexp y" using assms(1,2) by (rule bexp_mono)
  then consider "?ex = ?ey" | "?ex < ?ey" by linarith
  then show ?thesis
  proof cases
    case 1
    have "x / 2 powi ?ey \<le> y / 2 powi ?ey" using assms(2) by (intro divide_right_mono) auto
    then have "round_half_even (x / 2 powi ?ex) \<le> round_half_even (y / 2 powi ?ey)"
      unfolding 1 by (rule round_half_even_mono)
    then show ?thesis unfolding fl [OF nz(1)] fl [OF nz(2)] 1 by (intro mult_right_mono) auto
  next
    case 2
    then have ey: "?ey = bexp y - int p + 1" "bexp x < bexp y" by linarith+
    have B: "x \<le> 2 powi bexp y" "2 powi bexp y \<le> y"
      using bexp_bounds [OF nz(1)] bexp_bounds [OF nz(2)] powi2_le [of "bexp x + 1" "bexp y"] ey(2)
        assms(1,2) by auto
    note split = powi2_split [of _ "bexp y"]
    have k: "?ex \<le> bexp y" "?ey \<le> bexp y" using 2 ey(1) p by linarith+
    have "x / 2 powi ?ex \<le> of_int (2 ^ nat (bexp y - ?ex))"
      using B(1) by (simp add: field_simps split [OF k(1)] del: of_int_power)
    then have "round_half_even (x / 2 powi ?ex) \<le> 2 ^ nat (bexp y - ?ex)"
      using round_half_even_mono round_half_even_of_int by metis
    then have "fl p emin x \<le> of_int (2 ^ nat (bexp y - ?ex)) * 2 powi ?ex"
      unfolding fl [OF nz(1)] by (intro mult_right_mono) (simp_all only: of_int_le_iff, simp)
    also have "\<dots> = 2 powi bexp y" using split [OF k(1)] by simp
    finally have "fl p emin x \<le> 2 powi bexp y" .
    moreover have "of_int (2 ^ nat (bexp y - ?ey)) \<le> y / 2 powi ?ey"
      using B(2) by (simp add: field_simps split [OF k(2)] del: of_int_power)
    then have "2 ^ nat (bexp y - ?ey) \<le> round_half_even (y / 2 powi ?ey)"
      using round_half_even_mono round_half_even_of_int by metis
    then have "of_int (2 ^ nat (bexp y - ?ey)) * 2 powi ?ey \<le> fl p emin y"
      unfolding fl [OF nz(2)] by (intro mult_right_mono) (simp_all only: of_int_le_iff, simp)
    then have "2 powi bexp y \<le> fl p emin y" using split [OF k(2)] by simp
    ultimately show ?thesis by linarith
  qed
qed

lemma fl_nonneg: "0 \<le> x \<Longrightarrow> 0 \<le> fl p emin x"
proof (cases "x = 0")
  case False
  assume "0 \<le> x"
  then have "round_half_even 0 \<le> round_half_even (x / ulp p emin x)"
    using ulp_pos [of p emin x] by (intro round_half_even_mono) simp
  then have "0 \<le> round_half_even (x / ulp p emin x)" by (simp add: round_half_even_def)
  then show ?thesis using ulp_pos [of p emin x] by (simp add: fl_def)
qed simp

theorem fl_mono:
  assumes "x \<le> y" and "0 < p"
  shows "fl p emin x \<le> fl p emin y"
proof -
  consider "0 < x" | "x \<le> 0" "0 \<le> y" | "y < 0" by linarith
  then show ?thesis
  proof cases
    case 1
    then show ?thesis using assms by (intro fl_pos_mono)
  next
    case 2
    have "0 \<le> fl p emin (- x)" "0 \<le> fl p emin y" using 2 by (auto intro: fl_nonneg)
    then show ?thesis by (simp add: fl_uminus)
  next
    case 3
    then have "fl p emin (- y) \<le> fl p emin (- x)" using assms by (intro fl_pos_mono) auto
    then show ?thesis by (simp add: fl_uminus)
  qed
qed

text \<open>A rounded value is a value of the format: rounding again changes nothing.\<close>

lemma fl_idem:
  assumes p: "0 < p"
  shows "fl p emin (fl p emin x) = fl p emin x"
proof (cases "x = 0")
  case False
  let ?e = "ulp_exp p emin x" and ?m = "round_half_even (x / ulp p emin x)"
  have fl: "fl p emin x = of_int ?m * 2 powi ?e" using False by (simp add: fl_def ulp_def)
  have "\<bar>x\<bar> < 2 powi (bexp x + 1)" using bexp_bounds(2) [OF False] .
  also have "\<dots> \<le> 2 powi (int p + ?e)" by (rule powi2_le) linarith
  also have "\<dots> = 2 powi int p * 2 powi ?e" by (rule power_int_add) simp
  finally have "\<bar>x\<bar> \<le> of_int (2 ^ p) * 2 powi ?e" by simp
  then have "x / 2 powi ?e \<le> of_int (2 ^ p)" "of_int (- (2 ^ p)) \<le> x / 2 powi ?e"
    by (auto simp: field_simps abs_le_iff)
  then have "?m \<le> 2 ^ p" "- (2 ^ p) \<le> ?m"
    using round_half_even_mono round_half_even_of_int unfolding ulp_def by metis+
  then show ?thesis unfolding fl using p by (intro fl_grid) auto
qed simp

lemma f32_mono: "x \<le> y \<Longrightarrow> f32 x \<le> f32 y"
  unfolding f32_def by (rule fl_mono) simp_all

lemma f64_mono: "x \<le> y \<Longrightarrow> f64 x \<le> f64 y"
  unfolding f64_def by (rule fl_mono) simp_all

lemma f_0 [simp]: "f32 0 = 0" "f64 0 = 0"
  by (simp_all add: f32_def f64_def)

lemma f_nonneg: "0 \<le> x \<Longrightarrow> 0 \<le> f32 x" "0 \<le> x \<Longrightarrow> 0 \<le> f64 x"
  unfolding f32_def f64_def by (rule fl_nonneg; assumption)+

lemma f_idem [simp]: "f32 (f32 x) = f32 x" "f64 (f64 x) = f64 x"
  unfolding f32_def f64_def by (rule fl_idem; simp)+

lemma f_uminus: "f32 (- x) = - f32 x" "f64 (- x) = - f64 x"
  by (simp_all add: f32_def f64_def fl_uminus)

lemma f32_of_int: "\<bar>k\<bar> \<le> 2 ^ 24 \<Longrightarrow> f32 (of_int k) = of_int k"
  unfolding f32_def by (rule fl_of_int) simp_all

lemma f64_of_int: "\<bar>k\<bar> \<le> 2 ^ 53 \<Longrightarrow> f64 (of_int k) = of_int k"
  unfolding f64_def by (rule fl_of_int) simp_all

text \<open>The error of a rounding to double is at most half the spacing at the size of the result.\<close>

lemma f64_error:
  assumes x: "\<bar>x\<bar> < 2 powi k" and k: "- 1021 \<le> k"
  shows "\<bar>f64 x - x\<bar> \<le> 2 powi (k - 54)"
proof (cases "x = 0")
  case False
  let ?u = "ulp 53 (- 1074) x" and ?r = "of_int (round_half_even (x / ulp 53 (- 1074) x)) :: rat"
  have "(2 :: rat) powi bexp x < 2 powi k" using bexp_bounds(1) [OF False] x by linarith
  then have "bexp x < k" by (simp only: powi2_less_iff)
  then have "?u \<le> 2 powi (k - 53)" unfolding ulp_def using k by (intro powi2_le) simp
  also have "\<dots> = 2 * 2 powi (k - 54)" using power_int_add [of "2 :: rat" 1 "k - 54"] by simp
  finally have u: "?u \<le> 2 * 2 powi (k - 54)" .
  have "\<bar>?r - x / ?u\<bar> \<le> 1 / 2" using round_half_even_bounds [of "x / ?u"] by linarith
  then have "\<bar>?r - x / ?u\<bar> * ?u \<le> 1 / 2 * ?u" by (rule mult_right_mono) (simp add: ulp_pos less_imp_le)
  moreover have "f64 x - x = (?r - x / ?u) * ?u"
    using False ulp_pos [of 53 "- 1074" x] by (simp add: f64_def fl_def left_diff_distrib)
  then have "\<bar>f64 x - x\<bar> = \<bar>?r - x / ?u\<bar> * ?u" using ulp_pos [of 53 "- 1074" x] by (simp add: abs_mult)
  ultimately show ?thesis using u by linarith
qed simp

end
