(* ===== verification/Khash.thy ===== *)
theory Khash
  imports Ieee
begin

text \<open>
  The open-addressing hash table of \<open>src/khash.h\<close> as \<open>KHASH_MAP_INIT_INT64(kPagesMap,
  struct arms_page*)\<close> instantiates it: 64-bit keys, pointers as values, quadratic probing,
  two flag bits per bucket packed in 32-bit words, and the in-place rehash with kick-out.
  Every loop whose end depends on the contents of the table is a partial function; the
  theory Khash_Map proves that on well-formed tables they all end and implement a finite map.
  The memory that \<open>malloc\<close> and \<open>realloc\<close> do not initialise is 0 here. The argument
  \<open>oom\<close> of an operation that allocates names the allocation of the call that fails, if any.
\<close>

record khash =
  n_buckets :: u32
  kh_size :: u32
  n_occupied :: u32
  upper_bound :: u32
  kh_flags :: "u32 list"
  kh_keys :: "u64 list"
  kh_vals :: "addr list"

section \<open>The flag bits\<close>

definition ac_field :: "u32 list \<Rightarrow> u32 \<Rightarrow> u32" where
  "ac_field flag i = drop_bit (unat (push_bit 1 (i AND 0xf))) (flag ! unat (drop_bit 4 i))"

definition ac_isempty :: "u32 list \<Rightarrow> u32 \<Rightarrow> bool" where
  "ac_isempty flag i \<longleftrightarrow> ac_field flag i AND 2 \<noteq> 0"

definition ac_isdel :: "u32 list \<Rightarrow> u32 \<Rightarrow> bool" where
  "ac_isdel flag i \<longleftrightarrow> ac_field flag i AND 1 \<noteq> 0"

definition ac_iseither :: "u32 list \<Rightarrow> u32 \<Rightarrow> bool" where
  "ac_iseither flag i \<longleftrightarrow> ac_field flag i AND 3 \<noteq> 0"

text \<open>The masks are \<open>unsigned long\<close>: the words are widened to 64 bits and cut back.\<close>

definition ac_clear :: "u64 \<Rightarrow> u32 list \<Rightarrow> u32 \<Rightarrow> u32 list" where
  "ac_clear m flag i =
     flag[unat (drop_bit 4 i) :=
       ucast (ucast (flag ! unat (drop_bit 4 i)) AND NOT (push_bit (unat (push_bit 1 (i AND 0xf))) m))]"

definition ac_set_isdel_false :: "u32 list \<Rightarrow> u32 \<Rightarrow> u32 list" where
  "ac_set_isdel_false = ac_clear 1"

definition ac_set_isempty_false :: "u32 list \<Rightarrow> u32 \<Rightarrow> u32 list" where
  "ac_set_isempty_false = ac_clear 2"

definition ac_set_isboth_false :: "u32 list \<Rightarrow> u32 \<Rightarrow> u32 list" where
  "ac_set_isboth_false = ac_clear 3"

definition ac_set_isdel_true :: "u32 list \<Rightarrow> u32 \<Rightarrow> u32 list" where
  "ac_set_isdel_true flag i =
     flag[unat (drop_bit 4 i) :=
       ucast (ucast (flag ! unat (drop_bit 4 i)) OR push_bit (unat (push_bit 1 (i AND 0xf))) (1 :: u64))]"

definition ac_fsize :: "u32 \<Rightarrow> u32" where
  "ac_fsize m = (if m < 16 then 1 else drop_bit 4 m)"

definition kroundup32 :: "u32 \<Rightarrow> u32" where
  "kroundup32 x = (
     let x = x - 1;
         x = x OR drop_bit 1 x;
         x = x OR drop_bit 2 x;
         x = x OR drop_bit 4 x;
         x = x OR drop_bit 8 x;
         x = x OR drop_bit 16 x
     in x + 1)"

definition ac_HASH_UPPER :: rat where
  "ac_HASH_UPPER = f64 (77 / 100)"

text \<open>\<open>(khint_t)(n * __ac_HASH_UPPER + 0.5)\<close>: two double operations, then truncation.\<close>

definition ac_upper :: "u32 \<Rightarrow> u32" where
  "ac_upper n = of_int \<lfloor>f64 (f64 (of_int (uint n) * ac_HASH_UPPER) + 1 / 2)\<rfloor>"

definition kh_int64_hash_func :: "u64 \<Rightarrow> u32" where
  "kh_int64_hash_func key = ucast ((drop_bit 33 key XOR key) XOR push_bit 11 key)"

section \<open>The operations\<close>

definition kh_init :: khash where
  "kh_init = \<lparr>n_buckets = 0, kh_size = 0, n_occupied = 0, upper_bound = 0,
              kh_flags = [], kh_keys = [], kh_vals = []\<rparr>"

definition kh_clear :: "khash \<Rightarrow> khash" where
  "kh_clear h =
     (if kh_flags h \<noteq> []
      then h\<lparr>kh_flags := replicate (unat (ac_fsize (n_buckets h))) 0xaaaaaaaa, kh_size := 0, n_occupied := 0\<rparr>
      else h)"

partial_function (option) kh_get_loop :: "khash \<Rightarrow> u64 \<Rightarrow> u32 \<Rightarrow> u32 \<Rightarrow> u32 \<Rightarrow> u32 \<Rightarrow> u32 option" where
  "kh_get_loop h key msk lst i step =
     (if \<not> ac_isempty (kh_flags h) i \<and> (ac_isdel (kh_flags h) i \<or> kh_keys h ! unat i \<noteq> key) then
        let step = step + 1;
            i = (i + step) AND msk
        in if i = lst then Some (n_buckets h) else kh_get_loop h key msk lst i step
      else Some (if ac_iseither (kh_flags h) i then n_buckets h else i))"

declare kh_get_loop.simps [code]

definition kh_get :: "khash \<Rightarrow> u64 \<Rightarrow> u32 option" where
  "kh_get h key =
     (if n_buckets h \<noteq> 0 then
        let mask = n_buckets h - 1;
            i = kh_int64_hash_func key AND mask
        in kh_get_loop h key mask i i 0
      else Some 0)"

text \<open>The probe of the rehash: the first bucket that is empty in the new flags.\<close>

partial_function (option) kh_empty_loop :: "u32 list \<Rightarrow> u32 \<Rightarrow> u32 \<Rightarrow> u32 \<Rightarrow> u32 option" where
  "kh_empty_loop new_flags new_mask i step =
     (if \<not> ac_isempty new_flags i then
        let step = step + 1 in kh_empty_loop new_flags new_mask ((i + step) AND new_mask) step
      else Some i)"

declare kh_empty_loop.simps [code]

text \<open>The kick-out loop: place the entry in hand; an entry found in its way is placed next.\<close>

partial_function (option) kh_kick_loop ::
  "u32 \<Rightarrow> khash \<Rightarrow> u32 list \<Rightarrow> u64 \<Rightarrow> addr \<Rightarrow> (khash \<times> u32 list) option" where
  "kh_kick_loop new_mask h new_flags key v = do {
     i \<leftarrow> kh_empty_loop new_flags new_mask (kh_int64_hash_func key AND new_mask) 0;
     let new_flags = ac_set_isempty_false new_flags i;
     (if i < n_buckets h \<and> \<not> ac_iseither (kh_flags h) i then
        kh_kick_loop new_mask
          (h\<lparr>kh_keys := (kh_keys h)[unat i := key], kh_vals := (kh_vals h)[unat i := v],
             kh_flags := ac_set_isdel_true (kh_flags h) i\<rparr>)
          new_flags (kh_keys h ! unat i) (kh_vals h ! unat i)
      else
        Some (h\<lparr>kh_keys := (kh_keys h)[unat i := key], kh_vals := (kh_vals h)[unat i := v]\<rparr>, new_flags))
   }"

declare kh_kick_loop.simps [code]

text \<open>The outer loop, over the buckets \<open>j\<close> of the old table that are left.\<close>

fun kh_rehash_loop :: "u32 \<Rightarrow> nat \<Rightarrow> u32 \<Rightarrow> khash \<Rightarrow> u32 list \<Rightarrow> (khash \<times> u32 list) option" where
  "kh_rehash_loop new_mask 0 j h new_flags = Some (h, new_flags)"
| "kh_rehash_loop new_mask (Suc left) j h new_flags =
     (if \<not> ac_iseither (kh_flags h) j then do {
        (h, new_flags) \<leftarrow> kh_kick_loop new_mask
          (h\<lparr>kh_flags := ac_set_isdel_true (kh_flags h) j\<rparr>) new_flags
          (kh_keys h ! unat j) (kh_vals h ! unat j);
        kh_rehash_loop new_mask left (j + 1) h new_flags
      } else kh_rehash_loop new_mask left (j + 1) h new_flags)"

definition kh_realloc :: "'a::zero list \<Rightarrow> u32 \<Rightarrow> 'a list" where
  "kh_realloc xs n = take (unat n) xs @ replicate (unat n - List.length xs) 0"

text \<open>The result is the return code (0 or -1) and the table.\<close>

definition kh_resize :: "nat option \<Rightarrow> khash \<Rightarrow> u32 \<Rightarrow> (int \<times> khash) option" where
  "kh_resize oom h new_n_buckets = (
     let new_n_buckets = kroundup32 new_n_buckets;
         new_n_buckets = (if new_n_buckets < 4 then 4 else new_n_buckets) in
     if kh_size h \<ge> ac_upper new_n_buckets then Some (0, h)
     else if oom = Some 0 then Some (-1, h)
     else let new_flags = replicate (unat (ac_fsize new_n_buckets)) 0xaaaaaaaa in
     if n_buckets h < new_n_buckets \<and> oom = Some 1 then Some (-1, h)
     else let h = (if n_buckets h < new_n_buckets
                   then h\<lparr>kh_keys := kh_realloc (kh_keys h) new_n_buckets\<rparr> else h) in
     if n_buckets h < new_n_buckets \<and> oom = Some 2 then Some (-1, h)
     else let h = (if n_buckets h < new_n_buckets
                   then h\<lparr>kh_vals := kh_realloc (kh_vals h) new_n_buckets\<rparr> else h) in
     do {
       (h, new_flags) \<leftarrow> kh_rehash_loop (new_n_buckets - 1) (unat (n_buckets h)) 0 h new_flags;
       let h = (if n_buckets h > new_n_buckets
                then h\<lparr>kh_keys := kh_realloc (kh_keys h) new_n_buckets,
                       kh_vals := kh_realloc (kh_vals h) new_n_buckets\<rparr>
                else h);
       Some (0, h\<lparr>kh_flags := new_flags, n_buckets := new_n_buckets, n_occupied := kh_size h,
                  upper_bound := ac_upper new_n_buckets\<rparr>)
     })"

text \<open>The probe of \<open>kh_put\<close> gives the values of \<open>x\<close>, \<open>site\<close> and \<open>i\<close> when it stops.\<close>

partial_function (option) kh_put_loop ::
  "khash \<Rightarrow> u64 \<Rightarrow> u32 \<Rightarrow> u32 \<Rightarrow> u32 \<Rightarrow> u32 \<Rightarrow> u32 \<Rightarrow> (u32 \<times> u32 \<times> u32) option" where
  "kh_put_loop h key msk lst i step site =
     (if \<not> ac_isempty (kh_flags h) i \<and> (ac_isdel (kh_flags h) i \<or> kh_keys h ! unat i \<noteq> key) then
        let site = (if ac_isdel (kh_flags h) i then i else site);
            step = step + 1;
            i = (i + step) AND msk
        in if i = lst then Some (site, site, i) else kh_put_loop h key msk lst i step site
      else Some (n_buckets h, site, i))"

declare kh_put_loop.simps [code]

definition kh_put_site :: "khash \<Rightarrow> u64 \<Rightarrow> u32 option" where
  "kh_put_site h key = (
     let mask = n_buckets h - 1;
         i = kh_int64_hash_func key AND mask in
     if ac_isempty (kh_flags h) i then Some i
     else do {
       (x, site, i) \<leftarrow> kh_put_loop h key mask i i 0 (n_buckets h);
       Some (if x = n_buckets h then
               (if ac_isempty (kh_flags h) i \<and> site \<noteq> n_buckets h then site else i)
             else x)
     })"

definition kh_put_at :: "khash \<Rightarrow> u64 \<Rightarrow> u32 \<Rightarrow> khash \<times> u32 \<times> int" where
  "kh_put_at h key x =
     (if ac_isempty (kh_flags h) x then
        (h\<lparr>kh_keys := (kh_keys h)[unat x := key], kh_flags := ac_set_isboth_false (kh_flags h) x,
           kh_size := kh_size h + 1, n_occupied := n_occupied h + 1\<rparr>, x, 1)
      else if ac_isdel (kh_flags h) x then
        (h\<lparr>kh_keys := (kh_keys h)[unat x := key], kh_flags := ac_set_isboth_false (kh_flags h) x,
           kh_size := kh_size h + 1\<rparr>, x, 2)
      else (h, x, 0))"

text \<open>The result is the table, the bucket and the value stored in \<open>*ret\<close>.\<close>

definition kh_put :: "nat option \<Rightarrow> khash \<Rightarrow> u64 \<Rightarrow> (khash \<times> u32 \<times> int) option" where
  "kh_put oom h key = do {
     (r, h) \<leftarrow> (if n_occupied h \<ge> upper_bound h then
                  if n_buckets h > push_bit 1 (kh_size h)
                  then kh_resize oom h (n_buckets h - 1)
                  else kh_resize oom h (n_buckets h + 1)
                else Some (0, h));
     (if r < 0 then Some (h, n_buckets h, -1)
      else do {
        x \<leftarrow> kh_put_site h key;
        Some (kh_put_at h key x)
      })
   }"

definition kh_del :: "khash \<Rightarrow> u32 \<Rightarrow> khash" where
  "kh_del h x =
     (if x \<noteq> n_buckets h \<and> \<not> ac_iseither (kh_flags h) x
      then h\<lparr>kh_flags := ac_set_isdel_true (kh_flags h) x, kh_size := kh_size h - 1\<rparr>
      else h)"

definition kh_exist :: "khash \<Rightarrow> u32 \<Rightarrow> bool" where
  "kh_exist h x \<longleftrightarrow> \<not> ac_iseither (kh_flags h) x"

definition kh_value :: "khash \<Rightarrow> u32 \<Rightarrow> addr" where
  "kh_value h x = kh_vals h ! unat x"

definition kh_set_value :: "khash \<Rightarrow> u32 \<Rightarrow> addr \<Rightarrow> khash" where
  "kh_set_value h x v = h\<lparr>kh_vals := (kh_vals h)[unat x := v]\<rparr>"

definition kh_end :: "khash \<Rightarrow> u32" where
  "kh_end h = n_buckets h"

end
