(* ===== verification/Khash_Map.thy ===== *)
theory Khash_Map
  imports Khash "HOL-Library.Multiset"
begin

text \<open>
  Correctness of the table of theory Khash: the flag words are an array of three-valued
  bucket states, the probe sequence visits every bucket, a well-formed table is a finite
  map, and \<open>kh_get\<close>, \<open>kh_put\<close>, \<open>kh_del\<close> and the rehash implement the operations of that map. The
  locale \<open>page_table\<close> at the end is the contract the page tables of the policy rely on.
\<close>

section \<open>The flag words\<close>

definition fbit :: "nat \<Rightarrow> u32 list \<Rightarrow> nat \<Rightarrow> bool" where
  "fbit e fs j = bit (fs ! (j div 16)) (2 * (j mod 16) + e)"

definition emp :: "u32 list \<Rightarrow> nat \<Rightarrow> bool" where
  "emp = fbit 1"

definition tomb :: "u32 list \<Rightarrow> nat \<Rightarrow> bool" where
  "tomb = fbit 0"

definition live :: "u32 list \<Rightarrow> nat \<Rightarrow> bool" where
  "live fs j \<longleftrightarrow> \<not> emp fs j \<and> \<not> tomb fs j"

lemma ac_word: "unat (drop_bit 4 (i :: u32)) = unat i div 16"
  by (simp only: unat_drop_bit_eq) (simp add: drop_bit_eq_div)

lemma ac_shift: "unat (push_bit 1 ((i :: u32) AND 0xf)) = 2 * (unat i mod 16)"
proof -
  have "i AND 0xf = take_bit 4 i" by (simp add: take_bit_eq_mask mask_numeral)
  moreover have "unat (take_bit 4 i) = unat i mod 16"
    by (simp only: unsigned_take_bit_eq) (simp add: take_bit_eq_mod)
  ultimately have "unat (i AND 0xf) = unat i mod 16" by simp
  have push: "unat (push_bit 1 w) = 2 * unat w mod 2 ^ 32" for w :: u32
    by (simp only: unsigned_push_bit_eq) (simp add: take_bit_eq_mod push_bit_eq_mult mult.commute)
  show ?thesis unfolding push \<open>unat (i AND 0xf) = unat i mod 16\<close> by (rule mod_less) simp
qed

lemmas ac_index = ac_word ac_shift

lemma ac_field_eq: "ac_field fs i = drop_bit (2 * (unat i mod 16)) (fs ! (unat i div 16))"
  by (simp only: ac_field_def ac_index)

lemma ac_clear_eq:
  "ac_clear m fs i = fs[unat i div 16 :=
     ucast (ucast (fs ! (unat i div 16)) AND NOT (push_bit (2 * (unat i mod 16)) m))]"
  by (simp only: ac_clear_def ac_index)

lemma ac_set_isdel_true_eq:
  "ac_set_isdel_true fs i = fs[unat i div 16 :=
     ucast (ucast (fs ! (unat i div 16)) OR push_bit (2 * (unat i mod 16)) (1 :: u64))]"
  by (simp only: ac_set_isdel_true_def ac_index)

lemma ac_isempty_emp: "ac_isempty fs i \<longleftrightarrow> emp fs (unat i)"
  using and_exp_eq_0_iff_not_bit [of "ac_field fs i" 1]
  by (simp add: ac_isempty_def ac_field_eq emp_def fbit_def bit_drop_bit_eq add.commute)

lemma ac_isdel_del: "ac_isdel fs i \<longleftrightarrow> tomb fs (unat i)"
  using and_exp_eq_0_iff_not_bit [of "ac_field fs i" 0]
  by (simp add: ac_isdel_def ac_field_eq tomb_def fbit_def bit_drop_bit_eq)

lemma ac_iseither_live: "ac_iseither fs i \<longleftrightarrow> \<not> live fs (unat i)"
proof -
  have "(3 :: u32) = 1 OR 2" by simp
  then have "ac_field fs i AND 3 = (ac_field fs i AND 1) OR (ac_field fs i AND 2)"
    by (simp only: bit.conj_disj_distrib)
  then have "ac_iseither fs i \<longleftrightarrow> ac_isdel fs i \<or> ac_isempty fs i"
    by (simp add: ac_iseither_def ac_isdel_def ac_isempty_def or_eq_0_iff)
  then show ?thesis by (auto simp: live_def ac_isempty_emp ac_isdel_del)
qed

lemmas ac_tests = ac_isempty_emp ac_isdel_del ac_iseither_live

lemma field_index_eq: "e < 2 \<Longrightarrow> d < 2 \<Longrightarrow> 2 * a + e = 2 * b + d \<longleftrightarrow> a = b \<and> e = d" for a b e d :: nat
  by presburger

lemma index_split: "(j :: nat) div 16 = i div 16 \<and> j mod 16 = i mod 16 \<longleftrightarrow> j = i"
  by (metis mult_div_mod_eq)

lemma fbit_clear:
  assumes "unat i div 16 < List.length fs" and "e < 2" and "take_bit 2 m = m"
  shows "fbit e (ac_clear m fs i) j \<longleftrightarrow> fbit e fs j \<and> \<not> (j = unat i \<and> bit m e)"
proof (cases "j div 16 = unat i div 16")
  case True
  let ?s = "2 * (unat i mod 16)" and ?b = "2 * (j mod 16) + e"
  have b: "?b < 32" using assms(2) by linarith
  have "bit (push_bit ?s m) ?b \<longleftrightarrow> j mod 16 = unat i mod 16 \<and> bit m e"
  proof -
    have "bit (push_bit ?s m) ?b \<longleftrightarrow> ?s \<le> ?b \<and> bit m (?b - ?s)" using b by (simp add: bit_push_bit_iff)
    also have "\<dots> \<longleftrightarrow> j mod 16 = unat i mod 16 \<and> bit m e"
    proof
      assume a: "?s \<le> ?b \<and> bit m (?b - ?s)"
      then have "bit (take_bit 2 m) (?b - ?s)" by (simp only: assms(3))
      then have "?b - ?s < 2" by (simp add: bit_take_bit_iff)
      then have "j mod 16 = unat i mod 16" using a assms(2) by linarith
      then show "j mod 16 = unat i mod 16 \<and> bit m e" using a by simp
    qed auto
    finally show ?thesis .
  qed
  then show ?thesis
    using True assms(1,2) b index_split [of j "unat i"]
    by (auto simp: ac_clear_eq fbit_def bit_simps)
next
  case False
  then show ?thesis using assms(1) by (auto simp: ac_clear_eq fbit_def)
qed

lemma fbit_set_del:
  assumes "unat i div 16 < List.length fs" and "e < 2"
  shows "fbit e (ac_set_isdel_true fs i) j \<longleftrightarrow> fbit e fs j \<or> (j = unat i \<and> e = 0)"
proof (cases "j div 16 = unat i div 16")
  case True
  have b: "2 * (j mod 16) + e < 32" using assms(2) by linarith
  have "2 * (j mod 16) + e = 2 * (unat i mod 16) \<longleftrightarrow> j = unat i \<and> e = 0"
    using field_index_eq [of e 0 "j mod 16" "unat i mod 16"] assms(2) True index_split [of j "unat i"] by auto
  then show ?thesis
    using True assms(1) b by (auto simp: ac_set_isdel_true_eq fbit_def bit_simps push_bit_of_1)
next
  case False
  then show ?thesis using assms(1) by (auto simp: ac_set_isdel_true_eq fbit_def)
qed

lemma length_ac [simp]:
  "List.length (ac_clear m fs i) = List.length fs"
  "List.length (ac_set_isdel_true fs i) = List.length fs"
  by (simp_all add: ac_clear_def ac_set_isdel_true_def)

definition flags_for :: "nat \<Rightarrow> u32 list \<Rightarrow> bool" where
  "flags_for n fs \<longleftrightarrow> n \<le> 16 * List.length fs"

lemma flags_forD: "flags_for n fs \<Longrightarrow> j < n \<Longrightarrow> j div 16 < List.length fs"
  by (auto simp: flags_for_def)

lemma flags_for_ac [simp]:
  "flags_for n (ac_clear m fs i) = flags_for n fs"
  "flags_for n (ac_set_isdel_true fs i) = flags_for n fs"
  "flags_for n (ac_set_isempty_false fs i) = flags_for n fs"
  "flags_for n (ac_set_isboth_false fs i) = flags_for n fs"
  by (simp_all add: flags_for_def ac_set_isempty_false_def ac_set_isboth_false_def)

text \<open>What the three setters do to the states of the buckets.\<close>

lemma ac_set_both:
  assumes "flags_for n fs" "unat i < n"
  shows "emp (ac_set_isboth_false fs i) j \<longleftrightarrow> emp fs j \<and> j \<noteq> unat i"
    and "tomb (ac_set_isboth_false fs i) j \<longleftrightarrow> tomb fs j \<and> j \<noteq> unat i"
  using fbit_clear [OF flags_forD [OF assms], of _ 3 j]
  by (auto simp: emp_def tomb_def ac_set_isboth_false_def bit_numeral_rec take_bit_eq_mask mask_numeral)

lemma ac_set_nonempty:
  assumes "flags_for n fs" "unat i < n"
  shows "emp (ac_set_isempty_false fs i) j \<longleftrightarrow> emp fs j \<and> j \<noteq> unat i"
    and "tomb (ac_set_isempty_false fs i) j \<longleftrightarrow> tomb fs j"
  using fbit_clear [OF flags_forD [OF assms], of _ 2 j]
  by (auto simp: emp_def tomb_def ac_set_isempty_false_def bit_numeral_rec take_bit_eq_mask mask_numeral)

lemma ac_set_deleted:
  assumes "flags_for n fs" "unat i < n"
  shows "emp (ac_set_isdel_true fs i) j \<longleftrightarrow> emp fs j"
    and "tomb (ac_set_isdel_true fs i) j \<longleftrightarrow> tomb fs j \<or> j = unat i"
  using fbit_set_del [OF flags_forD [OF assms], of _ j] by (auto simp: emp_def tomb_def)

lemma fbit_fresh:
  assumes "j div 16 < k"
  shows "emp (replicate k 0xaaaaaaaa) j" "\<not> tomb (replicate k 0xaaaaaaaa) j"
proof -
  have *: "\<forall>m<16. bit (0xaaaaaaaa :: u32) (2 * m + 1) \<and> \<not> bit (0xaaaaaaaa :: u32) (2 * m)"
    by code_simp
  show "emp (replicate k 0xaaaaaaaa) j" "\<not> tomb (replicate k 0xaaaaaaaa) j"
    using * assms by (simp_all add: emp_def tomb_def fbit_def)
qed

section \<open>The probe sequence\<close>

text \<open>
  The \<open>s\<close>-th probe adds the triangular number of \<open>s\<close>. Modulo a power of two the first \<open>2 ^ p\<close> of them
  are pairwise different, so the sequence meets every bucket before it comes back.
\<close>

fun tri :: "nat \<Rightarrow> nat" where
  "tri 0 = 0"
| "tri (Suc s) = tri s + Suc s"

lemma tri_double: "2 * tri s = s * (s + 1)"
  by (induction s) (auto simp: algebra_simps)

lemma tri_inj:
  assumes "(h + tri s) mod 2 ^ p = (h + tri t) mod 2 ^ p" and "s < 2 ^ p" "t < 2 ^ p"
  shows "s = t"
proof -
  have "int (h + tri s) mod 2 ^ p = int (h + tri t) mod 2 ^ p"
    using assms(1) by (metis of_nat_mod of_nat_numeral of_nat_power)
  then have "2 ^ p dvd int (tri s) - int (tri t)" by (simp add: mod_eq_dvd_iff)
  then have "2 * 2 ^ p dvd 2 * (int (tri s) - int (tri t))" by (simp only: dvd_mult_cancel_left) simp
  moreover have "2 * (int (tri s) - int (tri t)) = (int s - int t) * (int s + int t + 1)"
  proof -
    have "2 * int (tri k) = int k * (int k + 1)" for k
      using tri_double [of k] by (metis of_nat_1 of_nat_add of_nat_mult of_nat_numeral)
    from this [of s] this [of t] show ?thesis by (simp add: algebra_simps)
  qed
  ultimately have d: "2 ^ Suc p dvd (int s - int t) * (int s + int t + 1)" by simp
  have bound: "\<bar>int s - int t\<bar> < 2 ^ p" "0 < int s + int t + 1" "int s + int t + 1 < 2 ^ Suc p"
  proof -
    have "int s < 2 ^ p" "int t < 2 ^ p" using assms(2,3) by (metis of_nat_less_iff of_nat_numeral of_nat_power)+
    then show "\<bar>int s - int t\<bar> < 2 ^ p" "0 < int s + int t + 1" "int s + int t + 1 < 2 ^ Suc p"
      unfolding power_Suc by linarith+
  qed
  show ?thesis
  proof (cases "even (int s - int t)")
    case True
    then have "odd (int s + int t + 1)" by presburger
    then have "coprime (2 ^ Suc p) (int s + int t + 1)" by (simp only: coprime_power_left_iff) simp
    then have "2 ^ Suc p dvd int s - int t" using d by (simp only: coprime_dvd_mult_left_iff)
    moreover have "\<bar>int s - int t\<bar> < 2 ^ Suc p" using bound(1) by simp
    ultimately have "int s - int t = 0" using dvd_imp_le_int [of "int s - int t" "2 ^ Suc p"] by fastforce
    then show ?thesis by simp
  next
    case False
    then have "coprime (2 ^ Suc p) (int s - int t)" by (simp only: coprime_power_left_iff) simp
    then have "2 ^ Suc p dvd int s + int t + 1" using d by (simp only: coprime_dvd_mult_right_iff)
    then have "2 ^ Suc p \<le> int s + int t + 1" using bound(2) by (rule zdvd_imp_le)
    then show ?thesis using bound(3) by linarith
  qed
qed

definition probe :: "nat \<Rightarrow> nat \<Rightarrow> nat \<Rightarrow> nat" where
  "probe n h s = (h + tri s) mod n"

lemma probe_less: "0 < n \<Longrightarrow> probe n h s < n"
  by (simp add: probe_def)

lemma probe_inj: "probe (2 ^ p) h s = probe (2 ^ p) h t \<Longrightarrow> s < 2 ^ p \<Longrightarrow> t < 2 ^ p \<Longrightarrow> s = t"
  unfolding probe_def by (rule tri_inj)

lemma probe_covers:
  assumes "j < 2 ^ p"
  obtains s where "s < 2 ^ p" "probe (2 ^ p) h s = j"
proof -
  have "inj_on (probe (2 ^ p) h) {..<2 ^ p}" by (intro inj_onI) (simp only: lessThan_iff, rule probe_inj)
  then have "card (probe (2 ^ p) h ` {..<2 ^ p}) = 2 ^ p" by (simp add: card_image)
  moreover have "probe (2 ^ p) h ` {..<2 ^ p} \<subseteq> {..<2 ^ p}" by (auto simp: probe_less)
  ultimately have "probe (2 ^ p) h ` {..<2 ^ p} = {..<2 ^ p}" by (intro card_subset_eq) auto
  then have "j \<in> probe (2 ^ p) h ` {..<2 ^ p}" using assms by simp
  then obtain s where "s < 2 ^ p" "probe (2 ^ p) h s = j" by auto
  then show thesis by (rule that)
qed

text \<open>The word computation of the loops is the probe sequence.\<close>

definition tab_size :: "u32 \<Rightarrow> nat \<Rightarrow> bool" where
  "tab_size n p \<longleftrightarrow> 2 \<le> p \<and> p < 32 \<and> n = 2 ^ p"

lemma unat_2p: "p < 32 \<Longrightarrow> unat ((2 :: u32) ^ p) = 2 ^ p"
proof -
  assume p: "p < 32"
  have "unat ((2 :: u32) ^ p) = unat (push_bit p (1 :: u32))" by (simp add: push_bit_eq_mult)
  also have "\<dots> = 2 ^ p mod 2 ^ 32"
    by (simp only: unsigned_push_bit_eq) (simp add: take_bit_eq_mod push_bit_eq_mult)
  also have "\<dots> = 2 ^ p" by (rule mod_less) (use p in \<open>intro power_strict_increasing; simp\<close>)
  finally show ?thesis .
qed

lemma tab_size_unat: "tab_size n p \<Longrightarrow> unat n = 2 ^ p"
  by (auto simp: tab_size_def unat_2p)

lemma tab_size_0 [simp]: "\<not> tab_size 0 p"
  using tab_size_unat [of 0 p] by auto

lemma and_tab_mask:
  assumes "tab_size n p"
  shows "unat (x AND (n - 1)) = unat x mod 2 ^ p"
proof -
  have "n - 1 = mask p" using assms by (simp add: tab_size_def mask_eq_exp_minus_1)
  then have "x AND (n - 1) = take_bit p x" by (simp add: take_bit_eq_mask)
  then show ?thesis by (simp only: unsigned_take_bit_eq) (simp add: take_bit_eq_mod)
qed

definition home :: "u64 \<Rightarrow> nat" where
  "home key = unat (kh_int64_hash_func key)"

lemma probe_start: "tab_size n p \<Longrightarrow> unat (kh_int64_hash_func key AND (n - 1)) = probe (2 ^ p) (home key) 0"
  by (simp add: and_tab_mask probe_def home_def)

lemma probe_step:
  assumes "tab_size n p" and "unat i = probe (2 ^ p) h s" and "unat step = s" and "Suc s < 2 ^ p"
  shows "unat ((i + (step + 1)) AND (n - 1)) = probe (2 ^ p) h (Suc s)" and "unat (step + 1) = Suc s"
proof -
  have p: "p < 32" using assms(1) by (simp add: tab_size_def)
  then have "(2 :: nat) ^ p dvd 2 ^ 32" by (intro le_imp_power_dvd) simp
  have "(2 :: nat) ^ p \<le> 2 ^ 31" using p by (intro power_increasing) auto
  then show step: "unat (step + 1) = Suc s" using assms(3,4) by (simp add: unat_word_ariths)
  have "unat ((i + (step + 1)) AND (n - 1)) = (unat i + unat (step + 1)) mod 2 ^ 32 mod 2 ^ p"
    unfolding and_tab_mask [OF assms(1)] by (simp add: unat_word_ariths(1) mod_add_eq)
  also have "\<dots> = (probe (2 ^ p) h s + Suc s) mod 2 ^ p"
    unfolding assms(2) step using \<open>2 ^ p dvd 2 ^ 32\<close> by (rule mod_mod_cancel)
  also have "\<dots> = probe (2 ^ p) h (Suc s)"
    unfolding probe_def tri.simps add.assoc [symmetric] by (rule mod_add_left_eq)
  finally show "unat ((i + (step + 1)) AND (n - 1)) = probe (2 ^ p) h (Suc s)" .
qed

section \<open>The search loops\<close>

text \<open>\<open>probe_hits n h P m\<close>: the \<open>m\<close>-th probe is the first one that satisfies \<open>P\<close>.\<close>

definition probe_hits :: "nat \<Rightarrow> nat \<Rightarrow> (nat \<Rightarrow> bool) \<Rightarrow> nat \<Rightarrow> bool" where
  "probe_hits n h P m \<longleftrightarrow> m < n \<and> P (probe n h m) \<and> (\<forall>t<m. \<not> P (probe n h t))"

lemma probe_hits_exists:
  assumes "P j" "j < 2 ^ p"
  obtains m where "probe_hits (2 ^ p) h P m"
proof -
  obtain s where s: "s < 2 ^ p" "probe (2 ^ p) h s = j" using probe_covers [OF assms(2)] .
  let ?m = "LEAST m. P (probe (2 ^ p) h m)"
  have "P (probe (2 ^ p) h s)" using s(2) assms(1) by simp
  then have m: "P (probe (2 ^ p) h ?m)" "?m \<le> s" by (rule LeastI, rule Least_le)
  moreover have "\<not> P (probe (2 ^ p) h t)" if "t < ?m" for t using that by (rule not_less_Least)
  moreover have "?m < 2 ^ p" using m(2) s(1) by (rule le_less_trans)
  ultimately have "probe_hits (2 ^ p) h P ?m" unfolding probe_hits_def by blast
  then show thesis by (rule that)
qed

lemma probe_hits_unique: "probe_hits n h P m \<Longrightarrow> probe_hits n h P m' \<Longrightarrow> m = m'"
  unfolding probe_hits_def by (metis linorder_neqE_nat)

definition kh_stop :: "khash \<Rightarrow> u64 \<Rightarrow> nat \<Rightarrow> bool" where
  "kh_stop h key j \<longleftrightarrow> emp (kh_flags h) j \<or> (\<not> tomb (kh_flags h) j \<and> kh_keys h ! j = key)"

lemma kh_get_loop_stops:
  assumes n: "tab_size (n_buckets h) p" and m: "probe_hits (2 ^ p) hm (kh_stop h key) m"
    and lst: "unat lst = probe (2 ^ p) hm 0"
  shows "s \<le> m \<Longrightarrow> unat i = probe (2 ^ p) hm s \<Longrightarrow> unat step = s \<Longrightarrow>
    kh_get_loop h key (n_buckets h - 1) lst i step =
      Some (if live (kh_flags h) (probe (2 ^ p) hm m) then of_nat (probe (2 ^ p) hm m) else n_buckets h)"
proof (induction "m - s" arbitrary: s i step)
  case 0
  then have [simp]: "s = m" by simp
  have "kh_stop h key (unat i)" using m 0 by (simp add: probe_hits_def)
  moreover have "i = of_nat (unat i)" by simp
  ultimately show ?case using 0
    by (subst kh_get_loop.simps) (auto simp: kh_stop_def ac_tests)
next
  case (Suc d)
  then have s: "s < m" "Suc s \<le> m" "d = m - Suc s" by auto
  then have lt: "Suc s < 2 ^ p" using m by (simp add: probe_hits_def)
  have "\<not> kh_stop h key (unat i)" using m s(1) Suc.prems(2) by (simp add: probe_hits_def)
  note nx = probe_step [OF n Suc.prems(2,3) lt]
  have "unat ((i + (step + 1)) AND (n_buckets h - 1)) \<noteq> unat lst"
    unfolding nx(1) lst using probe_inj [of p hm "Suc s" 0] lt by auto
  then have "(i + (step + 1)) AND (n_buckets h - 1) \<noteq> lst" by auto
  with \<open>\<not> kh_stop h key (unat i)\<close> show ?case
    unfolding Suc.hyps(1) [OF s(3) s(2) nx, symmetric]
    by (subst kh_get_loop.simps) (auto simp: kh_stop_def ac_tests Let_def)
qed

lemma kh_empty_loop_stops:
  assumes n: "tab_size n p" and m: "probe_hits (2 ^ p) hm (emp fs) m"
  shows "s \<le> m \<Longrightarrow> unat i = probe (2 ^ p) hm s \<Longrightarrow> unat step = s \<Longrightarrow>
    kh_empty_loop fs (n - 1) i step = Some (of_nat (probe (2 ^ p) hm m))"
proof (induction "m - s" arbitrary: s i step)
  case 0
  then have [simp]: "s = m" by simp
  have "emp fs (unat i)" using m 0 by (simp add: probe_hits_def)
  moreover have "i = of_nat (unat i)" by simp
  ultimately show ?case using 0 by (subst kh_empty_loop.simps) (auto simp: ac_tests)
next
  case (Suc d)
  then have s: "s < m" "Suc s \<le> m" "d = m - Suc s" by auto
  then have lt: "Suc s < 2 ^ p" using m by (simp add: probe_hits_def)
  have "\<not> emp fs (unat i)" using m s(1) Suc.prems(2) by (simp add: probe_hits_def)
  note nx = probe_step [OF n Suc.prems(2,3) lt]
  with \<open>\<not> emp fs (unat i)\<close> show ?case
    unfolding Suc.hyps(1) [OF s(3) s(2) nx, symmetric]
    by (subst kh_empty_loop.simps) (auto simp: ac_tests Let_def)
qed

lemma kh_put_loop_stops:
  assumes n: "tab_size (n_buckets h) p" and m: "probe_hits (2 ^ p) hm (kh_stop h key) m"
    and lst: "unat lst = probe (2 ^ p) hm 0"
  shows "s \<le> m \<Longrightarrow> unat i = probe (2 ^ p) hm s \<Longrightarrow> unat step = s \<Longrightarrow>
    site = n_buckets h \<or> (\<exists>t. t < s \<and> unat site = probe (2 ^ p) hm t \<and> tomb (kh_flags h) (unat site)) \<Longrightarrow>
    \<exists>site'. kh_put_loop h key (n_buckets h - 1) lst i step site =
        Some (n_buckets h, site', of_nat (probe (2 ^ p) hm m)) \<and>
      (site' = n_buckets h \<or> (\<exists>t. t < m \<and> unat site' = probe (2 ^ p) hm t \<and> tomb (kh_flags h) (unat site')))"
proof (induction "m - s" arbitrary: s i step site)
  case 0
  then have [simp]: "s = m" by simp
  have "kh_stop h key (unat i)" using m 0 by (simp add: probe_hits_def)
  moreover have "i = of_nat (unat i)" by simp
  ultimately show ?case using 0
    by (subst kh_put_loop.simps) (auto simp: kh_stop_def ac_tests)
next
  case (Suc d)
  then have s: "s < m" "Suc s \<le> m" "d = m - Suc s" by auto
  then have lt: "Suc s < 2 ^ p" using m by (simp add: probe_hits_def)
  have ns: "\<not> kh_stop h key (unat i)" using m s(1) Suc.prems(2) by (simp add: probe_hits_def)
  note nx = probe_step [OF n Suc.prems(2,3) lt]
  have "unat ((i + (step + 1)) AND (n_buckets h - 1)) \<noteq> unat lst"
    unfolding nx(1) lst using probe_inj [of p hm "Suc s" 0] lt by auto
  then have ne: "(i + (step + 1)) AND (n_buckets h - 1) \<noteq> lst" by auto
  let ?site = "if ac_isdel (kh_flags h) i then i else site"
  have "?site = n_buckets h \<or> (\<exists>t. t < Suc s \<and> unat ?site = probe (2 ^ p) hm t \<and> tomb (kh_flags h) (unat ?site))"
    using Suc.prems(2,4) by (auto simp: ac_tests less_Suc_eq)
  from Suc.hyps(1) [OF s(3) s(2) nx this] show ?case
    using ns ne by (subst kh_put_loop.simps) (simp add: kh_stop_def ac_tests Let_def)
qed

section \<open>Well-formed tables\<close>

abbreviation kh_n :: "khash \<Rightarrow> nat" where
  "kh_n h \<equiv> unat (n_buckets h)"

definition slots :: "nat \<Rightarrow> u32 list \<Rightarrow> u64 list \<Rightarrow> addr list \<Rightarrow> (u64 \<times> addr) list" where
  "slots n fs ks vs = map (\<lambda>j. (ks ! j, vs ! j)) (filter (live fs) [0..<n])"

definition kh_entries :: "khash \<Rightarrow> (u64 \<times> addr) list" where
  "kh_entries h = slots (kh_n h) (kh_flags h) (kh_keys h) (kh_vals h)"

definition kh_map :: "khash \<Rightarrow> u64 \<rightharpoonup> addr" where
  "kh_map h = map_of (kh_entries h)"

definition reach :: "nat \<Rightarrow> u32 list \<Rightarrow> u64 \<Rightarrow> nat \<Rightarrow> bool" where
  "reach n fs key j \<longleftrightarrow> (\<exists>s. s < n \<and> probe n (home key) s = j \<and> (\<forall>t < s. \<not> emp fs (probe n (home key) t)))"

definition occupied :: "nat \<Rightarrow> u32 list \<Rightarrow> nat set" where
  "occupied n fs = {j. j < n \<and> \<not> emp fs j}"

definition kh_shape :: "khash \<Rightarrow> bool" where
  "kh_shape h \<longleftrightarrow>
     (n_buckets h = 0 \<and> upper_bound h = 0 \<or>
      (\<exists>p. tab_size (n_buckets h) p) \<and> upper_bound h = ac_upper (n_buckets h)) \<and>
     kh_n h \<le> List.length (kh_keys h) \<and> kh_n h \<le> List.length (kh_vals h) \<and> flags_for (kh_n h) (kh_flags h)"

definition kh_wf :: "khash \<Rightarrow> bool" where
  "kh_wf h \<longleftrightarrow> kh_shape h \<and>
     distinct (map fst (kh_entries h)) \<and>
     unat (kh_size h) = List.length (kh_entries h) \<and>
     unat (n_occupied h) = card (occupied (kh_n h) (kh_flags h)) \<and>
     n_occupied h \<le> upper_bound h \<and>
     (\<forall>j<kh_n h. live (kh_flags h) j \<longrightarrow> reach (kh_n h) (kh_flags h) (kh_keys h ! j) j)"

text \<open>The limits that the double arithmetic of \<open>upper_bound\<close> gives.\<close>

lemma ac_HASH_UPPER_bounds: "3 / 4 \<le> ac_HASH_UPPER" "ac_HASH_UPPER \<le> 4 / 5"
  by (simp only: ac_HASH_UPPER_def, code_simp)+

lemma ac_upper_floor:
  assumes "tab_size n p"
  defines "u \<equiv> \<lfloor>f64 (f64 (of_int (2 ^ p) * ac_HASH_UPPER) + 1 / 2)\<rfloor>"
  shows "2 ^ (p - 1) \<le> u" "u < 2 ^ p" "3 \<le> u" "ac_upper n = of_int u"
proof -
  define q where "q = p - 2"
  have q: "p = Suc (Suc q)" and p32: "p < 32" and n: "n = 2 ^ p"
    using assms(1) by (auto simp: tab_size_def q_def)
  let ?x = "of_int (2 ^ p) * ac_HASH_UPPER :: rat"
  have pow: "(2 :: int) ^ p = 4 * 2 ^ q" "(1 :: int) \<le> 2 ^ q" "(2 :: int) ^ p \<le> 2 ^ 31"
    using power_increasing [of p 31 "2 :: int"] p32 by (simp_all add: q)
  have x: "of_int (3 * 2 ^ q) \<le> ?x" "?x * 5 \<le> of_int (16 * 2 ^ q)"
    using ac_HASH_UPPER_bounds mult_left_mono [of "3 / 4" ac_HASH_UPPER "of_int (2 ^ p)"]
      mult_left_mono [of ac_HASH_UPPER "4 / 5" "of_int (2 ^ p)"] by (auto simp: q)
  have rep: "f64 (of_int k / 8) = of_int k / 8" if "\<bar>k\<bar> \<le> 2 ^ 53" for k
    using fl_grid [of "-1074" "-3" k 53] that by (simp add: f64_def power_int_def field_simps)
  have "f64 (of_int (24 * 2 ^ q) / 8) \<le> f64 ?x" by (rule f64_mono) (use x(1) in simp)
  then have lo: "of_int (3 * 2 ^ q) \<le> f64 ?x" using rep [of "24 * 2 ^ q"] pow by simp
  have "f64 ?x \<le> f64 (of_int (26 * 2 ^ q) / 8)" proof (rule f64_mono)
    have "(0 :: rat) \<le> 2 ^ q" by simp
    with x(2) show "?x \<le> of_int (26 * 2 ^ q) / 8" unfolding of_int_mult of_int_power of_int_numeral by linarith
  qed
  then have hi: "f64 ?x * 8 \<le> of_int (26 * 2 ^ q)" using rep [of "26 * 2 ^ q"] pow by simp
  have "f64 (of_int (24 * 2 ^ q) / 8) \<le> f64 (f64 ?x + 1 / 2)" by (rule f64_mono) (use lo in simp)
  then have lo2: "of_int (3 * 2 ^ q) \<le> f64 (f64 ?x + 1 / 2)" using rep [of "24 * 2 ^ q"] pow by simp
  have "f64 (f64 ?x + 1 / 2) \<le> f64 (of_int (26 * 2 ^ q + 4) / 8)"
    by (rule f64_mono) (use hi in simp)
  then have hi2: "f64 (f64 ?x + 1 / 2) \<le> of_int (26 * 2 ^ q + 4) / 8"
    using rep [of "26 * 2 ^ q + 4"] pow by simp
  have u1: "3 * 2 ^ q \<le> u" using lo2 unfolding u_def le_floor_iff by simp
  have "(of_int (26 * 2 ^ q + 4) / 8 :: rat) < of_int (4 * 2 ^ q)"
  proof -
    have "(26 * 2 ^ q + 4 :: int) < 32 * 2 ^ q" using pow(2) by linarith
    then have "(of_int (26 * 2 ^ q + 4) :: rat) < of_int (32 * 2 ^ q)" by (simp only: of_int_less_iff)
    then show ?thesis by simp
  qed
  then have u2: "u < 4 * 2 ^ q" using hi2 unfolding u_def floor_less_iff by simp
  show "2 ^ (p - 1) \<le> u" "u < 2 ^ p" "3 \<le> u" using u1 u2 pow q by auto
  have "uint n = 2 ^ p" using unat_2p [OF p32] n by (metis of_nat_numeral of_nat_power uint_nat)
  then show "ac_upper n = of_int u" by (simp only: ac_upper_def u_def)
qed

lemma ac_upper_bounds:
  assumes "tab_size n p"
  shows "unat (ac_upper n) < 2 ^ p" "2 ^ p \<le> 2 * unat (ac_upper n)" "3 \<le> unat (ac_upper n)"
proof -
  obtain u where u: "2 ^ (p - 1) \<le> u" "u < 2 ^ p" "3 \<le> u" "ac_upper n = of_int u"
    using ac_upper_floor [OF assms] by blast
  have p: "2 \<le> p" "p < 32" using assms by (auto simp: tab_size_def)
  then have "(2 :: int) ^ p \<le> 2 ^ 31" by (intro power_increasing) auto
  then have "uint (ac_upper n) = u" using u by (simp add: uint_word_of_int_eq take_bit_eq_mod)
  then have eq: "int (unat (ac_upper n)) = u" by simp
  have "int (unat (ac_upper n)) < int (2 ^ p)" using eq u(2) by simp
  then show "unat (ac_upper n) < 2 ^ p" by (simp only: of_nat_less_iff)
  have "(2 :: int) ^ p = 2 * 2 ^ (p - 1)" using p(1) by (cases p) auto
  then have "int (2 ^ p) \<le> int (2 * unat (ac_upper n))" using eq u(1) by simp
  then show "2 ^ p \<le> 2 * unat (ac_upper n)" by (simp only: of_nat_le_iff)
  show "3 \<le> unat (ac_upper n)" using eq u(3) by linarith
qed

lemma kh_map_iff:
  assumes "distinct (map fst (kh_entries h))"
  shows "kh_map h k = Some v \<longleftrightarrow>
    (\<exists>j. j < kh_n h \<and> live (kh_flags h) j \<and> kh_keys h ! j = k \<and> kh_vals h ! j = v)"
proof -
  have "kh_map h k = Some v \<longleftrightarrow> (k, v) \<in> set (kh_entries h)"
    unfolding kh_map_def using assms by (rule map_of_eq_Some_iff)
  then show ?thesis by (auto simp: kh_entries_def slots_def)
qed

lemma kh_map_None_iff: "kh_map h k = None \<longleftrightarrow> (\<forall>j<kh_n h. live (kh_flags h) j \<longrightarrow> kh_keys h ! j \<noteq> k)"
  by (auto simp: kh_map_def map_of_eq_None_iff kh_entries_def slots_def image_image)

lemma kh_wf_cases:
  assumes "kh_wf h"
  obtains "n_buckets h = 0" | p where "tab_size (n_buckets h) p" "kh_n h = 2 ^ p"
  using assms by (auto simp: kh_wf_def kh_shape_def tab_size_unat)

lemma occupied_room:
  assumes "card (occupied n fs) < n"
  obtains j where "j < n" "emp fs j"
proof -
  have "\<exists>j<n. emp fs j"
  proof (rule ccontr)
    assume "\<not> (\<exists>j<n. emp fs j)"
    then have "occupied n fs = {..<n}" by (auto simp: occupied_def)
    then show False using assms by simp
  qed
  then show thesis using that by blast
qed

lemma kh_wf_room:
  assumes "kh_wf h" and "tab_size (n_buckets h) p"
  obtains j where "j < 2 ^ p" "emp (kh_flags h) j"
proof -
  have "n_buckets h \<noteq> 0" using assms(2) tab_size_unat by fastforce
  then have "upper_bound h = ac_upper (n_buckets h)" using assms(1) by (simp add: kh_wf_def kh_shape_def)
  then have "unat (n_occupied h) < 2 ^ p"
    using assms ac_upper_bounds(1) [OF assms(2)] by (auto simp: kh_wf_def word_le_nat_alt)
  then show thesis
    using occupied_room [of "kh_n h" "kh_flags h"] assms tab_size_unat that by (metis kh_wf_def)
qed

text \<open>Where the search for a key ends: at its bucket, or at an empty one.\<close>

lemma slots_inj:
  assumes "distinct (map fst (slots n fs ks vs))" "i < n" "j < n" "live fs i" "live fs j" "ks ! i = ks ! j"
  shows "i = j"
proof -
  have "inj_on (\<lambda>j. ks ! j) (set (filter (live fs) [0..<n]))"
    using assms(1) by (simp add: slots_def distinct_map comp_def)
  then show ?thesis using assms(2-6) by (auto dest: inj_onD)
qed

lemma kh_hit_live:
  assumes hit: "probe_hits n (home key) (kh_stop h key) m" and n: "n = kh_n h" "0 < n"
    and d: "distinct (map fst (kh_entries h))"
    and j: "j < n" "live (kh_flags h) j" "kh_keys h ! j = key" and r: "reach n (kh_flags h) key j"
  shows "probe n (home key) m = j"
proof -
  obtain s where s: "probe n (home key) s = j" "\<forall>t < s. \<not> emp (kh_flags h) (probe n (home key) t)"
    using r by (auto simp: reach_def)
  have stop: "kh_stop h key (probe n (home key) s)" using j s(1) by (simp add: kh_stop_def live_def)
  then have "\<not> s < m" using hit by (auto simp: probe_hits_def)
  show ?thesis
  proof (cases "m < s")
    case True
    then have "live (kh_flags h) (probe n (home key) m)" "kh_keys h ! probe n (home key) m = key"
      using s(2) hit by (auto simp: probe_hits_def kh_stop_def live_def)
    then show ?thesis
      using slots_inj [OF d [unfolded kh_entries_def], of "probe n (home key) m" j] j n
      by (simp add: probe_less)
  next
    case False
    then show ?thesis using \<open>\<not> s < m\<close> s(1) by simp
  qed
qed

lemma kh_hit_dead:
  assumes "probe_hits n (home key) (kh_stop h key) m" "\<not> live (kh_flags h) (probe n (home key) m)"
  shows "emp (kh_flags h) (probe n (home key) m)"
  using assms by (auto simp: probe_hits_def kh_stop_def live_def)

text \<open>\<open>kh_get\<close> always ends: at the bucket of the key, or with the end of the table.\<close>

lemma kh_get_spec:
  assumes wf: "kh_wf h"
  shows "\<exists>i. kh_get h key = Some i \<and>
    (case kh_map h key of
       None \<Rightarrow> i = kh_end h
     | Some v \<Rightarrow> i < kh_end h \<and> kh_exist h i \<and> kh_keys h ! unat i = key \<and> kh_value h i = v)"
  using wf
proof (cases rule: kh_wf_cases)
  case 1
  then have "kh_map h key = None" by (simp add: kh_map_None_iff)
  then show ?thesis using 1 by (simp add: kh_get_def kh_end_def)
next
  case (2 p)
  have d: "distinct (map fst (kh_entries h))" using wf by (simp add: kh_wf_def)
  obtain e where "e < 2 ^ p" "emp (kh_flags h) e" using kh_wf_room [OF wf 2(1)] .
  then obtain m where m: "probe_hits (2 ^ p) (home key) (kh_stop h key) m"
    using probe_hits_exists [of "kh_stop h key" e p] by (auto simp: kh_stop_def)
  let ?j = "probe (2 ^ p) (home key) m"
  have j: "?j < kh_n h" using 2(2) by (simp add: probe_less)
  have n0: "n_buckets h \<noteq> 0" using 2(2) by auto
  have get: "kh_get h key = Some (if live (kh_flags h) ?j then of_nat ?j else n_buckets h)"
    using kh_get_loop_stops [OF 2(1) m, of _ 0] n0 probe_start [OF 2(1)]
    by (simp add: kh_get_def Let_def)
  have uj: "unat (of_nat ?j :: u32) = ?j"
    using j order.strict_trans [OF j unsigned_less [of "n_buckets h"]] by (simp add: unat_of_nat)
  show ?thesis
  proof (cases "live (kh_flags h) ?j")
    case True
    then have k: "kh_keys h ! ?j = key" using m by (auto simp: probe_hits_def kh_stop_def live_def)
    then have "kh_map h key = Some (kh_vals h ! ?j)" using True j d by (auto simp: kh_map_iff)
    then show ?thesis using get True k j uj
      by (simp add: kh_end_def kh_exist_def ac_tests kh_value_def word_less_nat_alt)
  next
    case False
    have "kh_map h key = None"
      unfolding kh_map_None_iff
    proof (intro allI impI notI)
      fix j' assume j': "j' < kh_n h" "live (kh_flags h) j'" "kh_keys h ! j' = key"
      then have "reach (kh_n h) (kh_flags h) key j'" using wf by (auto simp: kh_wf_def)
      then have "?j = j'" using kh_hit_live [OF m 2(2) [symmetric] _ d] j' 2(2) by simp
      then show False using False j'(2) by simp
    qed
    then show ?thesis using get False by (simp add: kh_end_def)
  qed
qed

section \<open>Insertion and deletion\<close>

definition lives :: "nat \<Rightarrow> u32 list \<Rightarrow> nat set" where
  "lives n fs = {j. j < n \<and> live fs j}"

lemma slots_distinct_iff: "distinct (map fst (slots n fs ks vs)) \<longleftrightarrow> inj_on (\<lambda>j. ks ! j) (lives n fs)"
proof -
  have "set (filter (live fs) [0..<n]) = lives n fs" by (auto simp: lives_def)
  then show ?thesis by (simp add: slots_def distinct_map comp_def)
qed

lemma slots_length: "List.length (slots n fs ks vs) = card (lives n fs)"
proof -
  have "set (filter (live fs) [0..<n]) = lives n fs" by (auto simp: lives_def)
  then show ?thesis unfolding slots_def length_map by (metis distinct_card distinct_filter distinct_upt)
qed

lemmas kh_entries_counts = slots_distinct_iff slots_length

lemma finite_buckets [simp]: "finite (lives n fs)" "finite (occupied n fs)"
  by (simp_all add: lives_def occupied_def)

lemma lives_occupied: "lives n fs \<subseteq> occupied n fs"
  by (auto simp: lives_def occupied_def live_def)

lemma kh_wf_card:
  assumes "kh_wf h"
  shows "unat (kh_size h) = card (lives (kh_n h) (kh_flags h))" "kh_size h \<le> n_occupied h"
  using assms card_mono [OF _ lives_occupied, of "kh_n h" "kh_flags h"]
  by (auto simp: kh_wf_def kh_entries_def kh_entries_counts word_le_nat_alt)

lemma kh_set_value_wf [simp]: "kh_wf (kh_set_value h x v) \<longleftrightarrow> kh_wf h"
  by (simp add: kh_wf_def kh_shape_def kh_entries_def kh_entries_counts kh_set_value_def)

lemma reach_cong: "(\<And>j. emp fs' j \<Longrightarrow> emp fs j) \<Longrightarrow> reach n fs k j \<Longrightarrow> reach n fs' k j"
  by (fastforce simp: reach_def)

lemma map_eqI: "(\<And>k v. m k = Some v \<longleftrightarrow> m' k = Some v) \<Longrightarrow> m = m'"
  by (rule ext) (metis not_None_eq)

lemma kh_put_site_spec:
  assumes wf: "kh_wf h" and n: "tab_size (n_buckets h) p"
  shows "\<exists>x. kh_put_site h key = Some x \<and> unat x < kh_n h \<and>
    (if key \<in> dom (kh_map h) then live (kh_flags h) (unat x) \<and> kh_keys h ! unat x = key
     else \<not> live (kh_flags h) (unat x) \<and> reach (kh_n h) (kh_flags h) key (unat x))"
proof -
  have N: "kh_n h = 2 ^ p" using n by (rule tab_size_unat)
  have d: "distinct (map fst (kh_entries h))" using wf by (simp add: kh_wf_def)
  obtain e where "e < 2 ^ p" "emp (kh_flags h) e" using kh_wf_room [OF wf n] .
  then obtain m where m: "probe_hits (2 ^ p) (home key) (kh_stop h key) m"
    using probe_hits_exists [of "kh_stop h key" e p] by (auto simp: kh_stop_def)
  let ?P = "probe (2 ^ p) (home key)"
  have m': "m < 2 ^ p" "\<And>t. t < m \<Longrightarrow> \<not> emp (kh_flags h) (?P t)"
    using m by (auto simp: probe_hits_def kh_stop_def)
  have pl: "?P t < 2 ^ p" for t by (simp add: probe_less)
  have pw: "unat (of_nat (?P t) :: u32) = ?P t" for t
  proof -
    have "?P t < kh_n h" using pl N by simp
    from order.strict_trans [OF this unsigned_less [of "n_buckets h"]] show ?thesis by (simp add: unat_of_nat)
  qed
  let ?i = "kh_int64_hash_func key AND (n_buckets h - 1)"
  have i: "unat ?i = ?P 0" by (rule probe_start [OF n])
  obtain site where site: "kh_put_loop h key (n_buckets h - 1) ?i ?i 0 (n_buckets h) =
      Some (n_buckets h, site, of_nat (?P m))"
    "site = n_buckets h \<or> (\<exists>t. t < m \<and> unat site = ?P t \<and> tomb (kh_flags h) (unat site))"
    using kh_put_loop_stops [OF n m i, of 0 ?i 0 "n_buckets h"] i by auto
  define x where "x = (if emp (kh_flags h) (?P m) \<and> site \<noteq> n_buckets h then site else of_nat (?P m))"
  have put: "kh_put_site h key = Some x"
  proof (cases "emp (kh_flags h) (?P 0)")
    case True
    then have "m = 0" using m by (auto simp: probe_hits_def kh_stop_def)
    moreover have "of_nat (?P 0) = ?i" unfolding i [symmetric] by simp
    ultimately have "x = ?i" using site(2) by (auto simp: x_def)
    then show ?thesis using True i by (simp add: kh_put_site_def Let_def ac_tests)
  next
    case False
    then show ?thesis using site(1) i pw [of m] by (simp add: kh_put_site_def Let_def ac_tests x_def)
  qed
  have x: "(unat x = ?P m \<and> (x = site \<longrightarrow> \<not> emp (kh_flags h) (?P m) \<or> site = n_buckets h)) \<or>
      (emp (kh_flags h) (?P m) \<and> (\<exists>t. t < m \<and> unat x = ?P t \<and> tomb (kh_flags h) (unat x)))"
    using site(2) pw [of m] by (auto simp: x_def)
  have xn: "unat x < kh_n h" using x pl N by auto
  have "if key \<in> dom (kh_map h) then live (kh_flags h) (unat x) \<and> kh_keys h ! unat x = key
     else \<not> live (kh_flags h) (unat x) \<and> reach (kh_n h) (kh_flags h) key (unat x)"
  proof (cases "live (kh_flags h) (?P m)")
    case True
    then have "kh_keys h ! ?P m = key" using m by (auto simp: probe_hits_def kh_stop_def live_def)
    moreover have "unat x = ?P m" using True pw [of m] by (simp add: x_def live_def)
    moreover have "key \<in> dom (kh_map h)"
      using calculation True pl N kh_map_None_iff [of h key] by (fastforce simp: dom_def)
    ultimately show ?thesis using True by simp
  next
    case False
    then have e: "emp (kh_flags h) (?P m)" using kh_hit_dead [OF m] by blast
    have "key \<notin> dom (kh_map h)"
    proof
      assume "key \<in> dom (kh_map h)"
      then obtain j where j: "j < kh_n h" "live (kh_flags h) j" "kh_keys h ! j = key"
        using d by (auto simp: kh_map_iff dom_def)
      then have "reach (2 ^ p) (kh_flags h) key j" using wf N by (auto simp: kh_wf_def)
      then have "?P m = j" using kh_hit_live [OF m N [symmetric] _ d] j N by simp
      then show False using False j(2) by simp
    qed
    moreover have "\<not> live (kh_flags h) (unat x)" using x e by (auto simp: live_def)
    moreover have "reach (kh_n h) (kh_flags h) key (unat x)"
      unfolding reach_def N using x m' by (metis order.strict_trans)
    ultimately show ?thesis by simp
  qed
  then show ?thesis using put xn by blast
qed

lemma lives_put:
  assumes "flags_for n fs" "unat x < n"
  shows "lives n (ac_set_isboth_false fs x) = insert (unat x) (lives n fs)"
    and "occupied n (ac_set_isboth_false fs x) = insert (unat x) (occupied n fs)"
  using assms by (auto simp: lives_def occupied_def live_def ac_set_both)

lemma lives_del:
  assumes "flags_for n fs" "unat x < n"
  shows "lives n (ac_set_isdel_true fs x) = lives n fs - {unat x}"
    and "occupied n (ac_set_isdel_true fs x) = occupied n fs"
  using assms by (auto simp: lives_def occupied_def live_def ac_set_deleted)

lemma less_unat_of_nat: "j < unat (w :: u32) \<Longrightarrow> unat (of_nat j :: u32) = j"
proof -
  assume "j < unat w"
  moreover have "unat w < 2 ^ LENGTH(32)" by (rule unsigned_less)
  ultimately have "j < 2 ^ LENGTH(32)" by (rule order.strict_trans)
  then show ?thesis by (simp add: unat_of_nat)
qed

lemma unat_add1: "unat (w :: u32) < unat (z :: u32) \<Longrightarrow> unat (w + 1) = Suc (unat w)"
proof -
  assume "unat w < unat z"
  moreover have "unat z < 2 ^ LENGTH(32)" by (rule unsigned_less)
  ultimately have "Suc (unat w) < 2 ^ LENGTH(32)" by linarith
  then show ?thesis by (simp add: unat_word_ariths)
qed

lemma unat_sub1: "0 < unat (w :: u32) \<Longrightarrow> unat (w - 1) = unat w - 1"
  using unat_sub [of 1 w] by (simp add: word_le_nat_alt)

lemma kh_wf_flags: "kh_wf h \<Longrightarrow> flags_for (kh_n h) (kh_flags h)"
  "kh_wf h \<Longrightarrow> kh_n h \<le> List.length (kh_keys h)" "kh_wf h \<Longrightarrow> kh_n h \<le> List.length (kh_vals h)"
  by (auto simp: kh_wf_def kh_shape_def)

text \<open>Filling a bucket that is not live with a new key.\<close>

lemma kh_fill_wf:
  assumes wf: "kh_wf h" and room: "n_occupied h < upper_bound h" and x: "unat x < kh_n h"
    and new: "key \<notin> dom (kh_map h)" "\<not> live (kh_flags h) (unat x)" "reach (kh_n h) (kh_flags h) key (unat x)"
    and h': "kh_put_at h key x = (h', x', r)"
  shows "x' = x" "r > 0" "kh_wf h'" "n_buckets h' = n_buckets h"
    and "kh_map (kh_set_value h' x v) = (kh_map h)(key \<mapsto> v)"
proof -
  let ?fs = "kh_flags h" and ?fs' = "ac_set_isboth_false (kh_flags h) x" and ?n = "kh_n h"
  note fl = kh_wf_flags [OF wf]
  have d: "inj_on (\<lambda>j. kh_keys h ! j) (lives ?n ?fs)" and wfs: "unat (kh_size h) = card (lives ?n ?fs)"
    and occ: "unat (n_occupied h) = card (occupied ?n ?fs)"
    using wf by (auto simp: kh_wf_def kh_entries_def kh_entries_counts)
  have h'_eq: "x' = x" "r > 0" "n_buckets h' = n_buckets h" "upper_bound h' = upper_bound h"
    "kh_keys h' = (kh_keys h)[unat x := key]" "kh_vals h' = kh_vals h" "kh_flags h' = ?fs'"
    "kh_size h' = kh_size h + 1"
    "n_occupied h' = (if emp ?fs (unat x) then n_occupied h + 1 else n_occupied h)"
    using h' new(2) by (auto simp: kh_put_at_def ac_tests live_def split: if_splits)
  then show "x' = x" "r > 0" "n_buckets h' = n_buckets h" by simp_all
  have keys': "kh_keys h' ! j = (if j = unat x then key else kh_keys h ! j)" if "j < ?n" for j
    using that x fl(2) h'_eq(5) by (auto simp: nth_list_update)
  have fresh: "kh_keys h ! j \<noteq> key" if "j \<in> lives ?n ?fs" for j
    using new(1) that kh_map_None_iff [of h key] by (auto simp: lives_def dom_def)
  have xl: "unat x \<notin> lives ?n ?fs" using new(2) by (simp add: lives_def)
  have lives': "lives ?n ?fs' = insert (unat x) (lives ?n ?fs)"
    and occ': "occupied ?n ?fs' = insert (unat x) (occupied ?n ?fs)"
    by (rule lives_put [OF fl(1) x])+
  have "inj_on (\<lambda>j. kh_keys h' ! j) (lives ?n ?fs')"
    unfolding lives' using d fresh xl x by (auto simp: inj_on_def keys' lives_def)
  then have dist': "distinct (map fst (kh_entries h'))"
    by (simp add: kh_entries_def kh_entries_counts h'_eq)
  have size': "unat (kh_size h') = card (lives ?n ?fs')"
  proof -
    have "kh_size h \<le> n_occupied h" using kh_wf_card [OF wf] by simp
    then have "unat (kh_size h) < unat (upper_bound h)" using room by (auto simp: word_less_nat_alt word_le_nat_alt)
    then show ?thesis using xl wfs by (simp add: h'_eq lives' unat_add1)
  qed
  have "emp ?fs (unat x) \<longleftrightarrow> unat x \<notin> occupied ?n ?fs" using x by (simp add: occupied_def)
  then have nocc': "unat (n_occupied h') = card (occupied ?n ?fs')"
    using occ room by (auto simp: h'_eq occ' unat_add1 word_less_nat_alt insert_absorb)
  have "n_occupied h' \<le> upper_bound h'"
    using room by (auto simp: h'_eq word_le_nat_alt word_less_nat_alt unat_add1)
  moreover have "reach ?n ?fs' (kh_keys h' ! j) j" if "j < ?n" "live ?fs' j" for j
  proof (rule reach_cong [of _ ?fs])
    show "emp ?fs' k \<Longrightarrow> emp ?fs k" for k using ac_set_both(1) [OF fl(1) x] by simp
    have "j \<in> insert (unat x) (lives ?n ?fs)" using that lives' by (auto simp: lives_def)
    then show "reach ?n ?fs (kh_keys h' ! j) j"
      using new(3) wf that(1) by (auto simp: keys' kh_wf_def lives_def)
  qed
  moreover have "kh_shape h'" using wf by (auto simp: kh_wf_def kh_shape_def h'_eq ac_set_isboth_false_def)
  ultimately show wf': "kh_wf h'"
    using dist' size' nocc' unfolding kh_wf_def by (simp add: h'_eq kh_entries_def kh_entries_counts)
  let ?h = "kh_set_value h' x v"
  have dist: "distinct (map fst (kh_entries ?h))" "distinct (map fst (kh_entries h))"
    using wf wf' kh_set_value_wf [of h' x v] by (simp_all add: kh_wf_def)
  have live': "live ?fs' j \<longleftrightarrow> j = unat x \<or> live ?fs j" if "j < ?n" for j
    using lives' that by (auto simp: lives_def set_eq_iff)
  show "kh_map ?h = (kh_map h)(key \<mapsto> v)"
  proof (rule map_eqI)
    fix k w
    have "kh_map ?h k = Some w \<longleftrightarrow> (\<exists>j. j < ?n \<and> live ?fs' j \<and> kh_keys h' ! j = k \<and>
        (kh_vals h)[unat x := v] ! j = w)"
      unfolding kh_map_iff [OF dist(1)] by (simp add: kh_set_value_def h'_eq)
    also have "\<dots> \<longleftrightarrow> (k = key \<and> w = v) \<or> (\<exists>j. j < ?n \<and> live ?fs j \<and> kh_keys h ! j = k \<and> kh_vals h ! j = w)"
    proof -
      have "(j < ?n \<and> live ?fs' j \<and> kh_keys h' ! j = k \<and> (kh_vals h)[unat x := v] ! j = w) \<longleftrightarrow>
          (j = unat x \<and> k = key \<and> w = v) \<or>
          (j < ?n \<and> live ?fs j \<and> kh_keys h ! j = k \<and> kh_vals h ! j = w)" for j
        using x fl(3) new(2) live' [of j] keys' [of j] by (auto simp: nth_list_update)
      then show ?thesis by (simp only: ex_disj_distrib) auto
    qed
    also have "\<dots> \<longleftrightarrow> (k = key \<and> w = v) \<or> kh_map h k = Some w"
      unfolding kh_map_iff [OF dist(2)] ..
    also have "\<dots> \<longleftrightarrow> ((kh_map h)(key \<mapsto> v)) k = Some w" using new(1) by (auto simp: dom_def)
    finally show "kh_map ?h k = Some w \<longleftrightarrow> ((kh_map h)(key \<mapsto> v)) k = Some w" .
  qed
qed

lemma kh_del_wf:
  assumes wf: "kh_wf h" and x: "x < n_buckets h" "kh_exist h x"
  shows "kh_wf (kh_del h x)" "kh_map (kh_del h x) = (kh_map h)(kh_keys h ! unat x := None)"
    "kh_size (kh_del h x) = kh_size h - 1"
proof -
  let ?fs = "kh_flags h" and ?fs' = "ac_set_isdel_true (kh_flags h) x" and ?n = "kh_n h"
  note fl = kh_wf_flags [OF wf]
  have xn: "unat x < ?n" "x \<noteq> n_buckets h" "live ?fs (unat x)"
    using x by (auto simp: word_less_nat_alt kh_exist_def ac_tests)
  then have delq: "kh_del h x = h\<lparr>kh_flags := ?fs', kh_size := kh_size h - 1\<rparr>"
    by (simp add: kh_del_def ac_tests)
  then show "kh_size (kh_del h x) = kh_size h - 1" by simp
  note lv = lives_del [OF fl(1) xn(1)]
  have d: "inj_on (\<lambda>j. kh_keys h ! j) (lives ?n ?fs)" using wf by (auto simp: kh_wf_def kh_entries_def kh_entries_counts)
  then have d': "inj_on (\<lambda>j. kh_keys h ! j) (lives ?n ?fs')" by (rule inj_on_subset) (auto simp: lv)
  have "unat x \<in> lives ?n ?fs" using xn by (simp add: lives_def)
  moreover from this have "0 < card (lives ?n ?fs)" by (auto simp: card_gt_0_iff)
  ultimately have "unat (kh_size h - 1) = card (lives ?n ?fs')"
    using kh_wf_card(1) [OF wf] unat_sub1 [of "kh_size h"] by (simp add: lv card_Diff_singleton)
  moreover have "reach ?n ?fs' (kh_keys h ! j) j" if "j < ?n" "live ?fs' j" for j
  proof (rule reach_cong [of _ ?fs])
    show "emp ?fs' k \<Longrightarrow> emp ?fs k" for k using ac_set_deleted(1) [OF fl(1) xn(1)] by simp
    have "j \<in> lives ?n ?fs" using that lv(1) by (auto simp: lives_def)
    then show "reach ?n ?fs (kh_keys h ! j) j" using wf by (auto simp: kh_wf_def lives_def)
  qed
  ultimately show wf': "kh_wf (kh_del h x)"
    using wf d' unfolding delq by (auto simp: kh_wf_def kh_shape_def kh_entries_def kh_entries_counts lv)
  have dist: "distinct (map fst (kh_entries h))" "distinct (map fst (kh_entries (kh_del h x)))"
    using wf wf' by (simp_all add: kh_wf_def)
  have inj: "j = unat x" if "j < ?n" "live ?fs j" "kh_keys h ! j = kh_keys h ! unat x" for j
    using inj_onD [OF d that(3)] that xn by (simp add: lives_def)
  have live': "live ?fs' j \<longleftrightarrow> j \<noteq> unat x \<and> live ?fs j" if "j < ?n" for j
    using lv(1) that by (auto simp: lives_def set_eq_iff)
  show "kh_map (kh_del h x) = (kh_map h)(kh_keys h ! unat x := None)"
  proof (rule map_eqI)
    fix k w
    have "kh_map (kh_del h x) k = Some w \<longleftrightarrow>
        (\<exists>j. j < ?n \<and> live ?fs' j \<and> kh_keys h ! j = k \<and> kh_vals h ! j = w)"
      unfolding kh_map_iff [OF dist(2)] by (simp add: delq)
    also have "\<dots> \<longleftrightarrow> k \<noteq> kh_keys h ! unat x \<and>
        (\<exists>j. j < ?n \<and> live ?fs j \<and> kh_keys h ! j = k \<and> kh_vals h ! j = w)"
      using inj live' by blast
    also have "\<dots> \<longleftrightarrow> ((kh_map h)(kh_keys h ! unat x := None)) k = Some w"
      unfolding kh_map_iff [OF dist(1), symmetric] by simp
    finally show "kh_map (kh_del h x) k = Some w \<longleftrightarrow> ((kh_map h)(kh_keys h ! unat x := None)) k = Some w" .
  qed
qed

section \<open>The rehash\<close>

text \<open>
  During a rehash the entries are spread over the old table, the new one and the entry in
  hand. \<open>rehash_inv\<close> says that no bucket belongs to both tables, that together they hold the
  multiset \<open>M\<close> of the entries at the start, and that the new entries can be found.
\<close>

definition fmset :: "(nat \<Rightarrow> 'a) \<Rightarrow> nat set \<Rightarrow> 'a multiset" where
  "fmset f A = image_mset f (mset_set A)"

lemma fmset_insert: "finite A \<Longrightarrow> i \<notin> A \<Longrightarrow> fmset f (insert i A) = add_mset (f i) (fmset f A)"
  by (simp add: fmset_def)

lemma fmset_remove: "finite A \<Longrightarrow> i \<in> A \<Longrightarrow> fmset f A = add_mset (f i) (fmset f (A - {i}))"
  using fmset_insert [of "A - {i}" i f] by (simp add: insert_absorb)

lemma fmset_cong: "finite A \<Longrightarrow> (\<And>j. j \<in> A \<Longrightarrow> f j = g j) \<Longrightarrow> fmset f A = fmset g A"
  unfolding fmset_def by (rule image_mset_cong) simp

lemma size_fmset [simp]: "size (fmset f A) = card A"
  by (simp add: fmset_def)

definition slot :: "khash \<Rightarrow> nat \<Rightarrow> u64 \<times> addr" where
  "slot h j = (kh_keys h ! j, kh_vals h ! j)"

lemma mset_entries: "mset (kh_entries h) = fmset (slot h) (lives (kh_n h) (kh_flags h))"
proof -
  have "mset (filter (live fs) [0..<n]) = mset_set (lives n fs)" for n fs
    by (simp add: mset_filter lives_def filter_mset_mset_set mset_upt atLeast0LessThan lessThan_def)
  then show ?thesis by (simp add: kh_entries_def slots_def fmset_def slot_def [abs_def])
qed

definition rehash_inv ::
  "nat \<Rightarrow> (u64 \<times> addr) multiset \<Rightarrow> (u64 \<times> addr) multiset \<Rightarrow> khash \<Rightarrow> u32 list \<Rightarrow> bool" where
  "rehash_inv nn M hand h fn \<longleftrightarrow>
     kh_n h \<le> List.length (kh_keys h) \<and> kh_n h \<le> List.length (kh_vals h) \<and>
     nn \<le> List.length (kh_keys h) \<and> nn \<le> List.length (kh_vals h) \<and>
     flags_for (kh_n h) (kh_flags h) \<and> flags_for nn fn \<and>
     (\<forall>j<nn. \<not> tomb fn j) \<and>
     lives (kh_n h) (kh_flags h) \<inter> occupied nn fn = {} \<and>
     fmset (slot h) (lives (kh_n h) (kh_flags h)) + fmset (slot h) (occupied nn fn) + hand = M \<and>
     (\<forall>j\<in>occupied nn fn. reach nn fn (kh_keys h ! j) j) \<and>
     size M < nn"

definition same_table :: "khash \<Rightarrow> khash \<Rightarrow> bool" where
  "same_table h h' \<longleftrightarrow> n_buckets h' = n_buckets h \<and> kh_size h' = kh_size h \<and>
     n_occupied h' = n_occupied h \<and> upper_bound h' = upper_bound h \<and>
     lives (kh_n h) (kh_flags h') \<subseteq> lives (kh_n h) (kh_flags h)"

lemma same_table_trans: "same_table h h' \<Longrightarrow> same_table h' h'' \<Longrightarrow> same_table h h''"
  by (auto simp: same_table_def)

lemma lives_occupied_new:
  assumes "flags_for n fs" "unat i < n"
  shows "occupied n (ac_set_isempty_false fs i) = insert (unat i) (occupied n fs)"
  using assms by (auto simp: occupied_def ac_set_nonempty)

text \<open>The new bucket for a key is empty, outside the new table, and can be reached.\<close>

lemma kh_empty_bucket:
  assumes n: "tab_size nb p" and inv: "rehash_inv (2 ^ p) M hand h fn" and hand: "hand \<noteq> {#}"
  shows "\<exists>i. kh_empty_loop fn (nb - 1) (kh_int64_hash_func key AND (nb - 1)) 0 = Some i \<and>
    unat i < 2 ^ p \<and> unat i \<notin> occupied (2 ^ p) fn \<and> reach (2 ^ p) fn key (unat i)"
proof -
  have "card (occupied (2 ^ p) fn) < 2 ^ p"
  proof -
    have "size M < 2 ^ p" and M: "M = fmset (slot h) (lives (kh_n h) (kh_flags h)) + fmset (slot h) (occupied (2 ^ p) fn) + hand"
      using inv by (auto simp: rehash_inv_def)
    then show ?thesis by simp
  qed
  then obtain e where "e < 2 ^ p" "emp fn e" using occupied_room by blast
  then obtain m where m: "probe_hits (2 ^ p) (home key) (emp fn) m" using probe_hits_exists by blast
  let ?j = "probe (2 ^ p) (home key) m"
  have j: "?j < 2 ^ p" by (simp add: probe_less)
  then have "?j < unat nb" using tab_size_unat [OF n] by simp
  then have u: "unat (of_nat ?j :: u32) = ?j"
    by (rule less_unat_of_nat)
  have "kh_empty_loop fn (nb - 1) (kh_int64_hash_func key AND (nb - 1)) 0 = Some (of_nat ?j)"
    by (rule kh_empty_loop_stops [OF n m le0 probe_start [OF n]]) simp
  moreover have "reach (2 ^ p) fn key ?j" "?j \<notin> occupied (2 ^ p) fn"
    using m by (auto simp: reach_def probe_hits_def occupied_def)
  ultimately show ?thesis using u j by (intro exI [of _ "of_nat ?j"]) simp
qed

lemma rehash_place:
  assumes inv: "rehash_inv nn M {#(key, v)#} h fn"
    and i: "unat i < nn" "unat i \<notin> occupied nn fn" "reach nn fn key (unat i)"
    and h': "kh_keys h' = (kh_keys h)[unat i := key]" "kh_vals h' = (kh_vals h)[unat i := v]"
      "n_buckets h' = n_buckets h"
    and fs: "flags_for (kh_n h) (kh_flags h')"
      "lives (kh_n h) (kh_flags h') = lives (kh_n h) (kh_flags h) - {unat i}"
    and hand: "hand = (if unat i \<in> lives (kh_n h) (kh_flags h) then {#slot h (unat i)#} else {#})"
  shows "rehash_inv nn M hand h' (ac_set_isempty_false fn i)"
proof -
  let ?A = "lives (kh_n h) (kh_flags h)" and ?B = "occupied nn fn" and ?i = "unat i"
  have I: "kh_n h \<le> List.length (kh_keys h)" "kh_n h \<le> List.length (kh_vals h)"
    "nn \<le> List.length (kh_keys h)" "nn \<le> List.length (kh_vals h)" "flags_for nn fn"
    "\<forall>j<nn. \<not> tomb fn j" "?A \<inter> ?B = {}"
    "M = fmset (slot h) ?A + fmset (slot h) ?B + {#(key, v)#}"
    "\<forall>j\<in>?B. reach nn fn (kh_keys h ! j) j" "size M < nn"
    using inv by (auto simp: rehash_inv_def)
  have B': "occupied nn (ac_set_isempty_false fn i) = insert ?i ?B"
    by (rule lives_occupied_new [OF I(5) i(1)])
  have slot': "slot h' ?i = (key, v)" "\<And>j. j \<noteq> ?i \<Longrightarrow> slot h' j = slot h j"
    using i(1) I(3,4) by (auto simp: slot_def h')
  have "fmset (slot h') (?A - {?i}) = fmset (slot h) (?A - {?i})"
    by (rule fmset_cong) (auto simp: slot')
  moreover have "fmset (slot h) ?A = fmset (slot h) (?A - {?i}) + hand"
    using fmset_remove [of ?A ?i "slot h"] by (simp add: hand)
  moreover have "fmset (slot h') (insert ?i ?B) = add_mset (key, v) (fmset (slot h) ?B)"
  proof -
    have "fmset (slot h') ?B = fmset (slot h) ?B"
      by (rule fmset_cong) (use i(2) in \<open>auto intro!: slot'(2)\<close>)
    then show ?thesis using i(2) by (simp add: fmset_insert slot'(1))
  qed
  ultimately have mset: "fmset (slot h') (?A - {?i}) + fmset (slot h') (insert ?i ?B) + hand = M"
    unfolding I(8) by simp
  have emp: "emp (ac_set_isempty_false fn i) j \<Longrightarrow> emp fn j" for j
    using ac_set_nonempty(1) [OF I(5) i(1)] by simp
  have "\<forall>j\<in>insert ?i ?B. reach nn (ac_set_isempty_false fn i) (kh_keys h' ! j) j"
  proof
    fix j assume "j \<in> insert ?i ?B"
    then have "reach nn fn (kh_keys h' ! j) j"
      using i I(3,9) by (auto simp: h' nth_list_update)
    then show "reach nn (ac_set_isempty_false fn i) (kh_keys h' ! j) j" using reach_cong [of "ac_set_isempty_false fn i" fn] emp by blast
  qed
  then show ?thesis
    using I mset fs ac_set_nonempty(2) [OF I(5) i(1)] by (auto simp: rehash_inv_def h' B')
qed

lemma kh_kick_loop_inv:
  assumes n: "tab_size nb p"
  shows "rehash_inv (2 ^ p) M {#(key, v)#} h fn \<Longrightarrow>
    \<exists>h' fn'. kh_kick_loop (nb - 1) h fn key v = Some (h', fn') \<and> rehash_inv (2 ^ p) M {#} h' fn' \<and> same_table h h'"
proof (induction "card (lives (kh_n h) (kh_flags h))" arbitrary: h fn key v rule: less_induct)
  case less
  let ?A = "lives (kh_n h) (kh_flags h)"
  obtain i where i: "kh_empty_loop fn (nb - 1) (kh_int64_hash_func key AND (nb - 1)) 0 = Some i"
    "unat i < 2 ^ p" "unat i \<notin> occupied (2 ^ p) fn" "reach (2 ^ p) fn key (unat i)"
    using kh_empty_bucket [OF n less.prems] by auto
  have fl: "flags_for (kh_n h) (kh_flags h)" using less.prems by (simp add: rehash_inv_def)
  show ?case
  proof (cases "unat i \<in> ?A")
    case True
    then have xn: "unat i < kh_n h" "i < n_buckets h" "live (kh_flags h) (unat i)"
      by (auto simp: lives_def word_less_nat_alt)
    note lv = lives_del [OF fl xn(1)]
    let ?h = "h\<lparr>kh_keys := (kh_keys h)[unat i := key], kh_vals := (kh_vals h)[unat i := v],
             kh_flags := ac_set_isdel_true (kh_flags h) i\<rparr>"
    have inv': "rehash_inv (2 ^ p) M {#(kh_keys h ! unat i, kh_vals h ! unat i)#} ?h (ac_set_isempty_false fn i)"
      by (rule rehash_place [OF less.prems i(2-4)]) (use True fl lv in \<open>simp_all add: slot_def\<close>)
    have "card (lives (kh_n ?h) (kh_flags ?h)) < card ?A"
      using lv(1) True card_Diff1_less [of ?A "unat i"] by simp
    from less.hyps [OF this inv'] obtain h' fn' where rec:
      "kh_kick_loop (nb - 1) ?h (ac_set_isempty_false fn i) (kh_keys h ! unat i) (kh_vals h ! unat i) = Some (h', fn')"
      "rehash_inv (2 ^ p) M {#} h' fn'" "same_table ?h h'" by blast
    have "kh_kick_loop (nb - 1) h fn key v = Some (h', fn')"
      using i(1) xn rec(1) by (subst kh_kick_loop.simps) (simp add: ac_tests)
    moreover have "same_table h ?h" using lv(1) by (auto simp: same_table_def)
    ultimately show ?thesis using rec(2,3) same_table_trans by blast
  next
    case False
    let ?h = "h\<lparr>kh_keys := (kh_keys h)[unat i := key], kh_vals := (kh_vals h)[unat i := v]\<rparr>"
    have "\<not> (i < n_buckets h \<and> live (kh_flags h) (unat i))" using False by (auto simp: lives_def word_less_nat_alt)
    then have "kh_kick_loop (nb - 1) h fn key v = Some (?h, ac_set_isempty_false fn i)"
      using i(1) by (subst kh_kick_loop.simps) (auto simp: ac_tests)
    moreover have "rehash_inv (2 ^ p) M {#} ?h (ac_set_isempty_false fn i)"
      by (rule rehash_place [OF less.prems i(2-4)]) (use False fl in simp_all)
    moreover have "same_table h ?h" by (simp add: same_table_def)
    ultimately show ?thesis by blast
  qed
qed

lemma kh_rehash_loop_inv:
  assumes n: "tab_size nb p"
  shows "rehash_inv (2 ^ p) M {#} h fn \<Longrightarrow> unat j + left = kh_n h \<Longrightarrow>
    (\<forall>k\<in>lives (kh_n h) (kh_flags h). unat j \<le> k) \<Longrightarrow>
    \<exists>h' fn'. kh_rehash_loop (nb - 1) left j h fn = Some (h', fn') \<and> rehash_inv (2 ^ p) M {#} h' fn' \<and>
      same_table h h' \<and> lives (kh_n h) (kh_flags h') = {}"
proof (induction left arbitrary: j h fn)
  case 0
  then have "lives (kh_n h) (kh_flags h) = {}" by (fastforce simp: lives_def)
  then show ?case using 0 by (simp add: same_table_def)
next
  case (Suc left)
  let ?A = "lives (kh_n h) (kh_flags h)"
  have jn: "unat j < kh_n h" using Suc.prems(2) by simp
  have j1: "unat (j + 1) = Suc (unat j)" by (rule unat_add1 [OF jn])
  have fl: "flags_for (kh_n h) (kh_flags h)" using Suc.prems by (simp add: rehash_inv_def)
  show ?case
  proof (cases "live (kh_flags h) (unat j)")
    case True
    note lv = lives_del [OF fl jn]
    let ?h = "h\<lparr>kh_flags := ac_set_isdel_true (kh_flags h) j\<rparr>"
    have jA: "unat j \<in> ?A" using True jn by (simp add: lives_def)
    have "fmset (slot ?h) S = fmset (slot h) S" for S by (simp add: fmset_def slot_def [abs_def])
    then have "rehash_inv (2 ^ p) M {#slot h (unat j)#} ?h fn"
      using Suc.prems(1) fmset_remove [OF _ jA, of "slot h"] lv(1) by (auto simp: rehash_inv_def)
    then have "rehash_inv (2 ^ p) M {#(kh_keys h ! unat j, kh_vals h ! unat j)#} ?h fn" by (simp add: slot_def)
    from kh_kick_loop_inv [OF n this] obtain h1 fn1 where k:
      "kh_kick_loop (nb - 1) ?h fn (kh_keys h ! unat j) (kh_vals h ! unat j) = Some (h1, fn1)"
      "rehash_inv (2 ^ p) M {#} h1 fn1" "same_table ?h h1" by blast
    have st: "same_table h h1" using k(3) lv(1) by (auto simp: same_table_def)
    have "\<forall>k\<in>lives (kh_n h1) (kh_flags h1). unat (j + 1) \<le> k"
      using k(3) lv(1) Suc.prems(3) j1 by (force simp: same_table_def)
    from Suc.IH [OF k(2) _ this] obtain h' fn' where
      "kh_rehash_loop (nb - 1) left (j + 1) h1 fn1 = Some (h', fn')" "rehash_inv (2 ^ p) M {#} h' fn'"
      "same_table h1 h'" "lives (kh_n h1) (kh_flags h') = {}"
      using j1 Suc.prems(2) st by (auto simp: same_table_def)
    then show ?thesis using k(1) True st same_table_trans [OF st] by (auto simp: ac_tests same_table_def)
  next
    case False
    then have "\<forall>k\<in>?A. unat (j + 1) \<le> k"
      using Suc.prems(3) j1 by (metis (mono_tags, lifting) Suc_leI lives_def mem_Collect_eq order_neq_le_trans)
    from Suc.IH [OF Suc.prems(1) _ this] show ?thesis using j1 Suc.prems(2) False by (simp add: ac_tests)
  qed
qed

lemma length_realloc [simp]: "List.length (kh_realloc xs n) = unat n"
  by (simp add: kh_realloc_def min_def)

lemma nth_realloc: "j < unat n \<Longrightarrow> j < List.length xs \<Longrightarrow> kh_realloc xs n ! j = xs ! j"
  by (simp add: kh_realloc_def nth_append)

lemma fresh_flags:
  assumes "tab_size nb p"
  shows "flags_for (2 ^ p) (replicate (unat (ac_fsize nb)) 0xaaaaaaaa)"
    and "occupied (2 ^ p) (replicate (unat (ac_fsize nb)) 0xaaaaaaaa) = {}"
    and "j < 2 ^ p \<Longrightarrow> \<not> tomb (replicate (unat (ac_fsize nb)) 0xaaaaaaaa) j"
proof -
  have len: "2 ^ p \<le> 16 * unat (ac_fsize nb)"
  proof (cases "nb < 16")
    case True
    then show ?thesis using tab_size_unat [OF assms] by (simp add: ac_fsize_def word_less_nat_alt)
  next
    case False
    have u: "unat nb = 2 ^ p" by (rule tab_size_unat [OF assms])
    have "(16 :: nat) \<le> 2 ^ p" using False u by (simp add: word_less_nat_alt)
    have "4 \<le> p"
    proof (rule ccontr)
      assume "\<not> 4 \<le> p"
      then have "(2 :: nat) ^ p \<le> 2 ^ 3" by (intro power_increasing) auto
      then show False using \<open>16 \<le> 2 ^ p\<close> by simp
    qed
    then have "(2 :: nat) ^ p = 16 * 2 ^ (p - 4)" using power_add [of "2 :: nat" 4 "p - 4"] by simp
    moreover have "unat (ac_fsize nb) = 2 ^ p div 16"
      using False ac_word [of nb] u by (simp only: ac_fsize_def if_False)
    ultimately show ?thesis by simp
  qed
  then show "flags_for (2 ^ p) (replicate (unat (ac_fsize nb)) 0xaaaaaaaa)" by (simp add: flags_for_def)
  have "j div 16 < unat (ac_fsize nb)" if "j < 2 ^ p" for j using that len by linarith
  then show "occupied (2 ^ p) (replicate (unat (ac_fsize nb)) 0xaaaaaaaa) = {}"
    "j < 2 ^ p \<Longrightarrow> \<not> tomb (replicate (unat (ac_fsize nb)) 0xaaaaaaaa) j"
    by (auto simp: occupied_def fbit_fresh)
qed

lemma kh_map_mset:
  assumes "mset (kh_entries h) = mset (kh_entries h')" "distinct (map fst (kh_entries h))"
  shows "distinct (map fst (kh_entries h'))" "kh_map h' = kh_map h"
proof -
  have "mset (map fst (kh_entries h)) = mset (map fst (kh_entries h'))" using assms(1) by simp
  then show d: "distinct (map fst (kh_entries h'))" using assms(2) mset_eq_imp_distinct_iff by blast
  have "set (kh_entries h) = set (kh_entries h')" using assms(1) by (rule mset_eq_setD)
  then show "kh_map h' = kh_map h"
    using assms(2) d by (intro map_eqI) (simp add: kh_map_def map_of_eq_Some_iff)
qed

text \<open>\<open>resize_to req\<close> is the size that \<open>kh_resize\<close> rounds the request to.\<close>

definition resize_to :: "u32 \<Rightarrow> u32" where
  "resize_to req = (if kroundup32 req < 4 then 4 else kroundup32 req)"

lemma kh_resize_spec:
  assumes wf: "kh_wf h" and n: "tab_size (resize_to req) p" and room: "kh_size h < ac_upper (resize_to req)"
  shows "\<exists>h'. kh_resize None h req = Some (0, h') \<and> kh_wf h' \<and> n_buckets h' = resize_to req \<and>
    kh_map h' = kh_map h \<and> kh_size h' = kh_size h \<and> n_occupied h' = kh_size h \<and>
    upper_bound h' = ac_upper (resize_to req) \<and> mset (kh_entries h') = mset (kh_entries h)"
proof -
  let ?nb = "resize_to req" and ?fn = "replicate (unat (ac_fsize (resize_to req))) (0xaaaaaaaa :: u32)"
  let ?h = "if n_buckets h < ?nb
     then h\<lparr>kh_keys := kh_realloc (kh_keys h) ?nb, kh_vals := kh_realloc (kh_vals h) ?nb\<rparr> else h"
  have N: "unat ?nb = 2 ^ p" by (rule tab_size_unat [OF n])
  note fl = kh_wf_flags [OF wf] and fresh = fresh_flags [OF n]
  have [simp]: "n_buckets ?h = n_buckets h" "kh_flags ?h = kh_flags h" "kh_size ?h = kh_size h" by auto
  have slot: "slot ?h j = slot h j" if "j \<in> lives (kh_n h) (kh_flags h)" for j
    using that fl(2,3) by (auto simp: slot_def lives_def nth_realloc word_less_nat_alt)
  have size: "size (mset (kh_entries h)) = unat (kh_size h)" using wf by (simp add: kh_wf_def)
  have "rehash_inv (2 ^ p) (mset (kh_entries h)) {#} ?h ?fn"
    unfolding rehash_inv_def
  proof (intro conjI)
    show "size (mset (kh_entries h)) < 2 ^ p"
      unfolding size using room ac_upper_bounds(1) [OF n] by (auto simp: word_less_nat_alt)
    show "fmset (slot ?h) (lives (kh_n ?h) (kh_flags ?h)) + fmset (slot ?h) (occupied (2 ^ p) ?fn) + {#} =
        mset (kh_entries h)"
      using fmset_cong [of "lives (kh_n h) (kh_flags h)" "slot ?h" "slot h"] slot fresh(2)
      by (simp add: mset_entries fmset_def)
  qed (use fl fresh N in \<open>auto simp: word_less_nat_alt not_less\<close>)
  from kh_rehash_loop_inv [OF n this, of 0 "kh_n h"] obtain h1 fn1 where k:
    "kh_rehash_loop (?nb - 1) (kh_n h) 0 ?h ?fn = Some (h1, fn1)"
    "rehash_inv (2 ^ p) (mset (kh_entries h)) {#} h1 fn1" "same_table ?h h1"
    "lives (kh_n h) (kh_flags h1) = {}" by auto
  let ?h1 = "if n_buckets h1 > ?nb
     then h1\<lparr>kh_keys := kh_realloc (kh_keys h1) ?nb, kh_vals := kh_realloc (kh_vals h1) ?nb\<rparr> else h1"
  let ?h' = "?h1\<lparr>kh_flags := fn1, n_buckets := ?nb, n_occupied := kh_size h1, upper_bound := ac_upper ?nb\<rparr>"
  have st: "n_buckets h1 = n_buckets h" "kh_size h1 = kh_size h" using k(3) by (simp_all add: same_table_def)
  have I: "2 ^ p \<le> List.length (kh_keys h1)" "2 ^ p \<le> List.length (kh_vals h1)" "flags_for (2 ^ p) fn1"
    "\<forall>j<2 ^ p. \<not> tomb fn1 j" "fmset (slot h1) (occupied (2 ^ p) fn1) = mset (kh_entries h)"
    "\<forall>j\<in>occupied (2 ^ p) fn1. reach (2 ^ p) fn1 (kh_keys h1 ! j) j"
    using k(2,4) st by (auto simp: rehash_inv_def fmset_def)
  have run: "kh_resize None h req = Some (0, ?h')"
    using room k(1) unfolding kh_resize_def Let_def resize_to_def [symmetric]
    by (cases "n_buckets h < ?nb"; simp add: not_le)
  have [simp]: "kh_size ?h1 = kh_size h" using st by simp
  have lv: "lives (2 ^ p) fn1 = occupied (2 ^ p) fn1" using I(4) by (auto simp: lives_def occupied_def live_def)
  have keys': "kh_keys ?h' ! j = kh_keys h1 ! j" "kh_vals ?h' ! j = kh_vals h1 ! j" if "j < 2 ^ p" for j
    using that I(1,2) N by (auto simp: nth_realloc)
  have ent: "mset (kh_entries ?h') = mset (kh_entries h)"
  proof -
    have "fmset (slot ?h') (occupied (2 ^ p) fn1) = fmset (slot h1) (occupied (2 ^ p) fn1)"
      by (rule fmset_cong) (use keys' in \<open>auto simp: slot_def occupied_def\<close>)
    then show ?thesis unfolding mset_entries using I(5) lv N mset_entries [of h] by simp
  qed
  note m = kh_map_mset [OF ent [symmetric]]
  have "distinct (map fst (kh_entries h))" using wf by (simp add: kh_wf_def)
  note d = m [OF this]
  have "unat (kh_size ?h') = List.length (kh_entries ?h')"
    using size ent st by (simp flip: size_mset)
  moreover from this have "unat (n_occupied ?h') = card (occupied (kh_n ?h') (kh_flags ?h'))"
    using lv N st by (simp add: kh_entries_def kh_entries_counts split: if_splits)
  moreover have "kh_shape ?h'"
    using n N I(1-3) by (auto simp: kh_shape_def)
  moreover have "\<forall>j<kh_n ?h'. live (kh_flags ?h') j \<longrightarrow> reach (kh_n ?h') (kh_flags ?h') (kh_keys ?h' ! j) j"
    using I(6) keys' lv N by (auto simp: lives_def)
  ultimately have "kh_wf ?h'"
    using d(1) room st unfolding kh_wf_def by simp
  then show ?thesis using run d(2) st ent by (intro exI [of _ ?h']) simp
qed

section \<open>Insertion with its resize\<close>

lemma kroundup32_table:
  "\<forall>p\<in>set [2..<32]. kroundup32 (2 ^ p - 1) = 2 ^ p" "\<forall>p\<in>set [2..<31]. kroundup32 (2 ^ p + 1) = 2 ^ Suc p"
  by (simp_all add: kroundup32_def Let_def)

lemma four_le_2p: "2 \<le> p \<Longrightarrow> p < 32 \<Longrightarrow> \<not> (2 :: u32) ^ p < 4"
proof -
  assume p: "2 \<le> p" "p < 32"
  then have "(2 :: nat) ^ 2 \<le> 2 ^ p" by (intro power_increasing) auto
  then show ?thesis using unat_2p [OF p(2)] by (simp add: word_less_nat_alt)
qed

lemma resize_to_1: "resize_to 1 = 4"
  by code_simp

lemma resize_to_same:
  assumes "tab_size n p"
  shows "resize_to (n - 1) = n"
proof -
  have p: "2 \<le> p" "p < 32" "n = 2 ^ p" using assms by (auto simp: tab_size_def)
  then have "p \<in> set [2..<32]" by (simp only: set_upt atLeastLessThan_iff)
  then have "kroundup32 (n - 1) = n" using kroundup32_table(1) p(3) by blast
  then show ?thesis using p four_le_2p by (simp add: resize_to_def)
qed

lemma resize_to_double:
  assumes "tab_size n p" "p < 31"
  shows "tab_size (resize_to (n + 1)) (Suc p)"
proof -
  have p: "2 \<le> p" "n = 2 ^ p" using assms by (auto simp: tab_size_def)
  then have "p \<in> set [2..<31]" using assms(2) by (simp only: set_upt atLeastLessThan_iff)
  then have "kroundup32 (n + 1) = 2 ^ Suc p" using kroundup32_table(2) p(2) by blast
  then show ?thesis using p assms(2) four_le_2p [of "Suc p"] by (simp add: resize_to_def tab_size_def)
qed

lemma kh_wf_dom:
  assumes "kh_wf h"
  shows "unat (kh_size h) = card (dom (kh_map h))"
proof -
  have "card (set (map fst (kh_entries h))) = List.length (kh_entries h)"
    using assms distinct_card [of "map fst (kh_entries h)"] by (simp add: kh_wf_def)
  then show ?thesis using assms by (simp add: kh_wf_def kh_map_def dom_map_of_conv_image_fst)
qed

text \<open>Before the search, \<open>kh_put\<close> makes sure that the table has room.\<close>

lemma kh_put_room:
  assumes wf: "kh_wf h" and small: "unat (kh_size h) < 2 ^ 30"
  shows "\<exists>h1 p. (if n_occupied h \<ge> upper_bound h then
                  if n_buckets h > push_bit 1 (kh_size h)
                  then kh_resize None h (n_buckets h - 1)
                  else kh_resize None h (n_buckets h + 1)
                else Some (0, h)) = Some (0, h1) \<and> kh_wf h1 \<and> tab_size (n_buckets h1) p \<and>
    n_occupied h1 < upper_bound h1 \<and> kh_map h1 = kh_map h \<and> kh_size h1 = kh_size h"
proof (cases "n_occupied h \<ge> upper_bound h")
  case False
  then have "n_buckets h \<noteq> 0" using wf by (auto simp: kh_wf_def kh_shape_def)
  moreover obtain p where "tab_size (n_buckets h) p" using calculation wf by (auto elim: kh_wf_cases)
  ultimately show ?thesis using False wf by (intro exI [of _ h]) auto
next
  case True
  define req where "req = (if n_buckets h > push_bit 1 (kh_size h) then n_buckets h - 1 else n_buckets h + 1)"
  have "unat (push_bit 1 (kh_size h)) = take_bit 32 (2 * unat (kh_size h))"
    by (simp only: unsigned_push_bit_eq) (simp add: push_bit_eq_mult mult.commute)
  also have "\<dots> = 2 * unat (kh_size h)" using small by (simp add: take_bit_eq_mod)
  finally have dbl: "unat (push_bit 1 (kh_size h)) = 2 * unat (kh_size h)" .
  have "\<exists>p. tab_size (resize_to req) p \<and> kh_size h < ac_upper (resize_to req)"
    using wf
  proof (cases rule: kh_wf_cases)
    case 1
    then have "kh_size h = 0" using kh_wf_card [OF wf] by (simp add: lives_def unat_eq_zero)
    moreover have "tab_size 4 2" by (simp add: tab_size_def)
    ultimately show ?thesis
      using 1 ac_upper_bounds(3) [of 4 2] by (auto simp: req_def resize_to_1 word_less_nat_alt intro!: exI [of _ 2])
  next
    case (2 p)
    show ?thesis
    proof (cases "n_buckets h > push_bit 1 (kh_size h)")
      case True
      then have "2 * unat (kh_size h) < 2 ^ p" using dbl 2(2) by (simp add: word_less_nat_alt)
      then have "unat (kh_size h) < unat (ac_upper (n_buckets h))" using ac_upper_bounds(2) [OF 2(1)] by linarith
      then show ?thesis using True 2(1) resize_to_same [OF 2(1)] by (auto simp: req_def word_less_nat_alt)
    next
      case False
      then have "2 ^ p \<le> 2 * unat (kh_size h)" using dbl 2(2) by (simp add: word_less_nat_alt)
      then have "(2 :: nat) ^ p < 2 ^ 31" using small by simp
      then have "p < 31" by (rule power_less_imp_less_exp [rotated]) simp
      note d = resize_to_double [OF 2(1) this]
      have "unat (kh_size h) < 2 ^ p"
      proof -
        have "n_buckets h \<noteq> 0" using 2(2) by auto
        then have "upper_bound h = ac_upper (n_buckets h)" using wf by (simp add: kh_wf_def kh_shape_def)
        then have "unat (n_occupied h) \<le> unat (ac_upper (n_buckets h))"
          using wf by (simp add: kh_wf_def word_le_nat_alt)
        moreover have "unat (kh_size h) \<le> unat (n_occupied h)"
          using kh_wf_card(2) [OF wf] by (simp add: word_le_nat_alt)
        ultimately show ?thesis using ac_upper_bounds(1) [OF 2(1)] by linarith
      qed
      then have "unat (kh_size h) < unat (ac_upper (resize_to (n_buckets h + 1)))"
        using ac_upper_bounds(2) [OF d] by simp
      then show ?thesis using False d by (auto simp: req_def word_less_nat_alt)
    qed
  qed
  then obtain p where p: "tab_size (resize_to req) p" "kh_size h < ac_upper (resize_to req)" by blast
  from kh_resize_spec [OF wf p] obtain h1 where h1: "kh_resize None h req = Some (0, h1)" "kh_wf h1"
    "n_buckets h1 = resize_to req" "kh_map h1 = kh_map h" "kh_size h1 = kh_size h"
    "n_occupied h1 = kh_size h" "upper_bound h1 = ac_upper (resize_to req)" by blast
  then have "n_occupied h1 < upper_bound h1" "tab_size (n_buckets h1) p" using p by simp_all
  moreover have "(if n_occupied h \<ge> upper_bound h then
                  if n_buckets h > push_bit 1 (kh_size h)
                  then kh_resize None h (n_buckets h - 1)
                  else kh_resize None h (n_buckets h + 1)
                else Some (0, h)) = kh_resize None h req"
    using True by (simp add: req_def)
  ultimately show ?thesis using h1 by metis
qed

lemma kh_put_spec:
  assumes wf: "kh_wf h" and small: "unat (kh_size h) < 2 ^ 30"
  shows "\<exists>h' x r. kh_put None h key = Some (h', x, r) \<and> kh_wf h' \<and> x < kh_end h' \<and>
    (if key \<in> dom (kh_map h)
     then r = 0 \<and> kh_map h' = kh_map h \<and> kh_exist h' x \<and> kh_keys h' ! unat x = key
     else r > 0 \<and> (\<forall>v. kh_map (kh_set_value h' x v) = (kh_map h)(key \<mapsto> v)))"
proof -
  from kh_put_room [OF assms] obtain h1 p where h1: "(if n_occupied h \<ge> upper_bound h then
                  if n_buckets h > push_bit 1 (kh_size h)
                  then kh_resize None h (n_buckets h - 1)
                  else kh_resize None h (n_buckets h + 1)
                else Some (0, h)) = Some (0, h1)" "kh_wf h1" "tab_size (n_buckets h1) p"
    "n_occupied h1 < upper_bound h1" "kh_map h1 = kh_map h" by blast
  from kh_put_site_spec [OF h1(2,3), of key] obtain x where x: "kh_put_site h1 key = Some x"
    "unat x < kh_n h1"
    "if key \<in> dom (kh_map h) then live (kh_flags h1) (unat x) \<and> kh_keys h1 ! unat x = key
     else \<not> live (kh_flags h1) (unat x) \<and> reach (kh_n h1) (kh_flags h1) key (unat x)"
    using h1(5) by auto
  obtain h' x' r where at: "kh_put_at h1 key x = (h', x', r)" by (cases "kh_put_at h1 key x")
  have put: "kh_put None h key = Some (h', x', r)"
    unfolding kh_put_def h1(1) using x(1) at by simp
  show ?thesis
  proof (cases "key \<in> dom (kh_map h)")
    case True
    then have "h' = h1" "x' = x" "r = 0" using at x(3) by (auto simp: kh_put_at_def ac_tests live_def)
    then show ?thesis using put True x h1 by (auto simp: kh_end_def kh_exist_def ac_tests word_less_nat_alt)
  next
    case False
    then have "key \<notin> dom (kh_map h1)" "\<not> live (kh_flags h1) (unat x)" "reach (kh_n h1) (kh_flags h1) key (unat x)"
      using x(3) h1(5) by auto
    note f = kh_fill_wf [OF h1(2,4) x(2) this at]
    show ?thesis using put False f h1(5) x(2) by (auto simp: kh_end_def word_less_nat_alt)
  qed
qed

end
