(* ===== verification/Page_Table.thy ===== *)
theory Page_Table
  imports Khash_Map
begin

text \<open>
  The three ways in which \<open>src/pebs.c\<close> uses its hash tables, and the contract of a page table: a
  finite map from virtual addresses to page descriptors. The locale \<open>page_table\<close> states it, the
  lemma \<open>run_table_refines\<close> follows a client through any sequence of requests, and the
  interpretation shows that the khash tables keep it as long as they hold less than \<open>2 ^ 30\<close> pages.
\<close>

text \<open>
  \<open>kh_put\<close>, the assertion that the key was absent, and the store through \<open>kh_value\<close>. When an
  allocation of the table fails the bucket is the end of the table and the store is out of
  bounds, which is \<open>None\<close> here.
\<close>

definition pages_put :: "nat option \<Rightarrow> khash \<Rightarrow> u64 \<Rightarrow> addr \<Rightarrow> khash option" where
  "pages_put oom h a page = do {
     (h, k, absent) \<leftarrow> kh_put oom h a;
     assert_that (absent \<noteq> 0);
     assert_that (k < kh_end h);
     Some (kh_set_value h k page)
   }"

definition pages_find :: "khash \<Rightarrow> u64 \<Rightarrow> addr option" where
  "pages_find h a = do {
     k \<leftarrow> kh_get h a;
     Some (if k = kh_end h then NULL else kh_value h k)
   }"

definition pages_del :: "khash \<Rightarrow> u64 \<Rightarrow> khash option" where
  "pages_del h a = do {
     k \<leftarrow> kh_get h a;
     assert_that (k \<noteq> kh_end h);
     Some (kh_del h k)
   }"

section \<open>The contract\<close>

locale page_table =
  fixes ok :: "'t \<Rightarrow> bool"
    and tmap :: "'t \<Rightarrow> u64 \<rightharpoonup> addr"
    and put :: "'t \<Rightarrow> u64 \<Rightarrow> addr \<Rightarrow> 't option"
    and find :: "'t \<Rightarrow> u64 \<Rightarrow> addr option"
    and del :: "'t \<Rightarrow> u64 \<Rightarrow> 't option"
    and room :: nat
  assumes find_ok: "ok t \<Longrightarrow> find t a = Some (case tmap t a of None \<Rightarrow> NULL | Some p \<Rightarrow> p)"
    and put_ok: "ok t \<Longrightarrow> a \<notin> dom (tmap t) \<Longrightarrow> card (dom (tmap t)) < room \<Longrightarrow>
      \<exists>t'. put t a p = Some t' \<and> ok t' \<and> tmap t' = (tmap t)(a \<mapsto> p)"
    and put_dup: "ok t \<Longrightarrow> a \<in> dom (tmap t) \<Longrightarrow> card (dom (tmap t)) < room \<Longrightarrow> put t a p = None"
    and del_ok: "ok t \<Longrightarrow> a \<in> dom (tmap t) \<Longrightarrow>
      \<exists>t'. del t a = Some t' \<and> ok t' \<and> tmap t' = (tmap t)(a := None)"
    and del_absent: "ok t \<Longrightarrow> a \<notin> dom (tmap t) \<Longrightarrow> del t a = None"
    and finite_ok: "ok t \<Longrightarrow> finite (dom (tmap t))"

datatype table_op = Put u64 addr | Find u64 | Del u64

text \<open>A run of requests: the answers of the lookups, or \<open>None\<close> when an assertion fails.\<close>

fun run_table :: "('t \<Rightarrow> u64 \<Rightarrow> addr \<Rightarrow> 't option) \<Rightarrow> ('t \<Rightarrow> u64 \<Rightarrow> addr option) \<Rightarrow> ('t \<Rightarrow> u64 \<Rightarrow> 't option) \<Rightarrow>
    't \<Rightarrow> table_op list \<Rightarrow> addr list option" where
  "run_table put look del t [] = Some []"
| "run_table put look del t (Put a p # ops) = do { t \<leftarrow> put t a p; run_table put look del t ops }"
| "run_table put look del t (Find a # ops) = do {
     p \<leftarrow> look t a; ps \<leftarrow> run_table put look del t ops; Some (p # ps) }"
| "run_table put look del t (Del a # ops) = do { t \<leftarrow> del t a; run_table put look del t ops }"

fun run_map :: "(u64 \<rightharpoonup> addr) \<Rightarrow> table_op list \<Rightarrow> addr list option" where
  "run_map m [] = Some []"
| "run_map m (Put a p # ops) = (if a \<in> dom m then None else run_map (m(a \<mapsto> p)) ops)"
| "run_map m (Find a # ops) = map_option ((#) (case m a of None \<Rightarrow> NULL | Some p \<Rightarrow> p)) (run_map m ops)"
| "run_map m (Del a # ops) = (if a \<in> dom m then run_map (m(a := None)) ops else None)"

context page_table
begin

lemma run_table_refines:
  "ok t \<Longrightarrow> card (dom (tmap t)) + length ops \<le> room \<Longrightarrow>
   run_table put find del t ops = run_map (tmap t) ops"
proof (induction ops arbitrary: t)
  case (Cons op ops)
  have fin: "finite (dom (tmap t))" using Cons.prems(1) by (rule finite_ok)
  show ?case
  proof (cases op)
    case (Put a p)
    show ?thesis
    proof (cases "a \<in> dom (tmap t)")
      case True
      then show ?thesis using Put Cons.prems put_dup [of t a p] by auto
    next
      case False
      then obtain t' where t': "put t a p = Some t'" "ok t'" "tmap t' = (tmap t)(a \<mapsto> p)"
        using put_ok [of t a p] Cons.prems by auto
      have "card (dom (tmap t')) + length ops \<le> room" using Cons.prems(2) fin False by (simp add: t'(3))
      then have "run_table put find del t' ops = run_map (tmap t') ops" by (rule Cons.IH [OF t'(2)])
      then show ?thesis using Put t'(1) False by (simp add: t'(3))
    qed
  next
    case (Find a)
    then show ?thesis using Cons by (cases "run_map (tmap t) ops") (simp_all add: find_ok)
  next
    case (Del a)
    show ?thesis
    proof (cases "a \<in> dom (tmap t)")
      case True
      then obtain t' where t': "del t a = Some t'" "ok t'" "tmap t' = (tmap t)(a := None)"
        using del_ok [of t a] Cons.prems by auto
      have "card (dom (tmap t) - {a}) \<le> card (dom (tmap t))" using fin by (intro card_mono) auto
      then have "card (dom (tmap t')) + length ops \<le> room" using Cons.prems(2) by (simp add: t'(3))
      then have "run_table put find del t' ops = run_map (tmap t') ops" by (rule Cons.IH [OF t'(2)])
      then show ?thesis using Del t'(1) True by (simp add: t'(3))
    next
      case False
      then show ?thesis using Del Cons.prems del_absent [of t a] by auto
    qed
  qed
qed simp

end

section \<open>The khash tables keep it\<close>

lemma kh_init_wf: "kh_wf kh_init" "kh_map kh_init = Map.empty"
  by (simp_all add: kh_wf_def kh_shape_def kh_init_def kh_entries_def slots_def occupied_def flags_for_def kh_map_def)

lemma kh_wf_finite: "finite (dom (kh_map h))"
  by (simp add: kh_map_def finite_dom_map_of)

lemma pages_find_spec:
  assumes "kh_wf h"
  shows "pages_find h a = Some (case kh_map h a of None \<Rightarrow> NULL | Some p \<Rightarrow> p)"
  using kh_get_spec [OF assms, of a] by (auto simp: pages_find_def split: option.splits)

lemma pages_del_spec:
  assumes "kh_wf h" "a \<in> dom (kh_map h)"
  shows "\<exists>h'. pages_del h a = Some h' \<and> kh_wf h' \<and> kh_map h' = (kh_map h)(a := None)"
proof -
  obtain i v where i: "kh_get h a = Some i" "kh_map h a = Some v" "i < kh_end h" "kh_exist h i" "kh_keys h ! unat i = a"
    using kh_get_spec [OF assms(1), of a] assms(2) by auto
  then show ?thesis using kh_del_wf [OF assms(1), of i] by (auto simp: pages_del_def kh_end_def bind_assert_that)
qed

lemma pages_del_absent:
  assumes "kh_wf h" "a \<notin> dom (kh_map h)"
  shows "pages_del h a = None"
  using kh_get_spec [OF assms(1), of a] assms(2) by (auto simp: pages_del_def domIff bind_assert_that)

lemma pages_put_spec:
  assumes "kh_wf h" "a \<notin> dom (kh_map h)" "card (dom (kh_map h)) < 2 ^ 30"
  shows "\<exists>h'. pages_put None h a p = Some h' \<and> kh_wf h' \<and> kh_map h' = (kh_map h)(a \<mapsto> p)"
  using kh_put_spec [OF assms(1), of a] assms kh_wf_dom [OF assms(1)] by (auto simp: pages_put_def bind_assert_that)

lemma pages_put_dup:
  assumes "kh_wf h" "a \<in> dom (kh_map h)" "card (dom (kh_map h)) < 2 ^ 30"
  shows "pages_put None h a p = None"
  using kh_put_spec [OF assms(1), of a] assms kh_wf_dom [OF assms(1)] by (auto simp: pages_put_def bind_assert_that)

interpretation khtab: page_table kh_wf kh_map "pages_put None" pages_find pages_del "2 ^ 30"
  by unfold_locales
     (assumption | rule pages_find_spec pages_put_spec pages_put_dup pages_del_spec pages_del_absent kh_wf_finite)+

section \<open>Failing allocations\<close>

text \<open>A table whose arrays have grown while its number of buckets has not holds what it held.\<close>

definition grown_from :: "khash \<Rightarrow> khash \<Rightarrow> bool" where
  "grown_from h h' \<longleftrightarrow> (\<exists>ks vs. h' = h\<lparr>kh_keys := ks, kh_vals := vs\<rparr> \<and>
     kh_n h \<le> List.length ks \<and> kh_n h \<le> List.length vs \<and> (\<forall>j<kh_n h. ks ! j = kh_keys h ! j \<and> vs ! j = kh_vals h ! j))"

lemma grown_from_refl: "kh_wf h \<Longrightarrow> grown_from h h"
  unfolding grown_from_def by (intro exI [of _ "kh_keys h"] exI [of _ "kh_vals h"]) (simp add: kh_wf_def kh_shape_def)

lemma realloc_grows:
  assumes "n \<le> List.length xs" "n \<le> unat m"
  shows "n \<le> List.length (kh_realloc xs m)" "j < n \<Longrightarrow> kh_realloc xs m ! j = xs ! j"
  using assms by (auto simp: kh_realloc_def nth_append)

lemma grown_keeps:
  assumes wf: "kh_wf h" and g: "grown_from h h'"
  shows "kh_wf h'" "kh_map h' = kh_map h" "n_buckets h' = n_buckets h"
proof -
  obtain ks vs where h': "h' = h\<lparr>kh_keys := ks, kh_vals := vs\<rparr>" "kh_n h \<le> List.length ks" "kh_n h \<le> List.length vs"
    and same: "\<forall>j<kh_n h. ks ! j = kh_keys h ! j \<and> vs ! j = kh_vals h ! j" using g by (auto simp: grown_from_def)
  have "slots (kh_n h) (kh_flags h) ks vs = slots (kh_n h) (kh_flags h) (kh_keys h) (kh_vals h)"
    unfolding slots_def using same by (intro map_cong) auto
  then have e: "kh_entries h' = kh_entries h" by (simp add: kh_entries_def h'(1))
  then show "kh_map h' = kh_map h" by (simp add: kh_map_def)
  show "n_buckets h' = n_buckets h" by (simp add: h'(1))
  show "kh_wf h'" using wf same h'(2,3) e by (auto simp: kh_wf_def kh_shape_def h'(1))
qed

lemma kh_resize_oom:
  assumes wf: "kh_wf h"
  shows "kh_resize oom h m = kh_resize None h m \<or> (\<exists>h'. kh_resize oom h m = Some (- 1, h') \<and> oom \<noteq> None \<and> grown_from h h')"
proof -
  define M where "M = (if kroundup32 m < 4 then 4 else kroundup32 m)"
  note run = kh_resize_def [of _ h m, unfolded Let_def, folded M_def]
  let ?h = "h\<lparr>kh_keys := kh_realloc (kh_keys h) M\<rparr>"
  have 1: "grown_from h ?h" if "n_buckets h < M"
  proof -
    have len: "kh_n h \<le> List.length (kh_keys h)" "kh_n h \<le> List.length (kh_vals h)" using wf by (auto simp: kh_wf_def kh_shape_def)
    have "kh_n h \<le> unat M" using that by (simp add: word_less_nat_alt)
    note R = realloc_grows [OF len(1) this]
    show ?thesis unfolding grown_from_def
      by (intro exI [of _ "kh_realloc (kh_keys h) M"] exI [of _ "kh_vals h"]) (use R len in simp)
  qed
  consider "ac_upper M \<le> kh_size h" | "\<not> ac_upper M \<le> kh_size h" "oom = Some 0"
    | "\<not> ac_upper M \<le> kh_size h" "oom = Some 1" "n_buckets h < M" | "\<not> ac_upper M \<le> kh_size h" "oom = Some 2" "n_buckets h < M"
    | "oom \<noteq> Some 0" "\<not> (n_buckets h < M \<and> oom = Some 1)" "\<not> (n_buckets h < M \<and> oom = Some 2)" by blast
  then show ?thesis
  proof cases
    case 5
    then have "kh_resize oom h m = kh_resize None h m" unfolding run by (simp only: if_False) simp
    then show ?thesis by simp
  qed (use 1 grown_from_refl [OF wf] in \<open>auto simp: run\<close>)
qed

lemma kh_put_oom:
  assumes wf: "kh_wf h"
  shows "kh_put oom h key = kh_put None h key \<or>
    (\<exists>h'. kh_put oom h key = Some (h', kh_end h', - 1) \<and> oom \<noteq> None \<and> grown_from h h')"
  using kh_resize_oom [OF wf, of oom "n_buckets h - 1"] kh_resize_oom [OF wf, of oom "n_buckets h + 1"]
  by (auto simp: kh_put_def kh_end_def)

section \<open>Properties\<close>

lemma kh_set_value_map:
  assumes wf: "kh_wf h" and x: "x < kh_end h" "kh_exist h x" "kh_keys h ! unat x = key"
  shows "kh_map (kh_set_value h x v) = (kh_map h)(key \<mapsto> v)"
proof (rule map_eqI)
  fix k w
  have d: "distinct (map fst (kh_entries h))" and d': "distinct (map fst (kh_entries (kh_set_value h x v)))"
    using wf kh_set_value_wf [of h x v] by (simp_all add: kh_wf_def)
  have xl: "unat x < kh_n h" "unat x < length (kh_vals h)" "live (kh_flags h) (unat x)"
    using x kh_wf_flags(3) [OF wf] by (auto simp: kh_end_def kh_exist_def ac_tests word_less_nat_alt)
  have inj: "j = unat x" if "j < kh_n h" "live (kh_flags h) j" "kh_keys h ! j = key" for j
    using slots_inj [of "kh_n h" "kh_flags h" "kh_keys h" "kh_vals h" j "unat x"] d that xl x(3)
    by (simp add: kh_entries_def)
  have l: "kh_map (kh_set_value h x v) k = Some w \<longleftrightarrow>
      (\<exists>j. j < kh_n h \<and> live (kh_flags h) j \<and> kh_keys h ! j = k \<and> (kh_vals h)[unat x := v] ! j = w)"
    using kh_map_iff [OF d', of k w] by (simp add: kh_set_value_def)
  show "kh_map (kh_set_value h x v) k = Some w \<longleftrightarrow> ((kh_map h)(key \<mapsto> v)) k = Some w"
  proof (cases "k = key")
    case True
    then show ?thesis unfolding l using inj xl x(3) by (metis fun_upd_same nth_list_update_eq option.inject)
  next
    case False
    then have "kh_keys h ! j = k \<Longrightarrow> (kh_vals h)[unat x := v] ! j = kh_vals h ! j" for j
      using x(3) by (cases "j = unat x") simp_all
    with False show ?thesis unfolding l using kh_map_iff [OF d, of k w] by auto
  qed
qed

text \<open>
  C9: An insertion into a table of fewer than 2^30 entries either succeeds or reports -1, and -1
  only when an allocation failed; then no key has changed its value. When it succeeds it finds a
  bucket, reports 0 exactly when the key was there, and the value written there is the one that
  a lookup of the key then finds; every other key keeps its value.
\<close>

lemma kh_put_get:
  assumes "kh_wf h" "unat (kh_size h) < 2 ^ 30"
  shows "\<exists>h' x r. kh_put oom h key = Some (h', x, r) \<and> kh_wf h' \<and>
    (if r < 0 then r = - 1 \<and> oom \<noteq> None \<and> x = kh_end h' \<and> kh_map h' = kh_map h
     else (r = 0 \<longleftrightarrow> key \<in> dom (kh_map h)) \<and> x < kh_end h' \<and> kh_map (kh_set_value h' x v) = (kh_map h)(key \<mapsto> v) \<and>
       (\<exists>i. kh_get (kh_set_value h' x v) key = Some i \<and> i < kh_end h' \<and> kh_value (kh_set_value h' x v) i = v))"
proof (cases "kh_put oom h key = kh_put None h key")
  case True
  obtain h' x r where p: "kh_put None h key = Some (h', x, r)" "kh_wf h'" "x < kh_end h'"
    "if key \<in> dom (kh_map h)
     then r = 0 \<and> kh_map h' = kh_map h \<and> kh_exist h' x \<and> kh_keys h' ! unat x = key
     else r > 0 \<and> (\<forall>v. kh_map (kh_set_value h' x v) = (kh_map h)(key \<mapsto> v))"
    using kh_put_spec [OF assms, of key] by blast
  have m: "kh_map (kh_set_value h' x v) = (kh_map h)(key \<mapsto> v)"
    using p(4) kh_set_value_map [OF p(2,3)] by (auto split: if_splits)
  have "kh_wf (kh_set_value h' x v)" using p(2) by simp
  from kh_get_spec [OF this, of key] obtain i where
    "kh_get (kh_set_value h' x v) key = Some i" "i < kh_end (kh_set_value h' x v)" "kh_value (kh_set_value h' x v) i = v"
    by (auto simp: m)
  moreover have "kh_end (kh_set_value h' x v) = kh_end h'" by (simp add: kh_end_def kh_set_value_def)
  ultimately show ?thesis using True p m by (auto split: if_splits)
next
  case False
  then obtain h' where "kh_put oom h key = Some (h', kh_end h', - 1)" "oom \<noteq> None" "grown_from h h'"
    using kh_put_oom [OF assms(1)] by blast
  then show ?thesis using grown_keeps [OF assms(1)] by simp
qed

lemma kh_put_get_witness:
  "\<exists>h' x r. kh_put None kh_init 0x200000 = Some (h', x, r) \<and> r \<ge> 0 \<and>
    (\<exists>i. kh_get (kh_set_value h' x 77) 0x200000 = Some i \<and> kh_value (kh_set_value h' x 77) i = 77)"
proof -
  have "unat (kh_size kh_init) < 2 ^ 30" by (simp add: kh_init_def)
  from kh_put_get [OF kh_init_wf(1) this, of None "0x200000" 77] show ?thesis by (force split: if_splits)
qed

text \<open>
  C8: The page tables of the program (khash with its flag words, probing and resizing) answer
  every sequence of at most 2^30 insertions, lookups and deletions, in which no allocation
  fails, as a finite map does: the insertion of a key that is there and the deletion of one that
  is not fail the same assertions.
\<close>

lemma tables_refine_map:
  assumes "length ops \<le> 2 ^ 30"
  shows "run_table (pages_put None) pages_find pages_del kh_init ops = run_map Map.empty ops"
  using khtab.run_table_refines [OF kh_init_wf(1), of ops] assms by (simp add: kh_init_wf)

lemma tables_refine_map_witness:
  "run_table (pages_put None) pages_find pages_del kh_init
     [Put 0x200000 1, Put 0x400000 2, Find 0x200000, Del 0x200000, Find 0x200000, Find 0x400000] = Some [1, 0, 2]"
  by (subst tables_refine_map) simp_all

end
