(* ===== verification/Kdq.thy ===== *)
theory Kdq
  imports Prelude
begin

text \<open>
  The double-ended queue of \<open>src/kdq.h\<close> (instantiated as the queue of page updates): an array of
  \<open>2^bits\<close> cells with the index of the first element and the number of elements. Elements of the
  array are addressed by their index, so a returned pointer is an index. Cells that
  \<open>malloc\<close> and \<open>realloc\<close> leave uninitialised hold the parameter \<open>junk\<close>.
  Indices and sizes are natural numbers, where the code has a \<open>size_t\<close> split into 58 and 6 bits and two
  more of them: they stay below \<open>2^bits\<close>, so nothing wraps as long as \<open>bits\<close> is less than 58, that
  is, as long as the array fits into memory. \<open>arms_malloc\<close> and \<open>realloc\<close> do not fail here; the code
  does not test their results.
  \<open>kdq_list\<close> is the sequence of elements from front to back.
\<close>

record 'a kdq =
  q_front :: nat
  q_bits :: nat
  q_count :: nat
  q_mask :: nat
  q_a :: "'a list"

section \<open>The operations\<close>

definition memmove :: "'a list \<Rightarrow> nat \<Rightarrow> nat \<Rightarrow> nat \<Rightarrow> 'a list" where
  "memmove a dst src n = take dst a @ take n (drop src a) @ drop (dst + n) a"

definition realloc :: "'a \<Rightarrow> 'a list \<Rightarrow> nat \<Rightarrow> 'a list" where
  "realloc junk a n = take n a @ replicate (n - length a) junk"

definition kdq_init :: "'a \<Rightarrow> 'a kdq" where
  "kdq_init junk = \<lparr>q_front = 0, q_bits = 2, q_count = 0, q_mask = 2 ^ 2 - 1, q_a = replicate (2 ^ 2) junk\<rparr>"

fun first_bits_above :: "nat \<Rightarrow> nat \<Rightarrow> nat \<Rightarrow> nat" where
  "first_bits_above count i 0 = i"
| "first_bits_above count i (Suc k) =
     (if 2 ^ i > count then i else first_bits_above count (Suc i) k)"

definition kdq_resize :: "'a \<Rightarrow> 'a kdq \<Rightarrow> nat \<Rightarrow> nat \<times> 'a kdq" where
  "kdq_resize junk q new_bits = (
     let new_bits = (if 2 ^ new_bits < q_count q then first_bits_above (q_count q) 0 64 else new_bits);
         new_size = 2 ^ new_bits;
         old_size = 2 ^ q_bits q
     in if new_bits = q_bits q then (q_bits q, q)
        else
          let q = (if new_bits > q_bits q then q\<lparr>q_a := realloc junk (q_a q) (2 ^ new_bits)\<rparr> else q);
              q = (if q_front q + q_count q \<le> old_size
                   then if q_front q + q_count q > new_size
                        then q\<lparr>q_a := memmove (q_a q) 0 new_size (q_front q + q_count q - new_size)\<rparr>
                        else q
                   else q\<lparr>q_a := memmove (q_a q) (new_size - (old_size - q_front q)) (q_front q)
                                   (old_size - q_front q),
                          q_front := new_size - (old_size - q_front q)\<rparr>);
              q = q\<lparr>q_bits := new_bits, q_mask := 2 ^ new_bits - 1\<rparr>;
              q = (if new_bits < q_bits q then q\<lparr>q_a := realloc junk (q_a q) (2 ^ new_bits)\<rparr> else q)
          in (q_bits q, q))"

definition kdq_grow :: "'a \<Rightarrow> 'a kdq \<Rightarrow> 'a kdq" where
  "kdq_grow junk q =
     (if q_count q = 2 ^ q_bits q then snd (kdq_resize junk q (q_bits q + 1)) else q)"

definition kdq_pushp :: "'a \<Rightarrow> 'a kdq \<Rightarrow> nat \<times> 'a kdq" where
  "kdq_pushp junk q = (
     let q = kdq_grow junk q
     in ((q_count q + q_front q) AND q_mask q, q\<lparr>q_count := q_count q + 1\<rparr>))"

definition kdq_push :: "'a \<Rightarrow> 'a kdq \<Rightarrow> 'a \<Rightarrow> 'a kdq" where
  "kdq_push junk q v = (
     let q = kdq_grow junk q
     in q\<lparr>q_a := (q_a q)[(q_count q + q_front q) AND q_mask q := v], q_count := q_count q + 1\<rparr>)"

definition kdq_unshiftp :: "'a \<Rightarrow> 'a kdq \<Rightarrow> nat \<times> 'a kdq" where
  "kdq_unshiftp junk q = (
     let q = kdq_grow junk q;
         q = q\<lparr>q_count := q_count q + 1\<rparr>;
         q = q\<lparr>q_front := (if q_front q \<noteq> 0 then q_front q - 1 else 2 ^ q_bits q - 1)\<rparr>
     in (q_front q, q))"

definition kdq_unshift :: "'a \<Rightarrow> 'a kdq \<Rightarrow> 'a \<Rightarrow> 'a kdq" where
  "kdq_unshift junk q v = (let (p, q) = kdq_unshiftp junk q in q\<lparr>q_a := (q_a q)[p := v]\<rparr>)"

definition kdq_pop :: "'a kdq \<Rightarrow> nat option \<times> 'a kdq" where
  "kdq_pop q =
     (if q_count q \<noteq> 0
      then let q = q\<lparr>q_count := q_count q - 1\<rparr> in (Some ((q_count q + q_front q) AND q_mask q), q)
      else (None, q))"

definition kdq_shift :: "'a kdq \<Rightarrow> nat option \<times> 'a kdq" where
  "kdq_shift q =
     (if q_count q = 0 then (None, q)
      else let d = q_front q;
               q = q\<lparr>q_front := q_front q + 1\<rparr>;
               q = q\<lparr>q_front := q_front q AND q_mask q\<rparr>
           in (Some d, q\<lparr>q_count := q_count q - 1\<rparr>))"

definition kdq_first :: "'a kdq \<Rightarrow> 'a" where
  "kdq_first q = q_a q ! q_front q"

text \<open>The subtraction of one wraps in \<open>size_t\<close>: an empty queue at the front reads its last cell.\<close>

definition kdq_last :: "'a kdq \<Rightarrow> 'a" where
  "kdq_last q = q_a q ! ((q_front q + q_count q + (2 ^ 64 - 1)) mod 2 ^ 64 AND q_mask q)"

definition kdq_at :: "'a kdq \<Rightarrow> nat \<Rightarrow> 'a" where
  "kdq_at q i = q_a q ! ((q_front q + i) AND q_mask q)"

section \<open>Well-formedness and contents\<close>

definition kdq_wf :: "'a kdq \<Rightarrow> bool" where
  "kdq_wf q \<longleftrightarrow> q_mask q = 2 ^ q_bits q - 1 \<and> length (q_a q) = 2 ^ q_bits q \<and>
     q_front q < 2 ^ q_bits q \<and> q_count q \<le> 2 ^ q_bits q"

definition kdq_list :: "'a kdq \<Rightarrow> 'a list" where
  "kdq_list q = map (\<lambda>i. q_a q ! ((q_front q + i) mod 2 ^ q_bits q)) [0..<q_count q]"

lemma length_kdq_list [simp]: "length (kdq_list q) = q_count q"
  by (simp add: kdq_list_def)

lemma kdq_list_nth:
  "i < q_count q \<Longrightarrow> kdq_list q ! i = q_a q ! ((q_front q + i) mod 2 ^ q_bits q)"
  by (simp add: kdq_list_def)

lemma and_exp_minus_1: "(n :: nat) AND (2 ^ k - 1) = n mod 2 ^ k"
  by (metis mask_eq_exp_minus_1 take_bit_eq_mask take_bit_eq_mod)

lemma kdq_mask: "kdq_wf q \<Longrightarrow> n AND q_mask q = n mod 2 ^ q_bits q"
  using and_exp_minus_1 [of n "q_bits q"] by (simp add: kdq_wf_def)

lemma kdq_last_list:
  assumes wf: "kdq_wf q" and b: "q_bits q \<le> 58" and ne: "q_count q \<noteq> 0"
  shows "kdq_last q = last (kdq_list q)"
proof -
  have "q_front q + q_count q + (2 ^ 64 - 1) = (q_front q + (q_count q - 1)) + 2 ^ 64" using ne by simp
  moreover have "(2 :: nat) ^ q_bits q dvd 2 ^ 64" using b by (intro le_imp_power_dvd) simp
  ultimately have "(q_front q + q_count q + (2 ^ 64 - 1)) mod 2 ^ 64 mod 2 ^ q_bits q = (q_front q + (q_count q - 1)) mod 2 ^ q_bits q"
    by (metis mod_add_self2 mod_mod_cancel)
  moreover have "kdq_list q \<noteq> []" using ne by (metis length_kdq_list list.size(3))
  ultimately show ?thesis using ne by (simp add: kdq_last_def kdq_mask [OF wf] last_conv_nth kdq_list_nth del: power_numeral)
qed

lemma kdq_init_wf: "kdq_wf (kdq_init junk)" and kdq_init_list: "kdq_list (kdq_init junk) = []"
  by (simp_all add: kdq_wf_def kdq_init_def kdq_list_def)

lemma nth_memmove:
  assumes "dst + n \<le> length a" and "src + n \<le> length a" and "i < length a"
  shows "memmove a dst src n ! i = (if dst \<le> i \<and> i < dst + n then a ! (src + (i - dst)) else a ! i)"
  using assms by (auto simp: memmove_def nth_append)

lemma length_memmove: "dst + n \<le> length a \<Longrightarrow> src + n \<le> length a \<Longrightarrow> length (memmove a dst src n) = length a"
  by (simp add: memmove_def)

text \<open>Growing the array keeps the contents, whether or not they wrap around its end.\<close>

lemma kdq_resize_grow:
  assumes wf: "kdq_wf q" and nb: "q_bits q < nb"
  shows "kdq_wf (snd (kdq_resize junk q nb)) \<and> kdq_list (snd (kdq_resize junk q nb)) = kdq_list q \<and>
    q_count (snd (kdq_resize junk q nb)) = q_count q \<and> q_bits (snd (kdq_resize junk q nb)) = nb"
proof -
  let ?S = "2 ^ q_bits q :: nat" and ?N = "2 ^ nb :: nat"
  have S: "length (q_a q) = ?S" "q_front q < ?S" "q_count q \<le> ?S" using wf by (simp_all add: kdq_wf_def)
  have "?S < ?N" using nb by simp
  have "?S * 2 = 2 ^ Suc (q_bits q)" by simp
  also have "\<dots> \<le> ?N" using nb by (intro power_increasing) auto
  finally have N: "2 * ?S \<le> ?N" by simp
  define a where "a = realloc junk (q_a q) ?N"
  have a: "length a = ?N" "\<And>i. i < ?S \<Longrightarrow> a ! i = q_a q ! i"
    using S(1) \<open>?S < ?N\<close> by (auto simp: a_def realloc_def nth_append)
  have nofit: "\<not> ?N < q_count q" using S(3) \<open>?S < ?N\<close> by linarith
  show ?thesis
  proof (cases "q_front q + q_count q \<le> ?S")
    case True
    then have r: "snd (kdq_resize junk q nb) = q\<lparr>q_a := a, q_bits := nb, q_mask := ?N - 1\<rparr>"
    proof -
      have fits: "\<not> ?N < q_front q + q_count q" using True \<open>?S < ?N\<close> by linarith
      show ?thesis using True nb by (simp add: kdq_resize_def a_def Let_def nofit fits)
    qed
    have lt: "q_front q < ?N" "q_count q \<le> ?N" using S \<open>?S < ?N\<close> by linarith+
    have "q_front q + i < ?S" "q_front q + i < ?N" if "i < q_count q" for i
      using that True \<open>?S < ?N\<close> by linarith+
    then show ?thesis
      unfolding r using a lt by (auto simp: kdq_wf_def kdq_list_def)
  next
    case False
    define f where "f = ?N - (?S - q_front q)"
    have r: "snd (kdq_resize junk q nb) =
        q\<lparr>q_a := memmove a f (q_front q) (?S - q_front q), q_front := f, q_bits := nb, q_mask := ?N - 1\<rparr>"
      using False nb by (simp add: kdq_resize_def a_def f_def Let_def nofit)
    have f: "f + (?S - q_front q) = ?N" "f < ?N" using S(2) \<open>?S < ?N\<close> unfolding f_def by linarith+
    have pre: "f + (?S - q_front q) \<le> length a" "q_front q + (?S - q_front q) \<le> length a"
      using f(1) S(2) a(1) \<open>?S < ?N\<close> by linarith+
    have mv: "memmove a f (q_front q) (?S - q_front q) ! ((f + i) mod ?N) =
        q_a q ! ((q_front q + i) mod ?S)" if "i < q_count q" for i
    proof (cases "i < ?S - q_front q")
      case True
      then have "(f + i) mod ?N = f + i" using f by simp
      moreover have "f + i < ?N" "q_front q + i < ?S" using True f S(2) by linarith+
      moreover have "f + i < f + (?S - q_front q)" using True by linarith
      ultimately show ?thesis using f(2) a nth_memmove [OF pre, of "f + i"] by simp
    next
      case 2: False
      then have "(f + i) mod ?N = i - (?S - q_front q)" "(q_front q + i) mod ?S = i - (?S - q_front q)"
        using that S f N 2 by (auto simp: mod_if)
      moreover have "i - (?S - q_front q) < f" "i - (?S - q_front q) < ?S"
        "i - (?S - q_front q) < ?N" using that S f N by linarith+
      ultimately show ?thesis using f a by (simp add: nth_memmove [OF pre])
    qed
    have "q_count q \<le> ?N" using S(3) \<open>?S < ?N\<close> by linarith
    then show ?thesis
      unfolding r using a f(2) mv length_memmove [OF pre] by (auto simp: kdq_wf_def kdq_list_def)
  qed
qed

lemma kdq_grow:
  assumes "kdq_wf q"
  shows "kdq_wf (kdq_grow junk q)" "kdq_list (kdq_grow junk q) = kdq_list q"
    "q_count (kdq_grow junk q) = q_count q" "q_count (kdq_grow junk q) < 2 ^ q_bits (kdq_grow junk q)"
  using kdq_resize_grow [OF assms, of "q_bits q + 1" junk] assms
  by (auto simp: kdq_grow_def kdq_wf_def)

section \<open>Each operation refines the list of elements\<close>

lemma kdq_push_list:
  assumes "kdq_wf q"
  shows "kdq_wf (kdq_push junk q v)" "kdq_list (kdq_push junk q v) = kdq_list q @ [v]"
proof -
  define g where "g = kdq_grow junk q"
  note G = kdq_grow [OF assms, of junk, folded g_def]
  have len: "length (q_a g) = 2 ^ q_bits g" using G(1) by (simp add: kdq_wf_def)
  have push: "kdq_push junk q v =
      g\<lparr>q_a := (q_a g)[(q_front g + q_count g) mod 2 ^ q_bits g := v], q_count := q_count g + 1\<rparr>"
    by (simp add: kdq_push_def Let_def g_def [symmetric] kdq_mask [OF G(1)] add.commute)
  show "kdq_wf (kdq_push junk q v)" unfolding push using G by (simp add: kdq_wf_def)
  show "kdq_list (kdq_push junk q v) = kdq_list q @ [v]"
  proof (rule nth_equalityI)
    show "length (kdq_list (kdq_push junk q v)) = length (kdq_list q @ [v])"
      using G(3) by (simp add: push)
    fix i assume "i < length (kdq_list (kdq_push junk q v))"
    then have i: "i < Suc (q_count g)" by (simp add: push)
    have "(q_front g + i) mod 2 ^ q_bits g \<noteq> (q_front g + q_count g) mod 2 ^ q_bits g"
      if "i \<noteq> q_count g"
      using mod_add_left_inj [of "q_front g" i "2 ^ q_bits g" "q_count g"] i G(4) that by auto
    then show "kdq_list (kdq_push junk q v) ! i = (kdq_list q @ [v]) ! i"
      using i len G(2,3) by (auto simp: push kdq_list_nth nth_append less_Suc_eq nth_list_update
        simp flip: G(2))
  qed
qed

lemma kdq_shift_empty: "kdq_list q = [] \<Longrightarrow> kdq_shift q = (None, q)"
  by (simp add: kdq_shift_def kdq_list_def)

lemma kdq_shift_list:
  assumes "kdq_wf q" and "kdq_list q \<noteq> []"
  shows "\<exists>q'. kdq_shift q = (Some (q_front q), q') \<and> q_a q ! q_front q = hd (kdq_list q) \<and>
    kdq_wf q' \<and> kdq_list q' = tl (kdq_list q)"
proof -
  have c: "q_count q \<noteq> 0" using assms(2) by (simp add: kdq_list_def)
  let ?S = "2 ^ q_bits q :: nat"
  have f: "q_front q < ?S" using assms(1) by (simp add: kdq_wf_def)
  define q' where "q' = q\<lparr>q_front := Suc (q_front q) mod ?S, q_count := q_count q - 1\<rparr>"
  have "kdq_shift q = (Some (q_front q), q')"
    using c kdq_mask [OF assms(1)] by (simp add: kdq_shift_def Let_def q'_def)
  moreover have "kdq_wf q'" using assms(1) by (simp add: kdq_wf_def q'_def le_trans [OF diff_le_self])
  moreover have "kdq_list q' = tl (kdq_list q)"
  proof (rule nth_equalityI)
    fix i assume "i < length (kdq_list q')"
    then have i: "Suc i < q_count q" by (simp add: q'_def)
    then show "kdq_list q' ! i = tl (kdq_list q) ! i"
      by (simp add: nth_tl kdq_list_nth q'_def mod_simps)
  qed (simp add: q'_def)
  moreover have "q_a q ! q_front q = hd (kdq_list q)"
    using c f by (simp add: kdq_list_def hd_map hd_upt)
  ultimately show ?thesis by blast
qed

lemma kdq_pop_list:
  assumes "kdq_wf q" and "kdq_list q \<noteq> []"
  shows "\<exists>i q'. kdq_pop q = (Some i, q') \<and> q_a q ! i = last (kdq_list q) \<and>
    kdq_wf q' \<and> kdq_list q' = butlast (kdq_list q)"
proof -
  have c: "q_count q \<noteq> 0" using assms(2) by (simp add: kdq_list_def)
  let ?i = "(q_front q + (q_count q - 1)) mod 2 ^ q_bits q" and ?q = "q\<lparr>q_count := q_count q - 1\<rparr>"
  have "kdq_pop q = (Some ?i, ?q)"
    using c kdq_mask [OF assms(1)] by (simp add: kdq_pop_def Let_def add.commute)
  moreover have "q_a q ! ?i = last (kdq_list q)"
    using c assms(2) by (simp add: last_conv_nth kdq_list_nth)
  moreover have "kdq_wf ?q" using assms(1) by (simp add: kdq_wf_def le_trans [OF diff_le_self])
  moreover have "kdq_list ?q = butlast (kdq_list q)"
    by (rule nth_equalityI) (simp_all add: nth_butlast kdq_list_nth)
  ultimately show ?thesis by blast
qed

lemma kdq_unshift_list:
  assumes "kdq_wf q"
  shows "kdq_wf (kdq_unshift junk q v)" "kdq_list (kdq_unshift junk q v) = v # kdq_list q"
proof -
  define g where "g = kdq_grow junk q"
  note G = kdq_grow [OF assms, of junk, folded g_def]
  let ?S = "2 ^ q_bits g :: nat"
  have len: "length (q_a g) = ?S" "q_front g < ?S" using G(1) by (simp_all add: kdq_wf_def)
  define f where "f = (if q_front g \<noteq> 0 then q_front g - 1 else ?S - 1)"
  have f: "f < ?S" "Suc f mod ?S = q_front g" using len(2) by (auto simp: f_def)
  have un: "kdq_unshift junk q v = g\<lparr>q_count := q_count g + 1, q_front := f, q_a := (q_a g)[f := v]\<rparr>"
    by (simp add: kdq_unshift_def kdq_unshiftp_def Let_def g_def [symmetric] f_def)
  show "kdq_wf (kdq_unshift junk q v)" unfolding un using G f(1) by (simp add: kdq_wf_def)
  show "kdq_list (kdq_unshift junk q v) = v # kdq_list q"
  proof (rule nth_equalityI)
    show "length (kdq_list (kdq_unshift junk q v)) = length (v # kdq_list q)" using G(3) by (simp add: un)
    fix i assume "i < length (kdq_list (kdq_unshift junk q v))"
    then have i: "i < Suc (q_count g)" by (simp add: un)
    show "kdq_list (kdq_unshift junk q v) ! i = (v # kdq_list q) ! i"
    proof (cases i)
      case 0
      then show ?thesis using f(1) len by (simp add: un kdq_list_nth)
    next
      case (Suc j)
      then have j: "j < q_count g" using i by simp
      have e: "(f + i) mod ?S = (q_front g + j) mod ?S"
        using f(2) Suc by (metis add_Suc_shift mod_add_left_eq)
      moreover have "(f + i) mod ?S \<noteq> f"
        using mod_add_left_inj [of f i ?S 0] f(1) i G(4) Suc by auto
      moreover have "kdq_list q ! j = q_a g ! ((q_front g + j) mod ?S)"
        using kdq_list_nth [OF j] G(2) by simp
      ultimately show ?thesis using Suc i by (simp add: un kdq_list_nth del: add_Suc_right)
    qed
  qed
qed

section \<open>The contract of a work queue\<close>

locale work_queue =
  fixes wf :: "'q \<Rightarrow> bool"
    and contents :: "'q \<Rightarrow> 'a list"
    and push :: "'q \<Rightarrow> 'a \<Rightarrow> 'q"
    and shift :: "'q \<Rightarrow> nat option \<times> 'q"
    and cell :: "'q \<Rightarrow> nat \<Rightarrow> 'a"
  assumes push_wf: "wf q \<Longrightarrow> wf (push q v)"
    and push_contents: "wf q \<Longrightarrow> contents (push q v) = contents q @ [v]"
    and shift_none: "contents q = [] \<Longrightarrow> shift q = (None, q)"
    and shift_some: "wf q \<Longrightarrow> contents q \<noteq> [] \<Longrightarrow>
      \<exists>i q'. shift q = (Some i, q') \<and> cell q i = hd (contents q) \<and> wf q' \<and> contents q' = tl (contents q)"

datatype 'a dq_op = Push 'a | Shift

text \<open>A run of a work queue, and the same run on a list: the values that the shifts return.\<close>

fun run_queue :: "('q \<Rightarrow> 'a \<Rightarrow> 'q) \<Rightarrow> ('q \<Rightarrow> nat option \<times> 'q) \<Rightarrow> ('q \<Rightarrow> nat \<Rightarrow> 'a) \<Rightarrow>
    'q \<Rightarrow> 'a dq_op list \<Rightarrow> 'a option list" where
  "run_queue push shift cell q [] = []"
| "run_queue push shift cell q (Push v # ops) = run_queue push shift cell (push q v) ops"
| "run_queue push shift cell q (Shift # ops) =
     (case shift q of (p, q') \<Rightarrow>
        map_option (cell q) p # run_queue push shift cell q' ops)"

fun run_list :: "'a list \<Rightarrow> 'a dq_op list \<Rightarrow> 'a option list" where
  "run_list xs [] = []"
| "run_list xs (Push v # ops) = run_list (xs @ [v]) ops"
| "run_list [] (Shift # ops) = None # run_list [] ops"
| "run_list (x # xs) (Shift # ops) = Some x # run_list xs ops"

context work_queue
begin

lemma run_refines: "wf q \<Longrightarrow> run_queue push shift cell q ops = run_list (contents q) ops"
proof (induction ops arbitrary: q)
  case (Cons op ops)
  show ?case
  proof (cases op)
    case (Push v)
    then show ?thesis using Cons push_wf push_contents by simp
  next
    case Shift
    show ?thesis
    proof (cases "contents q")
      case Nil
      then show ?thesis using Shift Cons shift_none by simp
    next
      case (Cons x xs)
      then obtain i q' where "shift q = (Some i, q')" "cell q i = x" "wf q'" "contents q' = xs"
        using shift_some [OF Cons.prems] by auto
      then show ?thesis using Shift Cons Cons.IH by simp
    qed
  qed
qed simp

end

interpretation modq: work_queue kdq_wf kdq_list "kdq_push junk" kdq_shift "\<lambda>q i. q_a q ! i"
  by unfold_locales
     (auto intro: kdq_push_list kdq_shift_empty dest: kdq_shift_list)

section \<open>Properties\<close>

text \<open>
  C13: The growing array queue of page changes returns for every sequence of pushes and shifts
  what a list returns, across wrap-around and doubling of the array, as long as the array can be
  allocated.
\<close>

lemma queue_refines_list:
  "run_queue (kdq_push junk) kdq_shift (\<lambda>q i. q_a q ! i) (kdq_init junk) ops = run_list [] ops"
  using modq.run_refines [OF kdq_init_wf] by (simp add: kdq_init_list)

end
