(* ===== verification/Arms_Types.thy ===== *)
theory Arms_Types
  imports Prelude
begin

text \<open>
  The data of \<open>src/arms.h\<close> and \<open>src/pebs.h\<close>: page sizes and masks, the enumerations, and the page
  descriptor. The link fields of \<open>struct arms_page\<close> are not part of the record here: they
  are heaps of their own in the theory Fifo. The floating-point fields are rational
  numbers (theory Ieee says how they are rounded); \<open>page_lock\<close> is not state, since every
  critical section of a page is one step of the model.
\<close>

definition BASEPAGE_SIZE :: u64 where "BASEPAGE_SIZE = 4 * 1024"
definition HUGEPAGE_SIZE :: u64 where "HUGEPAGE_SIZE = 2 * 1024 * 1024"
definition GIGAPAGE_SIZE :: u64 where "GIGAPAGE_SIZE = 1024 * 1024 * 1024"
definition PAGE_SIZE :: u64 where "PAGE_SIZE = HUGEPAGE_SIZE"

definition BASEPAGE_MASK :: u64 where "BASEPAGE_MASK = BASEPAGE_SIZE - 1"
definition HUGEPAGE_MASK :: u64 where "HUGEPAGE_MASK = HUGEPAGE_SIZE - 1"
definition GIGAPAGE_MASK :: u64 where "GIGAPAGE_MASK = GIGAPAGE_SIZE - 1"
definition UINT64_MAX :: u64 where "UINT64_MAX = 2 ^ 64 - 1"
definition BASE_PFN_MASK :: u64 where "BASE_PFN_MASK = BASEPAGE_MASK XOR UINT64_MAX"
definition HUGE_PFN_MASK :: u64 where "HUGE_PFN_MASK = HUGEPAGE_MASK XOR UINT64_MAX"
definition GIGA_PFN_MASK :: u64 where "GIGA_PFN_MASK = GIGAPAGE_MASK XOR UINT64_MAX"

datatype memtypes = FASTMEM | SLOWMEM
datatype pagetypes = HUGEP | BASEP
datatype pbuftype = DRAMREAD | NVMREAD | WRITE

fun pt_to_pagesize :: "pagetypes \<Rightarrow> u64" where
  "pt_to_pagesize HUGEP = HUGEPAGE_SIZE"
| "pt_to_pagesize BASEP = BASEPAGE_SIZE"

definition pagesize_to_pt :: "u64 \<Rightarrow> pagetypes option" where
  "pagesize_to_pt pagesize =
     (if pagesize = BASEPAGE_SIZE then Some BASEP
      else if pagesize = HUGEPAGE_SIZE then Some HUGEP
      else None)"

record arms_page =
  va :: u64
  devdax_offset :: u64
  in_dram :: bool
  pt :: pagetypes
  migrating :: bool
  present :: bool
  accesses :: "pbuftype \<Rightarrow> u8 \<Rightarrow> u16"
  page_w :: "rat list"
  score :: rat
  prev_score :: rat
  hot_age :: u16
  can_promote :: bool

definition WINDOW_SIZE :: nat where "WINDOW_SIZE = 2"

text \<open>What \<open>calloc\<close> hands out: every field zero (\<open>HUGEP\<close> is 0).\<close>

definition zero_page :: arms_page where
  "zero_page = \<lparr>va = 0, devdax_offset = 0, in_dram = False, pt = HUGEP, migrating = False,
     present = False, accesses = \<lambda>_ _. 0, page_w = replicate WINDOW_SIZE 0, score = 0, prev_score = 0,
     hot_age = 0, can_promote = False\<rparr>"

lemmas page_size_defs = PAGE_SIZE_def HUGEPAGE_SIZE_def BASEPAGE_SIZE_def GIGAPAGE_SIZE_def

lemma pagesize_pt_inverse: "pagesize_to_pt (pt_to_pagesize p) = Some p"
  by (cases p) (simp_all add: pagesize_to_pt_def page_size_defs)

lemma pagesize_to_pt_Some: "pagesize_to_pt n = Some p \<Longrightarrow> pt_to_pagesize p = n"
  by (auto simp: pagesize_to_pt_def split: if_splits)

lemma pt_to_pagesize_pos [simp]: "pt_to_pagesize p \<noteq> 0"
  by (cases p) (simp_all add: page_size_defs)

text \<open>Masking with a power of two: \<open>addr & ~(PAGE_SIZE - 1)\<close> and \<open>addr & HUGE_PFN_MASK\<close>.\<close>

lemma HUGE_PFN_MASK_eq: "HUGE_PFN_MASK = NOT (mask 21)"
  by (simp add: HUGE_PFN_MASK_def HUGEPAGE_MASK_def HUGEPAGE_SIZE_def UINT64_MAX_def mask_eq_exp_minus_1)

lemma PAGE_SIZE_mask: "PAGE_SIZE - 1 = mask 21"
  by (simp add: page_size_defs mask_eq_exp_minus_1)

lemma unat_PAGE_SIZE: "unat PAGE_SIZE = 2 ^ 21"
  by (simp add: page_size_defs)

lemma and_not_mask_mod:
  fixes x :: u64
  shows "unat (x AND NOT (mask n)) = unat x - unat x mod 2 ^ n"
proof -
  have "take_bit n x + (x AND NOT (mask n)) = take_bit n x OR (x AND NOT (mask n))"
    by (rule disjunctive_add_eq_or) (auto intro!: bit_eqI simp: bit_simps)
  also have "\<dots> = x" by (rule bit_eqI) (auto simp: bit_simps)
  finally have "x AND NOT (mask n) = x - take_bit n x" by (metis add_diff_cancel_left')
  moreover have "unat (take_bit n x) = unat x mod 2 ^ n"
    by (simp add: unsigned_take_bit_eq flip: take_bit_eq_mod)
  ultimately show ?thesis
    by (simp add: unat_sub word_le_nat_alt)
qed

end
