(* ===== verification/Arms_State.thy ===== *)
theory Arms_State
  imports Arms_Types
begin

text \<open>
  The state of \<open>src/arms.c\<close> and its work on one page: write protection, the copy between the
  two memory devices, the remapping, and the helper threads that share a copy.
  \<open>dram_mem\<close> and \<open>nvm_mem\<close> are the bytes of the two devices by offset
  (\<open>dram_devdax_mmap + offset\<close> in the code), \<open>vmap\<close> is what the kernel maps at the start of a
  page of the application, \<open>wprot\<close> its write protection, \<open>body\<close> the page descriptors by address.
  The kernel is the parameter \<open>kernel\<close>: what \<open>mmap\<close> and the \<open>ioctl\<close>s answer. A fixed mapping
  that succeeds replaces what was mapped before and is not write protected.
\<close>

type_synonym mem = "u64 \<Rightarrow> u8"

record arms_state =
  body :: "addr \<Rightarrow> arms_page"
  dram_mem :: mem
  nvm_mem :: mem
  vmap :: "u64 \<Rightarrow> (memtypes \<times> u64) option"
  wprot :: "u64 \<Rightarrow> bool"
  dramsize :: u64
  nvmsize :: u64
  internal_call :: bool
  mem_mmaped :: u64
  mem_allocated :: u64
  pages_allocated :: u64
  pages_freed :: u64
  missing_faults_handled :: u64
  migrations_up :: u64
  migrations_down :: u64
  bytes_migrated :: u64
  memsets :: u64
  migration_waits :: u64

text \<open>
  \<open>k_copy src dst s d n\<close> is the new content of the device \<open>dst\<close> after copying \<open>n\<close> bytes from
  offset \<open>s\<close> of the device \<open>src\<close> to its offset \<open>d\<close>; the other fields give the result of
  \<open>mmap(MAP_FIXED)\<close>, of \<open>UFFDIO_REGISTER\<close> and of \<open>UFFDIO_WRITEPROTECT\<close>. \<open>None\<close> or \<open>False\<close> is a failure.
\<close>

record kernel =
  k_copy :: "mem \<Rightarrow> mem \<Rightarrow> u64 \<Rightarrow> u64 \<Rightarrow> u64 \<Rightarrow> mem option"
  k_mmap :: "u64 \<Rightarrow> u64 \<Rightarrow> u64 option"
  k_register :: "u64 \<Rightarrow> u64 \<Rightarrow> bool"
  k_writeprotect :: "u64 \<Rightarrow> bool \<Rightarrow> bool"

text \<open>The static storage of the program before \<open>arms_init\<close>: every field zero.\<close>

definition arms_start :: arms_state where
  "arms_start = \<lparr>body = \<lambda>_. zero_page, dram_mem = \<lambda>_. 0, nvm_mem = \<lambda>_. 0, vmap = Map.empty,
     wprot = \<lambda>_. False, dramsize = 0, nvmsize = 0, internal_call = False, mem_mmaped = 0,
     mem_allocated = 0, pages_allocated = 0, pages_freed = 0, missing_faults_handled = 0,
     migrations_up = 0, migrations_down = 0, bytes_migrated = 0, memsets = 0, migration_waits = 0\<rparr>"

section \<open>The copy\<close>

text \<open>What a copy of \<open>n\<close> bytes has to do, and the fill with zeros.\<close>

definition mem_copy :: "mem \<Rightarrow> mem \<Rightarrow> u64 \<Rightarrow> u64 \<Rightarrow> u64 \<Rightarrow> mem" where
  "mem_copy src dst s d n = (\<lambda>x. if x - d < n then src (s + (x - d)) else dst x)"

definition mem_zero :: "mem \<Rightarrow> u64 \<Rightarrow> u64 \<Rightarrow> mem" where
  "mem_zero m d n = (\<lambda>x. if x - d < n then 0 else m x)"

definition MAX_COPY_THREADS :: u64 where "MAX_COPY_THREADS = 4"

text \<open>
  The copy threads: \<open>None\<close> as the source stands for \<open>write_zeros\<close>. Each one copies the chunk that
  its number selects; the two barriers make the call return after all of them, in any order.
\<close>

definition memcpy_thread :: "mem option \<Rightarrow> u64 \<Rightarrow> u64 \<Rightarrow> u64 \<Rightarrow> u64 \<Rightarrow> mem \<Rightarrow> mem option" where
  "memcpy_thread src s d len tid m = do {
     assert_that (tid < MAX_COPY_THREADS);
     let chunk_size = len div MAX_COPY_THREADS;
     let dst = d + tid * chunk_size;
     let s' = s + tid * chunk_size;
     Some (case src of
             None \<Rightarrow> mem_zero m dst chunk_size
           | Some sm \<Rightarrow> mem_copy sm m s' dst chunk_size)
   }"

fun run_copy_threads :: "mem option \<Rightarrow> u64 \<Rightarrow> u64 \<Rightarrow> u64 \<Rightarrow> u64 list \<Rightarrow> mem \<Rightarrow> mem option" where
  "run_copy_threads src s d len [] m = Some m"
| "run_copy_threads src s d len (tid # tids) m = do {
     m \<leftarrow> memcpy_thread src s d len tid m;
     run_copy_threads src s d len tids m
   }"

definition arms_parallel_memcpy :: "u64 list \<Rightarrow> mem \<Rightarrow> mem \<Rightarrow> u64 \<Rightarrow> u64 \<Rightarrow> u64 \<Rightarrow> mem option" where
  "arms_parallel_memcpy order src dst s d len = run_copy_threads (Some src) s d len order dst"

definition arms_parallel_memset :: "u64 list \<Rightarrow> mem \<Rightarrow> u64 \<Rightarrow> u64 \<Rightarrow> mem option" where
  "arms_parallel_memset order m d len = run_copy_threads None 0 d len order m"

section \<open>Migration of a page\<close>

definition arms_wp_page :: "kernel \<Rightarrow> 'a arms_state_scheme \<Rightarrow> addr \<Rightarrow> bool \<Rightarrow> 'a arms_state_scheme option" where
  "arms_wp_page K s p protect = do {
     assert_that (p \<noteq> NULL);
     let a = va (body s p);
     assert_that (a \<noteq> 0);
     assert_that (a mod HUGEPAGE_SIZE = 0);
     assert_that (k_writeprotect K a protect);
     Some (s\<lparr>wprot := (wprot s)(a := protect), internal_call := False\<rparr>)
   }"

text \<open>The copy of \<open>arms_migrate_up\<close>, with the checks of the two ranges before it.\<close>

definition migrate_up_copy :: "kernel \<Rightarrow> 'a arms_state_scheme \<Rightarrow> addr \<Rightarrow> u64 \<Rightarrow> 'a arms_state_scheme option" where
  "migrate_up_copy K s p dram_offset = do {
     assert_that (p \<noteq> NULL);
     assert_that (\<not> in_dram (body s p));
     let pagesize = pt_to_pagesize (pt (body s p));
     let old = devdax_offset (body s p);
     assert_that (old < nvmsize s);
     assert_that (old + pagesize \<le> nvmsize s);
     assert_that (dram_offset < dramsize s);
     assert_that (dram_offset + pagesize \<le> dramsize s);
     m \<leftarrow> k_copy K (nvm_mem s) (dram_mem s) old dram_offset pagesize;
     Some (s\<lparr>dram_mem := m, internal_call := True\<rparr>)
   }"

text \<open>Its second half: the new mapping, its registration, and the update of the descriptor.\<close>

definition migrate_up_remap :: "kernel \<Rightarrow> 'a arms_state_scheme \<Rightarrow> addr \<Rightarrow> u64 \<Rightarrow> 'a arms_state_scheme option" where
  "migrate_up_remap K s p dram_offset = do {
     let pagesize = pt_to_pagesize (pt (body s p));
     newptr \<leftarrow> k_mmap K (va (body s p)) pagesize;
     assert_that (va (body s p) mod HUGEPAGE_SIZE = 0);
     assert_that (k_register K newptr pagesize);
     Some (s\<lparr>vmap := (vmap s)(newptr \<mapsto> (FASTMEM, dram_offset)),
             wprot := (wprot s)(newptr := False),
             migrations_up := migrations_up s + 1,
             body := (body s)(p := (body s p)\<lparr>devdax_offset := dram_offset, in_dram := True\<rparr>),
             bytes_migrated := bytes_migrated s + pagesize,
             internal_call := False\<rparr>)
   }"

definition arms_migrate_up :: "kernel \<Rightarrow> 'a arms_state_scheme \<Rightarrow> addr \<Rightarrow> u64 \<Rightarrow> 'a arms_state_scheme option" where
  "arms_migrate_up K s p dram_offset = do {
     s \<leftarrow> migrate_up_copy K s p dram_offset;
     migrate_up_remap K s p dram_offset
   }"

definition migrate_down_copy :: "kernel \<Rightarrow> 'a arms_state_scheme \<Rightarrow> addr \<Rightarrow> u64 \<Rightarrow> 'a arms_state_scheme option" where
  "migrate_down_copy K s p nvm_offset = do {
     assert_that (p \<noteq> NULL);
     assert_that (in_dram (body s p));
     let pagesize = pt_to_pagesize (pt (body s p));
     let old = devdax_offset (body s p);
     assert_that (old < dramsize s);
     assert_that (old + pagesize \<le> dramsize s);
     assert_that (nvm_offset < nvmsize s);
     assert_that (nvm_offset + pagesize \<le> nvmsize s);
     m \<leftarrow> k_copy K (dram_mem s) (nvm_mem s) old nvm_offset pagesize;
     Some (s\<lparr>nvm_mem := m, internal_call := True\<rparr>)
   }"

definition migrate_down_remap :: "kernel \<Rightarrow> 'a arms_state_scheme \<Rightarrow> addr \<Rightarrow> u64 \<Rightarrow> 'a arms_state_scheme option" where
  "migrate_down_remap K s p nvm_offset = do {
     let pagesize = pt_to_pagesize (pt (body s p));
     newptr \<leftarrow> k_mmap K (va (body s p)) pagesize;
     assert_that (va (body s p) mod HUGEPAGE_SIZE = 0);
     assert_that (k_register K newptr pagesize);
     Some (s\<lparr>vmap := (vmap s)(newptr \<mapsto> (SLOWMEM, nvm_offset)),
             wprot := (wprot s)(newptr := False),
             migrations_down := migrations_down s + 1,
             body := (body s)(p := (body s p)\<lparr>devdax_offset := nvm_offset, in_dram := False\<rparr>),
             bytes_migrated := bytes_migrated s + pagesize,
             internal_call := False\<rparr>)
   }"

definition arms_migrate_down :: "kernel \<Rightarrow> 'a arms_state_scheme \<Rightarrow> addr \<Rightarrow> u64 \<Rightarrow> 'a arms_state_scheme option" where
  "arms_migrate_down K s p nvm_offset = do {
     s \<leftarrow> migrate_down_copy K s p nvm_offset;
     migrate_down_remap K s p nvm_offset
   }"

section \<open>The parallel copy is a copy\<close>

lemma minus_less_iff:
  fixes y a c :: u64
  assumes "unat a + unat c \<le> 2 ^ 64"
  shows "y - a < c \<longleftrightarrow> unat a \<le> unat y \<and> unat y < unat a + unat c"
proof (cases "a \<le> y")
  case True
  then show ?thesis by (auto simp: word_less_nat_alt unat_sub word_le_nat_alt)
next
  case False
  then have lt: "unat y < unat a" by (simp add: word_le_nat_alt not_le)
  have "unat (y - a) = 2 ^ 64 + unat y - unat a" using lt by (simp add: unat_sub_if' not_le)
  then show ?thesis using lt assms by (simp add: word_less_nat_alt)
qed

lemma memcpy_thread_eq:
  assumes "tid < MAX_COPY_THREADS"
  shows "memcpy_thread src s d len tid m =
     Some (\<lambda>x. if (x - d) - tid * (len div MAX_COPY_THREADS) < len div MAX_COPY_THREADS
               then (case src of None \<Rightarrow> 0 | Some sm \<Rightarrow> sm (s + (x - d))) else m x)"
proof -
  have "s + t + (x - (d + t)) = s + (x - d)" "x - (d + t) = x - d - t" for x t :: u64
    by (simp_all add: algebra_simps)
  then show ?thesis
    using assms by (cases src) (simp_all only: memcpy_thread_def mem_copy_def mem_zero_def Let_def
      bind_assert_that if_True option.case)
qed

lemma run_copy_threads_eq:
  "\<forall>tid\<in>set tids. tid < MAX_COPY_THREADS \<Longrightarrow>
   run_copy_threads src s d len tids m =
     Some (\<lambda>x. if \<exists>tid\<in>set tids. (x - d) - tid * (len div MAX_COPY_THREADS) < len div MAX_COPY_THREADS
               then (case src of None \<Rightarrow> 0 | Some sm \<Rightarrow> sm (s + (x - d))) else m x)"
  by (induction tids arbitrary: m) (auto simp: memcpy_thread_eq fun_eq_iff)

lemma chunks_cover:
  fixes y len :: u64
  assumes "len mod 4 = 0"
  shows "(\<exists>tid\<in>{0, 1, 2, 3}. y - tid * (len div 4) < len div 4) \<longleftrightarrow> y < len"
proof -
  let ?c = "len div 4"
  have c: "unat ?c = unat len div 4" by (simp add: unat_div)
  have "unat (len mod 4) = 0" using assms by simp
  then have "unat len mod 4 = 0" unfolding unat_mod by simp
  then have len: "unat len = 4 * unat ?c" using mult_div_mod_eq [of 4 "unat len"] unfolding c by linarith
  have "4 * unat ?c < 2 ^ 64" using unat_less_u64 [of len] len by simp
  then have t: "unat (tid * ?c) = unat tid * unat ?c" if "tid \<in> {0, 1, 2, 3}" for tid :: u64
    using that by (auto simp: unat_word_ariths)
  have part: "y - tid * ?c < ?c \<longleftrightarrow> unat tid * unat ?c \<le> unat y \<and> unat y < unat tid * unat ?c + unat ?c"
    if "tid \<in> {0, 1, 2, 3}" for tid
  proof -
    have "unat tid \<le> 3" using that by auto
    then have "unat tid * unat ?c \<le> 3 * unat ?c" by (rule mult_le_mono1)
    then have fits: "unat (tid * ?c) + unat ?c \<le> 2 ^ 64" using \<open>4 * unat ?c < 2 ^ 64\<close> t [OF that] by linarith
    show ?thesis unfolding minus_less_iff [OF fits] t [OF that] by (rule refl)
  qed
  from part [of 0] part [of 1] part [of 2] part [of 3]
  have "(\<exists>tid\<in>{0, 1, 2, 3}. y - tid * ?c < ?c) \<longleftrightarrow> unat y < 4 * unat ?c" by simp linarith
  then show ?thesis by (simp only: word_less_nat_alt len)
qed

lemma thread_numbers: "set order = {0, 1, 2, 3} \<Longrightarrow> \<forall>tid\<in>set order. tid < MAX_COPY_THREADS"
  by (auto simp: MAX_COPY_THREADS_def)

lemma parallel_memcpy_copy:
  assumes "set order = {0, 1, 2, 3}" "len mod 4 = 0"
  shows "arms_parallel_memcpy order src dst s d len = Some (mem_copy src dst s d len)"
  using chunks_cover [OF assms(2)] assms(1)
  by (auto simp: fun_eq_iff arms_parallel_memcpy_def run_copy_threads_eq [OF thread_numbers [OF assms(1)]] mem_copy_def
    MAX_COPY_THREADS_def)

lemma parallel_memset_zero:
  assumes "set order = {0, 1, 2, 3}" "len mod 4 = 0"
  shows "arms_parallel_memset order m d len = Some (mem_zero m d len)"
  using chunks_cover [OF assms(2)] assms(1)
  by (auto simp: fun_eq_iff arms_parallel_memset_def run_copy_threads_eq [OF thread_numbers [OF assms(1)]] mem_zero_def
    MAX_COPY_THREADS_def)

lemma pagesize_mod4: "pt_to_pagesize t mod 4 = 0"
  by (cases t) (simp_all add: page_size_defs)

text \<open>
  The contract of the copy that a migration uses: every copy of a page succeeds and copies.
  The copy threads keep it; the DMA engine of the other build is assumed to.
\<close>

locale page_copier =
  fixes copy :: "mem \<Rightarrow> mem \<Rightarrow> u64 \<Rightarrow> u64 \<Rightarrow> u64 \<Rightarrow> mem option"
  assumes copies: "copy src dst s d (pt_to_pagesize t) = Some (mem_copy src dst s d (pt_to_pagesize t))"
begin

lemma copied_byte:
  assumes "copy src dst s d (pt_to_pagesize t) = Some m" "i < pt_to_pagesize t"
  shows "m (d + i) = src (s + i)"
  using assms by (auto simp: copies mem_copy_def)

lemma other_byte:
  assumes "copy src dst s d (pt_to_pagesize t) = Some m" "\<not> x - d < pt_to_pagesize t"
  shows "m x = dst x"
  using assms by (auto simp: copies mem_copy_def)

end

interpretation threads: page_copier "arms_parallel_memcpy [2, 0, 3, 1]"
  by unfold_locales (rule parallel_memcpy_copy; auto simp: pagesize_mod4)

section \<open>Properties\<close>

text \<open>
  C15: The parallel copy and the parallel fill by the worker threads (the code without USE_DMA),
  in whatever order the threads run, equal one plain copy and one plain fill of a page.
\<close>

lemma parallel_copy_is_copy:
  assumes "set order = {0, 1, 2, 3}"
  shows "arms_parallel_memcpy order src dst s d (pt_to_pagesize t) = Some (mem_copy src dst s d (pt_to_pagesize t)) \<and>
    arms_parallel_memset order dst d (pt_to_pagesize t) = Some (mem_zero dst d (pt_to_pagesize t))"
  using parallel_memcpy_copy [OF assms pagesize_mod4] parallel_memset_zero [OF assms pagesize_mod4] by simp

lemma parallel_copy_is_copy_witness:
  "arms_parallel_memcpy [2, 0, 3, 1, 2] (\<lambda>i. ucast i) (\<lambda>_. 0) 0x1000 0x5000 (pt_to_pagesize BASEP) =
     Some (mem_copy (\<lambda>i. ucast i) (\<lambda>_. 0) 0x1000 0x5000 (pt_to_pagesize BASEP))"
  by (rule parallel_copy_is_copy [THEN conjunct1]) auto

end
