(* ===== verification/Migration.thy ===== *)
theory Migration
  imports Arms_State
begin

text \<open>
  What the application sees while a page migrates. The application reads and writes its
  pages through the mapping; the migration protects the page, copies it and maps the copy
  (\<open>pebs_migrate_up\<close> and \<open>pebs_migrate_down\<close> of \<open>src/pebs.c\<close> over \<open>src/arms.c\<close>). A store to a write-protected
  page does not happen: the thread faults and waits. \<open>mig_run\<close> interleaves the steps of one
  migration with stores to any page; the specification is a plain array of bytes per page.
\<close>

section \<open>The kernel's part\<close>

definition kernel_ok :: "kernel \<Rightarrow> bool" where
  "kernel_ok K \<longleftrightarrow>
     (\<forall>a n r. k_mmap K a n = Some r \<longrightarrow> r = a) \<and>
     (\<forall>src dst s d t. k_copy K src dst s d (pt_to_pagesize t) = Some (mem_copy src dst s d (pt_to_pagesize t)))"

lemma kernel_ok_mmap: "kernel_ok K \<Longrightarrow> k_mmap K a n = Some r \<Longrightarrow> r = a"
  by (simp add: kernel_ok_def)

lemma kernel_ok_copier: "kernel_ok K \<Longrightarrow> page_copier (k_copy K)"
  by unfold_locales (simp add: kernel_ok_def)

text \<open>A kernel on which everything succeeds, with the copy done by the copy threads.\<close>

definition host_kernel :: kernel where
  "host_kernel = \<lparr>k_copy = arms_parallel_memcpy [0, 1, 2, 3], k_mmap = \<lambda>a n. Some a,
     k_register = \<lambda>a n. True, k_writeprotect = \<lambda>a b. True\<rparr>"

lemma host_kernel_ok: "kernel_ok host_kernel"
  using parallel_memcpy_copy [of "[0, 1, 2, 3]"] by (auto simp: kernel_ok_def host_kernel_def pagesize_mod4)

section \<open>The view of the application\<close>

definition dev_mem :: "'a arms_state_scheme \<Rightarrow> memtypes \<Rightarrow> mem" where
  "dev_mem s t = (case t of FASTMEM \<Rightarrow> dram_mem s | SLOWMEM \<Rightarrow> nvm_mem s)"

definition app_load :: "'a arms_state_scheme \<Rightarrow> u64 \<Rightarrow> u64 \<Rightarrow> u8 option" where
  "app_load s v i = (case vmap s v of None \<Rightarrow> None | Some (t, f) \<Rightarrow> Some (dev_mem s t (f + i)))"

definition app_store :: "'a arms_state_scheme \<Rightarrow> u64 \<Rightarrow> u64 \<Rightarrow> u8 \<Rightarrow> 'a arms_state_scheme option" where
  "app_store s v i b =
     (if wprot s v \<or> \<not> i < HUGEPAGE_SIZE then None
      else case vmap s v of
        None \<Rightarrow> None
      | Some (FASTMEM, f) \<Rightarrow> Some (s\<lparr>dram_mem := (dram_mem s)(f + i := b)\<rparr>)
      | Some (SLOWMEM, f) \<Rightarrow> Some (s\<lparr>nvm_mem := (nvm_mem s)(f + i := b)\<rparr>))"

text \<open>The same on the specification side: contents by page and offset in the page.\<close>

definition spec_store :: "(u64 \<Rightarrow> u64 \<Rightarrow> u8 option) \<Rightarrow> u64 \<times> u64 \<times> u8 \<Rightarrow> u64 \<Rightarrow> u64 \<Rightarrow> u8 option" where
  "spec_store m = (\<lambda>(v, i, b). m(v := (m v)(i := Some b)))"

definition app_view :: "'a arms_state_scheme \<Rightarrow> u64 \<Rightarrow> u64 \<Rightarrow> u8 option" where
  "app_view s v i = (if i < HUGEPAGE_SIZE then app_load s v i else None)"

section \<open>Frames\<close>

definition frame_aligned :: "u64 \<Rightarrow> bool" where
  "frame_aligned f \<longleftrightarrow> f AND mask 21 = 0"

definition maps_ok :: "'a arms_state_scheme \<Rightarrow> bool" where
  "maps_ok s \<longleftrightarrow>
     (\<forall>v t f. vmap s v = Some (t, f) \<longrightarrow> frame_aligned f) \<and>
     (\<forall>v w t f. vmap s v = Some (t, f) \<and> vmap s w = Some (t, f) \<longrightarrow> v = w)"

lemma HUGEPAGE_SIZE_2p: "HUGEPAGE_SIZE = 2 ^ 21"
  by (simp add: page_size_defs)

lemma frame_low_bits:
  assumes "frame_aligned f" "i < HUGEPAGE_SIZE"
  shows "take_bit 21 (f + i) = i" "f + i - take_bit 21 (f + i) = f"
proof -
  have f: "take_bit 21 f = 0" using assms(1) by (simp add: frame_aligned_def take_bit_eq_mask)
  have i: "take_bit 21 i = i" using assms(2) by (simp add: HUGEPAGE_SIZE_2p less_mask_eq take_bit_eq_mask)
  have "f AND i = (f AND mask 21) AND i"
    using i by (metis and.assoc and.commute take_bit_eq_mask)
  then have "f AND i = 0" using f by (simp add: take_bit_eq_mask)
  then have "f + i = f OR i" by (rule disjunctive_add_eq_or)
  then have "take_bit 21 (f + i) = take_bit 21 f OR take_bit 21 i" by (simp only: take_bit_or)
  also have "\<dots> = i" using f i by simp
  finally show "take_bit 21 (f + i) = i" .
  then show "f + i - take_bit 21 (f + i) = f" by simp
qed

lemma frames_disjoint:
  assumes "frame_aligned f" "frame_aligned g" "i < HUGEPAGE_SIZE" "j < HUGEPAGE_SIZE" "f + i = g + j"
  shows "f = g" "i = j"
  using frame_low_bits [OF assms(1,3)] frame_low_bits [OF assms(2,4)] assms(5) by metis+

lemma frame_outside:
  assumes "frame_aligned f" "frame_aligned g" "f \<noteq> g" "i < HUGEPAGE_SIZE"
  shows "\<not> (f + i) - g < HUGEPAGE_SIZE"
  using frames_disjoint(1) [of f g i "f + i - g"] assms by auto

section \<open>The migration of a page, step by step\<close>

definition pebs_migrate_down :: "kernel \<Rightarrow> 'a arms_state_scheme \<Rightarrow> addr \<Rightarrow> u64 \<Rightarrow> 'a arms_state_scheme option" where
  "pebs_migrate_down K s p offset = do {
     let s = s\<lparr>body := (body s)(p := (body s p)\<lparr>migrating := True\<rparr>)\<rparr>;
     s \<leftarrow> arms_wp_page K s p True;
     s \<leftarrow> arms_migrate_down K s p offset;
     Some (s\<lparr>body := (body s)(p := (body s p)\<lparr>migrating := False\<rparr>)\<rparr>)
   }"

definition pebs_migrate_up :: "kernel \<Rightarrow> 'a arms_state_scheme \<Rightarrow> addr \<Rightarrow> u64 \<Rightarrow> 'a arms_state_scheme option" where
  "pebs_migrate_up K s p offset = do {
     let s = s\<lparr>body := (body s)(p := (body s p)\<lparr>migrating := True\<rparr>)\<rparr>;
     s \<leftarrow> arms_wp_page K s p True;
     s \<leftarrow> arms_migrate_up K s p offset;
     Some (s\<lparr>body := (body s)(p := (body s p)\<lparr>migrating := False\<rparr>)\<rparr>)
   }"

datatype mig_phase = Idle | Protected | Copied | Done

definition mig_protect :: "kernel \<Rightarrow> 'a arms_state_scheme \<Rightarrow> addr \<Rightarrow> 'a arms_state_scheme option" where
  "mig_protect K s p = arms_wp_page K (s\<lparr>body := (body s)(p := (body s p)\<lparr>migrating := True\<rparr>)\<rparr>) p True"

definition mig_copy :: "bool \<Rightarrow> kernel \<Rightarrow> 'a arms_state_scheme \<Rightarrow> addr \<Rightarrow> u64 \<Rightarrow> 'a arms_state_scheme option" where
  "mig_copy up K s p off = (if up then migrate_up_copy K s p off else migrate_down_copy K s p off)"

definition mig_remap :: "bool \<Rightarrow> kernel \<Rightarrow> 'a arms_state_scheme \<Rightarrow> addr \<Rightarrow> u64 \<Rightarrow> 'a arms_state_scheme option" where
  "mig_remap up K s p off = do {
     s \<leftarrow> (if up then migrate_up_remap K s p off else migrate_down_remap K s p off);
     Some (s\<lparr>body := (body s)(p := (body s p)\<lparr>migrating := False\<rparr>)\<rparr>)
   }"

text \<open>
  One step: of the migration, labelled \<open>None\<close>, or a store of the application, labelled with
  the page, the offset and the byte.
\<close>

inductive mig_step ::
  "bool \<Rightarrow> kernel \<Rightarrow> addr \<Rightarrow> u64 \<Rightarrow> mig_phase \<times> 'a arms_state_scheme \<Rightarrow> (u64 \<times> u64 \<times> u8) option \<Rightarrow>
    mig_phase \<times> 'a arms_state_scheme \<Rightarrow> bool"
  for up K p off where
  protect: "mig_protect K s p = Some s' \<Longrightarrow> mig_step up K p off (Idle, s) None (Protected, s')"
| copy: "mig_copy up K s p off = Some s' \<Longrightarrow> mig_step up K p off (Protected, s) None (Copied, s')"
| remap: "mig_remap up K s p off = Some s' \<Longrightarrow> mig_step up K p off (Copied, s) None (Done, s')"
| store: "app_store s v i b = Some s' \<Longrightarrow> mig_step up K p off (ph, s) (Some (v, i, b)) (ph, s')"

inductive_cases mig_step_cases: "mig_step up K p off c l c'"

text \<open>A run collects the stores that happened.\<close>

inductive mig_run ::
  "bool \<Rightarrow> kernel \<Rightarrow> addr \<Rightarrow> u64 \<Rightarrow> mig_phase \<times> 'a arms_state_scheme \<Rightarrow> (u64 \<times> u64 \<times> u8) list \<Rightarrow>
    mig_phase \<times> 'a arms_state_scheme \<Rightarrow> bool"
  for up K p off where
  refl: "mig_run up K p off c [] c"
| quiet: "mig_run up K p off c ls c' \<Longrightarrow> mig_step up K p off c' None c'' \<Longrightarrow> mig_run up K p off c ls c''"
| stored: "mig_run up K p off c ls c' \<Longrightarrow> mig_step up K p off c' (Some l) c'' \<Longrightarrow>
    mig_run up K p off c (ls @ [l]) c''"

definition src_tier :: "bool \<Rightarrow> memtypes" where
  "src_tier up = (if up then SLOWMEM else FASTMEM)"

definition dst_tier :: "bool \<Rightarrow> memtypes" where
  "dst_tier up = (if up then FASTMEM else SLOWMEM)"

definition mig_inv :: "bool \<Rightarrow> addr \<Rightarrow> u64 \<Rightarrow> mig_phase \<times> 'a arms_state_scheme \<Rightarrow> bool" where
  "mig_inv up p off = (\<lambda>(ph, s).
     maps_ok s \<and> frame_aligned off \<and> pt (body s p) = HUGEP \<and>
     (ph \<noteq> Done \<longrightarrow> in_dram (body s p) = (\<not> up) \<and> (\<forall>v. vmap s v \<noteq> Some (dst_tier up, off)) \<and>
        vmap s (va (body s p)) = Some (src_tier up, devdax_offset (body s p))) \<and>
     (ph = Protected \<or> ph = Copied \<longrightarrow> wprot s (va (body s p))) \<and>
     (ph = Copied \<longrightarrow> (\<forall>i<HUGEPAGE_SIZE. dev_mem s (dst_tier up) (off + i) =
        dev_mem s (src_tier up) (devdax_offset (body s p) + i))))"

section \<open>The migration cannot be seen\<close>

definition dev_upd :: "'a arms_state_scheme \<Rightarrow> memtypes \<Rightarrow> mem \<Rightarrow> 'a arms_state_scheme" where
  "dev_upd s t m = (case t of FASTMEM \<Rightarrow> s\<lparr>dram_mem := m\<rparr> | SLOWMEM \<Rightarrow> s\<lparr>nvm_mem := m\<rparr>)"

lemma dev_upd_simps [simp]:
  "dev_mem (dev_upd s t m) t' = (if t = t' then m else dev_mem s t')"
  "vmap (dev_upd s t m) = vmap s" "wprot (dev_upd s t m) = wprot s" "body (dev_upd s t m) = body s"
  by (auto simp: dev_upd_def dev_mem_def split: memtypes.splits)

lemma dev_mem_fields [simp]:
  "dev_mem (s\<lparr>body := b\<rparr>) t = dev_mem s t" "dev_mem (s\<lparr>wprot := w\<rparr>) t = dev_mem s t"
  "dev_mem (s\<lparr>internal_call := c\<rparr>) t = dev_mem s t" "dev_mem (s\<lparr>vmap := v\<rparr>) t = dev_mem s t"
  "dev_mem (s\<lparr>migrations_up := n\<rparr>) t = dev_mem s t" "dev_mem (s\<lparr>migrations_down := n\<rparr>) t = dev_mem s t"
  "dev_mem (s\<lparr>bytes_migrated := n\<rparr>) t = dev_mem s t"
  by (auto simp: dev_mem_def split: memtypes.splits)

lemma app_store_Some:
  "app_store s v i b = Some s' \<longleftrightarrow> \<not> wprot s v \<and> i < HUGEPAGE_SIZE \<and>
    (\<exists>t f. vmap s v = Some (t, f) \<and> s' = dev_upd s t ((dev_mem s t)(f + i := b)))"
  by (auto simp: app_store_def dev_upd_def dev_mem_def split: option.splits memtypes.splits prod.splits)

lemma app_view_Some:
  "vmap s v = Some (t, f) \<Longrightarrow> app_view s v i = (if i < HUGEPAGE_SIZE then Some (dev_mem s t (f + i)) else None)"
  by (simp add: app_view_def app_load_def)

lemma app_view_None: "vmap s v = None \<Longrightarrow> app_view s v i = None"
  by (simp add: app_view_def app_load_def)

text \<open>Two states with the same mappings and the same bytes in the mapped frames look alike.\<close>

lemma app_view_eqI:
  assumes "vmap s' = vmap s"
    and "\<And>v t f i. vmap s v = Some (t, f) \<Longrightarrow> i < HUGEPAGE_SIZE \<Longrightarrow> dev_mem s' t (f + i) = dev_mem s t (f + i)"
  shows "app_view s' = app_view s"
proof (intro ext)
  fix v i
  show "app_view s' v i = app_view s v i"
  proof (cases "vmap s v")
    case None
    then show ?thesis using assms(1) by (simp add: app_view_None)
  next
    case (Some tf)
    then show ?thesis using assms app_view_Some [of s v _ _ i] app_view_Some [of s' v _ _ i] by (cases tf) auto
  qed
qed

lemma maps_ok_aligned: "maps_ok s \<Longrightarrow> vmap s v = Some (t, f) \<Longrightarrow> frame_aligned f"
  by (auto simp: maps_ok_def)

lemma maps_ok_inj: "maps_ok s \<Longrightarrow> vmap s v = Some (t, f) \<Longrightarrow> vmap s w = Some (t, f) \<Longrightarrow> v = w"
  by (auto simp: maps_ok_def)

lemma maps_ok_upd:
  assumes "maps_ok s" "frame_aligned f" "\<And>w. vmap s w \<noteq> Some (t, f)" "vmap s' = (vmap s)(v \<mapsto> (t, f))"
  shows "maps_ok s'"
  unfolding maps_ok_def assms(4)
proof (intro conjI allI impI)
  fix u t' g assume "((vmap s)(v \<mapsto> (t, f))) u = Some (t', g)"
  then show "frame_aligned g" using assms(2) maps_ok_aligned [OF assms(1)] by (auto split: if_splits)
next
  fix u w t' g
  assume "((vmap s)(v \<mapsto> (t, f))) u = Some (t', g) \<and> ((vmap s)(v \<mapsto> (t, f))) w = Some (t', g)"
  then show "u = w" using assms(3) maps_ok_inj [OF assms(1), of u t' g w] by (auto split: if_splits)
qed

lemma app_store_view:
  assumes ok: "maps_ok s" and st: "app_store s v i b = Some s'"
  shows "app_view s' = spec_store (app_view s) (v, i, b)" "maps_ok s'" "vmap s' = vmap s" "wprot s' = wprot s"
    "body s' = body s"
proof -
  obtain t f where tf: "vmap s v = Some (t, f)" "i < HUGEPAGE_SIZE"
    and s': "s' = dev_upd s t ((dev_mem s t)(f + i := b))"
    using st by (auto simp: app_store_Some)
  show "vmap s' = vmap s" "wprot s' = wprot s" "body s' = body s" by (simp_all add: s')
  then show "maps_ok s'" using ok by (simp add: maps_ok_def)
  have fa: "frame_aligned f" using ok tf(1) by (rule maps_ok_aligned)
  show "app_view s' = spec_store (app_view s) (v, i, b)"
  proof (intro ext)
    fix w j
    show "app_view s' w j = spec_store (app_view s) (v, i, b) w j"
    proof (cases "vmap s w")
      case None
      then show ?thesis using tf by (auto simp: spec_store_def app_view_None s')
    next
      case (Some tg)
      then obtain t' g where g: "vmap s w = Some (t', g)" by (cases tg) auto
      then have ga: "frame_aligned g" using ok by (rule maps_ok_aligned [rotated])
      have "t = t' \<Longrightarrow> j < HUGEPAGE_SIZE \<Longrightarrow> g + j = f + i \<Longrightarrow> w = v \<and> j = i"
        using frames_disjoint [OF ga fa _ tf(2)] g tf(1) ok by (metis maps_ok_def)
      then show ?thesis using g tf by (auto simp: spec_store_def app_view_Some s')
    qed
  qed
qed

lemma mig_protect_inv:
  assumes inv: "mig_inv up p off (Idle, s)" and st: "mig_protect K s p = Some s'"
  shows "mig_inv up p off (Protected, s')" "app_view s' = app_view s"
proof -
  have s': "vmap s' = vmap s" "\<And>t. dev_mem s' t = dev_mem s t" "wprot s' (va (body s p))"
    "\<And>q. va (body s' q) = va (body s q)" "\<And>q. pt (body s' q) = pt (body s q)"
    "\<And>q. in_dram (body s' q) = in_dram (body s q)" "\<And>q. devdax_offset (body s' q) = devdax_offset (body s q)"
    using st by (auto simp: mig_protect_def arms_wp_page_def Let_def bind_assert_that split: if_splits)
  then show "app_view s' = app_view s" by (intro app_view_eqI) simp_all
  show "mig_inv up p off (Protected, s')" using inv s' by (auto simp: mig_inv_def maps_ok_def)
qed

lemma mig_copy_inv:
  assumes K: "kernel_ok K" and inv: "mig_inv up p off (Protected, s)" and st: "mig_copy up K s p off = Some s'"
  shows "mig_inv up p off (Copied, s')" "app_view s' = app_view s"
proof -
  let ?S = "src_tier up" and ?T = "dst_tier up" and ?o = "devdax_offset (body s p)"
  have pt: "pt (body s p) = HUGEP" using inv by (simp add: mig_inv_def)
  have s': "vmap s' = vmap s" "wprot s' = wprot s" "body s' = body s"
    "\<And>t. dev_mem s' t = (if t = ?T then mem_copy (dev_mem s ?S) (dev_mem s ?T) ?o off HUGEPAGE_SIZE else dev_mem s t)"
    using st pt K
    by (auto simp: mig_copy_def migrate_up_copy_def migrate_down_copy_def bind_assert_that src_tier_def dst_tier_def
      dev_mem_def kernel_ok_def Let_def bind_Some_iff split: if_splits memtypes.splits)
      (metis option.sel pt_to_pagesize.simps(1))+
  have off: "frame_aligned off" "\<And>v f. vmap s v = Some (?T, f) \<Longrightarrow> f \<noteq> off" and ok: "maps_ok s"
    using inv by (auto simp: mig_inv_def)
  show "app_view s' = app_view s"
  proof (rule app_view_eqI [OF s'(1)])
    fix v t f i assume v: "vmap s v = Some (t, f)" "i < HUGEPAGE_SIZE"
    have "t = ?T \<Longrightarrow> \<not> (f + i) - off < HUGEPAGE_SIZE"
      using frame_outside [OF maps_ok_aligned [OF ok v(1)] off(1) _ v(2)] off(2) v(1) by blast
    then show "dev_mem s' t (f + i) = dev_mem s t (f + i)" by (auto simp: s'(4) mem_copy_def)
  qed
  have "?S \<noteq> ?T" by (simp add: src_tier_def dst_tier_def)
  then show "mig_inv up p off (Copied, s')" using inv s' by (auto simp: mig_inv_def maps_ok_def mem_copy_def)
qed

lemma mig_remap_inv:
  assumes K: "kernel_ok K" and inv: "mig_inv up p off (Copied, s)" and st: "mig_remap up K s p off = Some s'"
  shows "mig_inv up p off (Done, s')" "app_view s' = app_view s"
proof -
  let ?S = "src_tier up" and ?T = "dst_tier up" and ?o = "devdax_offset (body s p)" and ?v = "va (body s p)"
  have s': "vmap s' = (vmap s)(?v \<mapsto> (?T, off))" "\<And>t. dev_mem s' t = dev_mem s t" "pt (body s' p) = pt (body s p)"
    using st
    by (auto simp: mig_remap_def migrate_up_remap_def migrate_down_remap_def bind_assert_that dst_tier_def
      Let_def bind_Some_iff split: if_splits dest!: kernel_ok_mmap [OF K])
  have I: "maps_ok s" "frame_aligned off" "\<And>v. vmap s v \<noteq> Some (?T, off)" "vmap s ?v = Some (?S, ?o)"
    "\<And>i. i < HUGEPAGE_SIZE \<Longrightarrow> dev_mem s ?T (off + i) = dev_mem s ?S (?o + i)" "pt (body s p) = HUGEP"
    using inv by (auto simp: mig_inv_def)
  show "app_view s' = app_view s"
  proof (intro ext)
    fix v i
    show "app_view s' v i = app_view s v i"
    proof (cases "v = ?v")
      case True
      then show ?thesis using I(4,5) s' app_view_Some [of s' v ?T off i] app_view_Some [of s v ?S ?o i] by simp
    next
      case False
      then show ?thesis using s' by (simp add: app_view_def app_load_def split: option.splits)
    qed
  qed
  have "maps_ok s'" by (rule maps_ok_upd [OF I(1-3) s'(1)])
  then show "mig_inv up p off (Done, s')" using I s' by (simp add: mig_inv_def)
qed

lemma mig_store_inv:
  assumes inv: "mig_inv up p off (ph, s)" and st: "app_store s v i b = Some s'"
  shows "mig_inv up p off (ph, s')" "app_view s' = spec_store (app_view s) (v, i, b)"
proof -
  let ?S = "src_tier up" and ?T = "dst_tier up" and ?o = "devdax_offset (body s p)" and ?v = "va (body s p)"
  have ok: "maps_ok s" "frame_aligned off" using inv by (auto simp: mig_inv_def)
  note view = app_store_view [OF ok(1) st]
  show "app_view s' = spec_store (app_view s) (v, i, b)" by (rule view(1))
  obtain t f where tf: "vmap s v = Some (t, f)" "i < HUGEPAGE_SIZE" "\<not> wprot s v"
    and s': "s' = dev_upd s t ((dev_mem s t)(f + i := b))"
    using st by (auto simp: app_store_Some)
  have "dev_mem s' ?T (off + j) = dev_mem s' ?S (?o + j)" if "ph = Copied" "j < HUGEPAGE_SIZE" for j
  proof -
    have C: "wprot s ?v" "vmap s ?v = Some (?S, ?o)" "dev_mem s ?T (off + j) = dev_mem s ?S (?o + j)"
      "vmap s v \<noteq> Some (?T, off)"
      using inv that by (auto simp: mig_inv_def)
    have fa: "frame_aligned f" "frame_aligned ?o"
      using maps_ok_aligned [OF ok(1)] tf(1) C(2) by blast+
    have "t = ?T \<Longrightarrow> off + j \<noteq> f + i" using frames_disjoint(1) [OF ok(2) fa(1) that(2) tf(2)] C(4) tf(1) by auto
    moreover have "t = ?S \<Longrightarrow> ?o + j \<noteq> f + i"
      using frames_disjoint(1) [OF fa(2,1) that(2) tf(2)] C(1,2) tf(1,3) maps_ok_inj [OF ok(1) tf(1), of ?v] by auto
    ultimately show ?thesis using C(3) by (auto simp: s')
  qed
  then show "mig_inv up p off (ph, s')" using inv view(2-5) by (auto simp: mig_inv_def)
qed

definition label_view :: "(u64 \<Rightarrow> u64 \<Rightarrow> u8 option) \<Rightarrow> (u64 \<times> u64 \<times> u8) option \<Rightarrow> u64 \<Rightarrow> u64 \<Rightarrow> u8 option" where
  "label_view m l = (case l of None \<Rightarrow> m | Some st \<Rightarrow> spec_store m st)"

lemma mig_step_inv:
  assumes "kernel_ok K" "mig_step up K p off c l c'" "mig_inv up p off c"
  shows "mig_inv up p off c' \<and> app_view (snd c') = label_view (app_view (snd c)) l"
  using assms(2,3)
  by (cases rule: mig_step_cases)
     (auto simp: label_view_def dest: mig_protect_inv mig_copy_inv [OF assms(1)] mig_remap_inv [OF assms(1)] mig_store_inv)

lemma mig_run_inv:
  assumes "kernel_ok K" "mig_run up K p off c ls c'" "mig_inv up p off c"
  shows "mig_inv up p off c' \<and> app_view (snd c') = fold (\<lambda>st m. spec_store m st) ls (app_view (snd c))"
  using assms(2,3)
proof (induction rule: mig_run.induct)
  case (quiet c ls c' c'')
  then show ?case using mig_step_inv [OF assms(1) quiet.hyps(2)] by (auto simp: label_view_def)
next
  case (stored c ls c' l c'')
  then show ?case using mig_step_inv [OF assms(1) stored.hyps(2)] by (auto simp: label_view_def)
qed simp

text \<open>Without stores in between, the three steps are the function of the code.\<close>

lemma pebs_migrate_steps:
  "(if up then pebs_migrate_up else pebs_migrate_down) K s p off =
     do { s \<leftarrow> mig_protect K s p; s \<leftarrow> mig_copy up K s p off; mig_remap up K s p off }"
  by (simp add: pebs_migrate_up_def pebs_migrate_down_def arms_migrate_up_def arms_migrate_down_def
    mig_protect_def mig_copy_def mig_remap_def Let_def)

lemma pebs_migrate_run:
  assumes "(if up then pebs_migrate_up else pebs_migrate_down) K s p off = Some s'"
  shows "mig_run up K p off (Idle, s) [] (Done, s')"
proof -
  obtain s1 s2 where "mig_protect K s p = Some s1" "mig_copy up K s1 p off = Some s2" "mig_remap up K s2 p off = Some s'"
    using assms unfolding pebs_migrate_steps by (auto simp: bind_Some_iff)
  then show ?thesis
    by (meson mig_run.refl mig_run.quiet mig_step.protect mig_step.copy mig_step.remap)
qed

section \<open>Properties\<close>

lemma mig_run_trans:
  assumes "mig_run up K p off c' ls' c''" "mig_run up K p off c ls c'"
  shows "mig_run up K p off c (ls @ ls') c''"
  using assms
proof (induction rule: mig_run.induct)
  case (stored c' ls' c'' l c''')
  then show ?case using mig_run.stored [of up K p off c "ls @ ls'" c'' l c'''] by simp
qed (auto intro: mig_run.quiet)

text \<open>
  C7: While a page moves between the tiers, in either direction and with stores of the
  application interleaved at any point, the application sees exactly its own stores: the
  contents it reads are the old contents updated by the stores that happened, and the page is
  write protected from its protection to its new mapping.
\<close>

lemma migration_transparent:
  assumes "kernel_ok K" "mig_inv up p off (Idle, s)" "mig_run up K p off (Idle, s) stores (ph, s')"
  shows "app_view s' = fold (\<lambda>st m. spec_store m st) stores (app_view s) \<and>
    (ph = Protected \<or> ph = Copied \<longrightarrow> wprot s' (va (body s' p)))"
  using mig_run_inv [OF assms(1,3,2)] by (auto simp: mig_inv_def)

lemma migration_transparent_witness:
  fixes s :: arms_state
  defines "s \<equiv> arms_start\<lparr>body := (\<lambda>_. zero_page)(1 := zero_page\<lparr>va := 0x200000, present := True\<rparr>),
     nvm_mem := \<lambda>_. 9, vmap := [0x200000 \<mapsto> (SLOWMEM, 0)], dramsize := 0x400000, nvmsize := 0x400000\<rparr>"
  shows "\<exists>s'. mig_run True host_kernel 1 0 (Idle, s) [(0x200000, 5, 7)] (Done, s') \<and>
    app_view s' 0x200000 5 = Some 7 \<and> app_view s' 0x200000 6 = Some 9"
proof -
  have inv: "mig_inv True 1 0 (Idle, s)"
    by (auto simp: mig_inv_def s_def arms_start_def maps_ok_def frame_aligned_def zero_page_def src_tier_def
        dst_tier_def split: if_splits)
  obtain s1 where 1: "app_store s 0x200000 5 7 = Some s1" "s1 = s\<lparr>nvm_mem := (nvm_mem s)(5 := 7)\<rparr>"
    by (simp add: app_store_def s_def arms_start_def HUGEPAGE_SIZE_def)
  have ks: "k_copy host_kernel m m' a b 0x200000 = Some (mem_copy m m' a b 0x200000)" for m m' a b
    using page_copier.copies [OF kernel_ok_copier [OF host_kernel_ok], of m m' a b HUGEP] by (simp add: HUGEPAGE_SIZE_def)
  have kf: "k_mmap host_kernel a n = Some a" "k_register host_kernel a n" "k_writeprotect host_kernel a b" for a n b
    by (simp_all add: host_kernel_def)
  have "\<exists>s'. pebs_migrate_up host_kernel s1 1 0 = Some s'"
    unfolding pebs_migrate_up_def arms_wp_page_def arms_migrate_up_def migrate_up_copy_def migrate_up_remap_def
    by (simp add: 1(2) s_def arms_start_def zero_page_def HUGEPAGE_SIZE_def ks kf)
  then obtain s2 where 2: "pebs_migrate_up host_kernel s1 1 0 = Some s2" by blast
  have r: "mig_run True host_kernel 1 0 (Idle, s) ([] @ [(0x200000, 5, 7)]) (Idle, s1)"
    by (rule mig_run.stored [OF mig_run.refl mig_step.store [OF 1(1)]])
  have "mig_run True host_kernel 1 0 (Idle, s) [(0x200000, 5, 7)] (Done, s2)"
    using mig_run_trans [OF _ r] pebs_migrate_run [of True host_kernel s1 1 0 s2] 2 by simp
  with migration_transparent [OF host_kernel_ok inv this] show ?thesis
    by (intro exI [of _ s2]) (simp add: spec_store_def app_view_def app_load_def dev_mem_def s_def arms_start_def HUGEPAGE_SIZE_def)
qed

end
