(* ===== verification/Pebs_Score.thy ===== *)
theory Pebs_Score
  imports Arms_Types Ieee
begin

text \<open>
  The scoring arithmetic of \<open>src/pebs.c\<close> and the parameters of \<open>src/pebs.h\<close> (the C220G5 system, which
  \<open>src/arms.h\<close> selects, without spatial smoothing): two exponentially weighted windows per page, the
  score as their weighted sum, the moving average of the smoothing code, the comparison functions of the
  sorts, and the two tests that stop a migration. Each C operation on a \<open>float\<close> or \<open>double\<close> is the exact
  one followed by \<open>f32\<close> or \<open>f64\<close>.
\<close>

section \<open>Parameters\<close>

definition NUM_MIGRATION_THREADS :: int where "NUM_MIGRATION_THREADS = 8"
definition NVM_WRITES_WEIGHT :: int where "NVM_WRITES_WEIGHT = 1"
definition DEFAULT_SAMPLE_PERIOD :: int where "DEFAULT_SAMPLE_PERIOD = 10007"
definition HF_SAMPLE_PERIOD :: int where "HF_SAMPLE_PERIOD = 5003"

datatype sampling_modes = DEFAULT_SAMPLING | HIGH_FIDELITY

definition SHORT_TERM_WND_ALPHA :: rat where "SHORT_TERM_WND_ALPHA = f64 (2 / 3)"
definition LONG_TERM_WND_ALPHA :: rat where "LONG_TERM_WND_ALPHA = f64 (2 / 21)"

definition w_ewma_alpha :: "rat list" where
  "w_ewma_alpha = [f32 SHORT_TERM_WND_ALPHA, f32 LONG_TERM_WND_ALPHA]"

definition HIST_BIAS_RECN :: rat where "HIST_BIAS_RECN = f64 (4 / 10)"
definition RECN_BIAS_RECN :: rat where "RECN_BIAS_RECN = f64 (731 / 1000)"

definition hist_bias :: "rat list" where
  "hist_bias = [f32 HIST_BIAS_RECN, f32 (f64 (1 - HIST_BIAS_RECN))]"

definition recn_bias :: "rat list" where
  "recn_bias = [f32 RECN_BIAS_RECN, f32 (f64 (1 - RECN_BIAS_RECN))]"

definition CB_MULTIPLIER :: rat where "CB_MULTIPLIER = 3 / 2"
definition MIGRATION_COST_DECAY_RATE :: rat where "MIGRATION_COST_DECAY_RATE = 3 / 2"
definition MIGRATION_COST_ALPHA :: rat where "MIGRATION_COST_ALPHA = f64 (2 / 21)"

text \<open>\<open>PAGE_SIZE / (NVM_RD_BW_KNEE * 1024) + MIGRATION_METADATA_COST\<close>, an integer division.\<close>

definition MIN_PROMOTION_COST :: int where "MIN_PROMOTION_COST = 2097152 div (15 * 1024) + 500"
definition MIN_DEMOTION_COST :: int where "MIN_DEMOTION_COST = 2097152 div (15 * 1024) + 500"

section \<open>The windows and the score\<close>

definition reset_page_access_fields :: "arms_page \<Rightarrow> arms_page" where
  "reset_page_access_fields p = p\<lparr>accesses := \<lambda>_ _. 0, page_w := replicate WINDOW_SIZE 0,
     hot_age := 0, prev_score := 0\<rparr>"

text \<open>The weighted number of accesses, in \<open>uint32_t\<close> arithmetic.\<close>

definition page_accesses :: "u8 \<Rightarrow> arms_page \<Rightarrow> u32" where
  "page_accesses prev p =
     ucast (accesses p DRAMREAD prev) + ucast (accesses p NVMREAD prev) +
     of_int NVM_WRITES_WEIGHT * ucast (accesses p WRITE prev)"

definition ewma_default :: "rat \<Rightarrow> rat \<Rightarrow> u32 \<Rightarrow> rat" where
  "ewma_default alpha w acc =
     f32 (f64 (f64 (f64 (1 - alpha) * w) +
       f32 (alpha * f32 (of_int (uint (of_int (DEFAULT_SAMPLE_PERIOD div HF_SAMPLE_PERIOD) * acc))))))"

definition ewma_hf :: "rat \<Rightarrow> rat \<Rightarrow> u32 \<Rightarrow> rat" where
  "ewma_hf alpha w acc =
     f32 (f64 (f64 (f64 (1 - alpha) * w) + f32 (alpha * f32 (of_int (uint acc)))))"

definition update_window :: "sampling_modes \<Rightarrow> u8 \<Rightarrow> arms_page \<Rightarrow> arms_page" where
  "update_window mode prev p = (
     let acc = page_accesses prev p in
     case mode of
       DEFAULT_SAMPLING \<Rightarrow>
         p\<lparr>page_w := map (\<lambda>i. ewma_default (w_ewma_alpha ! i) (page_w p ! i) acc) [0..<WINDOW_SIZE]\<rparr>
     | HIGH_FIDELITY \<Rightarrow>
         p\<lparr>page_w := map (\<lambda>i. ewma_hf (w_ewma_alpha ! i) (page_w p ! i) acc) [0..<WINDOW_SIZE]\<rparr>)"

fun score_loop :: "rat list \<Rightarrow> rat list \<Rightarrow> rat \<Rightarrow> rat" where
  "score_loop (w # ws) (b # bs) sc = score_loop ws bs (f32 (sc + f32 (w * b)))"
| "score_loop _ _ sc = sc"

definition compute_score :: "arms_page \<Rightarrow> rat list \<Rightarrow> rat" where
  "compute_score p bias = score_loop (page_w p) bias 0"

definition moving_avg_add1 :: "rat \<Rightarrow> rat \<Rightarrow> u32 \<Rightarrow> rat" where
  "moving_avg_add1 avg new_val count =
     f32 (f32 (f32 (f32 (of_int (uint count)) * avg) + new_val) / f32 (of_int (uint (count + 1))))"

definition moving_avg_add :: "u8 \<Rightarrow> (pbuftype \<Rightarrow> rat) \<Rightarrow> arms_page \<Rightarrow> u32 \<Rightarrow> (pbuftype \<Rightarrow> rat) \<times> u32" where
  "moving_avg_add prev avg p count =
     (\<lambda>j. moving_avg_add1 (avg j) (f32 (of_int (uint (accesses p j prev)))) count, count + 1)"

definition moving_avg_sub1 :: "rat \<Rightarrow> rat \<Rightarrow> u32 \<Rightarrow> rat" where
  "moving_avg_sub1 avg old_val count =
     (if count - 1 = 0 then 0
      else f32 (f32 (f32 (f32 (of_int (uint count)) * avg) - old_val) / f32 (of_int (uint (count - 1)))))"

definition moving_avg_sub :: "u8 \<Rightarrow> (pbuftype \<Rightarrow> rat) \<Rightarrow> arms_page \<Rightarrow> u32 \<Rightarrow> (pbuftype \<Rightarrow> rat) \<times> u32" where
  "moving_avg_sub prev avg p count =
     (\<lambda>j. moving_avg_sub1 (avg j) (f32 (of_int (uint (accesses p j prev)))) count, count - 1)"

section \<open>Comparisons and migration tests\<close>

definition ulong_sort_cmp :: "u64 \<Rightarrow> u64 \<Rightarrow> int" where
  "ulong_sort_cmp a b = (if a < b then -1 else if a > b then 1 else 0)"

record score_entry =
  se_page :: addr
  se_score :: rat

definition sort_entry_cmp :: "score_entry \<Rightarrow> score_entry \<Rightarrow> int" where
  "sort_entry_cmp a b = (if se_score a > se_score b then -1 else if se_score a < se_score b then 1 else 0)"

fun minmax_loop :: "rat list \<Rightarrow> rat list \<Rightarrow> rat \<times> rat \<Rightarrow> rat \<times> rat" where
  "minmax_loop (h # hs) (c # cs) (mn, mx) =
     minmax_loop hs cs (if h < mn then h else mn, if c > mx then c else mx)"
| "minmax_loop _ _ m = m"

text \<open>The two sides of the cost-benefit test. \<open>benefit\<close> multiplies from left to right in \<open>float\<close>.\<close>

definition migration_cost :: "rat \<Rightarrow> rat \<Rightarrow> rat" where
  "migration_cost promotion_cost_avg demotion_cost_avg =
     f32 (f64 (CB_MULTIPLIER * f32 (promotion_cost_avg + demotion_cost_avg)))"

definition migration_benefit :: "rat \<Rightarrow> u16 \<Rightarrow> rat \<Rightarrow> rat" where
  "migration_benefit sc age latency_diff =
     f32 (f32 (f32 (sc * of_int (uint age)) * of_int HF_SAMPLE_PERIOD) * latency_diff)"

definition continue_migration :: "rat \<Rightarrow> rat \<Rightarrow> rat \<Rightarrow> arms_page \<Rightarrow> arms_page \<Rightarrow> bool" where
  "continue_migration promotion_cost_avg demotion_cost_avg latency_diff hp cp = (
     let (hot_page_min_avg, cold_page_max_avg) =
           minmax_loop (drop 1 (page_w hp)) (drop 1 (page_w cp)) (page_w hp ! 0, page_w cp ! (WINDOW_SIZE - 1)) in
     if hot_page_min_avg < cold_page_max_avg then False
     else
       let cost = migration_cost promotion_cost_avg demotion_cost_avg;
           benefit = migration_benefit (f32 (score hp - score cp)) (hot_age hp) latency_diff
       in \<not> benefit < cost)"

section \<open>The windows stay finite, non-negative and monotone\<close>

lemma f32_pow2: "\<bar>k\<bar> \<le> 2 ^ 24 \<Longrightarrow> f32 (of_int k * 2 powi e) = of_int k * 2 powi e" if "-149 \<le> e"
  unfolding f32_def using that by (intro fl_grid) auto

lemma f64_pow2: "\<bar>k\<bar> \<le> 2 ^ 53 \<Longrightarrow> f64 (of_int k * 2 powi e) = of_int k * 2 powi e" if "-1074 \<le> e"
  unfolding f64_def using that by (intro fl_grid) auto

lemma alpha_values:
  "w_ewma_alpha ! 0 = 11184811 / 2 ^ 24" "w_ewma_alpha ! 1 = 12782641 / 2 ^ 27"
  by code_simp+

lemma alpha_bounds: "i < WINDOW_SIZE \<Longrightarrow> 0 \<le> w_ewma_alpha ! i \<and> w_ewma_alpha ! i \<le> 1"
  using alpha_values by (auto simp: WINDOW_SIZE_def less_2_cases_iff)

lemma bias_values:
  "hist_bias = [13421773 / 2 ^ 25, 5033165 / 2 ^ 23]" "recn_bias = [12264145 / 2 ^ 24, 4513071 / 2 ^ 24]"
  by code_simp+

definition ewma :: "rat \<Rightarrow> rat \<Rightarrow> rat \<Rightarrow> rat" where
  "ewma alpha w x = f32 (f64 (f64 (f64 (1 - alpha) * w) + f32 (alpha * f32 x)))"

lemma ewma_default_eq: "ewma_default alpha w acc = ewma alpha w (of_int (uint (2 * acc)))"
  by (simp add: ewma_default_def ewma_def DEFAULT_SAMPLE_PERIOD_def HF_SAMPLE_PERIOD_def)

lemma ewma_hf_eq: "ewma_hf alpha w acc = ewma alpha w (of_int (uint acc))"
  by (simp add: ewma_hf_def ewma_def)

lemma ewma_mono:
  assumes "0 \<le> alpha" "alpha \<le> 1" "w \<le> w'" "x \<le> x'"
  shows "ewma alpha w x \<le> ewma alpha w' x'"
proof -
  have "0 \<le> f64 (1 - alpha)" using assms(2) by (intro f_nonneg) simp
  then have "f64 (f64 (1 - alpha) * w) \<le> f64 (f64 (1 - alpha) * w')"
    using assms(3) by (intro f64_mono mult_left_mono)
  moreover have "f32 (alpha * f32 x) \<le> f32 (alpha * f32 x')"
    using assms(1,4) by (intro f32_mono mult_left_mono)
  ultimately show ?thesis unfolding ewma_def by (intro f32_mono f64_mono) (erule (1) add_mono)
qed

lemma ewma_0: "ewma alpha 0 0 = 0"
  by (simp add: ewma_def)

text \<open>The bound of every window and score: no \<open>float\<close> of this code overflows.\<close>

definition W_MAX :: rat where
  "W_MAX = 2 ^ 19"

lemma ewma_top: "ewma (w_ewma_alpha ! 0) W_MAX W_MAX \<le> W_MAX" "ewma (w_ewma_alpha ! 1) W_MAX W_MAX \<le> W_MAX"
  by code_simp+

lemma ewma_range:
  assumes "i < WINDOW_SIZE" "0 \<le> w" "w \<le> W_MAX" "0 \<le> x" "x \<le> W_MAX"
  shows "0 \<le> ewma (w_ewma_alpha ! i) w x" "ewma (w_ewma_alpha ! i) w x \<le> W_MAX"
proof -
  note a = alpha_bounds [OF assms(1)]
  show "0 \<le> ewma (w_ewma_alpha ! i) w x"
    using ewma_mono [of "w_ewma_alpha ! i" 0 w 0 x] a assms by (simp add: ewma_0)
  have "ewma (w_ewma_alpha ! i) w x \<le> ewma (w_ewma_alpha ! i) W_MAX W_MAX"
    using a assms by (intro ewma_mono) auto
  also have "\<dots> \<le> W_MAX" using ewma_top assms(1) by (auto simp: WINDOW_SIZE_def less_2_cases_iff)
  finally show "ewma (w_ewma_alpha ! i) w x \<le> W_MAX" .
qed

lemma uint_accesses:
  "uint (page_accesses prev p) = uint (accesses p DRAMREAD prev) + uint (accesses p NVMREAD prev) + uint (accesses p WRITE prev)"
  "uint (2 * page_accesses prev p) = 2 * (uint (accesses p DRAMREAD prev) + uint (accesses p NVMREAD prev) + uint (accesses p WRITE prev))"
proof -
  have b: "0 \<le> uint (c :: u16)" "uint c < 2 ^ 16" for c
    using uint_lt2p [of c] by auto
  note B = b [of "accesses p DRAMREAD prev"] b [of "accesses p NVMREAD prev"] b [of "accesses p WRITE prev"]
  have u: "uint (ucast (c :: u16) :: u32) = uint c" for c using b [of c] by (simp add: uint_up_ucast is_up)
  show 1: "uint (page_accesses prev p) = uint (accesses p DRAMREAD prev) + uint (accesses p NVMREAD prev) + uint (accesses p WRITE prev)"
    using B by (simp add: page_accesses_def NVM_WRITES_WEIGHT_def uint_word_ariths u)
  show "uint (2 * page_accesses prev p) = 2 * (uint (accesses p DRAMREAD prev) + uint (accesses p NVMREAD prev) + uint (accesses p WRITE prev))"
    using B by (simp add: uint_word_ariths 1)
qed

lemma uint_u16: "uint (c :: u16) \<le> 65535"
  using uint_lt2p [of c] by simp

definition window_ok :: "arms_page \<Rightarrow> bool" where
  "window_ok p \<longleftrightarrow> length (page_w p) = WINDOW_SIZE \<and> (\<forall>i<WINDOW_SIZE. 0 \<le> page_w p ! i \<and> page_w p ! i \<le> W_MAX)"

lemma accesses_range:
  "0 \<le> (of_int (uint (page_accesses prev p)) :: rat)" "(of_int (uint (page_accesses prev p)) :: rat) \<le> W_MAX"
  "0 \<le> (of_int (uint (2 * page_accesses prev p)) :: rat)" "(of_int (uint (2 * page_accesses prev p)) :: rat) \<le> W_MAX"
proof -
  have nn: "(of_int 0 :: rat) \<le> of_int (uint x)" for x :: u32
    by (simp only: of_int_le_iff) simp
  show "0 \<le> (of_int (uint (page_accesses prev p)) :: rat)" "0 \<le> (of_int (uint (2 * page_accesses prev p)) :: rat)"
    using nn unfolding of_int_0 by blast+
  have "uint (page_accesses prev p) \<le> 2 ^ 19" "uint (2 * page_accesses prev p) \<le> 2 ^ 19"
    unfolding uint_accesses using uint_u16 [of "accesses p DRAMREAD prev"] uint_u16 [of "accesses p NVMREAD prev"]
      uint_u16 [of "accesses p WRITE prev"] by auto
  then have "(of_int (uint (page_accesses prev p)) :: rat) \<le> of_int (2 ^ 19)"
    "(of_int (uint (2 * page_accesses prev p)) :: rat) \<le> of_int (2 ^ 19)"
    by (simp_all only: of_int_le_iff)
  then show "(of_int (uint (page_accesses prev p)) :: rat) \<le> W_MAX"
    "(of_int (uint (2 * page_accesses prev p)) :: rat) \<le> W_MAX"
    unfolding W_MAX_def of_int_power of_int_numeral by blast+
qed

lemma update_window_ok: "window_ok p \<Longrightarrow> window_ok (update_window mode prev p)"
  using accesses_range [of prev p]
  by (cases mode) (auto simp: window_ok_def update_window_def Let_def ewma_default_eq ewma_hf_eq ewma_range)

lemma score_two:
  assumes "length (page_w p) = WINDOW_SIZE"
  shows "compute_score p [b0, b1] = f32 (f32 (f32 (page_w p ! 0 * b0)) + f32 (page_w p ! 1 * b1))"
proof -
  obtain x y where "page_w p = [x, y]" using assms by (auto simp: WINDOW_SIZE_def numeral_2_eq_2 length_Suc_conv)
  then show ?thesis by (simp add: compute_score_def)
qed

lemma bias_shape:
  "bias = hist_bias \<or> bias = recn_bias \<Longrightarrow> bias = [bias ! 0, bias ! 1] \<and> 0 \<le> bias ! 0 \<and> 0 \<le> bias ! 1"
  by (auto simp: bias_values)

lemma compute_score_mono:
  assumes "length (page_w p) = WINDOW_SIZE" "length (page_w q) = WINDOW_SIZE"
    and "\<forall>i<WINDOW_SIZE. page_w p ! i \<le> page_w q ! i" and "bias = hist_bias \<or> bias = recn_bias"
  shows "compute_score p bias \<le> compute_score q bias"
proof -
  obtain b0 b1 where b: "bias = [b0, b1]" "0 \<le> b0" "0 \<le> b1" using bias_shape [OF assms(4)] by blast
  have "page_w p ! 0 \<le> page_w q ! 0" "page_w p ! 1 \<le> page_w q ! 1" using assms(3) by (auto simp: WINDOW_SIZE_def)
  then show ?thesis unfolding b(1) score_two [OF assms(1)] score_two [OF assms(2)]
    using b(2,3) by (intro f32_mono add_mono mult_right_mono)
qed

lemma compute_score_range:
  assumes "window_ok p" and "bias = hist_bias \<or> bias = recn_bias"
  shows "0 \<le> compute_score p bias" "compute_score p bias \<le> W_MAX"
proof -
  have l: "length (page_w p) = WINDOW_SIZE" using assms(1) by (simp add: window_ok_def)
  have "compute_score (p\<lparr>page_w := [0, 0]\<rparr>) bias \<le> compute_score p bias"
    using assms l by (intro compute_score_mono) (auto simp: WINDOW_SIZE_def less_2_cases_iff window_ok_def)
  moreover have "compute_score (p\<lparr>page_w := [0, 0]\<rparr>) bias = 0"
    using assms(2) by (auto simp: compute_score_def bias_values)
  ultimately show "0 \<le> compute_score p bias" by simp
  have "compute_score p bias \<le> compute_score (p\<lparr>page_w := [W_MAX, W_MAX]\<rparr>) bias"
    using assms l by (intro compute_score_mono) (auto simp: WINDOW_SIZE_def less_2_cases_iff window_ok_def)
  also have "\<dots> = score_loop [W_MAX, W_MAX] bias 0" by (simp add: compute_score_def)
  also have "\<dots> \<le> W_MAX"
  proof -
    have "score_loop [W_MAX, W_MAX] hist_bias 0 \<le> W_MAX" "score_loop [W_MAX, W_MAX] recn_bias 0 \<le> W_MAX"
      by code_simp+
    then show ?thesis using assms(2) by auto
  qed
  finally show "compute_score p bias \<le> W_MAX" .
qed

section \<open>Properties\<close>

definition hotter :: "u8 \<Rightarrow> arms_page \<Rightarrow> arms_page \<Rightarrow> bool" where
  "hotter prev p q \<longleftrightarrow> window_ok p \<and> window_ok q \<and> (\<forall>i < WINDOW_SIZE. page_w p ! i \<le> page_w q ! i) \<and>
     uint (page_accesses prev p) \<le> uint (page_accesses prev q)"

lemma update_window_mono:
  assumes "hotter prev p q" "i < WINDOW_SIZE"
  shows "page_w (update_window mode prev p) ! i \<le> page_w (update_window mode prev q) ! i"
proof -
  have "uint (2 * page_accesses prev p) \<le> uint (2 * page_accesses prev q)"
    using assms(1) by (simp add: hotter_def uint_accesses)
  then have "(of_int (uint (2 * page_accesses prev p)) :: rat) \<le> of_int (uint (2 * page_accesses prev q))"
    "(of_int (uint (page_accesses prev p)) :: rat) \<le> of_int (uint (page_accesses prev q))"
    using assms(1) by (simp_all only: of_int_le_iff hotter_def)
  then show ?thesis using assms alpha_bounds [OF assms(2)]
    by (cases mode) (auto simp: hotter_def update_window_def Let_def ewma_default_eq ewma_hf_eq intro!: ewma_mono)
qed

text \<open>
  C14: A page with at least the accesses and at least the averages of another gets at least its
  score, in the rounded float arithmetic of the program, and every score stays between 0 and
  2^19.
\<close>

lemma hotter_scores_higher:
  assumes "hotter prev p q" "bias = hist_bias \<or> bias = recn_bias"
  shows "0 \<le> compute_score (update_window mode prev p) bias \<and>
    compute_score (update_window mode prev p) bias \<le> compute_score (update_window mode prev q) bias \<and>
    compute_score (update_window mode prev q) bias \<le> W_MAX"
proof -
  have w: "window_ok (update_window mode prev p)" "window_ok (update_window mode prev q)"
    using assms(1) by (auto simp: hotter_def intro: update_window_ok)
  then show ?thesis
    using compute_score_mono [OF _ _ _ assms(2)] update_window_mono [OF assms(1)] compute_score_range [OF _ assms(2)]
    by (auto simp: window_ok_def)
qed

lemma hotter_scores_higher_witness:
  fixes p q :: arms_page
  defines "p \<equiv> zero_page\<lparr>accesses := \<lambda>_ _. 3\<rparr>" and "q \<equiv> zero_page\<lparr>accesses := \<lambda>_ _. 500, page_w := [10, 5 / 2]\<rparr>"
  shows "compute_score (update_window HIGH_FIDELITY 1 p) recn_bias \<le> compute_score (update_window HIGH_FIDELITY 1 q) recn_bias"
proof -
  have "hotter 1 p q"
    by (simp add: hotter_def window_ok_def p_def q_def zero_page_def WINDOW_SIZE_def W_MAX_def uint_accesses
        less_2_cases_iff)
  then show ?thesis using hotter_scores_higher [of 1 p q recn_bias HIGH_FIDELITY] by blast
qed

end
