(* ===== verification/Timer.thy ===== *)
theory Timer
  imports Ieee
begin

text \<open>
  \<open>src/timer.c\<close>: differences of clock readings and the accumulating timers of the policies.
  A reading of the clock (\<open>gettimeofday\<close>) is an argument of the operation that makes it.
  The \<open>long\<close> fields are integers; \<open>timeDiff_fits\<close> and \<open>clock_time_elapsed_fits\<close> show the ranges
  in which the 64-bit arithmetic is exact. The property bounds the rounding error of a timer,
  whatever the clock does between two readings. Printing is not modelled.
\<close>

record timeval =
  tv_sec :: int
  tv_usec :: int

record timespec =
  ts_sec :: int
  ts_nsec :: int

definition timeDiff :: "timeval \<Rightarrow> timeval \<Rightarrow> timeval" where
  "timeDiff a b = (
     let d = \<lparr>tv_sec = tv_sec a - tv_sec b, tv_usec = tv_usec a - tv_usec b\<rparr> in
     if tv_usec d < 0 then \<lparr>tv_sec = tv_sec d - 1, tv_usec = tv_usec d + 1000000\<rparr> else d)"

definition tv_to_double :: "timeval \<Rightarrow> rat" where
  "tv_to_double t = f64 (f64 (of_int (tv_sec t)) + f64 (of_int (tv_usec t) / 1000000))"

definition elapsed :: "timeval \<Rightarrow> timeval \<Rightarrow> rat" where
  "elapsed starttime endtime = tv_to_double (timeDiff endtime starttime)"

definition clock_time_elapsed :: "timespec \<Rightarrow> timespec \<Rightarrow> int" where
  "clock_time_elapsed start end =
     (ts_sec end - ts_sec start) * 1000000000 + (ts_nsec end - ts_nsec start)"

record ptimer =
  pt_start :: timeval
  pt_end :: timeval
  elapsed_us :: rat
  prefix :: string

definition ptimer_reset :: "ptimer \<Rightarrow> ptimer" where
  "ptimer_reset t = t\<lparr>pt_start := \<lparr>tv_sec = 0, tv_usec = 0\<rparr>,
                      pt_end := \<lparr>tv_sec = 0, tv_usec = 0\<rparr>, elapsed_us := 0\<rparr>"

text \<open>\<open>snprintf\<close> keeps at most 63 characters of the prefix.\<close>

definition ptimer_init :: "ptimer \<Rightarrow> string \<Rightarrow> ptimer" where
  "ptimer_init t pfx = (ptimer_reset t)\<lparr>prefix := take 63 pfx\<rparr>"

definition ptimer_continue :: "ptimer \<Rightarrow> timeval \<Rightarrow> ptimer" where
  "ptimer_continue t now = t\<lparr>pt_start := now\<rparr>"

definition ptimer_start :: "ptimer \<Rightarrow> timeval \<Rightarrow> ptimer" where
  "ptimer_start t now = ptimer_continue (ptimer_reset t) now"

definition ptimer_stop :: "ptimer \<Rightarrow> timeval \<Rightarrow> ptimer" where
  "ptimer_stop t now = (
     let t = t\<lparr>pt_end := now\<rparr>
     in t\<lparr>elapsed_us := f64 (elapsed_us t + f64 (elapsed (pt_start t) (pt_end t) * 1000000))\<rparr>)"

section \<open>Differences of readings\<close>

definition tv_ok :: "timeval \<Rightarrow> bool" where
  "tv_ok t \<longleftrightarrow> 0 \<le> tv_usec t \<and> tv_usec t < 1000000"

definition tv_us :: "timeval \<Rightarrow> int" where
  "tv_us t = tv_sec t * 1000000 + tv_usec t"

lemma timeDiff_exact: "tv_us (timeDiff a b) = tv_us a - tv_us b"
  by (simp add: tv_us_def timeDiff_def Let_def algebra_simps)

lemma timeDiff_ok: "tv_ok a \<Longrightarrow> tv_ok b \<Longrightarrow> tv_ok (timeDiff a b)"
  by (auto simp: tv_ok_def timeDiff_def Let_def)

text \<open>The arithmetic of \<open>timeDiff\<close> does not leave the 64-bit \<open>long\<close>.\<close>

lemma timeDiff_fits:
  assumes "tv_ok a" "tv_ok b" "\<bar>tv_sec a\<bar> < 2 ^ 62" "\<bar>tv_sec b\<bar> < 2 ^ 62"
  shows "\<bar>tv_sec (timeDiff a b)\<bar> < 2 ^ 63" "\<bar>tv_usec (timeDiff a b)\<bar> < 2 ^ 63"
  using assms by (auto simp: tv_ok_def timeDiff_def Let_def)

text \<open>The double of a normalised difference of at most \<open>2 ^ 50\<close> microseconds.\<close>

lemma tv_to_double_error:
  assumes t: "tv_ok t" and d: "\<bar>tv_us t\<bar> \<le> 2 ^ 50"
  shows "\<bar>tv_to_double t * 1000000 - of_int (tv_us t)\<bar> \<le> 1 / 8"
proof -
  let ?s = "tv_sec t" and ?u = "of_int (tv_usec t) / 1000000 :: rat"
  have s: "\<bar>?s\<bar> < 2 ^ 31 - 2" using t d by (auto simp: tv_ok_def tv_us_def)
  have fs: "f64 (of_int ?s) = of_int ?s" using s by (intro f64_of_int) simp
  have u: "0 \<le> ?u" "?u < 1" using t by (auto simp: tv_ok_def)
  have e1: "\<bar>f64 ?u - ?u\<bar> \<le> 2 powi (- 54)" using f64_error [of ?u 0] u by simp
  have "of_int \<bar>?s\<bar> < (of_int (2 ^ 31 - 2) :: rat)" using s by (simp only: of_int_less_iff)
  then have "\<bar>of_int ?s :: rat\<bar> < 2 ^ 31 - 2" by simp
  moreover have "(2 :: rat) powi (- 54) \<le> 1" using powi2_le [of "- 54" 0] by simp
  ultimately have "\<bar>of_int ?s + f64 ?u\<bar> < 2 ^ 31" using e1 u by linarith
  then have "\<bar>of_int ?s + f64 ?u\<bar> < 2 powi 31" by (simp add: power_int_def)
  then have "\<bar>tv_to_double t - (of_int ?s + f64 ?u)\<bar> \<le> 2 powi (31 - 54)"
    unfolding tv_to_double_def fs by (rule f64_error) simp
  then have "\<bar>tv_to_double t - (of_int ?s + f64 ?u)\<bar> \<le> 2 powi (- 23)" by simp
  then have "\<bar>tv_to_double t - (of_int ?s + ?u)\<bar> \<le> 2 powi (- 23) + 2 powi (- 54)" using e1 by linarith
  moreover have "(2 :: rat) powi (- 23) + 2 powi (- 54) \<le> 1 / 8000000" by (simp add: power_int_def power_divide)
  ultimately have "\<bar>tv_to_double t - (of_int ?s + ?u)\<bar> \<le> 1 / 8000000" by linarith
  moreover have "tv_to_double t * 1000000 - of_int (tv_us t) = (tv_to_double t - (of_int ?s + ?u)) * 1000000"
    by (simp add: tv_us_def algebra_simps)
  ultimately show ?thesis by (simp only: abs_mult) simp
qed

lemma elapsed_error:
  assumes "tv_ok s" "tv_ok e" "\<bar>tv_us e - tv_us s\<bar> \<le> 2 ^ 50"
  shows "\<bar>elapsed s e * 1000000 - of_int (tv_us e - tv_us s)\<bar> \<le> 1 / 8"
  unfolding elapsed_def using tv_to_double_error [OF timeDiff_ok [OF assms(2,1)]] assms(3) by (simp add: timeDiff_exact)

section \<open>The accumulating timer\<close>

text \<open>A timer that is started and then stopped and continued at the given pairs of readings.\<close>

fun ptimer_run :: "ptimer \<Rightarrow> (timeval \<times> timeval) list \<Rightarrow> ptimer" where
  "ptimer_run t [] = t"
| "ptimer_run t ((on, off) # xs) = ptimer_run (ptimer_stop (ptimer_continue t on) off) xs"

definition lap_us :: "timeval \<times> timeval \<Rightarrow> int" where
  "lap_us = (\<lambda>(on, off). tv_us off - tv_us on)"

definition lap_ok :: "timeval \<times> timeval \<Rightarrow> bool" where
  "lap_ok = (\<lambda>(on, off). tv_ok on \<and> tv_ok off)"

text \<open>One lap adds its length with an error of at most half a microsecond.\<close>

lemma ptimer_stop_error:
  assumes lap: "lap_ok (on, off)" and e: "\<bar>elapsed_us t\<bar> + of_int \<bar>lap_us (on, off)\<bar> \<le> 2 ^ 50"
  shows "\<bar>elapsed_us (ptimer_stop (ptimer_continue t on) off) - (elapsed_us t + of_int (lap_us (on, off)))\<bar> \<le> 1 / 2"
proof -
  let ?d = "lap_us (on, off)" and ?y = "elapsed on off * 1000000"
  have "of_int \<bar>?d\<bar> \<le> (of_int (2 ^ 50) :: rat)" using e by simp
  then have d: "\<bar>?d\<bar> \<le> 2 ^ 50" by (simp only: of_int_le_iff)
  have 1: "\<bar>?y - of_int ?d\<bar> \<le> 1 / 8"
    using elapsed_error [of on off] lap d by (simp add: lap_ok_def lap_us_def)
  have p: "(2 :: rat) ^ 50 + 1 < 2 powi 51" by (simp add: power_int_def)
  have "\<bar>?y\<bar> < 2 powi 51" using 1 e p unfolding of_int_abs by linarith
  from f64_error [OF this] have 2: "\<bar>f64 ?y - ?y\<bar> \<le> 1 / 8" by (simp add: power_int_def power_divide)
  have "\<bar>elapsed_us t + f64 ?y\<bar> < 2 powi 51" using 1 2 e p unfolding of_int_abs by linarith
  from f64_error [OF this] have "\<bar>f64 (elapsed_us t + f64 ?y) - (elapsed_us t + f64 ?y)\<bar> \<le> 1 / 8" by (simp add: power_int_def power_divide)
  with 1 2 have "\<bar>f64 (elapsed_us t + f64 ?y) - (elapsed_us t + of_int ?d)\<bar> \<le> 1 / 2" by linarith
  then show ?thesis by (simp add: ptimer_stop_def ptimer_continue_def Let_def)
qed

lemma ptimer_run_error:
  assumes "list_all lap_ok xs" and "\<bar>elapsed_us t\<bar> + (\<Sum>x\<leftarrow>xs. of_int \<bar>lap_us x\<bar> + 1 / 2) \<le> 2 ^ 50"
  shows "\<bar>elapsed_us (ptimer_run t xs) - (elapsed_us t + of_int (\<Sum>x\<leftarrow>xs. lap_us x))\<bar> \<le> of_nat (length xs) / 2"
  using assms
proof (induction t xs rule: ptimer_run.induct)
  case (2 t on off xs)
  let ?t = "ptimer_stop (ptimer_continue t on) off" and ?l = "(on, off)"
  have pos: "0 \<le> (\<Sum>x\<leftarrow>xs. of_int \<bar>lap_us x\<bar> + 1 / 2 :: rat)" by (rule sum_list_nonneg) auto
  have 1: "\<bar>elapsed_us ?t - (elapsed_us t + of_int (lap_us ?l))\<bar> \<le> 1 / 2"
    by (rule ptimer_stop_error) (use 2(2,3) pos in simp_all)
  have "\<bar>elapsed_us ?t\<bar> + (\<Sum>x\<leftarrow>xs. of_int \<bar>lap_us x\<bar> + 1 / 2) \<le> 2 ^ 50"
    using 1 2(3) unfolding list.map sum_list.Cons of_int_abs by linarith
  then have "\<bar>elapsed_us (ptimer_run ?t xs) - (elapsed_us ?t + of_int (\<Sum>x\<leftarrow>xs. lap_us x))\<bar> \<le> of_nat (length xs) / 2"
    using 2(1,2) by simp
  with 1 have "\<bar>elapsed_us (ptimer_run ?t xs) - (elapsed_us t + of_int (lap_us ?l) + of_int (\<Sum>x\<leftarrow>xs. lap_us x))\<bar>
    \<le> 1 / 2 + of_nat (length xs) / 2" by linarith
  then show ?case by (simp add: add_divide_distrib add.assoc)
qed simp

lemma clock_time_elapsed_fits:
  assumes "0 \<le> ts_sec s" "ts_sec s < 2 ^ 33" "0 \<le> ts_sec e" "ts_sec e < 2 ^ 33"
    and "0 \<le> ts_nsec s" "ts_nsec s < 10 ^ 9" "0 \<le> ts_nsec e" "ts_nsec e < 10 ^ 9"
  shows "\<bar>clock_time_elapsed s e\<bar> < 2 ^ 63"
  using assms by (auto simp: clock_time_elapsed_def)

section \<open>Properties\<close>

text \<open>
  C16: A timer that is initialised and then continued and stopped any number of times shows the
  sum of its laps with an error of at most half a microsecond per lap, whatever the clock does
  between two readings: a lap in which the clock is set back counts as a negative one. The
  readings are normalised (0 to 999999 microseconds) and the laps sum up to less than 2^50
  microseconds, about 35 years; the rounding of every double operation is included.
\<close>

lemma ptimer_accurate:
  assumes "list_all lap_ok xs" and "(\<Sum>x\<leftarrow>xs. \<bar>lap_us x\<bar> + 1) \<le> 2 ^ 50"
  shows "\<bar>elapsed_us (ptimer_run (ptimer_init t nm) xs) - of_int (\<Sum>x\<leftarrow>xs. lap_us x)\<bar> \<le> of_nat (length xs) / 2"
proof -
  have "(\<Sum>x\<leftarrow>xs. of_int \<bar>lap_us x\<bar> + 1 / 2 :: rat) \<le> of_int (\<Sum>x\<leftarrow>xs. \<bar>lap_us x\<bar> + 1)"
    by (induction xs) auto
  also have "\<dots> \<le> of_int (2 ^ 50)" using assms(2) by (simp only: of_int_le_iff)
  finally have "(\<Sum>x\<leftarrow>xs. of_int \<bar>lap_us x\<bar> + 1 / 2 :: rat) \<le> 2 ^ 50" by simp
  then show ?thesis using ptimer_run_error [OF assms(1), of "ptimer_init t nm"]
    by (simp add: ptimer_init_def ptimer_reset_def)
qed

lemma ptimer_accurate_witness:
  fixes t :: ptimer
  defines "t \<equiv> \<lparr>pt_start = \<lparr>tv_sec = 0, tv_usec = 0\<rparr>, pt_end = \<lparr>tv_sec = 0, tv_usec = 0\<rparr>, elapsed_us = 5, prefix = []\<rparr>"
  shows "\<bar>elapsed_us (ptimer_run (ptimer_init t ''Total'')
    [(\<lparr>tv_sec = 10, tv_usec = 999999\<rparr>, \<lparr>tv_sec = 12, tv_usec = 1\<rparr>), (\<lparr>tv_sec = 12, tv_usec = 1\<rparr>, \<lparr>tv_sec = 11, tv_usec = 999999\<rparr>)])
    - 1000000\<bar> \<le> 1"
  using ptimer_accurate [of "[(\<lparr>tv_sec = 10, tv_usec = 999999\<rparr>, \<lparr>tv_sec = 12, tv_usec = 1\<rparr>), (\<lparr>tv_sec = 12, tv_usec = 1\<rparr>, \<lparr>tv_sec = 11, tv_usec = 999999\<rparr>)]" t "''Total''"]
  by (simp add: lap_ok_def lap_us_def tv_ok_def tv_us_def)

end
