(* ===== verification/Pebs_Pages.thy ===== *)
theory Pebs_Pages
  imports Fifo Page_Table Kdq Migration Pebs_Score Timer
begin

text \<open>
  The page bookkeeping of \<open>src/pebs.c\<close>: the two free lists, the table \<open>pages\<close> of the fault handler,
  the table \<open>pages_map\<close> of the policy thread, the queue \<open>mod_page_dq\<close> that carries changes from the
  one to the other, and the migrations that the worker threads carry out. Each lock of the
  code protects one component of the state, and each definition here is what one thread does
  between taking and releasing such a lock, or a sequence of such pieces.
\<close>

datatype free_list = DRAM_FREE | NVM_FREE

record migration_req =
  dram_page :: addr
  nvm_page :: addr
  free_page :: addr
  need_demotion :: bool

record pebs_state = arms_state +
  links :: "free_list dll"
  pages :: khash
  pages_map :: khash
  mod_page_dq :: "(addr \<times> bool) kdq"
  mlinks :: "unit dll"
  reqs :: "addr \<Rightarrow> migration_req"
  completion :: nat
  promotion_cost_avg :: rat
  demotion_cost_avg :: rat

definition upd_page :: "addr \<Rightarrow> (arms_page \<Rightarrow> arms_page) \<Rightarrow> 'a arms_state_scheme \<Rightarrow> 'a arms_state_scheme" where
  "upd_page p f s = s\<lparr>body := (body s)(p := f (body s p))\<rparr>"

section \<open>Allocation\<close>

definition pebs_allocate_page :: "'a pebs_state_scheme \<Rightarrow> (addr \<times> 'a pebs_state_scheme) option" where
  "pebs_allocate_page s = do {
     (page, lk) \<leftarrow> dequeue_fifo (links s) DRAM_FREE;
     (if page \<noteq> NULL then do {
        assert_that (in_dram (body s page));
        assert_that (\<not> present (body s page));
        Some (page, upd_page page (\<lambda>p. p\<lparr>present := True\<rparr>) (s\<lparr>links := lk\<rparr>))
      } else do {
        (page, lk) \<leftarrow> dequeue_fifo lk NVM_FREE;
        (if page \<noteq> NULL then do {
           assert_that (\<not> in_dram (body s page));
           assert_that (\<not> present (body s page));
           Some (page, upd_page page (\<lambda>p. p\<lparr>present := True\<rparr>) (s\<lparr>links := lk\<rparr>))
         } else None)
      })
   }"

definition pebs_pagefault :: "'a pebs_state_scheme \<Rightarrow> (addr \<times> 'a pebs_state_scheme) option" where
  "pebs_pagefault s = do {
     (page, s) \<leftarrow> pebs_allocate_page s;
     assert_that (page \<noteq> NULL);
     Some (page, s)
   }"

section \<open>The tables\<close>

definition pebs_add_page :: "nat option \<Rightarrow> 'a pebs_state_scheme \<Rightarrow> addr \<Rightarrow> 'a pebs_state_scheme option" where
  "pebs_add_page oom s page = do {
     assert_that (page \<noteq> NULL);
     h \<leftarrow> pages_put oom (pages s) (va (body s page)) page;
     let s = s\<lparr>pages := h\<rparr>;
     Some (s\<lparr>mod_page_dq := kdq_push (NULL, False) (mod_page_dq s) (page, False)\<rparr>)
   }"

definition pebs_find_page :: "'a pebs_state_scheme \<Rightarrow> u64 \<Rightarrow> addr option" where
  "pebs_find_page s a = pages_find (pages s) a"

text \<open>
  Removing a page takes three locks one after the other: of the table, of the queue, of the
  page. \<open>remove_page_queue\<close> is the first two, \<open>remove_page_clear\<close> the third.
\<close>

definition remove_page_queue :: "'a pebs_state_scheme \<Rightarrow> addr \<Rightarrow> 'a pebs_state_scheme option" where
  "remove_page_queue s page = do {
     assert_that (page \<noteq> NULL);
     h \<leftarrow> pages_del (pages s) (va (body s page));
     let s = s\<lparr>pages := h\<rparr>;
     Some (s\<lparr>mod_page_dq := kdq_push (NULL, False) (mod_page_dq s) (page, True)\<rparr>)
   }"

definition remove_page_clear :: "'a pebs_state_scheme \<Rightarrow> addr \<Rightarrow> 'a pebs_state_scheme" where
  "remove_page_clear s page = upd_page page (\<lambda>p. p\<lparr>present := False\<rparr>) s"

definition pebs_remove_page :: "'a pebs_state_scheme \<Rightarrow> addr \<Rightarrow> 'a pebs_state_scheme option" where
  "pebs_remove_page s page = do {
     s \<leftarrow> remove_page_queue s page;
     Some (remove_page_clear s page)
   }"

text \<open>
  One iteration of the loop of the policy thread that drains the queue. The result says
  whether there was an entry. The entry is read in the array of the queue at the index that
  \<open>kdq_shift\<close> returns.
\<close>

definition free_list_of :: "arms_page \<Rightarrow> free_list" where
  "free_list_of p = (if in_dram p then DRAM_FREE else NVM_FREE)"

definition drain_one :: "nat option \<Rightarrow> 'a pebs_state_scheme \<Rightarrow> (bool \<times> 'a pebs_state_scheme) option" where
  "drain_one oom s =
     (case kdq_shift (mod_page_dq s) of
        (None, q) \<Rightarrow> Some (False, s)
      | (Some i, q) \<Rightarrow> (
          let (page, free) = q_a q ! i;
              s = s\<lparr>mod_page_dq := q\<rparr> in
          if free then do {
            k \<leftarrow> kh_get (pages_map s) (va (body s page));
            (if k \<noteq> kh_end (pages_map s) then do {
               let s = s\<lparr>pages_map := kh_del (pages_map s) k\<rparr>;
               lk \<leftarrow> enqueue_fifo (links s) (free_list_of (body s page)) page;
               Some (True, upd_page page reset_page_access_fields (s\<lparr>links := lk\<rparr>))
             } else Some (True, s))
          } else do {
            h \<leftarrow> pages_put oom (pages_map s) (va (body s page)) page;
            Some (True, s\<lparr>pages_map := h\<rparr>)
          }))"

text \<open>The loop ends when it finds the queue empty; \<open>ooms\<close> gives the failures of each round.\<close>

partial_function (option) drain :: "(nat \<Rightarrow> nat option) \<Rightarrow> nat \<Rightarrow> 'a pebs_state_scheme \<Rightarrow> 'a pebs_state_scheme option" where
  "drain ooms i s = do {
     (more, s) \<leftarrow> drain_one (ooms i) s;
     (if more then drain ooms (Suc i) s else Some s)
   }"

declare drain.simps [code]

section \<open>Migrations\<close>

definition promote_to_free_dram_page ::
  "kernel \<Rightarrow> 'a pebs_state_scheme \<Rightarrow> addr \<Rightarrow> addr \<Rightarrow> 'a pebs_state_scheme option" where
  "promote_to_free_dram_page K s p np =
     (if \<not> present (body s p) then do {
        lk \<leftarrow> enqueue_fifo (links s) DRAM_FREE np;
        Some (s\<lparr>links := lk\<rparr>)
      } else do {
        let old_offset = devdax_offset (body s p);
        s \<leftarrow> pebs_migrate_up K s p (devdax_offset (body s np));
        let s = upd_page np (\<lambda>n. n\<lparr>devdax_offset := old_offset, in_dram := False, present := False\<rparr>) s;
        let s = upd_page np reset_page_access_fields s;
        lk \<leftarrow> enqueue_fifo (links s) NVM_FREE np;
        Some (s\<lparr>links := lk\<rparr>)
      })"

definition demote_to_free_nvm_page ::
  "kernel \<Rightarrow> 'a pebs_state_scheme \<Rightarrow> addr \<Rightarrow> addr \<Rightarrow> (bool \<times> 'a pebs_state_scheme) option" where
  "demote_to_free_nvm_page K s cp np =
     (if \<not> present (body s cp) then Some (False, s)
      else do {
        let old_offset = devdax_offset (body s cp);
        s \<leftarrow> pebs_migrate_down K s cp (devdax_offset (body s np));
        let s = upd_page np (\<lambda>n. n\<lparr>devdax_offset := old_offset, in_dram := True, present := False\<rparr>) s;
        Some (True, upd_page np reset_page_access_fields s)
      })"

text \<open>The running averages of the costs, from the two readings of the clock around the work.\<close>

definition timer_us :: "timeval \<Rightarrow> timeval \<Rightarrow> rat" where
  "timer_us t1 t2 = elapsed_us (ptimer_stop (ptimer_start
     (ptimer_init \<lparr>pt_start = t1, pt_end = t1, elapsed_us = 0, prefix = []\<rparr> ''Migrate'') t1) t2)"

definition cost_avg :: "rat \<Rightarrow> rat \<Rightarrow> rat" where
  "cost_avg us avg = f32 (f64 (f64 (MIGRATION_COST_ALPHA * us) + f64 (f64 (1 - MIGRATION_COST_ALPHA) * avg)))"

text \<open>
  One round of the inner loop of a migration thread: take a request and carry it out. \<open>t\<close> are the
  readings of the clock. The result says whether there was a request.
\<close>

definition migrate_one :: "kernel \<Rightarrow> (nat \<Rightarrow> timeval) \<Rightarrow> 'a pebs_state_scheme \<Rightarrow> (bool \<times> 'a pebs_state_scheme) option" where
  "migrate_one K t s = do {
     (r, ml) \<leftarrow> dequeue_fifo_m (mlinks s) ();
     let s = s\<lparr>mlinks := ml\<rparr>;
     (if r = NULL then Some (False, s)
      else do {
        let req = reqs s r;
        (go, s) \<leftarrow> (if need_demotion req then do {
             (ok, s) \<leftarrow> demote_to_free_nvm_page K s (dram_page req) (free_page req);
             (if \<not> ok then do {
                lk \<leftarrow> enqueue_fifo (links s) NVM_FREE (free_page req);
                Some (False, s\<lparr>links := lk\<rparr>)
              } else
                Some (True, s\<lparr>demotion_cost_avg := cost_avg (timer_us (t 0) (t 1)) (demotion_cost_avg s)\<rparr>))
           } else Some (True, s));
        (if \<not> go then Some (True, s\<lparr>completion := completion s + 1\<rparr>)
         else do {
           s \<leftarrow> promote_to_free_dram_page K s (nvm_page req) (free_page req);
           let s = s\<lparr>promotion_cost_avg := cost_avg (timer_us (t 2) (t 3)) (promotion_cost_avg s)\<rparr>;
           Some (True, s\<lparr>completion := completion s + 1\<rparr>)
         })
      })
   }"

section \<open>Initialisation\<close>

text \<open>The loop that makes the descriptors of one tier; \<open>alloc k\<close> is the \<open>k\<close>-th address from \<open>calloc\<close>.\<close>

fun init_frames :: "(nat \<Rightarrow> addr) \<Rightarrow> free_list \<Rightarrow> nat \<Rightarrow> nat \<Rightarrow> 'a pebs_state_scheme \<Rightarrow> 'a pebs_state_scheme option" where
  "init_frames alloc l i 0 s = Some s"
| "init_frames alloc l i (Suc n) s = do {
     let p = alloc i;
     t \<leftarrow> pagesize_to_pt PAGE_SIZE;
     let s = s\<lparr>body := (body s)(p := zero_page\<lparr>devdax_offset := of_nat i * PAGE_SIZE, present := False,
                                        in_dram := (l = DRAM_FREE), pt := t\<rparr>)\<rparr>;
     lk \<leftarrow> enqueue_fifo (links s) l p;
     init_frames alloc l (Suc i) n (s\<lparr>links := lk\<rparr>)
   }"

definition pebs_init :: "(nat \<Rightarrow> addr) \<Rightarrow> (nat \<Rightarrow> addr) \<Rightarrow> 'a pebs_state_scheme \<Rightarrow> 'a pebs_state_scheme option" where
  "pebs_init dram_alloc nvm_alloc s = do {
     let s = s\<lparr>links := dll_empty\<rparr>;
     s \<leftarrow> init_frames dram_alloc DRAM_FREE 0 (unat (dramsize s div PAGE_SIZE)) s;
     s \<leftarrow> init_frames nvm_alloc NVM_FREE 0 (unat (nvmsize s div PAGE_SIZE)) s;
     Some (s\<lparr>pages := kh_init, pages_map := kh_init, mod_page_dq := kdq_init (NULL, False),
             mlinks := dll_empty, completion := 0,
             promotion_cost_avg := of_int MIN_PROMOTION_COST, demotion_cost_avg := of_int MIN_DEMOTION_COST\<rparr>)
   }"

definition PEBS_KSWAPD_INTERVAL_BIG :: u32 where "PEBS_KSWAPD_INTERVAL_BIG = 500000"
definition PEBS_KSWAPD_INTERVAL_SMALL :: u32 where "PEBS_KSWAPD_INTERVAL_SMALL = 100000"

definition thread_period :: "'a arms_state_scheme \<Rightarrow> u32" where
  "thread_period s =
     (if dramsize s + nvmsize s < 32 * 1024 * 1024 * 1024 then PEBS_KSWAPD_INTERVAL_SMALL else PEBS_KSWAPD_INTERVAL_BIG)"

end
