(* ===== verification/Hot_Change.thy ===== *)
theory Hot_Change
  imports Pebs_Pages
begin

text \<open>
  The part of the policy thread of \<open>src/pebs.c\<close> that watches the bandwidth of the two tiers: the
  counters of the memory controllers, the moving averages, the cumulative sum test that detects a
  change of the hot set and switches between the two bias tables, the batch size and latency
  estimate that follow from the load, the decay of the migration costs, and the sampling period of
  the performance events. Readings of the kernel's counters are arguments. \<open>sqrtf\<close> and \<open>fmaxf\<close>
  are the correctly rounded functions of the C library.
\<close>

section \<open>The square root of a float\<close>

function isqrt :: "int \<Rightarrow> int" where
  "isqrt n = (if n \<le> 0 then 0 else
     let r = 2 * isqrt (n div 4) in if (r + 1) * (r + 1) \<le> n then r + 1 else r)"

  by pat_completeness auto

termination by (relation "measure nat") auto

declare isqrt.simps [simp del]

definition sqrtf :: "rat \<Rightarrow> rat" where
  "sqrtf x = (if x \<le> 0 then 0 else
     let k = bexp x div 2 - 23;
         v = x / 2 powi (2 * k);
         m = isqrt \<lfloor>v\<rfloor>;
         h = of_int m + 1 / 2 in
     of_int (if v < h * h \<or> (v = h * h \<and> even m) then m else m + 1) * 2 powi k)"

definition fmaxf :: "rat \<Rightarrow> rat \<Rightarrow> rat" where
  "fmaxf x y = (if x < y then y else x)"

section \<open>Memory bandwidth\<close>

definition NUM_EVENTS :: nat where "NUM_EVENTS = 2"
definition NUM_IMC :: nat where "NUM_IMC = 6"
definition CACHELINE_SIZE :: int where "CACHELINE_SIZE = 64"

text \<open>
  \<open>measure_bw\<close> for one tier: the sum of the increments of all counters since the last call, and the
  readings to remember. \<open>rd j k\<close> is what \<open>read\<close> puts into \<open>cur_val\<close>, \<open>None\<close> when it fails.
\<close>

fun measure_counters :: "(nat \<times> nat) list \<Rightarrow> (nat \<Rightarrow> nat \<Rightarrow> u64 option) \<Rightarrow> u64 \<Rightarrow> (nat \<Rightarrow> nat \<Rightarrow> u64) \<Rightarrow>
    (u64 \<times> (nat \<Rightarrow> nat \<Rightarrow> u64)) option" where
  "measure_counters [] rd cur_bw prev = Some (cur_bw, prev)"
| "measure_counters ((j, k) # js) rd cur_bw prev = do {
     cur_val \<leftarrow> rd j k;
     measure_counters js rd (cur_bw + (cur_val - prev j k)) (prev(j := (prev j)(k := cur_val)))
   }"

definition measure_bw :: "(nat \<Rightarrow> nat \<Rightarrow> u64 option) \<Rightarrow> (nat \<Rightarrow> nat \<Rightarrow> u64) \<Rightarrow> (u64 \<times> (nat \<Rightarrow> nat \<Rightarrow> u64)) option" where
  "measure_bw rd prev = measure_counters (List.product [0..<NUM_EVENTS] [0..<NUM_IMC]) rd 0 prev"

definition bw_gb :: "u64 \<Rightarrow> rat" where
  "bw_gb lines = f32 (f32 (f32 (of_int (uint lines)) * of_int CACHELINE_SIZE) / 2 ^ 30)"

section \<open>The hot-change detector\<close>

definition HCD_EWMA_ALPHA :: rat where "HCD_EWMA_ALPHA = f64 (1 / 10)"
definition HCD_STD_ALPHA :: rat where "HCD_STD_ALPHA = f64 (2 / 10)"
definition HCD_RECN_MAX_PERIODS :: u32 where "HCD_RECN_MAX_PERIODS = 20"
definition HCD_RECN_MIN_NVM_BW :: rat where "HCD_RECN_MIN_NVM_BW = f64 (3 / 10)"
definition HCD_PH_DRIFT :: rat where "HCD_PH_DRIFT = 1 / 2"
definition HCD_PH_THRESHOLD :: rat where "HCD_PH_THRESHOLD = 6"
definition UNLOADED_DRAM_LAT :: rat where "UNLOADED_DRAM_LAT = f64 (1 / 10)"
definition DRAM_BW_KNEE :: int where "DRAM_BW_KNEE = 25"
definition DRAM_BW_SLOPE :: rat where "DRAM_BW_SLOPE = f64 (6 / 1000)"
definition UNLOADED_NVM_LAT :: rat where "UNLOADED_NVM_LAT = 1 / 4"
definition NVM_RD_BW_KNEE :: int where "NVM_RD_BW_KNEE = 15"
definition NVM_WR_BW_KNEE :: int where "NVM_WR_BW_KNEE = 15"
definition NVM_BW_SLOPE :: rat where "NVM_BW_SLOPE = f64 (9 / 100)"

text \<open>\<open>bias\<close> is a pointer to one of the two tables.\<close>

datatype bias_table = HIST | RECN

fun bias_values_of :: "bias_table \<Rightarrow> rat list" where
  "bias_values_of HIST = hist_bias"
| "bias_values_of RECN = recn_bias"

record hcd =
  dram_bw_ewma :: rat
  nvm_bw_ewma :: rat
  nvm_bw_std :: rat
  cusum :: rat
  bias :: bias_table
  time_since_recn :: u32
  batch_size :: rat
  latency_diff :: rat

definition hcd_start :: hcd where
  "hcd_start = \<lparr>dram_bw_ewma = 0, nvm_bw_ewma = 0, nvm_bw_std = 0, cusum = 0, bias = HIST,
     time_since_recn = 0, batch_size = of_int NUM_MIGRATION_THREADS,
     latency_diff = f32 (f64 (UNLOADED_DRAM_LAT - UNLOADED_NVM_LAT))\<rparr>"

definition ewma_bw :: "rat \<Rightarrow> rat \<Rightarrow> rat" where
  "ewma_bw old cur = f64 (f64 (f64 (1 - HCD_EWMA_ALPHA) * old) + f64 (HCD_EWMA_ALPHA * cur))"

definition std_bw :: "rat \<Rightarrow> rat \<Rightarrow> rat \<Rightarrow> rat" where
  "std_bw old cur av = (
     let d = f64 (cur - av);
         var = f64 (f64 (f64 (f64 (1 - HCD_STD_ALPHA) * old) * old) + f64 (f64 (HCD_STD_ALPHA * d) * d))
     in sqrtf (fmaxf (f32 var) (f32 (1 / 10 ^ 12))))"

text \<open>The Page-Hinkley test, with the choice of the bias table.\<close>

definition detect :: "rat \<Rightarrow> hcd \<Rightarrow> hcd" where
  "detect cur_nvm_bw h = (
     let drift = f32 (f64 (HCD_PH_DRIFT * nvm_bw_std h));
         threshold = f32 (f64 (HCD_PH_THRESHOLD * nvm_bw_std h));
         c = f32 (f64 (cusum h + f64 (f64 (cur_nvm_bw - nvm_bw_ewma h) - drift)));
         h = h\<lparr>cusum := fmaxf c 0\<rparr> in
     if cusum h > threshold then
       (if bias h = HIST \<and> cur_nvm_bw > HCD_RECN_MIN_NVM_BW
        then h\<lparr>bias := RECN, time_since_recn := 0, cusum := 0\<rparr>
        else h\<lparr>cusum := 0\<rparr>)
     else if bias h = RECN then
       let h = h\<lparr>time_since_recn := time_since_recn h + 1\<rparr> in
       if time_since_recn h \<ge> HCD_RECN_MAX_PERIODS \<and> cusum h \<le> 0
       then h\<lparr>bias := HIST, time_since_recn := 0\<rparr> else h
     else h)"

definition batch_of :: "rat \<Rightarrow> rat" where
  "batch_of cur_nvm_bw = (
     let b = f32 (f32 (f32 (of_int NVM_WR_BW_KNEE - cur_nvm_bw) / of_int NVM_WR_BW_KNEE) * of_int NUM_MIGRATION_THREADS);
         b = of_int \<lfloor>b\<rfloor> in
     if b < 1 then 1 else b)"

definition loaded_lat :: "rat \<Rightarrow> int \<Rightarrow> rat \<Rightarrow> rat \<Rightarrow> rat" where
  "loaded_lat unloaded knee slope av =
     (if av > of_int knee then f32 (f64 (f32 unloaded + f64 (f64 (av - of_int knee) * slope))) else f32 unloaded)"

definition bw_step :: "u64 \<Rightarrow> u64 \<Rightarrow> hcd \<Rightarrow> hcd" where
  "bw_step dram_lines nvm_lines h = (
     let cur_dram_bw = bw_gb dram_lines;
         cur_nvm_bw = bw_gb nvm_lines;
         h = h\<lparr>dram_bw_ewma := ewma_bw (dram_bw_ewma h) cur_dram_bw, nvm_bw_ewma := ewma_bw (nvm_bw_ewma h) cur_nvm_bw\<rparr>;
         h = h\<lparr>nvm_bw_std := std_bw (nvm_bw_std h) cur_nvm_bw (nvm_bw_ewma h)\<rparr>;
         h = detect cur_nvm_bw h;
         h = h\<lparr>batch_size := batch_of cur_nvm_bw\<rparr>;
         dram_lat = loaded_lat UNLOADED_DRAM_LAT DRAM_BW_KNEE DRAM_BW_SLOPE (dram_bw_ewma h);
         nvm_lat = loaded_lat UNLOADED_NVM_LAT NVM_RD_BW_KNEE NVM_BW_SLOPE (nvm_bw_ewma h)
     in h\<lparr>latency_diff := f32 (nvm_lat - dram_lat)\<rparr>)"

section \<open>Costs and sampling\<close>

text \<open>The averages of the costs decay while nothing migrates, not below the minimum.\<close>

definition decay_cost :: "int \<Rightarrow> rat \<Rightarrow> rat" where
  "decay_cost least avg = (
     let c = f32 (f64 (avg / MIGRATION_COST_DECAY_RATE)) in if c < of_int least then of_int least else c)"

definition PEBS_NPROCS :: nat where "PEBS_NPROCS = 30"

definition sampled_cpu :: "nat \<Rightarrow> bool" where
  "sampled_cpu i \<longleftrightarrow> i < PEBS_NPROCS \<and> \<not> (10 \<le> i \<and> i < 20)"

definition pbuftypes :: "pbuftype list" where
  "pbuftypes = [DRAMREAD, NVMREAD, WRITE]"

text \<open>\<open>ok i j\<close> says whether the \<open>ioctl\<close> on the event succeeds; a failure is only reported.\<close>

definition update_sampling_frequency ::
  "(nat \<Rightarrow> pbuftype \<Rightarrow> bool) \<Rightarrow> sampling_modes \<Rightarrow> (nat \<Rightarrow> pbuftype \<Rightarrow> int) \<Rightarrow> (nat \<Rightarrow> pbuftype \<Rightarrow> int)" where
  "update_sampling_frequency ok mode per = (
     let sample_period = (if mode = HIGH_FIDELITY then HF_SAMPLE_PERIOD else DEFAULT_SAMPLE_PERIOD) in
     (\<lambda>i j. if sampled_cpu i \<and> j \<in> set pbuftypes \<and> ok i j then sample_period else per i j))"

definition switch_mode ::
  "(nat \<Rightarrow> pbuftype \<Rightarrow> bool) \<Rightarrow> bias_table \<Rightarrow> sampling_modes \<times> (nat \<Rightarrow> pbuftype \<Rightarrow> int) \<Rightarrow>
   sampling_modes \<times> (nat \<Rightarrow> pbuftype \<Rightarrow> int)" where
  "switch_mode ok b = (\<lambda>(mode, per).
     if b = RECN \<and> mode \<noteq> HIGH_FIDELITY then (HIGH_FIDELITY, update_sampling_frequency ok mode per)
     else if b = HIST \<and> mode \<noteq> DEFAULT_SAMPLING then (DEFAULT_SAMPLING, update_sampling_frequency ok mode per)
     else (mode, per))"

section \<open>The square root is rounded correctly\<close>

lemma isqrt_bounds: "0 \<le> n \<Longrightarrow> 0 \<le> isqrt n \<and> isqrt n * isqrt n \<le> n \<and> n < (isqrt n + 1) * (isqrt n + 1)"
proof (induction n rule: isqrt.induct)
  case (1 n)
  show ?case
  proof (cases "n = 0")
    case True
    then show ?thesis by (simp add: isqrt.simps)
  next
    case False
    let ?q = "isqrt (n div 4)"
    have IH: "0 \<le> ?q" "?q * ?q \<le> n div 4" "n div 4 < (?q + 1) * (?q + 1)" using 1 False by auto
    from IH(2) have low: "4 * (?q * ?q) \<le> n" by linarith
    from IH(3) have high: "n < 4 * ((?q + 1) * (?q + 1))" by linarith
    have e: "isqrt n = (if (2 * ?q + 1) * (2 * ?q + 1) \<le> n then 2 * ?q + 1 else 2 * ?q)"
      using False 1(2) isqrt.simps [of n] by (simp add: Let_def)
    show ?thesis using IH(1) low high unfolding e by (auto simp: algebra_simps)
  qed
qed

text \<open>\<open>sqrtf x\<close> is a multiple of a power of two with 24 bits, at most half of it away from the root.\<close>

lemma sqrtf_nearest:
  assumes "0 < x"
  shows "\<exists>m k. sqrtf x = of_int m * 2 powi k \<and> 2 ^ 23 \<le> m \<and> ((of_int m - 1 / 2) * 2 powi k)\<^sup>2 \<le> x \<and> x \<le> ((of_int m + 1 / 2) * 2 powi k)\<^sup>2"
proof -
  define k where "k = bexp x div 2 - 23"
  define v where "v = x / 2 powi (2 * k)"
  define m where "m = isqrt \<lfloor>v\<rfloor>"
  define M where "M = (if v < (of_int m + 1 / 2) * (of_int m + 1 / 2) \<or> (v = (of_int m + 1 / 2) * (of_int m + 1 / 2) \<and> even m) then m else m + 1)"
  have r: "sqrtf x = of_int M * 2 powi k" using assms by (simp add: sqrtf_def k_def v_def m_def M_def Let_def)
  have sq: "(2 :: rat) powi (2 * k) = (2 powi k)\<^sup>2" by (simp add: power2_eq_square flip: power_int_add)
  have x: "x = v * (2 powi k)\<^sup>2" by (simp add: v_def sq)
  have "2 powi (2 * k + 46) \<le> (2 :: rat) powi bexp x" by (rule powi2_le) (simp add: k_def)
  also have "\<dots> \<le> x" using bexp_bounds(1) [of x] assms by simp
  also have "x = v * 2 powi (2 * k)" by (simp add: v_def)
  finally have "2 ^ 46 * 2 powi (2 * k) \<le> v * (2 :: rat) powi (2 * k)" by (simp add: power_int_add mult.commute)
  then have v46: "2 ^ 46 \<le> v" by simp
  then have f0: "2 ^ 46 \<le> \<lfloor>v\<rfloor>" by (subst le_floor_iff) simp
  note B = isqrt_bounds [of "\<lfloor>v\<rfloor>", folded m_def]
  have mb: "0 \<le> m" "m * m \<le> \<lfloor>v\<rfloor>" "\<lfloor>v\<rfloor> < (m + 1) * (m + 1)" using B f0 by auto
  have low: "of_int m * of_int m \<le> v" using mb(2) by (simp add: le_floor_iff)
  have high: "v < (of_int m + 1) * (of_int m + 1)" using mb(3) by (simp add: floor_less_iff)
  have m23: "2 ^ 23 \<le> m"
  proof (rule ccontr)
    assume "\<not> ?thesis"
    then have "(m + 1) * (m + 1) \<le> 2 ^ 23 * 2 ^ 23" using mb(1) by (intro mult_mono) auto
    then have "(m + 1) * (m + 1) \<le> 2 ^ 46" by simp
    then show False using mb(3) f0 by linarith
  qed
  let ?m = "of_int m :: rat"
  have pos: "0 < ?m" using m23 by simp
  have up: "(?m + 1) * (?m + 1) \<le> (?m + 3 / 2) * (?m + 3 / 2)" "(?m - 1 / 2) * (?m - 1 / 2) \<le> ?m * ?m"
    using pos by (simp_all add: algebra_simps)
  have M: "(of_int M - 1 / 2)\<^sup>2 \<le> v \<and> v \<le> (of_int M + 1 / 2)\<^sup>2 \<and> 2 ^ 23 \<le> M"
  proof (cases "M = m")
    case True
    then have "v \<le> (?m + 1 / 2) * (?m + 1 / 2)" by (auto simp: M_def split: if_splits)
    then show ?thesis using up(2) low m23 True unfolding power2_eq_square by (metis order_trans)
  next
    case False
    then have M1: "M = m + 1" and c: "(?m + 1 / 2) * (?m + 1 / 2) \<le> v" by (auto simp: M_def split: if_splits)
    have e: "(of_int M :: rat) - 1 / 2 = ?m + 1 / 2" "(of_int M :: rat) + 1 / 2 = ?m + 3 / 2" by (simp_all add: M1)
    have "v \<le> (?m + 3 / 2) * (?m + 3 / 2)" using high up(1) by (metis less_imp_le order_trans)
    then show ?thesis using c m23 M1 unfolding e power2_eq_square by simp
  qed
  have "((of_int M - 1 / 2) * 2 powi k)\<^sup>2 \<le> x" "x \<le> ((of_int M + 1 / 2) * 2 powi k)\<^sup>2"
    unfolding x power_mult_distrib using M by (intro mult_right_mono; simp)+
  then show ?thesis using r M by blast
qed

lemma sqrtf_pos: "0 < x \<Longrightarrow> 0 < sqrtf x"
  using sqrtf_nearest [of x] by (auto intro!: mult_pos_pos)

lemma std_bw_pos: "0 < std_bw old cur av"
proof -
  have "0 < f32 (1 / 10 ^ 12)" by code_simp
  then show ?thesis unfolding std_bw_def Let_def by (intro sqrtf_pos) (auto simp: fmaxf_def)
qed

section \<open>The detector stays in its bounds\<close>

lemma bw_gb_nonneg: "0 \<le> bw_gb n"
  proof -
  have "(of_int 0 :: rat) \<le> of_int (uint n)" by (simp only: of_int_le_iff) simp
  then have "0 \<le> f32 (of_int (uint n))" unfolding of_int_0 by (rule f_nonneg)
  then have "0 \<le> f32 (f32 (of_int (uint n)) * of_int CACHELINE_SIZE)"
    unfolding CACHELINE_SIZE_def by (intro f_nonneg(1) [OF mult_nonneg_nonneg]) simp_all
  then show ?thesis unfolding bw_gb_def by (intro f_nonneg(1) [OF divide_nonneg_nonneg]) simp_all
qed

lemma batch_bounds:
  assumes "0 \<le> cur"
  shows "1 \<le> batch_of cur" "batch_of cur \<le> 8"
proof -
  show "1 \<le> batch_of cur" by (simp add: batch_of_def Let_def)
  have i: "f32 15 = 15" "f32 1 = 1" "f32 8 = 8" using f32_of_int [of 15] f32_of_int [of 1] f32_of_int [of 8] by simp_all
  have "f32 (15 - cur) \<le> 15" using f32_mono [of "15 - cur" 15] assms i by simp
  then have "f32 (f32 (15 - cur) / 15) \<le> 1" using f32_mono [of "f32 (15 - cur) / 15" 1] i by simp
  then have "f32 (f32 (f32 (15 - cur) / 15) * 8) \<le> 8" using f32_mono [of "f32 (f32 (15 - cur) / 15) * 8" 8] i by simp
  then have "\<lfloor>f32 (f32 (f32 (15 - cur) / 15) * 8)\<rfloor> \<le> 8" by linarith
  then have "(of_int \<lfloor>f32 (f32 (f32 (15 - cur) / 15) * 8)\<rfloor> :: rat) \<le> of_int 8" by (simp only: of_int_le_iff)
  then show "batch_of cur \<le> 8" by (simp add: batch_of_def NVM_WR_BW_KNEE_def NUM_MIGRATION_THREADS_def Let_def)
qed

lemma detect_fields [simp]:
  "nvm_bw_std (detect c h) = nvm_bw_std h" "nvm_bw_ewma (detect c h) = nvm_bw_ewma h"
  "dram_bw_ewma (detect c h) = dram_bw_ewma h" "batch_size (detect c h) = batch_size h"
  by (simp_all add: detect_def Let_def)

lemma detect_cusum: "0 \<le> cusum (detect c h)"
  by (auto simp: detect_def Let_def fmaxf_def)

definition hcd_ok :: "hcd \<Rightarrow> bool" where
  "hcd_ok h \<longleftrightarrow> 0 < nvm_bw_std h \<and> 0 \<le> cusum h \<and> 1 \<le> batch_size h \<and> batch_size h \<le> 8"

lemma bw_step_ok: "hcd_ok (bw_step d n h)"
  using batch_bounds [OF bw_gb_nonneg, of n]
  by (simp add: hcd_ok_def bw_step_def Let_def std_bw_pos detect_cusum)

text \<open>A switch to the recency table, and how long it is kept.\<close>

lemma detect_to_recn:
  assumes "bias h = HIST" "bias (detect c h) = RECN"
  shows "HCD_RECN_MIN_NVM_BW < c \<and> time_since_recn (detect c h) = 0 \<and> cusum (detect c h) = 0"
  using assms by (auto simp: detect_def Let_def split: if_splits)

lemma detect_recn_time:
  assumes "bias h = RECN" "unat (time_since_recn h) < k" "k < 20"
  shows "bias (detect c h) = RECN \<and> unat (time_since_recn (detect c h)) < Suc k"
proof -
  let ?t = "time_since_recn h"
  have "unat (?t + 1) = Suc (unat ?t)" using assms(2,3) by (subst unat_add_lem [THEN iffD1]) auto
  moreover from this have "\<not> HCD_RECN_MAX_PERIODS \<le> ?t + 1"
    using assms(2,3) by (simp add: HCD_RECN_MAX_PERIODS_def word_le_nat_alt)
  ultimately show ?thesis using assms by (auto simp: detect_def Let_def)
qed

definition bw_run :: "(u64 \<times> u64) list \<Rightarrow> hcd \<Rightarrow> hcd" where
  "bw_run rs h = fold (\<lambda>(d, n). bw_step d n) rs h"

lemma bw_run_Cons: "bw_run ((d, n) # rs) h = bw_run rs (bw_step d n h)"
  by (simp add: bw_run_def)

lemma bw_step_bias:
  "bias (bw_step d n h) = bias (detect (bw_gb n) (h\<lparr>dram_bw_ewma := ewma_bw (dram_bw_ewma h) (bw_gb d),
     nvm_bw_ewma := ewma_bw (nvm_bw_ewma h) (bw_gb n), nvm_bw_std := std_bw (nvm_bw_std h) (bw_gb n) (ewma_bw (nvm_bw_ewma h) (bw_gb n))\<rparr>))"
  "time_since_recn (bw_step d n h) = time_since_recn (detect (bw_gb n) (h\<lparr>dram_bw_ewma := ewma_bw (dram_bw_ewma h) (bw_gb d),
     nvm_bw_ewma := ewma_bw (nvm_bw_ewma h) (bw_gb n), nvm_bw_std := std_bw (nvm_bw_std h) (bw_gb n) (ewma_bw (nvm_bw_ewma h) (bw_gb n))\<rparr>))"
  by (simp_all add: bw_step_def Let_def)

lemma bw_run_recn:
  "bias h = RECN \<Longrightarrow> unat (time_since_recn h) < k \<Longrightarrow> k + length rs \<le> 20 \<Longrightarrow> bias (bw_run rs h) = RECN"
proof (induction rs arbitrary: h k)
  case (Cons r rs)
  obtain d n where r: "r = (d, n)" by (cases r)
  have "bias (bw_step d n h) = RECN \<and> unat (time_since_recn (bw_step d n h)) < Suc k"
    unfolding bw_step_bias by (rule detect_recn_time) (use Cons.prems in auto)
  then show ?case unfolding r bw_run_Cons using Cons.prems(3) by (intro Cons.IH [of _ "Suc k"]) auto
qed (simp add: bw_run_def)

text \<open>
  C18: After any non-empty sequence of bandwidth readings, from any state, the deviation is
  positive, the cumulative sum is never negative, and the batch of woken threads is at least one
  and at most the number of migration threads.
\<close>

lemma detector_in_bounds:
  assumes "rs \<noteq> []"
  shows "hcd_ok (bw_run rs h)"
proof -
  obtain r rs' where "rs = rs' @ [r]" using assms by (metis append_butlast_last_id)
  then show ?thesis by (cases r) (simp add: bw_run_def bw_step_ok)
qed

lemma detector_in_bounds_witness:
  "hcd_ok (bw_run [(1000, 536870912), (0, 0)] hcd_start)"
  by (rule detector_in_bounds) simp

text \<open>
  C19: A switch of the detector to the recency bias lasts: it is not taken back before
  HCD_RECN_MAX_PERIODS further readings.
\<close>

lemma recency_lasts:
  assumes "bias h = HIST" "bias (bw_step d n h) = RECN" "length rs \<le> 19"
  shows "HCD_RECN_MIN_NVM_BW < bw_gb n \<and> bias (bw_run rs (bw_step d n h)) = RECN"
proof
  note t = detect_to_recn [OF _ assms(2) [unfolded bw_step_bias], simplified, OF assms(1)]
  then show "HCD_RECN_MIN_NVM_BW < bw_gb n" by simp
  have "time_since_recn (bw_step d n h) = 0" unfolding bw_step_bias using t by simp
  then show "bias (bw_run rs (bw_step d n h)) = RECN" using assms(2,3) by (intro bw_run_recn [of _ 1]) auto
qed

definition quiet_readings :: "(u64 \<times> u64) list" where
  "quiet_readings = replicate 19 (0, 0)"

lemma detect_fires:
  assumes "bias h = HIST" "HCD_RECN_MIN_NVM_BW < c"
    "f32 (f64 (HCD_PH_THRESHOLD * nvm_bw_std h)) <
       f32 (f64 (cusum h + f64 (f64 (c - nvm_bw_ewma h) - f32 (f64 (HCD_PH_DRIFT * nvm_bw_std h)))))"
  shows "bias (detect c h) = RECN"
  using assms by (auto simp: detect_def Let_def fmaxf_def)

lemma burst_detected: "bias (bw_step 0 268435456 (hcd_start\<lparr>cusum := 1000, nvm_bw_ewma := 16\<rparr>)) = RECN"
proof -
  have v: "std_bw 0 16 16 = 8796093 / 8796093022208" by code_simp
  have g: "bw_gb 268435456 = 16" "ewma_bw 16 16 = 16" by code_simp+
  have "HCD_RECN_MIN_NVM_BW < 16" "f32 (f64 (HCD_PH_THRESHOLD * std_bw 0 16 16)) <
    f32 (f64 (1000 + f64 (f64 (16 - 16) - f32 (f64 (HCD_PH_DRIFT * std_bw 0 16 16)))))"
    unfolding v by code_simp+
  then show ?thesis unfolding bw_step_bias g by (intro detect_fires) (simp_all add: hcd_start_def g)
qed

lemma recency_lasts_witness:
  "bias (bw_run quiet_readings (bw_step 0 268435456 (hcd_start\<lparr>cusum := 1000, nvm_bw_ewma := 16\<rparr>))) = RECN"
  using recency_lasts [OF _ burst_detected, of quiet_readings] by (simp add: quiet_readings_def hcd_start_def)

end
