(* ===== verification/Pebs_Inv.thy ===== *)
theory Pebs_Inv
  imports Pebs_Pages
begin

text \<open>
  The invariant of the page bookkeeping and its preservation by every operation of theory
  Pebs_Pages. \<open>F\<close> is the set of descriptors made at the start; each one owns a frame of a
  device for ever, only which frame changes. A descriptor is free (in a list of \<open>Q\<close>), tracked
  (in \<open>pages_map\<close> or in the queue to it), or held by the thread that is working on it.
  \<open>replay\<close> says how the policy's table lags behind the fault handler's: running the queue
  over \<open>pages_map\<close> gives \<open>pages\<close>.
\<close>

section \<open>Frames\<close>

definition frame_of :: "arms_page \<Rightarrow> memtypes \<times> u64" where
  "frame_of p = (if in_dram p then FASTMEM else SLOWMEM, devdax_offset p)"

definition frame_fits :: "'a arms_state_scheme \<Rightarrow> arms_page \<Rightarrow> bool" where
  "frame_fits s p \<longleftrightarrow> pt p = HUGEP \<and> frame_aligned (devdax_offset p) \<and>
     unat (devdax_offset p) + 2 ^ 21 \<le> unat (if in_dram p then dramsize s else nvmsize s)"

definition frames_ok :: "addr set \<Rightarrow> 'a arms_state_scheme \<Rightarrow> bool" where
  "frames_ok F s \<longleftrightarrow> finite F \<and> NULL \<notin> F \<and> card F < 2 ^ 30 \<and>
     (\<forall>p\<in>F. frame_fits s (body s p)) \<and> inj_on (\<lambda>p. frame_of (body s p)) F"

section \<open>The queue of changes\<close>

fun replay :: "(addr \<Rightarrow> u64) \<Rightarrow> (u64 \<rightharpoonup> addr) \<Rightarrow> (addr \<times> bool) list \<Rightarrow> (u64 \<rightharpoonup> addr) option" where
  "replay vaf m [] = Some m"
| "replay vaf m ((p, False) # q) = (if vaf p \<in> dom m then None else replay vaf (m(vaf p \<mapsto> p)) q)"
| "replay vaf m ((p, True) # q) = (if m (vaf p) = Some p then replay vaf (m(vaf p := None)) q else None)"

fun free_last :: "(addr \<times> bool) list \<Rightarrow> bool" where
  "free_last [] = True"
| "free_last ((p, f) # q) \<longleftrightarrow> (f \<longrightarrow> p \<notin> fst ` set q) \<and> free_last q"

lemma replay_Cons:
  "replay vaf m (x # q) =
     (if snd x then if m (vaf (fst x)) = Some (fst x) then replay vaf (m(vaf (fst x) := None)) q else None
      else if vaf (fst x) \<in> dom m then None else replay vaf (m(vaf (fst x) \<mapsto> fst x)) q)"
  by (cases x; cases "snd x") auto

lemma replay_append: "replay vaf m (q @ q') = Option.bind (replay vaf m q) (\<lambda>m. replay vaf m q')"
  by (induction q arbitrary: m) (simp_all add: replay_Cons)

lemma replay_cong: "(\<And>p. p \<in> fst ` set q \<Longrightarrow> vaf p = vaf' p) \<Longrightarrow> replay vaf m q = replay vaf' m q"
  by (induction q arbitrary: m) (simp_all add: replay_Cons)

definition own_keys :: "(addr \<Rightarrow> u64) \<Rightarrow> (u64 \<rightharpoonup> addr) \<Rightarrow> bool" where
  "own_keys vaf m \<longleftrightarrow> (\<forall>a p. m a = Some p \<longrightarrow> vaf p = a)"

lemma own_keys_upd: "own_keys vaf m \<Longrightarrow> own_keys vaf (m(vaf p \<mapsto> p))" "own_keys vaf m \<Longrightarrow> own_keys vaf (m(a := None))"
  by (auto simp: own_keys_def)

lemma own_keys_ran: "own_keys vaf m \<Longrightarrow> p \<in> ran m \<longleftrightarrow> m (vaf p) = Some p"
  by (auto simp: own_keys_def ran_def)

lemma own_keys_card: "own_keys vaf m \<Longrightarrow> finite (ran m) \<Longrightarrow> card (dom m) \<le> card (ran m)"
proof -
  assume "own_keys vaf m" "finite (ran m)"
  moreover from this have "dom m = vaf ` ran m" by (force simp: own_keys_def ran_def)
  ultimately show ?thesis by (simp add: card_image_le)
qed

lemma ran_upd_subset: "ran (m(a \<mapsto> p)) \<subseteq> insert p (ran m)" "ran (m(a := None)) \<subseteq> ran m"
  by (auto simp: ran_def)

lemma ran_upd_other:
  "m a = None \<Longrightarrow> q \<noteq> p \<Longrightarrow> q \<in> ran (m(a \<mapsto> p)) \<longleftrightarrow> q \<in> ran m"
  "m a = Some p \<Longrightarrow> q \<noteq> p \<Longrightarrow> q \<in> ran (m(a := None)) \<longleftrightarrow> q \<in> ran m"
  by (simp_all add: ran_def) (metis option.distinct(1) option.inject)+

lemma ran_free:
  assumes "own_keys vaf m" "m (vaf p) = Some p"
  shows "ran (m(vaf p := None)) = ran m - {p}"
proof (rule set_eqI)
  fix q
  show "q \<in> ran (m(vaf p := None)) \<longleftrightarrow> q \<in> ran m - {p}"
  proof (cases "q = p")
    case True
    then show ?thesis using assms(1) by (auto simp: ran_def own_keys_def)
  next
    case False
    then show ?thesis using ran_upd_other(2) [of m "vaf p" p q] assms(2) by simp
  qed
qed

lemma replay_own: "replay vaf m q = Some m' \<Longrightarrow> own_keys vaf m \<Longrightarrow> own_keys vaf m'"
  by (induction q arbitrary: m) (auto simp: replay_Cons own_keys_upd split: if_splits)

lemma replay_ran: "replay vaf m q = Some m' \<Longrightarrow> ran m' \<subseteq> ran m \<union> fst ` set q"
proof (induction q arbitrary: m)
  case (Cons x q)
  let ?m = "if snd x then m(vaf (fst x) := None) else m(vaf (fst x) \<mapsto> fst x)"
  have "replay vaf ?m q = Some m'" using Cons.prems by (auto simp: replay_Cons split: if_splits)
  then have "ran m' \<subseteq> ran ?m \<union> fst ` set q" by (rule Cons.IH)
  moreover have "ran ?m \<subseteq> insert (fst x) (ran m)"
    using ran_upd_subset [of m "vaf (fst x)"] by (auto split: if_splits)
  ultimately show ?case by auto
qed simp

lemma replay_freed:
  "replay vaf m q = Some m' \<Longrightarrow> own_keys vaf m \<Longrightarrow> free_last q \<Longrightarrow> (p, True) \<in> set q \<Longrightarrow> p \<notin> ran m'"
proof (induction q arbitrary: m)
  case (Cons x q)
  obtain p' f where x: "x = (p', f)" by (cases x)
  let ?m = "if f then m(vaf p' := None) else m(vaf p' \<mapsto> p')"
  have run: "replay vaf ?m q = Some m'" using Cons.prems(1) by (auto simp: x replay_Cons split: if_splits)
  have own: "own_keys vaf ?m" using Cons.prems(2) by (simp add: own_keys_upd)
  have fl: "free_last q" using Cons.prems(3) by (simp add: x)
  show ?case
  proof (cases "(p, True) \<in> set q")
    case True
    then show ?thesis using Cons.IH [OF run own fl] by blast
  next
    case False
    then have "p' = p" "f" using Cons.prems(4) x by auto
    moreover have "p \<notin> fst ` set q" using Cons.prems(3) calculation x by simp
    moreover have "p \<notin> ran (m(vaf p := None))" using Cons.prems(2) by (auto simp: own_keys_def ran_def)
    ultimately show ?thesis using replay_ran [OF run] by auto
  qed
qed simp

lemma free_last_snoc: "free_last (q @ [(p, f)]) \<longleftrightarrow> free_last q \<and> (p, True) \<notin> set q"
  by (induction q rule: free_last.induct) auto

section \<open>The invariant\<close>

abbreviation va_of :: "'a arms_state_scheme \<Rightarrow> addr \<Rightarrow> u64" where
  "va_of s p \<equiv> va (body s p)"

definition queued :: "'a pebs_state_scheme \<Rightarrow> (addr \<times> bool) list" where
  "queued s = kdq_list (mod_page_dq s)"

definition tracked :: "'a pebs_state_scheme \<Rightarrow> addr set" where
  "tracked s = ran (kh_map (pages_map s)) \<union> fst ` set (queued s)"

definition free_pages :: "(free_list \<Rightarrow> addr list) \<Rightarrow> addr set" where
  "free_pages Q = set (Q DRAM_FREE) \<union> set (Q NVM_FREE)"

definition pebs_inv :: "addr set \<Rightarrow> (free_list \<Rightarrow> addr list) \<Rightarrow> 'a pebs_state_scheme \<Rightarrow> bool" where
  "pebs_inv F Q s \<longleftrightarrow>
     dll_rep (links s) Q \<and> frames_ok F s \<and>
     (\<forall>l. \<forall>x\<in>set (Q l). x \<in> F \<and> free_list_of (body s x) = l \<and> \<not> present (body s x)) \<and>
     kh_wf (pages s) \<and> kh_wf (pages_map s) \<and> kdq_wf (mod_page_dq s) \<and>
     own_keys (va_of s) (kh_map (pages_map s)) \<and>
     replay (va_of s) (kh_map (pages_map s)) (queued s) = Some (kh_map (pages s)) \<and>
     free_last (queued s) \<and>
     tracked s \<subseteq> F \<and> tracked s \<inter> free_pages Q = {} \<and>
     (\<forall>p\<in>tracked s. present (body s p) \<longleftrightarrow> p \<in> ran (kh_map (pages s)))"

text \<open>A page in nobody's lists: the thread that took it from a free list works on it.\<close>

definition held :: "addr set \<Rightarrow> (free_list \<Rightarrow> addr list) \<Rightarrow> 'a pebs_state_scheme \<Rightarrow> addr \<Rightarrow> bool" where
  "held F Q s p \<longleftrightarrow> p \<in> F \<and> p \<notin> free_pages Q \<and> p \<notin> tracked s"

lemma pebs_invD:
  assumes "pebs_inv F Q s"
  shows "dll_rep (links s) Q" "frames_ok F s"
    "x \<in> set (Q l) \<Longrightarrow> x \<in> F" "x \<in> set (Q l) \<Longrightarrow> free_list_of (body s x) = l" "x \<in> set (Q l) \<Longrightarrow> \<not> present (body s x)"
    "kh_wf (pages s)" "kh_wf (pages_map s)" "kdq_wf (mod_page_dq s)"
    "own_keys (va_of s) (kh_map (pages_map s))"
    "replay (va_of s) (kh_map (pages_map s)) (queued s) = Some (kh_map (pages s))"
    "free_last (queued s)" "tracked s \<subseteq> F" "tracked s \<inter> free_pages Q = {}"
    "p \<in> tracked s \<Longrightarrow> present (body s p) \<longleftrightarrow> p \<in> ran (kh_map (pages s))"
  using assms unfolding pebs_inv_def by blast+

lemma free_pages_mem: "x \<in> set (Q l) \<Longrightarrow> x \<in> free_pages Q"
  by (cases l) (auto simp: free_pages_def)

lemma free_pages_upd: "free_pages (Q(l := xs)) = set xs \<union> set (Q (if l = DRAM_FREE then NVM_FREE else DRAM_FREE))"
  by (cases l) (auto simp: free_pages_def)

lemma pages_own: "pebs_inv F Q s \<Longrightarrow> own_keys (va_of s) (kh_map (pages s))"
  by (rule replay_own) (auto dest: pebs_invD)

lemma pages_tracked: "pebs_inv F Q s \<Longrightarrow> ran (kh_map (pages s)) \<subseteq> tracked s"
  unfolding tracked_def by (rule replay_ran) (rule pebs_invD)

lemma table_small:
  assumes "pebs_inv F Q s"
  shows "card (dom (kh_map (pages s))) < 2 ^ 30" "card (dom (kh_map (pages_map s))) < 2 ^ 30"
proof -
  have F: "finite F" "card F < 2 ^ 30" using pebs_invD(2) [OF assms] by (auto simp: frames_ok_def)
  have sub: "ran (kh_map (pages s)) \<subseteq> F" "ran (kh_map (pages_map s)) \<subseteq> F"
    using pages_tracked [OF assms] pebs_invD(12) [OF assms] by (auto simp: tracked_def)
  have "card (dom m) < 2 ^ 30" if "own_keys (va_of s) m" "ran m \<subseteq> F" for m
    using own_keys_card [OF that(1) finite_subset [OF that(2) F(1)]] card_mono [OF F(1) that(2)] F(2) by linarith
  then show "card (dom (kh_map (pages s))) < 2 ^ 30" "card (dom (kh_map (pages_map s))) < 2 ^ 30"
    using sub pages_own [OF assms] pebs_invD(9) [OF assms] by blast+
qed

section \<open>Changes to a page that nobody tracks\<close>

lemma upd_page_simps [simp]:
  "body (upd_page p f t) = (body t)(p := f (body t p))"
  "links (upd_page p f (s :: 'a pebs_state_scheme)) = links s" "pages (upd_page p f (s :: 'a pebs_state_scheme)) = pages s"
  "pages_map (upd_page p f (s :: 'a pebs_state_scheme)) = pages_map s"
  "mod_page_dq (upd_page p f (s :: 'a pebs_state_scheme)) = mod_page_dq s"
  "dramsize (upd_page p f t) = dramsize t" "nvmsize (upd_page p f t) = nvmsize t"
  "vmap (upd_page p f t) = vmap t" "dram_mem (upd_page p f t) = dram_mem t" "nvm_mem (upd_page p f t) = nvm_mem t"
  by (simp_all add: upd_page_def)

lemma tracked_fields [simp]:
  "tracked (upd_page p f s) = tracked s" "tracked (s\<lparr>links := lk\<rparr>) = tracked s" "tracked (s\<lparr>pages := h\<rparr>) = tracked s"
  "queued (upd_page p f s) = queued s" "queued (s\<lparr>links := lk\<rparr>) = queued s" "queued (s\<lparr>pages := h\<rparr>) = queued s"
  by (simp_all add: tracked_def queued_def)

lemma frame_of_eq: "frame_of p = frame_of p' \<longleftrightarrow> in_dram p = in_dram p' \<and> devdax_offset p = devdax_offset p'"
  by (auto simp: frame_of_def)

lemma frame_fits_upd [simp]: "frame_fits (upd_page q f s) p = frame_fits s p"
  by (simp add: frame_fits_def)

lemma frames_ok_upd:
  assumes "frames_ok F s" "frame_of (f (body s p)) = frame_of (body s p)" "pt (f (body s p)) = pt (body s p)"
  shows "frames_ok F (upd_page p f s)"
proof -
  have "frame_fits (upd_page p f s) (body (upd_page p f s) q)" if "q \<in> F" for q
    using assms that by (auto simp: frames_ok_def frame_fits_def frame_of_eq)
  moreover have "(\<lambda>q. frame_of (body (upd_page p f s) q)) = (\<lambda>q. frame_of (body s q))"
    using assms(2) by (auto simp: fun_eq_iff)
  ultimately show ?thesis using assms(1) by (simp only: frames_ok_def) blast
qed

lemma frames_ok_body: "body s' = body s \<Longrightarrow> dramsize s' = dramsize s \<Longrightarrow> nvmsize s' = nvmsize s \<Longrightarrow> frames_ok F s' = frames_ok F s"
  by (simp add: frames_ok_def frame_fits_def)

lemma inv_upd_page:
  assumes inv: "pebs_inv F Q s" and p: "p \<notin> tracked s" "p \<notin> free_pages Q"
    and f: "frame_of (f (body s p)) = frame_of (body s p)" "pt (f (body s p)) = pt (body s p)"
  shows "pebs_inv F Q (upd_page p f s)"
proof -
  have "va_of (upd_page p f s) q = va_of s q" if "q \<in> tracked s" for q using that p(1) by auto
  moreover from this have "own_keys (va_of (upd_page p f s)) (kh_map (pages_map s))"
    using pebs_invD(9) [OF inv] unfolding own_keys_def tracked_def by (metis UnI1 ranI)
  moreover have "replay (va_of (upd_page p f s)) (kh_map (pages_map s)) (queued s) = Some (kh_map (pages s))"
    using pebs_invD(10) [OF inv] replay_cong [of "queued s" "va_of (upd_page p f s)" "va_of s"] calculation(1)
    by (simp add: tracked_def)
  moreover have "x \<noteq> p" if "x \<in> set (Q l)" for x l using that p(2) free_pages_mem by blast
  moreover have "frames_ok F (upd_page p f s)" using frames_ok_upd [of F s f p] pebs_invD(2) [OF inv] f by simp
  ultimately show ?thesis using inv p unfolding pebs_inv_def by simp
qed

section \<open>Allocation\<close>

lemma inv_deq:
  assumes inv: "pebs_inv F Q s" and lk: "dll_rep lk (Q(l := xs))" and xs: "set xs \<subseteq> set (Q l)"
  shows "pebs_inv F (Q(l := xs)) (s\<lparr>links := lk\<rparr>)"
proof -
  have "free_pages (Q(l := xs)) \<subseteq> free_pages Q" using xs by (cases l) (auto simp: free_pages_def)
  then show ?thesis using inv lk xs unfolding pebs_inv_def frames_ok_def frame_fits_def
    by (auto simp: subset_iff split: if_splits)
qed

lemma alloc_from:
  assumes inv: "pebs_inv F Q s" and ne: "Q l \<noteq> []" and lk: "dll_rep lk (Q(l := butlast (Q l)))"
  defines "p \<equiv> last (Q l)"
  shows "pebs_inv F (Q(l := butlast (Q l))) (upd_page p (\<lambda>p. p\<lparr>present := True\<rparr>) (s\<lparr>links := lk\<rparr>))"
    and "held F (Q(l := butlast (Q l))) (upd_page p (\<lambda>p. p\<lparr>present := True\<rparr>) (s\<lparr>links := lk\<rparr>)) p"
    and "p \<noteq> NULL" "in_dram (body s p) = (l = DRAM_FREE)" "\<not> present (body s p)"
proof -
  have mem: "p \<in> set (Q l)" using ne by (simp add: p_def)
  note D = pebs_invD [OF inv]
  show "\<not> present (body s p)" by (rule D(5) [OF mem])
  show "in_dram (body s p) = (l = DRAM_FREE)" using D(4) [OF mem] by (auto simp: free_list_of_def split: if_splits)
  show "p \<noteq> NULL" using dll_repD(2) [OF D(1)] mem by metis
  have "p \<notin> set (butlast (Q l))"
    using dll_repD(1) [OF D(1), of l] ne unfolding p_def by (rule distinct_last_not_in_butlast)
  moreover have "p \<notin> set (Q k)" if "k \<noteq> l" for k using dll_rep_disjoint [OF D(1) mem] that by blast
  ultimately have nf: "p \<notin> free_pages (Q(l := butlast (Q l)))"
    unfolding free_pages_upd by (cases l) auto
  have nt: "p \<notin> tracked s" using D(13) free_pages_mem [of p Q l] mem by blast
  have "pebs_inv F (Q(l := butlast (Q l))) (s\<lparr>links := lk\<rparr>)"
    by (rule inv_deq [OF inv lk]) (auto dest: in_set_butlastD)
  then show "pebs_inv F (Q(l := butlast (Q l))) (upd_page p (\<lambda>p. p\<lparr>present := True\<rparr>) (s\<lparr>links := lk\<rparr>))"
    by (rule inv_upd_page) (use nf nt in \<open>simp_all add: frame_of_def\<close>)
  show "held F (Q(l := butlast (Q l))) (upd_page p (\<lambda>p. p\<lparr>present := True\<rparr>) (s\<lparr>links := lk\<rparr>)) p"
    using nf nt D(3) [OF mem] by (simp add: held_def)
qed

text \<open>The fast tier is used as long as it has a free page, then the slow one.\<close>

definition next_free :: "(free_list \<Rightarrow> addr list) \<Rightarrow> free_list option" where
  "next_free Q = (if Q DRAM_FREE \<noteq> [] then Some DRAM_FREE else if Q NVM_FREE \<noteq> [] then Some NVM_FREE else None)"

lemma pebs_pagefault_inv:
  assumes inv: "pebs_inv F Q s"
  shows "case next_free Q of
      None \<Rightarrow> pebs_pagefault s = None
    | Some l \<Rightarrow> (\<exists>s'. pebs_pagefault s = Some (last (Q l), s') \<and> pebs_inv F (Q(l := butlast (Q l))) s' \<and>
        held F (Q(l := butlast (Q l))) s' (last (Q l)) \<and>
        (\<exists>lk. s' = upd_page (last (Q l)) (\<lambda>p. p\<lparr>present := True\<rparr>) (s\<lparr>links := lk\<rparr>)))"
proof -
  note D = pebs_invD [OF inv]
  show ?thesis
  proof (cases "Q DRAM_FREE = []")
    case False
    then obtain lk where lk: "dequeue_fifo (links s) DRAM_FREE = Some (last (Q DRAM_FREE), lk)"
      "dll_rep lk (Q(DRAM_FREE := butlast (Q DRAM_FREE)))" using dequeue_fifo_rep [OF D(1)] by blast
    note A = alloc_from [OF inv False lk(2)]
    then have "pebs_pagefault s = Some (last (Q DRAM_FREE),
        upd_page (last (Q DRAM_FREE)) (\<lambda>p. p\<lparr>present := True\<rparr>) (s\<lparr>links := lk\<rparr>))"
      using lk(1) by (simp add: pebs_pagefault_def pebs_allocate_page_def)
    then show ?thesis using A False by (auto simp: next_free_def)
  next
    case True
    note dr = dequeue_fifo_empty [OF D(1) True]
    show ?thesis
    proof (cases "Q NVM_FREE = []")
      case False
      then obtain lk where lk: "dequeue_fifo (links s) NVM_FREE = Some (last (Q NVM_FREE), lk)"
        "dll_rep lk (Q(NVM_FREE := butlast (Q NVM_FREE)))" using dequeue_fifo_rep [OF D(1)] by blast
      note A = alloc_from [OF inv False lk(2)]
      then have "pebs_pagefault s = Some (last (Q NVM_FREE),
          upd_page (last (Q NVM_FREE)) (\<lambda>p. p\<lparr>present := True\<rparr>) (s\<lparr>links := lk\<rparr>))"
        using lk(1) dr by (simp add: pebs_pagefault_def pebs_allocate_page_def)
      then show ?thesis using A True False by (auto simp: next_free_def)
    next
      case nvm: True
      then show ?thesis using True dr dequeue_fifo_empty [OF D(1) nvm]
        by (simp add: next_free_def pebs_pagefault_def pebs_allocate_page_def)
    qed
  qed
qed

section \<open>Adding and removing a page\<close>

lemma tracked_push:
  assumes "kdq_wf (mod_page_dq s)"
  shows "queued (s\<lparr>pages := h, mod_page_dq := kdq_push junk (mod_page_dq s) v\<rparr>) = queued s @ [v]"
    "tracked (s\<lparr>pages := h, mod_page_dq := kdq_push junk (mod_page_dq s) v\<rparr>) = insert (fst v) (tracked s)"
  using kdq_push_list(2) [OF assms, of junk v] by (auto simp: queued_def tracked_def)

lemma inv_upd_frames [simp]:
  "frames_ok F (s\<lparr>links := lk\<rparr>) = frames_ok F s" "frames_ok F (s\<lparr>pages := h\<rparr>) = frames_ok F s"
  "frames_ok F (s\<lparr>pages_map := h\<rparr>) = frames_ok F s" "frames_ok F (s\<lparr>mod_page_dq := q\<rparr>) = frames_ok F s"
  by (simp_all add: frames_ok_def frame_fits_def)

lemma pebs_add_page_inv:
  assumes inv: "pebs_inv F Q s" and p: "held F Q s p" and pr: "present (body s p)"
    and new: "va_of s p \<notin> dom (kh_map (pages s))"
  shows "\<exists>s'. pebs_add_page None s p = Some s' \<and> pebs_inv F Q s' \<and>
    kh_map (pages s') = (kh_map (pages s))(va_of s p \<mapsto> p) \<and> body s' = body s \<and> tracked s' = insert p (tracked s) \<and>
    queued s' = queued s @ [(p, False)]"
proof -
  note D = pebs_invD [OF inv]
  obtain h where h: "pages_put None (pages s) (va_of s p) p = Some h" "kh_wf h"
    "kh_map h = (kh_map (pages s))(va_of s p \<mapsto> p)"
    using khtab.put_ok [OF D(6) new table_small(1) [OF inv], of p] by blast
  let ?s = "s\<lparr>pages := h, mod_page_dq := kdq_push (NULL, False) (mod_page_dq s) (p, False)\<rparr>"
  note T = tracked_push [OF D(8), where h = h and junk = "(NULL, False)" and v = "(p, False)"]
  have pF: "p \<in> F" "p \<notin> free_pages Q" "p \<notin> tracked s" using p by (auto simp: held_def)
  have "p \<noteq> NULL" using pF(1) D(2) by (auto simp: frames_ok_def)
  then have run: "pebs_add_page None s p = Some ?s"
    using h(1) by (simp add: pebs_add_page_def Let_def)
  have "(p, True) \<notin> set (queued s)" using pF(3) by (force simp: tracked_def)
  then have fl: "free_last (queued ?s)" using D(11) by (simp add: T free_last_snoc)
  have rp: "replay (va_of s) (kh_map (pages_map s)) (queued ?s) = Some (kh_map h)"
    using D(10) new by (simp add: T replay_append h(3))
  have prs: "present (body s q) \<longleftrightarrow> q \<in> ran (kh_map h)" if "q \<in> insert p (tracked s)" for q
  proof (cases "q = p")
    case True
    then show ?thesis using pr by (auto simp: h(3) ran_def)
  next
    case False
    then have "q \<in> ran (kh_map h) \<longleftrightarrow> q \<in> ran (kh_map (pages s))"
      using new ran_upd_other(1) [of "kh_map (pages s)" "va_of s p" q p] unfolding h(3) by auto
    then show ?thesis using False D(14) [of q] that by simp
  qed
  have "pebs_inv F Q ?s"
    unfolding pebs_inv_def using D(1-9,12,13) h(2) kdq_push_list(1) [OF D(8)] fl rp prs pF
    by (auto simp: T frames_ok_def frame_fits_def)
  then show ?thesis using run h(3) T by (intro exI [of _ ?s]) simp
qed

lemma pebs_remove_page_inv:
  assumes inv: "pebs_inv F Q s" and p: "kh_map (pages s) (va_of s p) = Some p"
  shows "\<exists>s'. pebs_remove_page s p = Some s' \<and> pebs_inv F Q s' \<and>
    kh_map (pages s') = (kh_map (pages s))(va_of s p := None) \<and>
    body s' = (body s)(p := (body s p)\<lparr>present := False\<rparr>) \<and> queued s' = queued s @ [(p, True)]"
proof -
  note D = pebs_invD [OF inv]
  obtain h where h: "pages_del (pages s) (va_of s p) = Some h" "kh_wf h"
    "kh_map h = (kh_map (pages s))(va_of s p := None)"
    using khtab.del_ok [OF D(6), of "va_of s p"] p by blast
  let ?s = "s\<lparr>pages := h, mod_page_dq := kdq_push (NULL, False) (mod_page_dq s) (p, True)\<rparr>"
  let ?s' = "upd_page p (\<lambda>p. p\<lparr>present := False\<rparr>) ?s"
  note T = tracked_push [OF D(8), where h = h and junk = "(NULL, False)" and v = "(p, True)"]
  have pr: "p \<in> ran (kh_map (pages s))" using p by (rule ranI)
  then have pt: "p \<in> tracked s" using pages_tracked [OF inv] by blast
  then have pF: "p \<in> F" "p \<notin> free_pages Q" using D(12,13) by auto
  have "p \<noteq> NULL" using pF(1) D(2) by (auto simp: frames_ok_def)
  then have run: "pebs_remove_page s p = Some ?s'"
    using h(1) by (simp add: pebs_remove_page_def remove_page_queue_def remove_page_clear_def Let_def)
  have va: "va_of ?s' q = va_of s q" for q by simp
  have "(p, True) \<notin> set (queued s)" using replay_freed [OF D(10,9,11)] pr by blast
  then have fl: "free_last (queued ?s)" using D(11) by (simp add: T free_last_snoc)
  have rp: "replay (va_of s) (kh_map (pages_map s)) (queued ?s) = Some (kh_map h)"
    using D(10) p by (simp add: T replay_append h(3))
  have prs: "present (body ?s' q) \<longleftrightarrow> q \<in> ran (kh_map h)" if "q \<in> tracked s" for q
  proof (cases "q = p")
    case True
    then show ?thesis using pages_own [OF inv] by (auto simp: h(3) ran_def own_keys_def)
  next
    case False
    then have "q \<in> ran (kh_map h) \<longleftrightarrow> q \<in> ran (kh_map (pages s))"
      using p unfolding h(3) by (intro ran_upd_other(2))
    then show ?thesis using False D(14) [OF that] by simp
  qed
  have fr: "frames_ok F ?s'" using D(2) by (intro frames_ok_upd) (auto simp: frame_of_def frames_ok_def frame_fits_def)
  have fre: "x \<in> F \<and> free_list_of (body ?s' x) = l \<and> \<not> present (body ?s' x)" if "x \<in> set (Q l)" for x l
    using D(3-5) [OF that] by (auto simp: free_list_of_def)
  have "own_keys (va_of ?s') (kh_map (pages_map s))" using D(9) by (simp add: own_keys_def)
  moreover have "replay (va_of ?s') (kh_map (pages_map s)) (queued ?s) = Some (kh_map h)"
    using rp replay_cong [of "queued ?s" "va_of ?s'" "va_of s"] va by simp
  ultimately have "pebs_inv F Q ?s'"
    unfolding pebs_inv_def using D(1,7,12,13) h(2) kdq_push_list(1) [OF D(8)] fl fr fre prs pt pF
    by (simp add: T insert_absorb)
  then show ?thesis using run h(3) T by (intro exI [of _ ?s']) simp
qed

section \<open>Draining the queue\<close>

lemma kdq_shift_array: "kdq_shift q = (r, q') \<Longrightarrow> q_a q' = q_a q"
  by (auto simp: kdq_shift_def Let_def split: if_splits)

lemma shift_queued:
  assumes "kdq_wf (mod_page_dq s)" "queued s = (p, f) # rest"
  shows "\<exists>i q'. kdq_shift (mod_page_dq s) = (Some i, q') \<and> q_a q' ! i = (p, f) \<and> kdq_wf q' \<and> kdq_list q' = rest"
  using kdq_shift_list [OF assms(1)] assms(2) kdq_shift_array [of "mod_page_dq s"]
  unfolding queued_def by (metis list.distinct(1) list.sel(1,3))

lemma drain_one_empty: "queued s = [] \<Longrightarrow> drain_one oom s = Some (False, s)"
  using kdq_shift_empty [of "mod_page_dq s"] by (simp add: drain_one_def queued_def)

lemma drain_one_add:
  assumes inv: "pebs_inv F Q s" and q: "queued s = (p, False) # rest"
  shows "\<exists>s'. drain_one None s = Some (True, s') \<and> pebs_inv F Q s' \<and> queued s' = rest \<and> pages s' = pages s \<and> body s' = body s \<and>
    tracked s' = tracked s"
proof -
  note D = pebs_invD [OF inv]
  obtain i q' where sh: "kdq_shift (mod_page_dq s) = (Some i, q')" "q_a q' ! i = (p, False)" "kdq_wf q'" "kdq_list q' = rest"
    using shift_queued [OF D(8) q] by blast
  have new: "va_of s p \<notin> dom (kh_map (pages_map s))"
    and rp: "replay (va_of s) ((kh_map (pages_map s))(va_of s p \<mapsto> p)) rest = Some (kh_map (pages s))"
    using D(10) by (auto simp: q split: if_splits)
  obtain h where h: "pages_put None (pages_map s) (va_of s p) p = Some h" "kh_wf h"
    "kh_map h = (kh_map (pages_map s))(va_of s p \<mapsto> p)"
    using khtab.put_ok [OF D(7) new table_small(2) [OF inv], of p] by blast
  let ?s = "s\<lparr>mod_page_dq := q', pages_map := h\<rparr>"
  have qs: "queued ?s = rest" by (simp add: queued_def sh(4))
  have "ran (kh_map h) = insert p (ran (kh_map (pages_map s)))" unfolding h(3) using new by (intro ran_map_upd) auto
  then have tr: "tracked ?s = tracked s" by (auto simp: tracked_def qs q)
  have "pebs_inv F Q ?s"
    unfolding pebs_inv_def using D(1-6,9,11-14) h(2,3) sh(3) qs rp tr own_keys_upd(1) [OF D(9), of p]
    by (auto simp: q frames_ok_def frame_fits_def)
  moreover have "drain_one None s = Some (True, ?s)" using sh(1,2) h(1) by (simp add: drain_one_def)
  ultimately show ?thesis using qs tr by (intro exI [of _ ?s]) simp
qed

lemma drain_one_free:
  assumes inv: "pebs_inv F Q s" and q: "queued s = (p, True) # rest"
  defines "l \<equiv> free_list_of (body s p)"
  shows "\<exists>s'. drain_one None s = Some (True, s') \<and> pebs_inv F (Q(l := p # Q l)) s' \<and> queued s' = rest \<and>
    pages s' = pages s \<and> body s' = (body s)(p := reset_page_access_fields (body s p)) \<and> tracked s' = tracked s - {p}"
proof -
  note D = pebs_invD [OF inv]
  obtain i q' where sh: "kdq_shift (mod_page_dq s) = (Some i, q')" "q_a q' ! i = (p, True)" "kdq_wf q'" "kdq_list q' = rest"
    using shift_queued [OF D(8) q] by blast
  have here: "kh_map (pages_map s) (va_of s p) = Some p"
    and rp: "replay (va_of s) ((kh_map (pages_map s))(va_of s p := None)) rest = Some (kh_map (pages s))"
    using D(10) by (auto simp: q split: if_splits)
  have pt: "p \<in> tracked s" using q by (simp add: tracked_def)
  then have pF: "p \<in> F" "p \<notin> free_pages Q" using D(12,13) by auto
  then have pn: "p \<noteq> NULL" using D(2) by (auto simp: frames_ok_def)
  have "p \<notin> ran (kh_map (pages s))" using replay_freed [OF D(10,9,11), of p] q by simp
  then have np: "\<not> present (body s p)" using D(14) [OF pt] by simp
  obtain k where k: "kh_get (pages_map s) (va_of s p) = Some k" "k < kh_end (pages_map s)" "kh_exist (pages_map s) k"
    "kh_keys (pages_map s) ! unat k = va_of s p"
    using kh_get_spec [OF D(7), of "va_of s p"] here by auto
  let ?h = "kh_del (pages_map s) k"
  have h: "kh_wf ?h" "kh_map ?h = (kh_map (pages_map s))(va_of s p := None)"
    using kh_del_wf [OF D(7) _ k(3)] k(2,4) by (simp_all add: kh_end_def)
  obtain lk where lk: "enqueue_fifo (links s) l p = Some lk" "dll_rep lk (Q(l := p # Q l))"
    using pageq.enq_rep [OF D(1) pn, of l] pF(2) free_pages_mem by blast
  define s' where "s' = upd_page p reset_page_access_fields (s\<lparr>mod_page_dq := q', pages_map := ?h, links := lk\<rparr>)"
  have P: "links s' = lk" "pages s' = pages s" "pages_map s' = ?h" "mod_page_dq s' = q'"
    "body s' = (body s)(p := reset_page_access_fields (body s p))"
    by (simp_all add: s'_def)
  have run: "drain_one None s = Some (True, s')"
    using sh(1,2) k(1,2) lk(1) by (auto simp: drain_one_def l_def kh_end_def Let_def s'_def)
  have qs: "queued s' = rest" by (simp add: queued_def sh(4) P)
  have va: "va_of s' r = va_of s r" for r by (simp add: reset_page_access_fields_def P)
  have ran: "ran (kh_map ?h) = ran (kh_map (pages_map s)) - {p}"
    unfolding h(2) by (rule ran_free [OF D(9) here])
  have tr: "tracked s' = tracked s - {p}"
    using D(11) unfolding tracked_def qs P(3) ran by (auto simp: q)
  show ?thesis
  proof (intro exI conjI)
    show "drain_one None s = Some (True, s')" "queued s' = rest" "pages s' = pages s"
      "body s' = (body s)(p := reset_page_access_fields (body s p))" "tracked s' = tracked s - {p}" by (rule run qs P tr)+
    show "pebs_inv F (Q(l := p # Q l)) s'"
      unfolding pebs_inv_def P(1-4) qs
    proof (intro conjI)
      have fu: "frames_ok F (upd_page p reset_page_access_fields s)" using D(2)
        by (intro frames_ok_upd) (auto simp: frame_of_def reset_page_access_fields_def)
      have ff: "frame_fits s' = frame_fits (upd_page p reset_page_access_fields s)"
        by (auto simp: frame_fits_def s'_def fun_eq_iff)
      have bd: "body s' = body (upd_page p reset_page_access_fields s)" by (simp add: P)
      show "frames_ok F s'" using fu unfolding frames_ok_def ff bd by blast
      show "\<forall>k. \<forall>x\<in>set ((Q(l := p # Q l)) k). x \<in> F \<and> free_list_of (body s' x) = k \<and> \<not> present (body s' x)"
      proof (intro allI ballI)
        fix k x assume x: "x \<in> set ((Q(l := p # Q l)) k)"
        show "x \<in> F \<and> free_list_of (body s' x) = k \<and> \<not> present (body s' x)"
        proof (cases "x = p")
          case True
          then have "k = l" using x pF(2) free_pages_mem [of p Q k] by (auto split: if_splits)
          then show ?thesis using True pF np by (simp add: P l_def free_list_of_def reset_page_access_fields_def)
        next
          case False
          then have xq: "x \<in> set (Q k)" using x by (auto split: if_splits)
          show ?thesis using False D(3-5) [OF xq] by (simp add: P)
        qed
      qed
      have "own_keys (va_of s) (kh_map ?h)" unfolding h(2) by (rule own_keys_upd(2) [OF D(9)])
      then show "own_keys (va_of s') (kh_map ?h)" by (simp only: own_keys_def va)
      show "replay (va_of s') (kh_map ?h) rest = Some (kh_map (pages s))"
        using rp unfolding h(2) va .
      have fp: "free_pages (Q(l := p # Q l)) = insert p (free_pages Q)" by (cases l) (auto simp: free_pages_def)
      show "tracked s' \<subseteq> F" "tracked s' \<inter> free_pages (Q(l := p # Q l)) = {}"
        using D(12,13) unfolding tr fp by blast+
      show "\<forall>r\<in>tracked s'. present (body s' r) = (r \<in> ran (kh_map (pages s)))"
        using D(14) unfolding tr P(5) by simp
      show "free_last rest" using D(11) by (simp add: q)
    qed (use lk h sh D(6) in simp_all)
  qed
qed

lemma drain_empties:
  assumes "pebs_inv F Q s"
  shows "\<exists>s' Q'. drain (\<lambda>_. None) i s = Some s' \<and> pebs_inv F Q' s' \<and> queued s' = [] \<and> pages s' = pages s \<and>
    kh_map (pages_map s') = kh_map (pages s)"
  using assms
proof (induction "queued s" arbitrary: s Q i)
  case Nil
  then have "queued s = []" by simp
  moreover from this have "kh_map (pages_map s) = kh_map (pages s)"
    using pebs_invD(10) [OF Nil(2)] by simp
  ultimately show ?case using Nil(2) drain_one_empty [of s]
    by (intro exI [of _ s] exI [of _ Q]) (subst drain.simps, simp)
next
  case (Cons e rest)
  obtain p f where e: "e = (p, f)" by (cases e)
  have "\<exists>s1 Q1. drain_one None s = Some (True, s1) \<and> pebs_inv F Q1 s1 \<and> queued s1 = rest \<and> pages s1 = pages s"
    using drain_one_add [OF Cons(3), of p rest] drain_one_free [OF Cons(3), of p rest] Cons(2) e
    by (cases f) fastforce+
  then obtain s1 Q1 where 1: "drain_one None s = Some (True, s1)" "pebs_inv F Q1 s1" "queued s1 = rest" "pages s1 = pages s"
    by blast
  from Cons(1) [OF 1(3) [symmetric] 1(2), of "Suc i"] show ?case
    using 1 by (subst drain.simps) simp
qed

end
