(* ===== verification/Arms_Faults.thy ===== *)
theory Arms_Faults
  imports Pebs_Pages
begin

text \<open>
  The entry points of \<open>src/arms.c\<close> and \<open>src/interpose.c\<close>: interposed calls of \<open>mmap\<close> and \<open>munmap\<close>,
  the handlers of page faults and the loop of the fault thread. The answers of the system calls
  are parameters; the flags and event numbers are those of the Linux headers. The mapping of
  devices (\<open>libc_mmap\<close> with a frame) updates \<open>vmap\<close>. The build is the one with \<open>ALLOC_ARMS\<close>, where
  the memory manager is \<open>pebs.c\<close>, and with \<open>USE_DMA\<close>.
\<close>

section \<open>Page faults\<close>

definition zero_frame :: "'a arms_state_scheme \<Rightarrow> bool \<Rightarrow> u64 \<Rightarrow> u64 \<Rightarrow> 'a arms_state_scheme" where
  "zero_frame s dram off n =
     (if dram then s\<lparr>dram_mem := mem_zero (dram_mem s) off n\<rparr>
      else s\<lparr>nvm_mem := mem_zero (nvm_mem s) off n\<rparr>)"

definition map_frame :: "'a arms_state_scheme \<Rightarrow> u64 \<Rightarrow> bool \<Rightarrow> u64 \<Rightarrow> 'a arms_state_scheme" where
  "map_frame s a dram off =
     s\<lparr>vmap := (vmap s)(a \<mapsto> (if dram then FASTMEM else SLOWMEM, off)), wprot := (wprot s)(a := False)\<rparr>"

text \<open>The part that the fault handler and the population of a mapping share.\<close>

definition place_page :: "kernel \<Rightarrow> bool \<Rightarrow> 'a pebs_state_scheme \<Rightarrow> u64 \<Rightarrow> (addr \<times> 'a pebs_state_scheme) option" where
  "place_page K exact s a = do {
     (page, s) \<leftarrow> pebs_pagefault s;
     assert_that (page \<noteq> NULL);
     let dram = in_dram (body s page);
     let off = devdax_offset (body s page);
     let pagesize = pt_to_pagesize (pt (body s page));
     let s = zero_frame s dram off pagesize;
     let s = s\<lparr>memsets := memsets s + 1\<rparr>;
     newptr \<leftarrow> k_mmap K a pagesize;
     assert_that (\<not> exact \<or> newptr = a);
     assert_that (k_register K newptr pagesize);
     let s = map_frame s newptr dram off;
     let s = upd_page page (\<lambda>p. p\<lparr>va := newptr\<rparr>) s;
     assert_that (newptr \<noteq> 0);
     assert_that (newptr mod HUGEPAGE_SIZE = 0);
     let s = upd_page page (\<lambda>p. p\<lparr>migrating := False\<rparr>) s;
     let s = s\<lparr>mem_allocated := mem_allocated s + pagesize\<rparr>;
     Some (page, s)
   }"

definition handle_missing_fault :: "kernel \<Rightarrow> nat option \<Rightarrow> 'a pebs_state_scheme \<Rightarrow> u64 \<Rightarrow> 'a pebs_state_scheme option" where
  "handle_missing_fault K oom s page_boundry = do {
     let s = s\<lparr>internal_call := True\<rparr>;
     assert_that (page_boundry \<noteq> 0);
     (page, s) \<leftarrow> place_page K True s page_boundry;
     s \<leftarrow> pebs_add_page oom s page;
     Some (s\<lparr>missing_faults_handled := missing_faults_handled s + 1, pages_allocated := pages_allocated s + 1,
             internal_call := False\<rparr>)
   }"

text \<open>
  The handler of a write to a protected page: find the page, then spin until its migration is over.
  \<open>wp_fault_enter\<close> is the part before the loop, \<open>wp_fault_spin\<close> one evaluation of its condition.
\<close>

definition wp_fault_enter :: "'a pebs_state_scheme \<Rightarrow> u64 \<Rightarrow> (addr \<times> 'a pebs_state_scheme) option" where
  "wp_fault_enter s page_boundry = do {
     let s = s\<lparr>internal_call := True\<rparr>;
     page \<leftarrow> pebs_find_page s page_boundry;
     assert_that (page \<noteq> NULL);
     Some (page, s\<lparr>migration_waits := migration_waits s + 1\<rparr>)
   }"

definition wp_fault_spin :: "'a pebs_state_scheme \<Rightarrow> addr \<Rightarrow> bool \<times> 'a pebs_state_scheme" where
  "wp_fault_spin s page =
     (if migrating (body s page) then (False, s) else (True, s\<lparr>internal_call := False\<rparr>))"

section \<open>The fault thread\<close>

definition UFFD_EVENT_PAGEFAULT :: u8 where "UFFD_EVENT_PAGEFAULT = 0x12"
definition UFFD_EVENT_REMOVE :: u8 where "UFFD_EVENT_REMOVE = 0x15"
definition UFFD_EVENT_UNMAP :: u8 where "UFFD_EVENT_UNMAP = 0x16"
definition UFFD_PAGEFAULT_FLAG_WP :: u64 where "UFFD_PAGEFAULT_FLAG_WP = 2"

record uffd_msg =
  event :: u8
  address :: u64
  flags :: u64

datatype fault_action = Wait_Migration addr u64 | Wake u64

text \<open>One message: after a missing fault the thread is woken, after a protection fault once the wait is over.\<close>

definition handle_msg :: "kernel \<Rightarrow> nat option \<Rightarrow> 'a pebs_state_scheme \<Rightarrow> uffd_msg \<Rightarrow> (fault_action \<times> 'a pebs_state_scheme) option" where
  "handle_msg K oom s m =
     (if event m AND UFFD_EVENT_PAGEFAULT \<noteq> 0 then
        let page_boundry = address m AND NOT (PAGE_SIZE - 1) in
        if flags m AND UFFD_PAGEFAULT_FLAG_WP \<noteq> 0 then do {
          (page, s) \<leftarrow> wp_fault_enter s page_boundry;
          Some (Wait_Migration page page_boundry, s)
        } else do {
          s \<leftarrow> handle_missing_fault K oom s page_boundry;
          Some (Wake page_boundry, s)
        }
      else if event m AND UFFD_EVENT_UNMAP \<noteq> 0 then None
      else if event m AND UFFD_EVENT_REMOVE \<noteq> 0 then None
      else None)"

definition POLLIN :: u16 where "POLLIN = 1"
definition POLLERR :: u16 where "POLLERR = 8"

text \<open>
  What the loop does with the answers of \<open>poll\<close> and \<open>read\<close>: start over (\<open>Some 0\<close>), go through that
  many messages, or abort. \<open>!pollfd.revents & POLLIN\<close> is parsed as \<open>(!pollfd.revents) & POLLIN\<close>.
\<close>

definition uffd_msg_size :: int where "uffd_msg_size = 32"

definition poll_and_read :: "int \<Rightarrow> u16 \<Rightarrow> int \<Rightarrow> bool \<Rightarrow> int option" where
  "poll_and_read pollres revents nread eagain =
     (if pollres = -1 then None
      else if pollres = 0 then Some 0
      else if pollres \<noteq> 1 then None
      else if revents AND POLLERR \<noteq> 0 then None
      else if (if revents = 0 then 1 else 0) AND POLLIN \<noteq> 0 then Some 0
      else if nread = 0 then None
      else if nread < 0 then (if eagain then Some 0 else None)
      else if nread mod uffd_msg_size \<noteq> 0 then None
      else Some (nread div uffd_msg_size))"

section \<open>Mapping and unmapping\<close>

text \<open>The loop may not end: \<open>addr + length\<close> and the running address can wrap around.\<close>

partial_function (option) arms_mmap_populate ::
  "kernel \<Rightarrow> u64 \<Rightarrow> u64 \<Rightarrow> 'a pebs_state_scheme \<Rightarrow> 'a pebs_state_scheme option" where
  "arms_mmap_populate K stop page_boundry s =
     (if page_boundry < stop then do {
        (page, s) \<leftarrow> place_page K False s page_boundry;
        s \<leftarrow> pebs_add_page None (s\<lparr>pages_allocated := pages_allocated s + 1\<rparr>) page;
        arms_mmap_populate K stop (page_boundry + pt_to_pagesize (pt (body s page))) s
      } else Some s)"

declare arms_mmap_populate.simps [code]

definition PAGE_ROUND_UP :: "u64 \<Rightarrow> u64" where
  "PAGE_ROUND_UP x = (x + HUGEPAGE_SIZE - 1) AND NOT (HUGEPAGE_SIZE - 1)"

definition MAP_SHARED :: u32 where "MAP_SHARED = 0x01"
definition MAP_PRIVATE :: u32 where "MAP_PRIVATE = 0x02"
definition MAP_ANONYMOUS :: u32 where "MAP_ANONYMOUS = 0x20"
definition MAP_POPULATE :: u32 where "MAP_POPULATE = 0x8000"
definition MAP_STACK :: u32 where "MAP_STACK = 0x20000"
definition MAP_HUGETLB :: u32 where "MAP_HUGETLB = 0x40000"
definition MAP_FAILED :: u64 where "MAP_FAILED = -1"

definition mmap_flags :: "u32 \<Rightarrow> u32" where
  "mmap_flags fs = (
     let fs = (if fs AND MAP_PRIVATE = MAP_PRIVATE then (fs AND NOT MAP_PRIVATE) OR MAP_SHARED else fs);
         fs = (if fs AND MAP_ANONYMOUS = MAP_ANONYMOUS then fs AND NOT MAP_ANONYMOUS else fs);
         fs = (if fs AND MAP_HUGETLB = MAP_HUGETLB then fs AND NOT MAP_HUGETLB else fs)
     in fs)"

text \<open>The globals of the interposition layer.\<close>

record arms_globals =
  is_init :: bool
  dramfd :: int
  nvmfd :: int
  cr3_set :: bool
  cr3 :: u64
  min_interpose_mem_size :: u64
  dram_small_allocation_bytes :: u64

text \<open>
  \<open>libc\<close> is \<open>libc_mmap\<close> as a function of the address, the rounded length and the changed flags;
  \<open>ask_cr3\<close> is the answer of the \<open>UFFDIO_CR3\<close> call.
\<close>

definition arms_mmap ::
  "kernel \<Rightarrow> (u64 \<Rightarrow> u64 \<Rightarrow> u32 \<Rightarrow> u64) \<Rightarrow> u64 option \<Rightarrow> arms_globals \<Rightarrow> 'a pebs_state_scheme \<Rightarrow> u64 \<Rightarrow> u64 \<Rightarrow> u32 \<Rightarrow>
    (u64 \<times> arms_globals \<times> 'a pebs_state_scheme) option" where
  "arms_mmap K libc ask_cr3 g s addr len fs = do {
     let s = s\<lparr>internal_call := True\<rparr>;
     assert_that (is_init g);
     assert_that (len \<noteq> 0);
     let fs = mmap_flags fs;
     let len = PAGE_ROUND_UP len;
     let p = libc addr len fs;
     assert_that (p \<noteq> NULL \<and> p \<noteq> MAP_FAILED);
     assert_that (k_register K p len);
     g \<leftarrow> (if \<not> cr3_set g then do {
             c \<leftarrow> ask_cr3;
             Some (g\<lparr>cr3 := c, cr3_set := True\<rparr>)
           } else Some g);
     s \<leftarrow> (if fs AND MAP_POPULATE = MAP_POPULATE
           then do {
             assert_that (p \<noteq> 0);
             assert_that (len \<noteq> 0);
             arms_mmap_populate K (p + len) p s
           } else Some s);
     Some (p, g, s\<lparr>mem_mmaped := len, internal_call := False\<rparr>)
   }"

partial_function (option) munmap_pages :: "u64 \<Rightarrow> u64 \<Rightarrow> 'a pebs_state_scheme \<Rightarrow> 'a pebs_state_scheme option" where
  "munmap_pages stop page_boundry s =
     (if page_boundry < stop then do {
        page \<leftarrow> pebs_find_page s page_boundry;
        (if page \<noteq> NULL then do {
           s \<leftarrow> pebs_remove_page s page;
           let n = pt_to_pagesize (pt (body s page));
           let s = s\<lparr>mem_allocated := mem_allocated s - n, mem_mmaped := mem_mmaped s - n,
                     pages_freed := pages_freed s + 1\<rparr>;
           munmap_pages stop (page_boundry + n) s
         } else munmap_pages stop (page_boundry + BASEPAGE_SIZE) s)
      } else Some s)"

declare munmap_pages.simps [code]

text \<open>\<open>ret\<close> is the answer of \<open>libc_munmap\<close>; when it is 0 the mappings of the range are gone.\<close>

definition arms_munmap :: "int \<Rightarrow> 'a pebs_state_scheme \<Rightarrow> u64 \<Rightarrow> u64 \<Rightarrow> (int \<times> 'a pebs_state_scheme) option" where
  "arms_munmap ret s addr len = do {
     let s = s\<lparr>internal_call := True\<rparr>;
     s \<leftarrow> munmap_pages (addr + len) addr s;
     let s = (if ret = 0 then s\<lparr>vmap := (\<lambda>v. if v - addr < len then None else vmap s v)\<rparr> else s);
     Some (ret, s\<lparr>internal_call := False\<rparr>)
   }"

definition arms_clear_stats :: "'a arms_state_scheme \<Rightarrow> 'a arms_state_scheme" where
  "arms_clear_stats s = s\<lparr>pages_allocated := 0, pages_freed := 0, missing_faults_handled := 0,
     migrations_up := 0, migrations_down := 0\<rparr>"

section \<open>The hooks\<close>

text \<open>The result 1 lets the system call through, with 0 the call has been answered by the library.\<close>

datatype verdict = Pass_Through | Answered u64

definition mmap_filter ::
  "kernel \<Rightarrow> (u64 \<Rightarrow> u64 \<Rightarrow> u32 \<Rightarrow> u64) \<Rightarrow> u64 option \<Rightarrow> arms_globals \<Rightarrow> 'a pebs_state_scheme \<Rightarrow> u64 \<Rightarrow> u64 \<Rightarrow> u32 \<Rightarrow> int \<Rightarrow>
    (verdict \<times> arms_globals \<times> 'a pebs_state_scheme) option" where
  "mmap_filter K libc ask_cr3 g s addr len fs fd =
     (if fs AND MAP_ANONYMOUS \<noteq> MAP_ANONYMOUS \<and> \<not> (fd = dramfd g \<or> fd = nvmfd g) then Some (Pass_Through, g, s)
      else if fs AND MAP_STACK = MAP_STACK then Some (Pass_Through, g, s)
      else if fd = dramfd g \<or> fd = nvmfd g then Some (Pass_Through, g, s)
      else if internal_call s then Some (Pass_Through, g, s)
      else if \<not> is_init g then Some (Pass_Through, g, s)
      else if len < min_interpose_mem_size g
        then Some (Pass_Through, g\<lparr>dram_small_allocation_bytes := dram_small_allocation_bytes g + len\<rparr>, s)
      else do {
        (p, g, s) \<leftarrow> arms_mmap K libc ask_cr3 g s addr len fs;
        Some (Answered p, g, s)
      })"

definition munmap_filter :: "int \<Rightarrow> 'a pebs_state_scheme \<Rightarrow> u64 \<Rightarrow> u64 \<Rightarrow> (verdict \<times> 'a pebs_state_scheme) option" where
  "munmap_filter ret s addr len =
     (if internal_call s then Some (Pass_Through, s)
      else do {
        (r, s) \<leftarrow> arms_munmap ret s addr len;
        Some (Answered (of_int r), s)
      })"

definition SYS_mmap :: int where "SYS_mmap = 9"
definition SYS_munmap :: int where "SYS_munmap = 11"

definition hook ::
  "kernel \<Rightarrow> (u64 \<Rightarrow> u64 \<Rightarrow> u32 \<Rightarrow> u64) \<Rightarrow> u64 option \<Rightarrow> int \<Rightarrow> arms_globals \<Rightarrow> 'a pebs_state_scheme \<Rightarrow>
    int \<Rightarrow> u64 \<Rightarrow> u64 \<Rightarrow> u32 \<Rightarrow> int \<Rightarrow> (verdict \<times> arms_globals \<times> 'a pebs_state_scheme) option" where
  "hook K libc ask_cr3 munmap_ret g s nr a0 a1 a3 a4 =
     (if nr = SYS_mmap then mmap_filter K libc ask_cr3 g s a0 a1 a3 a4
      else if nr = SYS_munmap then do {
        (v, s) \<leftarrow> munmap_filter munmap_ret s a0 a1;
        Some (v, g, s)
      } else Some (Pass_Through, g, s))"

end
