(* ===== verification/Pebs_Reach.thy ===== *)
theory Pebs_Reach
  imports Pebs_Inv Arms_Faults
begin

text \<open>
  The whole bookkeeping together with the mappings of the application: every page in the table of
  the fault handler is mapped to the frame of its descriptor, and nothing else is mapped. Missing
  faults, removals, the drain of the queue and migrations keep this, and a migration that starts
  from such a state does not change what the application reads.
\<close>

definition vmap_ok :: "'a pebs_state_scheme \<Rightarrow> bool" where
  "vmap_ok s \<longleftrightarrow> (\<forall>v. vmap s v = map_option (\<lambda>p. frame_of (body s p)) (kh_map (pages s) v))"

lemma vmap_okD: "vmap_ok s \<Longrightarrow> vmap s v = map_option (\<lambda>p. frame_of (body s p)) (kh_map (pages s) v)"
  by (simp add: vmap_ok_def)

lemma kh_map_pages_F: "pebs_inv F Q s \<Longrightarrow> kh_map (pages s) v = Some p \<Longrightarrow> p \<in> F \<and> p \<in> tracked s \<and> va_of s p = v"
  using pages_tracked [of F Q s] pebs_invD(12) [of F Q s] pages_own [of F Q s]
  by (auto simp: own_keys_def ran_def)

lemma vmap_frames:
  assumes inv: "pebs_inv F Q s" and vm: "vmap_ok s"
  shows "maps_ok s"
    and "q \<in> F \<Longrightarrow> q \<notin> ran (kh_map (pages s)) \<Longrightarrow> vmap s v \<noteq> Some (frame_of (body s q))"
proof -
  have fr: "frames_ok F s" by (rule pebs_invD(2) [OF inv])
  have inj: "p = q" if "frame_of (body s p) = frame_of (body s q)" "p \<in> F" "q \<in> F" for p q
    using that fr by (auto simp: frames_ok_def inj_on_def)
  show "q \<in> F \<Longrightarrow> q \<notin> ran (kh_map (pages s)) \<Longrightarrow> vmap s v \<noteq> Some (frame_of (body s q))"
  proof
    assume q: "q \<in> F" "q \<notin> ran (kh_map (pages s))" and "vmap s v = Some (frame_of (body s q))"
    then obtain p where "kh_map (pages s) v = Some p" "frame_of (body s p) = frame_of (body s q)"
      using vmap_okD [OF vm, of v] by auto
    then show False using kh_map_pages_F [OF inv, of v p] inj [of p q] q by (auto intro: ranI)
  qed
  show "maps_ok s"
    unfolding maps_ok_def
  proof (intro conjI allI impI)
    fix v t f assume "vmap s v = Some (t, f)"
    then obtain p where "kh_map (pages s) v = Some p" "frame_of (body s p) = (t, f)"
      using vmap_okD [OF vm, of v] by auto
    then show "frame_aligned f" using kh_map_pages_F [OF inv, of v p] fr
      by (auto simp: frames_ok_def frame_fits_def frame_of_def split: if_splits)
  next
    fix v w t f assume "vmap s v = Some (t, f) \<and> vmap s w = Some (t, f)"
    then obtain p q where "kh_map (pages s) v = Some p" "frame_of (body s p) = (t, f)"
      "kh_map (pages s) w = Some q" "frame_of (body s q) = (t, f)"
      using vmap_okD [OF vm, of v] vmap_okD [OF vm, of w] by auto
    then show "v = w" using kh_map_pages_F [OF inv] inj by metis
  qed
qed

section \<open>Migration\<close>

lemma pebs_fields_more:
  fixes s s' :: "'a pebs_state_scheme"
  assumes "arms_state.more s' = arms_state.more s"
  shows "links s' = links s" "pages s' = pages s" "pages_map s' = pages_map s" "mod_page_dq s' = mod_page_dq s"
    "mlinks s' = mlinks s" "reqs s' = reqs s"
  using assms by (cases s; cases s'; simp)+

lemma mig_protect_fields:
  assumes "mig_protect K s p = Some s'"
  shows "body s' = (body s)(p := (body s p)\<lparr>migrating := True\<rparr>)" "vmap s' = vmap s"
    "dramsize s' = dramsize s" "nvmsize s' = nvmsize s" "arms_state.more s' = arms_state.more s"
  using assms by (auto simp: mig_protect_def arms_wp_page_def bind_Some_iff Let_def)

lemma mig_copy_fields:
  assumes "mig_copy up K s p off = Some s'"
  shows "body s' = body s" "vmap s' = vmap s"
    "dramsize s' = dramsize s" "nvmsize s' = nvmsize s" "arms_state.more s' = arms_state.more s"
  using assms by (auto simp: mig_copy_def migrate_up_copy_def migrate_down_copy_def bind_Some_iff Let_def split: if_splits)

lemma mig_remap_fields:
  assumes "mig_remap up K s p off = Some s'" and K: "kernel_ok K"
  shows "body s' = (body s)(p := (body s p)\<lparr>devdax_offset := off, in_dram := up, migrating := False\<rparr>)"
    and "vmap s' = (vmap s)(va_of s p \<mapsto> (dst_tier up, off))"
    and "dramsize s' = dramsize s" "nvmsize s' = nvmsize s" "arms_state.more s' = arms_state.more s"
  using assms(1)
  by (auto simp: mig_remap_def migrate_up_remap_def migrate_down_remap_def bind_Some_iff Let_def dst_tier_def fun_eq_iff
      dest!: kernel_ok_mmap [OF K] split: if_splits)

lemma migrate_fields:
  assumes run: "(if up then pebs_migrate_up else pebs_migrate_down) K s p off = Some s'" and K: "kernel_ok K"
  shows "body s' = (body s)(p := (body s p)\<lparr>devdax_offset := off, in_dram := up, migrating := False\<rparr>)"
    and "vmap s' = (vmap s)(va_of s p \<mapsto> (dst_tier up, off))"
    and "dramsize s' = dramsize s" "nvmsize s' = nvmsize s" "arms_state.more s' = arms_state.more s"
proof -
  obtain s1 s2 where 1: "mig_protect K s p = Some s1" and 2: "mig_copy up K s1 p off = Some s2"
    and 3: "mig_remap up K s2 p off = Some s'"
    using run unfolding pebs_migrate_steps by (auto simp: bind_Some_iff)
  note F = mig_protect_fields [OF 1] mig_copy_fields [OF 2] mig_remap_fields [OF 3 K]
  show "body s' = (body s)(p := (body s p)\<lparr>devdax_offset := off, in_dram := up, migrating := False\<rparr>)"
    using F(1,6,11) by simp
  show "vmap s' = (vmap s)(va_of s p \<mapsto> (dst_tier up, off))" using F(1,2,6,7,12) by simp
  show "dramsize s' = dramsize s" "nvmsize s' = nvmsize s" "arms_state.more s' = arms_state.more s"
    using F(3-5,8-10,13-15) by simp_all
qed

lemma mig_inv_start:
  assumes inv: "pebs_inv F Q s" and vm: "vmap_ok s"
    and p: "kh_map (pages s) v = Some p" "in_dram (body s p) = (\<not> up)"
    and np: "held F Q s np" "in_dram (body s np) = up"
  shows "mig_inv up p (devdax_offset (body s np)) (Idle, s)"
proof -
  have fr: "frames_ok F s" by (rule pebs_invD(2) [OF inv])
  have F: "p \<in> F" "va_of s p = v" "np \<in> F" "np \<notin> tracked s"
    using kh_map_pages_F [OF inv p(1)] np by (auto simp: held_def)
  then have "np \<notin> ran (kh_map (pages s))" using pages_tracked [OF inv] by blast
  then have free: "vmap s w \<noteq> Some (dst_tier up, devdax_offset (body s np))" for w
    using vmap_frames(2) [OF inv vm F(3), of w] np(2) by (simp add: frame_of_def dst_tier_def)
  have "vmap s v = Some (src_tier up, devdax_offset (body s p))"
    using vmap_okD [OF vm, of v] p by (simp add: frame_of_def src_tier_def)
  then show ?thesis
    using vmap_frames(1) [OF inv vm] fr F free p(2) by (auto simp: mig_inv_def frames_ok_def frame_fits_def)
qed

lemma migrate_unseen:
  assumes "pebs_inv F Q s" "vmap_ok s" "kh_map (pages s) v = Some p" "in_dram (body s p) = (\<not> up)"
    "held F Q s np" "in_dram (body s np) = up" "kernel_ok K"
    "(if up then pebs_migrate_up else pebs_migrate_down) K s p (devdax_offset (body s np)) = Some s'"
  shows "app_view s' = app_view s"
  using mig_run_inv [OF assms(7) pebs_migrate_run [OF assms(8)] mig_inv_start [OF assms(1-6)]] by simp

section \<open>The exchange of two frames\<close>

lemma inv_enq:
  assumes inv: "pebs_inv F Q s" and np: "held F Q s np" "\<not> present (body s np)"
  defines "l \<equiv> free_list_of (body s np)"
  shows "\<exists>lk. enqueue_fifo (links s) l np = Some lk \<and> pebs_inv F (Q(l := np # Q l)) (s\<lparr>links := lk\<rparr>)"
proof -
  note D = pebs_invD [OF inv]
  have np': "np \<in> F" "np \<notin> free_pages Q" "np \<notin> tracked s" using np by (auto simp: held_def)
  have "np \<noteq> NULL" using D(2) np'(1) by (auto simp: frames_ok_def)
  then obtain lk where lk: "enqueue_fifo (links s) l np = Some lk" "dll_rep lk (Q(l := np # Q l))"
    using pageq.enq_rep [OF D(1), of np l] np'(2) free_pages_mem by blast
  have fp: "free_pages (Q(l := np # Q l)) = insert np (free_pages Q)" by (cases l) (auto simp: free_pages_def)
  have "x \<in> F \<and> free_list_of (body s x) = k \<and> \<not> present (body s x)" if "x \<in> set ((Q(l := np # Q l)) k)" for x k
    using that D(3-5) [of x k] np np'(1) by (auto simp: l_def split: if_splits)
  then have "pebs_inv F (Q(l := np # Q l)) (s\<lparr>links := lk\<rparr>)"
    using inv lk(2) np'(3) unfolding pebs_inv_def by (simp add: fp)
  with lk(1) show ?thesis by blast
qed

definition swapped :: "bool \<Rightarrow> addr \<Rightarrow> addr \<Rightarrow> 'a pebs_state_scheme \<Rightarrow> 'a pebs_state_scheme \<Rightarrow> bool" where
  "swapped up p np s s' \<longleftrightarrow>
     (\<exists>n. body s' = (body s)(p := (body s p)\<lparr>devdax_offset := devdax_offset (body s np), in_dram := up, migrating := False\<rparr>,
                         np := n) \<and> frame_of n = frame_of (body s p) \<and> pt n = pt (body s np) \<and> \<not> present n) \<and>
     links s' = links s \<and> pages s' = pages s \<and> pages_map s' = pages_map s \<and> mod_page_dq s' = mod_page_dq s \<and>
     dramsize s' = dramsize s \<and> nvmsize s' = nvmsize s"

lemma swapped_frame:
  assumes "swapped up p np s s'" "p \<noteq> np" "in_dram (body s np) = up"
  shows "frame_of (body s' x) = frame_of (body s (if x = p then np else if x = np then p else x))"
  using assms by (auto simp: swapped_def frame_of_def split: if_splits)

lemma swapped_keeps:
  assumes "swapped up p np s s'" "x \<noteq> np"
  shows "va_of s' x = va_of s x" "present (body s' x) = present (body s x)"
  using assms by (auto simp: swapped_def split: if_splits)

lemma frames_ok_swapped:
  assumes fr: "frames_ok F s" and sw: "swapped up p np s s'" "p \<noteq> np" "p \<in> F" "np \<in> F" and u: "in_dram (body s np) = up"
  shows "frames_ok F s'"
proof -
  let ?r = "\<lambda>x. if x = p then np else if x = np then p else x"
  have "frame_fits s' (body s' x)" if "x \<in> F" for x
  proof -
    define y where "y = ?r x"
    have "frame_fits s (body s y)" using fr that sw(3,4) by (simp add: frames_ok_def y_def)
    moreover have "pt (body s' x) = HUGEP" using fr that sw by (auto simp: frames_ok_def frame_fits_def swapped_def)
    moreover have "dramsize s' = dramsize s" "nvmsize s' = nvmsize s" using sw(1) by (auto simp: swapped_def)
    ultimately show ?thesis
      using swapped_frame [OF sw(1,2) u, of x] unfolding frame_fits_def frame_of_eq y_def [symmetric]
      by (cases "in_dram (body s y)") simp_all
  qed
  moreover have "inj_on (\<lambda>x. frame_of (body s' x)) F"
    unfolding swapped_frame [OF sw(1,2) u]
  proof (rule inj_onI)
    have i: "inj_on (\<lambda>x. frame_of (body s x)) F" using fr by (simp add: frames_ok_def)
    fix x y assume "x \<in> F" "y \<in> F" "frame_of (body s (?r x)) = frame_of (body s (?r y))"
    moreover from this have "?r x \<in> F" "?r y \<in> F" using sw(3,4) by simp_all
    ultimately have "?r x = ?r y" by (intro inj_onD [OF i])
    then show "x = y" using sw(2) by (auto split: if_splits)
  qed
  ultimately show ?thesis using fr by (simp add: frames_ok_def)
qed

lemma swapped_inv:
  assumes inv: "pebs_inv F Q s" and p: "p \<in> tracked s" and np: "held F Q s np" "in_dram (body s np) = up"
    and sw: "swapped up p np s s'"
  shows "pebs_inv F Q s'" "held F Q s' np" "\<not> present (body s' np)" "frame_of (body s' np) = frame_of (body s p)"
proof -
  note D = pebs_invD [OF inv]
  have np': "np \<in> F" "np \<notin> free_pages Q" "np \<notin> tracked s" using np by (auto simp: held_def)
  have pF: "p \<in> F" "p \<notin> free_pages Q" "p \<noteq> np" using D(12,13) p np'(3) by auto
  have eq: "links s' = links s" "pages s' = pages s" "pages_map s' = pages_map s" "mod_page_dq s' = mod_page_dq s"
    using sw by (simp_all add: swapped_def)
  have q: "queued s' = queued s" "tracked s' = tracked s" by (simp_all add: queued_def tracked_def eq)
  have keep: "va_of s' x = va_of s x" "present (body s' x) = present (body s x)" if "x \<in> tracked s" for x
    using swapped_keeps [OF sw, of x] that np'(3) by auto
  have free: "free_list_of (body s' x) = free_list_of (body s x)" "present (body s' x) = present (body s x)"
    if "x \<in> set (Q k)" for x k
  proof -
    have "x \<noteq> p" "x \<noteq> np" using that pF(2) np'(2) free_pages_mem by blast+
    then have "body s' x = body s x" using sw by (auto simp: swapped_def)
    then show "free_list_of (body s' x) = free_list_of (body s x)" "present (body s' x) = present (body s x)" by simp_all
  qed
  have own: "own_keys (va_of s') (kh_map (pages_map s'))"
    using D(9) keep(1) unfolding own_keys_def tracked_def eq by (metis UnI1 ranI)
  have rep: "replay (va_of s') (kh_map (pages_map s')) (queued s') = Some (kh_map (pages s'))"
    using D(10) replay_cong [of "queued s" "va_of s'" "va_of s"] keep(1) by (simp add: q eq tracked_def)
  have fr: "frames_ok F s'" by (rule frames_ok_swapped [OF D(2) sw pF(3,1) np'(1) np(2)])
  show "pebs_inv F Q s'"
    unfolding pebs_inv_def q eq(1,2,4)
  proof (intro conjI)
    show "\<forall>l. \<forall>x\<in>set (Q l). x \<in> F \<and> free_list_of (body s' x) = l \<and> \<not> present (body s' x)"
      using D(3-5) free by blast
    show "own_keys (va_of s') (kh_map (pages_map s'))" by (rule own)
    show "replay (va_of s') (kh_map (pages_map s')) (queued s) = Some (kh_map (pages s))" using rep by (simp add: q eq)
    show "\<forall>p\<in>tracked s. present (body s' p) = (p \<in> ran (kh_map (pages s)))" using D(14) keep(2) by blast
    show "frames_ok F s'" by (rule fr)
  qed (use D eq in simp_all)
  show "held F Q s' np" using np(1) by (simp add: held_def q)
  show "\<not> present (body s' np)" using sw by (auto simp: swapped_def)
  show "frame_of (body s' np) = frame_of (body s p)" using sw by (auto simp: swapped_def)
qed

lemma swapped_vmap:
  assumes inv: "pebs_inv F Q s" and vm: "vmap_ok s" and p: "kh_map (pages s) v = Some p"
    and np: "held F Q s np" "in_dram (body s np) = up"
    and sw: "swapped up p np s s'" and v': "vmap s' = (vmap s)(v \<mapsto> (dst_tier up, devdax_offset (body s np)))"
  shows "vmap_ok s'"
  unfolding vmap_ok_def
proof
  fix w
  have eq: "pages s' = pages s" using sw by (simp add: swapped_def)
  show "vmap s' w = map_option (\<lambda>p. frame_of (body s' p)) (kh_map (pages s') w)"
  proof (cases "w = v")
    case True
    have "p \<noteq> np" using kh_map_pages_F [OF inv p] np(1) by (auto simp: held_def)
    then have "frame_of (body s' p) = (dst_tier up, devdax_offset (body s np))"
      using sw by (auto simp: swapped_def frame_of_def dst_tier_def)
    then show ?thesis using True p by (simp add: v' eq)
  next
    case False
    have "body s' q = body s q" if "kh_map (pages s) w = Some q" for q
    proof -
      have "q \<noteq> p" "q \<noteq> np" using kh_map_pages_F [OF inv that] kh_map_pages_F [OF inv p] False np by (auto simp: held_def)
      then show ?thesis using sw by (auto simp: swapped_def)
    qed
    then show ?thesis using vmap_okD [OF vm, of w] False by (cases "kh_map (pages s) w") (simp_all add: v' eq)
  qed
qed

section \<open>The two migrations of a request\<close>

lemma reset_simps [simp]:
  "va (reset_page_access_fields n) = va n" "present (reset_page_access_fields n) = present n"
  "pt (reset_page_access_fields n) = pt n" "in_dram (reset_page_access_fields n) = in_dram n"
  "devdax_offset (reset_page_access_fields n) = devdax_offset n" "frame_of (reset_page_access_fields n) = frame_of n"
  by (simp_all add: reset_page_access_fields_def frame_of_def)

lemma app_view_fields [simp]:
  "app_view (s\<lparr>body := b\<rparr>) = app_view s" "app_view (upd_page p f s) = app_view s"
  "app_view ((s1 :: 'a pebs_state_scheme)\<lparr>links := lk\<rparr>) = app_view s1"
  by (simp_all add: app_view_def app_load_def dev_mem_def upd_page_def fun_eq_iff cong: option.case_cong memtypes.case_cong)

lemma vmap_ok_links [simp]: "vmap_ok (s\<lparr>links := lk\<rparr>) = vmap_ok s"
  by (simp add: vmap_ok_def)

lemma migrate_swapped:
  assumes run: "(if up then pebs_migrate_up else pebs_migrate_down) K s p (devdax_offset (body s np)) = Some s1"
    and K: "kernel_ok K" and ne: "p \<noteq> np" and p: "in_dram (body s p) = (\<not> up)"
  defines "s2 \<equiv> upd_page np reset_page_access_fields (upd_page np
     (\<lambda>n. n\<lparr>devdax_offset := devdax_offset (body s p), in_dram := (\<not> up), present := False\<rparr>) s1)"
  shows "swapped up p np s s2" "vmap s2 = (vmap s)(va_of s p \<mapsto> (dst_tier up, devdax_offset (body s np)))"
proof -
  note M = migrate_fields [OF run K]
  let ?n = "reset_page_access_fields ((body s np)\<lparr>devdax_offset := devdax_offset (body s p), in_dram := (\<not> up), present := False\<rparr>)"
  have "body s2 = (body s)(p := (body s p)\<lparr>devdax_offset := devdax_offset (body s np), in_dram := up, migrating := False\<rparr>, np := ?n)"
    using ne by (simp add: s2_def M(1) fun_eq_iff)
  moreover have "frame_of ?n = frame_of (body s p)" using p by (simp add: frame_of_def)
  moreover have "links s2 = links s" "pages s2 = pages s" "pages_map s2 = pages_map s" "mod_page_dq s2 = mod_page_dq s"
    using pebs_fields_more [OF M(5)] by (simp_all add: s2_def)
  moreover have "dramsize s2 = dramsize s" "nvmsize s2 = nvmsize s" by (simp_all add: s2_def M)
  ultimately show "swapped up p np s s2" unfolding swapped_def by (intro conjI exI [of _ ?n]) simp_all
  show "vmap s2 = (vmap s)(va_of s p \<mapsto> (dst_tier up, devdax_offset (body s np)))" by (simp add: s2_def M)
qed

lemma migrate_page_inv:
  assumes inv: "pebs_inv F Q s" and vm: "vmap_ok s" and p: "p \<in> tracked s" "in_dram (body s p) = (\<not> up)" "present (body s p)"
    and np: "held F Q s np" "in_dram (body s np) = up" and K: "kernel_ok K"
    and run: "(if up then pebs_migrate_up else pebs_migrate_down) K s p (devdax_offset (body s np)) = Some s1"
  defines "s2 \<equiv> upd_page np reset_page_access_fields (upd_page np
     (\<lambda>n. n\<lparr>devdax_offset := devdax_offset (body s p), in_dram := (\<not> up), present := False\<rparr>) s1)"
  shows "pebs_inv F Q s2" "vmap_ok s2" "held F Q s2 np" "\<not> present (body s2 np)" "in_dram (body s2 np) = (\<not> up)"
    "app_view s2 = app_view s" "pages s2 = pages s" "tracked s2 = tracked s" "pages_map s2 = pages_map s"
    "x \<noteq> p \<Longrightarrow> x \<noteq> np \<Longrightarrow> body s2 x = body s x" "present (body s2 p) = present (body s p)" "va_of s2 p = va_of s p"
    "queued s2 = queued s"
proof -
  have ne: "p \<noteq> np" using p(1) np(1) by (auto simp: held_def)
  note S = migrate_swapped [OF run K ne p(2), folded s2_def]
  have "p \<in> ran (kh_map (pages s))" using pebs_invD(14) [OF inv p(1)] p(3) by simp
  then have pm: "kh_map (pages s) (va_of s p) = Some p" using own_keys_ran [OF pages_own [OF inv]] by simp
  note I = swapped_inv [OF inv p(1) np S(1)]
  show "pebs_inv F Q s2" "held F Q s2 np" "\<not> present (body s2 np)" by (rule I)+
  show "in_dram (body s2 np) = (\<not> up)" using I(4) p(2) by (simp add: frame_of_eq)
  show "vmap_ok s2" by (rule swapped_vmap [OF inv vm pm np S])
  have "app_view s1 = app_view s" by (rule migrate_unseen [OF inv vm pm p(2) np K run])
  then show "app_view s2 = app_view s" by (simp add: s2_def)
  show "pages s2 = pages s" "tracked s2 = tracked s" "pages_map s2 = pages_map s" "queued s2 = queued s"
    using S(1) by (simp_all add: swapped_def tracked_def queued_def)
  show "present (body s2 p) = present (body s p)" "va_of s2 p = va_of s p" using swapped_keeps [OF S(1) ne] by simp_all
  show "x \<noteq> p \<Longrightarrow> x \<noteq> np \<Longrightarrow> body s2 x = body s x" using S(1) by (auto simp: swapped_def)
qed

lemma promote_inv:
  assumes inv: "pebs_inv F Q s" and vm: "vmap_ok s" and p: "present (body s p) \<Longrightarrow> p \<in> tracked s" "\<not> in_dram (body s p)"
    and np: "held F Q s np" "in_dram (body s np)" "\<not> present (body s np)" and K: "kernel_ok K"
    and run: "promote_to_free_dram_page K s p np = Some s'"
  shows "\<exists>Q'. pebs_inv F Q' s' \<and> Q' = (if present (body s p) then Q(NVM_FREE := np # Q NVM_FREE) else Q(DRAM_FREE := np # Q DRAM_FREE)) \<and>
    vmap_ok s' \<and> app_view s' = app_view s \<and> pages s' = pages s \<and> tracked s' = tracked s \<and> pages_map s' = pages_map s \<and>
    queued s' = queued s \<and>
    (\<forall>x. x \<noteq> p \<longrightarrow> x \<noteq> np \<longrightarrow> body s' x = body s x) \<and> present (body s' p) = present (body s p)"
proof (cases "present (body s p)")
  case False
  have "free_list_of (body s np) = DRAM_FREE" using np(2) by (simp add: free_list_of_def)
  then obtain lk where lk: "enqueue_fifo (links s) DRAM_FREE np = Some lk"
    "pebs_inv F (Q(DRAM_FREE := np # Q DRAM_FREE)) (s\<lparr>links := lk\<rparr>)" using inv_enq [OF inv np(1,3)] by auto
  then have "s' = s\<lparr>links := lk\<rparr>" using run False by (simp add: promote_to_free_dram_page_def)
  then show ?thesis using False lk(2) vm by (simp add: queued_def)
next
  case True
  obtain s1 where 1: "(if True then pebs_migrate_up else pebs_migrate_down) K s p (devdax_offset (body s np)) = Some s1"
    using run True by (auto simp: promote_to_free_dram_page_def bind_Some_iff)
  have p2: "in_dram (body s p) = (\<not> True)" and np2: "in_dram (body s np) = True" using p(2) np(2) by simp_all
  define s2 where "s2 = upd_page np reset_page_access_fields (upd_page np
     (\<lambda>n. n\<lparr>devdax_offset := devdax_offset (body s p), in_dram := (\<not> True), present := False\<rparr>) s1)"
  note I = migrate_page_inv [OF inv vm p(1) [OF True] p2 True np(1) np2 K 1, folded s2_def]
  have "free_list_of (body s2 np) = NVM_FREE" using I(5) by (simp add: free_list_of_def)
  then obtain lk where lk: "enqueue_fifo (links s2) NVM_FREE np = Some lk"
    "pebs_inv F (Q(NVM_FREE := np # Q NVM_FREE)) (s2\<lparr>links := lk\<rparr>)" using inv_enq [OF I(1,3,4)] by auto
  then have "s' = s2\<lparr>links := lk\<rparr>" using run True 1 by (simp add: promote_to_free_dram_page_def s2_def Let_def)
  then show ?thesis using True lk(2) I by simp
qed

lemma demote_inv:
  assumes inv: "pebs_inv F Q s" and vm: "vmap_ok s" and p: "present (body s p) \<Longrightarrow> p \<in> tracked s" "in_dram (body s p)"
    and np: "held F Q s np" "\<not> in_dram (body s np)" "\<not> present (body s np)" and K: "kernel_ok K"
    and run: "demote_to_free_nvm_page K s p np = Some (ok, s')"
  shows "pebs_inv F Q s' \<and> vmap_ok s' \<and> held F Q s' np \<and> \<not> present (body s' np) \<and> ok = present (body s p) \<and>
    in_dram (body s' np) = ok \<and> app_view s' = app_view s \<and> pages s' = pages s \<and> tracked s' = tracked s \<and>
    pages_map s' = pages_map s \<and> queued s' = queued s \<and>
    (\<forall>x. x \<noteq> p \<longrightarrow> x \<noteq> np \<longrightarrow> body s' x = body s x) \<and> present (body s' p) = present (body s p)"
proof (cases "present (body s p)")
  case False
  then show ?thesis using assms by (simp add: demote_to_free_nvm_page_def)
next
  case True
  obtain s1 where 1: "(if False then pebs_migrate_up else pebs_migrate_down) K s p (devdax_offset (body s np)) = Some s1"
    using run True by (auto simp: demote_to_free_nvm_page_def bind_Some_iff)
  have p2: "in_dram (body s p) = (\<not> False)" and np2: "in_dram (body s np) = False" using p(2) np(2) by simp_all
  define s2 where "s2 = upd_page np reset_page_access_fields (upd_page np
     (\<lambda>n. n\<lparr>devdax_offset := devdax_offset (body s p), in_dram := (\<not> False), present := False\<rparr>) s1)"
  note I = migrate_page_inv [OF inv vm p(1) [OF True] p2 True np(1) np2 K 1, folded s2_def]
  have "s' = s2" "ok" using run True 1 by (simp_all add: demote_to_free_nvm_page_def s2_def Let_def)
  then show ?thesis using True I by simp
qed

section \<open>Missing faults\<close>

lemma pebs_inv_cong:
  assumes "links s' = links s" "body s' = body s" "pages s' = pages s" "pages_map s' = pages_map s"
    "mod_page_dq s' = mod_page_dq s" "dramsize s' = dramsize s" "nvmsize s' = nvmsize s"
  shows "pebs_inv F Q s' = pebs_inv F Q s" "held F Q s' p = held F Q s p" "tracked s' = tracked s" "queued s' = queued s"
proof -
  show q: "queued s' = queued s" and t: "tracked s' = tracked s" by (simp_all add: queued_def tracked_def assms)
  show "held F Q s' p = held F Q s p" by (simp add: held_def t)
  have "frames_ok F s' = frames_ok F s" by (simp add: frames_ok_def frame_fits_def assms cong: if_cong)
  then show "pebs_inv F Q s' = pebs_inv F Q s" by (simp only: pebs_inv_def q t assms)
qed

definition zero_view :: "u64 \<Rightarrow> u8 option" where
  "zero_view i = (if i < HUGEPAGE_SIZE then Some 0 else None)"

lemma zero_frame_view:
  assumes ok: "maps_ok s" and free: "\<And>v. vmap s v \<noteq> Some (t, f)" and f: "frame_aligned f"
    and vm: "vmap s' = (vmap s)(a \<mapsto> (t, f))"
    and dev: "dev_mem s' t = mem_zero (dev_mem s t) f HUGEPAGE_SIZE" "\<And>t'. t' \<noteq> t \<Longrightarrow> dev_mem s' t' = dev_mem s t'"
  shows "app_view s' = (app_view s)(a := zero_view)"
proof (intro ext)
  fix v i
  show "app_view s' v i = ((app_view s)(a := zero_view)) v i"
  proof (cases "v = a")
    case True
    then show ?thesis using vm dev(1) by (auto simp: app_view_def app_load_def zero_view_def mem_zero_def)
  next
    case False
    show ?thesis
    proof (cases "vmap s v")
      case None
      then show ?thesis using False vm by (simp add: app_view_None)
    next
      case (Some tf)
      obtain t' g where tg: "vmap s v = Some (t', g)" using Some by (cases tf) auto
      have "dev_mem s' t' (g + i) = dev_mem s t' (g + i)" if i: "i < HUGEPAGE_SIZE"
      proof (cases "t' = t")
        case True
        then have "g \<noteq> f" using tg free [of v] by auto
        then have "\<not> (g + i) - f < HUGEPAGE_SIZE"
          by (rule frame_outside [OF maps_ok_aligned [OF ok tg] f _ i])
        then show ?thesis using True dev(1) by (simp add: mem_zero_def)
      qed (simp add: dev(2))
      then show ?thesis using tg False vm by (simp add: app_view_Some)
    qed
  qed
qed

lemma dev_mem_zero_frame:
  "dev_mem (zero_frame s d off n) t =
     (if t = (if d then FASTMEM else SLOWMEM) then mem_zero (dev_mem s t) off n else dev_mem s t)"
  by (cases t) (auto simp: dev_mem_def zero_frame_def)

lemma zero_frame_fields [simp]:
  "body (zero_frame s d off n) = body s" "vmap (zero_frame s d off n) = vmap s" "wprot (zero_frame s d off n) = wprot s"
  "dramsize (zero_frame s d off n) = dramsize s" "nvmsize (zero_frame s d off n) = nvmsize s"
  "links (zero_frame s1 d off n) = links s1" "pages (zero_frame s1 d off n) = pages s1"
  "pages_map (zero_frame s1 d off n) = pages_map s1" "mod_page_dq (zero_frame s1 d off n) = mod_page_dq s1"
  by (simp_all add: zero_frame_def)

lemma map_frame_fields [simp]:
  "body (map_frame s a d off) = body s" "vmap (map_frame s a d off) = (vmap s)(a \<mapsto> (if d then FASTMEM else SLOWMEM, off))"
  "dramsize (map_frame s a d off) = dramsize s" "nvmsize (map_frame s a d off) = nvmsize s"
  "links (map_frame s1 a d off) = links s1" "pages (map_frame s1 a d off) = pages s1"
  "pages_map (map_frame s1 a d off) = pages_map s1" "mod_page_dq (map_frame s1 a d off) = mod_page_dq s1"
  "dev_mem (map_frame s a d off) = dev_mem s"
  by (simp_all add: map_frame_def dev_mem_def fun_eq_iff cong: memtypes.case_cong)

lemma dev_mem_counters [simp]:
  "dev_mem (s\<lparr>memsets := n\<rparr>) t = dev_mem s t" "dev_mem (s\<lparr>mem_allocated := n\<rparr>) t = dev_mem s t"
  by (simp_all add: dev_mem_def cong: memtypes.case_cong)

lemma place_page_inv:
  assumes inv: "pebs_inv F Q s" and vm: "vmap_ok s" and K: "kernel_ok K" and run: "place_page K ex s a = Some (p, s')"
  shows "\<exists>l. next_free Q = Some l \<and> p = last (Q l) \<and> pebs_inv F (Q(l := butlast (Q l))) s' \<and> held F (Q(l := butlast (Q l))) s' p \<and>
    present (body s' p) \<and> va_of s' p = a \<and> pages s' = pages s \<and> tracked s' = tracked s \<and> queued s' = queued s \<and>
    vmap s' = (vmap s)(a \<mapsto> frame_of (body s' p)) \<and> (\<forall>q. q \<noteq> p \<longrightarrow> body s' q = body s q) \<and>
    app_view s' = (app_view s)(a := zero_view) \<and> p \<notin> tracked s \<and> frame_of (body s' p) = frame_of (body s p) \<and>
    a \<noteq> 0 \<and> a mod HUGEPAGE_SIZE = 0"
proof -
  obtain l where l: "next_free Q = Some l"
    using pebs_pagefault_inv [OF inv] run by (cases "next_free Q") (simp_all add: place_page_def)
  let ?Q = "Q(l := butlast (Q l))" and ?p = "last (Q l)"
  obtain s1 lk where s1: "pebs_pagefault s = Some (?p, s1)" "pebs_inv F ?Q s1" "held F ?Q s1 ?p"
    "s1 = upd_page ?p (\<lambda>p. p\<lparr>present := True\<rparr>) (s\<lparr>links := lk\<rparr>)"
    using pebs_pagefault_inv [OF inv] l by auto
  have p: "p = ?p" using run s1(1) by (auto simp: place_page_def Let_def bind_Some_iff)
  define d where "d = in_dram (body s1 p)"
  define off where "off = devdax_offset (body s1 p)"
  have hp: "p \<in> F" "p \<notin> tracked s1" "p \<notin> free_pages ?Q" using s1(3) by (auto simp: held_def p)
  have fit: "pt (body s1 p) = HUGEP" "frame_aligned off"
    using pebs_invD(2) [OF s1(2)] hp(1) by (auto simp: frames_ok_def frame_fits_def off_def)
  define s2 where "s2 = upd_page p (\<lambda>p. p\<lparr>migrating := False\<rparr>) (upd_page p (\<lambda>p. p\<lparr>va := a\<rparr>) s1)"
  have P: "body s' = body s2" "links s' = links s2" "pages s' = pages s2" "pages_map s' = pages_map s2"
    "mod_page_dq s' = mod_page_dq s2" "dramsize s' = dramsize s2" "nvmsize s' = nvmsize s2"
    "vmap s' = (vmap s1)(a \<mapsto> (if d then FASTMEM else SLOWMEM, off))"
    "dev_mem s' = dev_mem (zero_frame s1 d off HUGEPAGE_SIZE)"
    using run s1(1) fit(1)
    by (auto simp: place_page_def p Let_def bind_Some_iff s2_def d_def off_def upd_page_def fun_eq_iff
        dest!: kernel_ok_mmap [OF K])
  have inv2: "pebs_inv F ?Q s2" unfolding s2_def
    by (intro inv_upd_page s1(2)) (use hp in \<open>simp_all add: frame_of_def\<close>)
  note C = pebs_inv_cong [OF P(2,1,3-7)]
  have b: "body s2 = (body s1)(p := (body s1 p)\<lparr>va := a, migrating := False\<rparr>)" by (simp add: s2_def)
  have b1: "body s1 = (body s)(p := (body s p)\<lparr>present := True\<rparr>)" by (simp add: s1(4) p)
  have v1: "vmap s1 = vmap s" "pages s1 = pages s" "tracked s1 = tracked s" "queued s1 = queued s" by (simp_all add: s1(4))
  have fr: "frame_of (body s p) = (if d then FASTMEM else SLOWMEM, off)" "frame_of (body s' p) = frame_of (body s p)"
    by (simp_all add: frame_of_def d_def off_def b1 b P(1))
  have pnr: "p \<notin> ran (kh_map (pages s))" using hp(2) pages_tracked [OF inv] by (auto simp: v1)
  have view: "app_view s' = (app_view s)(a := zero_view)"
  proof (rule zero_frame_view [of s "if d then FASTMEM else SLOWMEM" off])
    show "maps_ok s" by (rule vmap_frames(1) [OF inv vm])
    show "vmap s v \<noteq> Some (if d then FASTMEM else SLOWMEM, off)" for v
      using vmap_frames(2) [OF inv vm hp(1) pnr, of v] by (simp add: fr)
    have "dev_mem s1 = dev_mem s" by (simp add: s1(4) dev_mem_def upd_page_def fun_eq_iff cong: memtypes.case_cong)
    then show "dev_mem s' (if d then FASTMEM else SLOWMEM) = mem_zero (dev_mem s (if d then FASTMEM else SLOWMEM)) off HUGEPAGE_SIZE"
      "t' \<noteq> (if d then FASTMEM else SLOWMEM) \<Longrightarrow> dev_mem s' t' = dev_mem s t'" for t'
      by (simp_all add: P(9) dev_mem_zero_frame)
  qed (use fit P v1 in simp_all)
  have al: "a \<noteq> 0" "a mod HUGEPAGE_SIZE = 0"
    using run s1(1) fit(1)
    by (auto simp: place_page_def p Let_def bind_Some_iff dest!: kernel_ok_mmap [OF K])
  show ?thesis
  proof (intro exI conjI)
    show "pebs_inv F ?Q s'" "held F ?Q s' p" using inv2 hp by (simp_all add: C s2_def held_def)
    show "vmap s' = (vmap s)(a \<mapsto> frame_of (body s' p))" by (simp add: P(8) v1 fr)
    show "\<forall>q. q \<noteq> p \<longrightarrow> body s' q = body s q" by (simp add: P(1) b b1)
    show "tracked s' = tracked s" "queued s' = queued s" by (simp_all add: C s2_def v1)
    show "p \<notin> tracked s" using hp(2) by (simp add: v1)
    show "frame_of (body s' p) = frame_of (body s p)" "a \<noteq> 0" "a mod HUGEPAGE_SIZE = 0" by (rule fr(2) al)+
  qed (use l p view in \<open>simp_all add: P b b1 s2_def v1\<close>)
qed

lemma missing_fault_inv:
  assumes inv: "pebs_inv F Q s" and vm: "vmap_ok s" and K: "kernel_ok K" and new: "a \<notin> dom (kh_map (pages s))"
    and run: "handle_missing_fault K None s a = Some s'"
  shows "\<exists>l. next_free Q = Some l \<and> pebs_inv F (Q(l := butlast (Q l))) s' \<and> vmap_ok s' \<and>
    kh_map (pages s') = (kh_map (pages s))(a \<mapsto> last (Q l)) \<and> app_view s' = (app_view s)(a := zero_view) \<and>
    queued s' = queued s @ [(last (Q l), False)] \<and> present (body s' (last (Q l))) \<and> va_of s' (last (Q l)) = a \<and>
    tracked s' = insert (last (Q l)) (tracked s) \<and> (\<forall>x. frame_of (body s' x) = frame_of (body s x)) \<and>
    (\<forall>x. x \<noteq> last (Q l) \<longrightarrow> present (body s' x) = present (body s x)) \<and> a \<noteq> 0 \<and> a mod HUGEPAGE_SIZE = 0"
proof -
  let ?s = "s\<lparr>internal_call := True\<rparr>"
  have C0: "pebs_inv F Q ?s" "vmap_ok ?s" "app_view ?s = app_view s" "tracked ?s = tracked s" "queued ?s = queued s"
    using inv vm by (simp_all add: pebs_inv_cong(1,3,4) [of ?s s] vmap_ok_def app_view_def app_load_def dev_mem_def fun_eq_iff
        cong: option.case_cong memtypes.case_cong)
  obtain p s1 s2 where 1: "place_page K True ?s a = Some (p, s1)" "pebs_add_page None s1 p = Some s2"
    "s' = s2\<lparr>missing_faults_handled := missing_faults_handled s2 + 1, pages_allocated := pages_allocated s2 + 1, internal_call := False\<rparr>"
    using run by (auto simp: handle_missing_fault_def Let_def bind_Some_iff)
  obtain l where l: "next_free Q = Some l" "p = last (Q l)" and inv1: "pebs_inv F (Q(l := butlast (Q l))) s1"
    "held F (Q(l := butlast (Q l))) s1 p" "present (body s1 p)" "va_of s1 p = a" "pages s1 = pages s" "queued s1 = queued s"
    "vmap s1 = (vmap s)(a \<mapsto> frame_of (body s1 p))" "\<forall>q. q \<noteq> p \<longrightarrow> body s1 q = body s q"
    "app_view s1 = (app_view s)(a := zero_view)" "p \<notin> tracked s" "frame_of (body s1 p) = frame_of (body s p)"
    "tracked s1 = tracked s"
    using place_page_inv [OF C0(1,2) K 1(1)] C0 by auto
  have al: "a \<noteq> 0" "a mod HUGEPAGE_SIZE = 0" using place_page_inv [OF C0(1,2) K 1(1)] by blast+
  have n1: "va_of s1 p \<notin> dom (kh_map (pages s1))" using new inv1 by simp
  obtain s2' where "pebs_add_page None s1 p = Some s2'" "pebs_inv F (Q(l := butlast (Q l))) s2'"
    "kh_map (pages s2') = (kh_map (pages s1))(va_of s1 p \<mapsto> p)" "body s2' = body s1" "queued s2' = queued s1 @ [(p, False)]"
    "tracked s2' = insert p (tracked s1)"
    using pebs_add_page_inv [OF inv1(1,2,3) n1] by blast
  then have s2: "pebs_inv F (Q(l := butlast (Q l))) s2" "kh_map (pages s2) = (kh_map (pages s))(a \<mapsto> p)" "body s2 = body s1"
    "queued s2 = queued s @ [(p, False)]" "tracked s2 = insert p (tracked s)" using 1(2) inv1 by simp_all
  have more: "vmap s2 = vmap s1" "dev_mem s2 = dev_mem s1" using 1(2)
    by (auto simp: pebs_add_page_def bind_Some_iff Let_def dev_mem_def fun_eq_iff cong: memtypes.case_cong)
  note C = pebs_inv_cong [of s' s2]
  have vs: "vmap s' = vmap s1" "dev_mem s' = dev_mem s1" "body s' = body s1" "pages s' = pages s2"
    using more s2(3) by (simp_all add: 1(3) dev_mem_def fun_eq_iff cong: memtypes.case_cong)
  have "body s1 q = body s q" if "kh_map (pages s) v = Some q" for v q
    using inv1(8,10) kh_map_pages_F [OF inv that] by metis
  then have "vmap s' v = map_option (\<lambda>p. frame_of (body s' p)) (kh_map (pages s') v)" for v
    using vmap_okD [OF vm, of v] by (cases "kh_map (pages s) v") (auto simp: vs s2(2) inv1(7))
  then have "vmap_ok s'" by (simp add: vmap_ok_def)
  moreover have "app_view s' = app_view s1" by (simp add: app_view_def app_load_def vs fun_eq_iff cong: option.case_cong)
  moreover have "pebs_inv F (Q(l := butlast (Q l))) s'" "queued s' = queued s2" "tracked s' = tracked s2"
    using s2(1) C(1,3,4) by (simp_all add: 1(3))
  moreover have "frame_of (body s' x) = frame_of (body s x)" for x
    using inv1(8,11) by (cases "x = p") (simp_all add: vs)
  ultimately show ?thesis using l s2 inv1 vs al
    by (intro exI [of _ l] conjI) (simp_all only: fun_upd_same, auto)
qed

section \<open>Unmapping\<close>

definition keys_ok :: "'a pebs_state_scheme \<Rightarrow> bool" where
  "keys_ok s \<longleftrightarrow> (\<forall>v\<in>dom (kh_map (pages s)). v \<noteq> 0 \<and> v mod HUGEPAGE_SIZE = 0)"

definition huge_range :: "u64 \<Rightarrow> u64 \<Rightarrow> bool" where
  "huge_range a n \<longleftrightarrow> a mod HUGEPAGE_SIZE = 0 \<and> n mod HUGEPAGE_SIZE = 0 \<and> unat a + unat n < 2 ^ 64"

lemma huge_unat: "(a mod HUGEPAGE_SIZE = 0) = (unat a mod 2 ^ 21 = 0)" for a :: u64
proof -
  have "unat (a mod HUGEPAGE_SIZE) = unat a mod 2 ^ 21" by (simp add: unat_mod_distrib HUGEPAGE_SIZE_def)
  then show ?thesis by (metis unat_0 unsigned_word_eqI)
qed

lemma mult_room: "(b :: nat) mod m = 0 \<Longrightarrow> s mod m = 0 \<Longrightarrow> b < s \<Longrightarrow> b + m \<le> s"
proof -
  assume "b mod m = 0" "s mod m = 0" "b < s"
  then obtain k j where "b = m * k" "s = m * j" "m * k < m * j" by (auto elim!: dvdE simp: mod_eq_0_iff_dvd)
  moreover from this have "m * (k + 1) \<le> m * j" by (intro mult_le_mono2) (simp add: Suc_le_eq)
  ultimately show "b + m \<le> s" by simp
qed

lemma mult_unique: "(b :: nat) mod m = 0 \<Longrightarrow> v mod m = 0 \<Longrightarrow> b \<le> v \<Longrightarrow> v < b + m \<Longrightarrow> v = b"
  using mult_room [of b m v] by (cases "b = v") simp_all

lemma mod_4096: "(v :: nat) mod 2 ^ 21 = 0 \<Longrightarrow> v mod 4096 = 0"
  using dvd_trans [of "4096 :: nat" "2 ^ 21" v] by (simp add: mod_eq_0_iff_dvd)

lemma munmap_pages_inv:
  assumes stop: "unat stop mod 2 ^ 21 = 0"
  shows "pebs_inv F Q s \<Longrightarrow> vmap s = vm0 \<Longrightarrow> keys_ok s \<Longrightarrow> unat b mod 4096 = 0 \<Longrightarrow> unat b \<le> unat stop \<Longrightarrow>
    \<exists>s'. munmap_pages stop b s = Some s' \<and> pebs_inv F Q s' \<and> vmap s' = vm0 \<and>
      kh_map (pages s') = (\<lambda>v. if b \<le> v \<and> v < stop then None else kh_map (pages s) v) \<and>
      (\<forall>x. frame_of (body s' x) = frame_of (body s x) \<and> va_of s' x = va_of s x \<and>
           (present (body s' x) \<longrightarrow> present (body s x))) \<and>
      tracked s' = tracked s \<and> pages_map s' = pages_map s \<and> dev_mem s' = dev_mem s"
proof (induction "unat stop - unat b" arbitrary: b s rule: less_induct)
  case less
  note inv = less.prems(1)
  note find = pages_find_spec [OF pebs_invD(6) [OF inv], of b]
  show ?case
  proof (cases "b < stop")
    case False
    then have "munmap_pages stop b s = Some s" by (subst munmap_pages.simps) simp
    moreover have "(\<lambda>v. if b \<le> v \<and> v < stop then None else kh_map (pages s) v) = kh_map (pages s)"
      using False by (auto simp: fun_eq_iff)
    ultimately show ?thesis using less.prems by (intro exI [of _ s]) simp
  next
    case True
    then have lt: "unat b < unat stop" by (simp add: word_less_nat_alt)
    have bound: "unat stop < 2 ^ 64" by (rule unat_less_u64)
    show ?thesis
    proof (cases "kh_map (pages s) b")
      case None
      have room: "unat b + 4096 \<le> unat stop" using mult_room [OF less.prems(4) mod_4096 [OF stop] lt] .
      then have u: "unat (b + BASEPAGE_SIZE) = unat b + 4096"
        using bound by (simp add: BASEPAGE_SIZE_def unat_add_lem [THEN iffD1])
      have "\<exists>s'. munmap_pages stop (b + BASEPAGE_SIZE) s = Some s' \<and> pebs_inv F Q s' \<and> vmap s' = vm0 \<and>
        kh_map (pages s') = (\<lambda>v. if b + BASEPAGE_SIZE \<le> v \<and> v < stop then None else kh_map (pages s) v) \<and>
        (\<forall>x. frame_of (body s' x) = frame_of (body s x) \<and> va_of s' x = va_of s x \<and>
           (present (body s' x) \<longrightarrow> present (body s x))) \<and>
        tracked s' = tracked s \<and> pages_map s' = pages_map s \<and> dev_mem s' = dev_mem s"
        using less.prems room u lt by (intro less.hyps) simp_all
      moreover have "munmap_pages stop b s = munmap_pages stop (b + BASEPAGE_SIZE) s"
        using True find None by (subst munmap_pages.simps) (simp add: pebs_find_page_def)
      moreover have "kh_map (pages s) v = None" if "b \<le> v" "\<not> b + BASEPAGE_SIZE \<le> v" for v
      proof (rule ccontr)
        assume "kh_map (pages s) v \<noteq> None"
        then have "unat v mod 2 ^ 21 = 0" using less.prems(3) huge_unat [of v] by (auto simp: keys_ok_def)
        moreover have "unat b \<le> unat v" "unat v < unat b + 4096" using that u by (simp_all add: word_le_nat_alt)
        ultimately have "unat v = unat b" by (intro mult_unique [OF less.prems(4) mod_4096])
        then have "v = b" by (rule unsigned_word_eqI)
        then show False using None \<open>kh_map (pages s) v \<noteq> None\<close> by simp
      qed
      then have "(\<lambda>v. if b + BASEPAGE_SIZE \<le> v \<and> v < stop then None else kh_map (pages s) v) =
          (\<lambda>v. if b \<le> v \<and> v < stop then None else kh_map (pages s) v)"
        using u by (auto simp: fun_eq_iff word_le_nat_alt)
      ultimately show ?thesis by simp
    next
      case (Some p)
      note pF = kh_map_pages_F [OF inv Some]
      obtain s1 where s1: "pebs_remove_page s p = Some s1" "pebs_inv F Q s1"
        "kh_map (pages s1) = (kh_map (pages s))(b := None)" "body s1 = (body s)(p := (body s p)\<lparr>present := False\<rparr>)"
        "queued s1 = queued s @ [(p, True)]"
        using pebs_remove_page_inv [OF inv, of p] Some pF by auto
      have pn: "p \<noteq> NULL" using pF pebs_invD(2) [OF inv] by (auto simp: frames_ok_def)
      have pt: "pt (body s1 p) = HUGEP" using pF pebs_invD(2) [OF s1(2)] by (auto simp: frames_ok_def frame_fits_def)
      define s2 where "s2 = s1\<lparr>mem_allocated := mem_allocated s1 - HUGEPAGE_SIZE, mem_mmaped := mem_mmaped s1 - HUGEPAGE_SIZE,
                     pages_freed := pages_freed s1 + 1\<rparr>"
      have more: "vmap s1 = vmap s" "dev_mem s1 = dev_mem s" "pages_map s1 = pages_map s"
        using s1(1) by (auto simp: pebs_remove_page_def remove_page_queue_def remove_page_clear_def bind_Some_iff Let_def
            upd_page_def dev_mem_def fun_eq_iff cong: memtypes.case_cong)
      have S2: "pebs_inv F Q s2" "tracked s2 = tracked s1" "body s2 = body s1" "pages s2 = pages s1" "vmap s2 = vmap s"
        "dev_mem s2 = dev_mem s" "pages_map s2 = pages_map s"
        using s1(2) more pebs_inv_cong [of s2 s1]
        by (simp_all add: s2_def dev_mem_def fun_eq_iff cong: memtypes.case_cong)
      have tr: "tracked s1 = tracked s" using pF by (auto simp: tracked_def s1(5) more)
      have al: "unat b mod 2 ^ 21 = 0" using less.prems(3) huge_unat [of b] Some by (auto simp: keys_ok_def)
      have room: "unat b + 2 ^ 21 \<le> unat stop" using mult_room [OF al stop lt] .
      then have u: "unat (b + HUGEPAGE_SIZE) = unat b + 2 ^ 21"
        using bound by (simp add: HUGEPAGE_SIZE_def unat_add_lem [THEN iffD1])
      have "keys_ok s2" using less.prems(3) by (auto simp: keys_ok_def S2 s1(3))
      then have "\<exists>s'. munmap_pages stop (b + HUGEPAGE_SIZE) s2 = Some s' \<and> pebs_inv F Q s' \<and> vmap s' = vm0 \<and>
        kh_map (pages s') = (\<lambda>v. if b + HUGEPAGE_SIZE \<le> v \<and> v < stop then None else kh_map (pages s2) v) \<and>
        (\<forall>x. frame_of (body s' x) = frame_of (body s2 x) \<and> va_of s' x = va_of s2 x \<and>
           (present (body s' x) \<longrightarrow> present (body s2 x))) \<and>
        tracked s' = tracked s2 \<and> pages_map s' = pages_map s2 \<and> dev_mem s' = dev_mem s2"
        using less.prems S2 room u lt mod_4096 [of "unat b + 2 ^ 21"] al by (intro less.hyps) (simp_all add: mod_add_self2)
      moreover have "munmap_pages stop b s = munmap_pages stop (b + HUGEPAGE_SIZE) s2"
        using True find Some pn s1(1) pt by (subst munmap_pages.simps) (simp add: pebs_find_page_def s2_def Let_def)
      moreover have "kh_map (pages s) v = None" if "b \<le> v" "\<not> b + HUGEPAGE_SIZE \<le> v" "v \<noteq> b" for v
      proof (rule ccontr)
        assume "kh_map (pages s) v \<noteq> None"
        then have "unat v mod 2 ^ 21 = 0" using less.prems(3) huge_unat [of v] by (auto simp: keys_ok_def)
        moreover have "unat b \<le> unat v" "unat v < unat b + 2 ^ 21" using that u by (simp_all add: word_le_nat_alt)
        ultimately have "unat v = unat b" by (intro mult_unique [OF al])
        then show False using that(3) by (auto dest: unsigned_word_eqI)
      qed
      then have "(\<lambda>v. if b + HUGEPAGE_SIZE \<le> v \<and> v < stop then None else kh_map (pages s2) v) =
          (\<lambda>v. if b \<le> v \<and> v < stop then None else kh_map (pages s) v)"
        using u True by (auto simp: fun_eq_iff word_le_nat_alt S2 s1(3))
      moreover have "frame_of (body s2 x) = frame_of (body s x) \<and> va_of s2 x = va_of s x \<and> (present (body s2 x) \<longrightarrow> present (body s x))" for x
        by (simp add: S2 s1(4) frame_of_def)
      ultimately show ?thesis using S2 tr by auto
    qed
  qed
qed

end
