(* ===== verification/Pebs_System.thy ===== *)
theory Pebs_System
  imports Pebs_Reach
begin

text \<open>
  The memory manager as a transition system. Its state is the phase of the policy thread (whether
  it is handing out requests), the state of theory Pebs_Pages, and the requests that have been
  handed out and not finished. The steps are those of the threads: the fault handler, an
  unmapping call, the drain of the queue, the making of a request, and the two halves of a request.
  A request that has done its demotion goes on as a request without one. The policy may also give a
  free page back before it hands the request out, and every thread may change what no other
  operation depends on: counters, scores and access counts (\<open>same_core\<close>).
\<close>

type_synonym 'a sys = "bool \<times> 'a pebs_state_scheme \<times> migration_req list"

text \<open>
  Two states that agree on everything but counters, costs, access counts, scores and the queue of
  requests (in the steps the requests are listed apart).
\<close>

definition page_core :: "arms_page \<Rightarrow> (memtypes \<times> u64) \<times> pagetypes \<times> bool \<times> u64" where
  "page_core p = (frame_of p, pt p, present p, va p)"

definition same_core :: "'a pebs_state_scheme \<Rightarrow> 'b pebs_state_scheme \<Rightarrow> bool" where
  "same_core s s' \<longleftrightarrow> links s' = links s \<and> pages s' = pages s \<and> pages_map s' = pages_map s \<and>
     mod_page_dq s' = mod_page_dq s \<and> dramsize s' = dramsize s \<and> nvmsize s' = nvmsize s \<and>
     vmap s' = vmap s \<and> dev_mem s' = dev_mem s \<and> (\<forall>x. page_core (body s' x) = page_core (body s x))"

inductive sys_step :: "kernel \<Rightarrow> 'a sys \<Rightarrow> 'a sys \<Rightarrow> bool" for K where
  fault: "vmap s a = None \<Longrightarrow> handle_missing_fault K None s a = Some s' \<Longrightarrow> sys_step K (pl, s, R) (pl, s', R)"
| unmap: "huge_range a n \<Longrightarrow> arms_munmap 0 s a n = Some (0, s') \<Longrightarrow> sys_step K (pl, s, R) (pl, s', R)"
| drain: "drain_one None s = Some (b, s') \<Longrightarrow> sys_step K (False, s, R) (False, s', R)"
| start: "sys_step K (False, s, []) (True, s, [])"
| stop: "sys_step K (True, s, R) (False, s, R)"
| plan_up: "p \<in> ran (kh_map (pages_map s)) \<Longrightarrow> \<not> in_dram (body s p) \<Longrightarrow>
    (\<And>r. r \<in> set R \<Longrightarrow> p \<noteq> nvm_page r) \<Longrightarrow> (\<And>r. r \<in> set R \<Longrightarrow> need_demotion r \<Longrightarrow> p \<noteq> dram_page r) \<Longrightarrow>
    dequeue_fifo (links s) DRAM_FREE = Some (np, lk) \<Longrightarrow> np \<noteq> NULL \<Longrightarrow>
    sys_step K (True, s, R) (True, s\<lparr>links := lk\<rparr>,
      \<lparr>dram_page = NULL, nvm_page = p, free_page = np, need_demotion = False\<rparr> # R)"
| plan_swap: "p \<in> ran (kh_map (pages_map s)) \<Longrightarrow> \<not> in_dram (body s p) \<Longrightarrow>
    (\<And>r. r \<in> set R \<Longrightarrow> p \<noteq> nvm_page r) \<Longrightarrow> (\<And>r. r \<in> set R \<Longrightarrow> need_demotion r \<Longrightarrow> p \<noteq> dram_page r) \<Longrightarrow>
    cp \<in> ran (kh_map (pages_map s)) \<Longrightarrow> in_dram (body s cp) \<Longrightarrow>
    (\<And>r. r \<in> set R \<Longrightarrow> cp \<noteq> nvm_page r) \<Longrightarrow> (\<And>r. r \<in> set R \<Longrightarrow> need_demotion r \<Longrightarrow> cp \<noteq> dram_page r) \<Longrightarrow>
    dequeue_fifo (links s) NVM_FREE = Some (np, lk) \<Longrightarrow> np \<noteq> NULL \<Longrightarrow>
    sys_step K (True, s, R) (True, s\<lparr>links := lk\<rparr>,
      \<lparr>dram_page = cp, nvm_page = p, free_page = np, need_demotion = True\<rparr> # R)"
| demote: "r \<in> set R \<Longrightarrow> need_demotion r \<Longrightarrow> demote_to_free_nvm_page K s (dram_page r) (free_page r) = Some (True, s') \<Longrightarrow>
    sys_step K (pl, s, R) (pl, s', r\<lparr>need_demotion := False\<rparr> # remove1 r R)"
| give_up: "r \<in> set R \<Longrightarrow> need_demotion r \<Longrightarrow> demote_to_free_nvm_page K s (dram_page r) (free_page r) = Some (False, s') \<Longrightarrow>
    enqueue_fifo (links s') NVM_FREE (free_page r) = Some lk \<Longrightarrow>
    sys_step K (pl, s, R) (pl, s'\<lparr>links := lk\<rparr>, remove1 r R)"
| promote: "r \<in> set R \<Longrightarrow> \<not> need_demotion r \<Longrightarrow> promote_to_free_dram_page K s (nvm_page r) (free_page r) = Some s' \<Longrightarrow>
    sys_step K (pl, s, R) (pl, s', remove1 r R)"
| abandon: "r \<in> set R \<Longrightarrow> \<not> need_demotion r \<Longrightarrow> enqueue_fifo (links s) DRAM_FREE (free_page r) = Some lk \<Longrightarrow>
    sys_step K (pl, s, R) (pl, s\<lparr>links := lk\<rparr>, remove1 r R)"
| aside: "same_core s s' \<Longrightarrow> sys_step K (pl, s, R) (pl, s', R)"

section \<open>The invariant\<close>

definition req_pages :: "migration_req \<Rightarrow> addr list" where
  "req_pages r = nvm_page r # free_page r # (if need_demotion r then [dram_page r] else [])"

definition req_ok :: "addr set \<Rightarrow> (free_list \<Rightarrow> addr list) \<Rightarrow> 'a pebs_state_scheme \<Rightarrow> migration_req \<Rightarrow> bool" where
  "req_ok F Q s r \<longleftrightarrow>
     nvm_page r \<in> F \<and> \<not> in_dram (body s (nvm_page r)) \<and>
     (need_demotion r \<longrightarrow> dram_page r \<in> F \<and> in_dram (body s (dram_page r))) \<and>
     held F Q s (free_page r) \<and> \<not> present (body s (free_page r)) \<and> in_dram (body s (free_page r)) = (\<not> need_demotion r)"

definition req_tracked :: "'a pebs_state_scheme \<Rightarrow> migration_req \<Rightarrow> bool" where
  "req_tracked s r \<longleftrightarrow> nvm_page r \<in> tracked s \<and> (need_demotion r \<longrightarrow> dram_page r \<in> tracked s)"

definition held_pages :: "migration_req list \<Rightarrow> addr set" where
  "held_pages R = free_page ` set R"

definition sys_ok :: "addr set \<Rightarrow> (free_list \<Rightarrow> addr list) \<Rightarrow> 'a sys \<Rightarrow> bool" where
  "sys_ok F Q = (\<lambda>(pl, s, R).
     pebs_inv F Q s \<and> vmap_ok s \<and> keys_ok s \<and>
     F = free_pages Q \<union> tracked s \<union> held_pages R \<and>
     distinct (concat (map req_pages R)) \<and> list_all (req_ok F Q s) R \<and> (pl \<longrightarrow> list_all (req_tracked s) R))"

definition sys_inv :: "addr set \<Rightarrow> 'a sys \<Rightarrow> bool" where
  "sys_inv F c \<longleftrightarrow> (\<exists>Q. sys_ok F Q c)"

lemma present_tracked:
  assumes ok: "sys_ok F Q (pl, s, R)" and x: "x \<in> F" "present (body s x)"
  shows "x \<in> tracked s"
proof (rule ccontr)
  assume n: "x \<notin> tracked s"
  then consider "x \<in> free_pages Q" | r where "r \<in> set R" "x = free_page r"
    using ok x(1) by (auto simp: sys_ok_def held_pages_def)
  then show False
  proof cases
    case 1
    then obtain l where "x \<in> set (Q l)" by (auto simp: free_pages_def)
    then show False using ok x(2) pebs_invD(5) [of F Q s x l] by (auto simp: sys_ok_def)
  next
    case 2
    then show False using ok x(2) by (auto simp: sys_ok_def list_all_iff req_ok_def)
  qed
qed

text \<open>What a step may change without touching the requests.\<close>

lemma reqs_kept:
  assumes "list_all (req_ok F Q s) R" and t: "\<And>x. x \<in> F \<Longrightarrow> in_dram (body s' x) = in_dram (body s x)"
    and h: "\<And>x. x \<in> held_pages R \<Longrightarrow> held F Q' s' x \<and> \<not> present (body s' x)"
  shows "list_all (req_ok F Q' s') R"
  using assms by (auto simp: list_all_iff req_ok_def held_pages_def held_def)

lemma frame_in_dram: "frame_of p = frame_of q \<Longrightarrow> in_dram p = in_dram q"
  by (simp add: frame_of_eq)

section \<open>Unmapping and draining\<close>

lemma range_iff:
  fixes v a n :: u64
  assumes "unat a + unat n < 2 ^ 64"
  shows "v - a < n \<longleftrightarrow> a \<le> v \<and> v < a + n"
proof -
  have "unat (a + n) = unat a + unat n" using assms by (simp add: unat_add_lem [THEN iffD1])
  then show ?thesis using minus_less_iff [of a n v] assms by (simp add: word_le_nat_alt word_less_nat_alt)
qed

lemma arms_munmap_inv:
  assumes inv: "pebs_inv F Q s" and vm: "vmap_ok s" and k: "keys_ok s" and r: "huge_range a n"
    and run: "arms_munmap 0 s a n = Some (0, s')"
  shows "pebs_inv F Q s' \<and> vmap_ok s' \<and> keys_ok s' \<and> tracked s' = tracked s \<and> pages_map s' = pages_map s \<and>
    (\<forall>x. frame_of (body s' x) = frame_of (body s x) \<and> va_of s' x = va_of s x \<and>
         (present (body s' x) \<longrightarrow> present (body s x))) \<and>
    app_view s' = (\<lambda>v. if v - a < n then (\<lambda>_. None) else app_view s v) \<and>
    kh_map (pages s') = (\<lambda>v. if v - a < n then None else kh_map (pages s) v)"
proof -
  let ?s = "s\<lparr>internal_call := True\<rparr>"
  have b: "unat a + unat n < 2 ^ 64" "unat a mod 2 ^ 21 = 0" "unat n mod 2 ^ 21 = 0"
    using r huge_unat by (auto simp: huge_range_def)
  have u: "unat (a + n) = unat a + unat n" using b(1) by (simp add: unat_add_lem [THEN iffD1])
  have stop: "unat (a + n) mod 2 ^ 21 = 0" unfolding u using b(2,3) mod_add_eq [of "unat a" "2 ^ 21" "unat n"] by simp
  have C: "pebs_inv F Q ?s" "keys_ok ?s" "tracked ?s = tracked s"
    using inv k by (simp_all add: pebs_inv_cong(1,3) [of ?s s] keys_ok_def)
  obtain s1 where s1: "munmap_pages (a + n) a ?s = Some s1" "pebs_inv F Q s1" "vmap s1 = vmap s"
    "kh_map (pages s1) = (\<lambda>v. if a \<le> v \<and> v < a + n then None else kh_map (pages ?s) v)"
    "\<forall>x. frame_of (body s1 x) = frame_of (body ?s x) \<and> va_of s1 x = va_of ?s x \<and> (present (body s1 x) \<longrightarrow> present (body ?s x))"
    "tracked s1 = tracked ?s" "pages_map s1 = pages_map ?s" "dev_mem s1 = dev_mem ?s"
    using munmap_pages_inv [OF stop C(1) _ C(2) mod_4096 [OF b(2)], of "vmap s"] u by auto
  let ?s2 = "s1\<lparr>vmap := (\<lambda>v. if v - a < n then None else vmap s1 v)\<rparr>"
  have s': "s' = ?s2\<lparr>internal_call := False\<rparr>" using run s1(1) by (simp add: arms_munmap_def Let_def)
  have m: "kh_map (pages s') = (\<lambda>v. if v - a < n then None else kh_map (pages s) v)"
    by (simp add: s' s1(4) range_iff [OF b(1)] fun_eq_iff)
  have inv': "pebs_inv F Q s'" "tracked s' = tracked s"
    using s1(2,6) C(3) pebs_inv_cong [of s' s1] by (simp_all add: s')
  have vm': "vmap_ok s'" unfolding vmap_ok_def m using vmap_okD [OF vm] s1(5) by (simp add: s' s1(3) cong: option.map_cong)
  have "dom (kh_map (pages s')) \<subseteq> dom (kh_map (pages s))" by (auto simp: m split: if_splits)
  then have k': "keys_ok s'" using k unfolding keys_ok_def by blast
  have "dev_mem s' = dev_mem s" using s1(8) by (auto simp: s' dev_mem_def fun_eq_iff split: memtypes.splits)
  then have "app_view s' = (\<lambda>v. if v - a < n then (\<lambda>_. None) else app_view s v)"
    by (auto simp: fun_eq_iff app_view_def app_load_def s' s1(3) dev_mem_def split: option.split memtypes.split)
  then show ?thesis using inv' vm' k' s1 m by (simp add: s')
qed

lemma drain_one_other:
  assumes "drain_one oom s = Some (b, s')"
  shows "vmap s' = vmap s" "dev_mem s' = dev_mem s"
  using assms
  by (auto simp: drain_one_def Let_def bind_Some_iff dev_mem_def upd_page_def fun_eq_iff
      split: prod.splits option.splits if_splits cong: memtypes.case_cong)

lemma drain_one_inv:
  assumes inv: "pebs_inv F Q s" and run: "drain_one None s = Some (b, s')"
  shows "\<exists>Q'. pebs_inv F Q' s' \<and> pages s' = pages s \<and> free_pages Q' \<union> tracked s' = free_pages Q \<union> tracked s \<and> tracked s' \<subseteq> tracked s \<and>
    (\<forall>x. frame_of (body s' x) = frame_of (body s x) \<and> present (body s' x) = present (body s x) \<and> va_of s' x = va_of s x)"
proof (cases "queued s")
  case Nil
  then show ?thesis using drain_one_empty [of s None] run inv by auto
next
  case (Cons e rest)
  obtain p f where e: "e = (p, f)" by (cases e)
  show ?thesis
  proof (cases f)
    case False
    then obtain s1 where "drain_one None s = Some (True, s1)" "pebs_inv F Q s1" "pages s1 = pages s" "body s1 = body s"
      "tracked s1 = tracked s" using drain_one_add [OF inv, of p rest] Cons e by auto
    then show ?thesis using run by (intro exI [of _ Q]) simp
  next
    case True
    let ?l = "free_list_of (body s p)"
    have t: "p \<in> tracked s" using Cons e by (simp add: tracked_def)
    obtain s1 where s1: "drain_one None s = Some (True, s1)" "pebs_inv F (Q(?l := p # Q ?l)) s1" "pages s1 = pages s"
      "body s1 = (body s)(p := reset_page_access_fields (body s p))" "tracked s1 = tracked s - {p}"
      using drain_one_free [OF inv, of p rest] Cons e True by auto
    have "free_pages (Q(?l := p # Q ?l)) = insert p (free_pages Q)" by (cases ?l) (auto simp: free_pages_def)
    then show ?thesis using s1 run t by (intro exI [of _ "Q(?l := p # Q ?l)"]) auto
  qed
qed

section \<open>Every step keeps the invariant\<close>

lemma sys_okD:
  assumes "sys_ok F Q (pl, s, R)"
  shows "pebs_inv F Q s" "vmap_ok s" "keys_ok s" "F = free_pages Q \<union> tracked s \<union> held_pages R"
    "distinct (concat (map req_pages R))" "list_all (req_ok F Q s) R" "pl \<Longrightarrow> list_all (req_tracked s) R"
  using assms unfolding sys_ok_def prod.case by blast+

lemma held_keptI:
  assumes "list_all (req_ok F Q s) R" "x \<in> held_pages R"
  shows "x \<in> F" "x \<notin> free_pages Q" "x \<notin> tracked s" "\<not> present (body s x)"
  using assms by (auto simp: list_all_iff req_ok_def held_pages_def held_def)

lemma step_fault:
  assumes K: "kernel_ok K" and ok: "sys_ok F Q (pl, s, R)" and a: "vmap s a = None"
    and run: "handle_missing_fault K None s a = Some s'"
  shows "sys_inv F (pl, s', R) \<and> app_view s' = (app_view s)(a := zero_view)"
proof -
  note D = sys_okD [OF ok]
  have new: "a \<notin> dom (kh_map (pages s))" using vmap_okD [OF D(2), of a] a by auto
  obtain l where l: "next_free Q = Some l" "pebs_inv F (Q(l := butlast (Q l))) s'" "vmap_ok s'"
    "kh_map (pages s') = (kh_map (pages s))(a \<mapsto> last (Q l))" "app_view s' = (app_view s)(a := zero_view)"
    "tracked s' = insert (last (Q l)) (tracked s)" "\<forall>x. frame_of (body s' x) = frame_of (body s x)"
    "\<forall>x. x \<noteq> last (Q l) \<longrightarrow> present (body s' x) = present (body s x)" "a \<noteq> 0" "a mod HUGEPAGE_SIZE = 0"
    using missing_fault_inv [OF D(1,2) K new run] by (elim exE conjE) (rule that, assumption+)
  let ?Q = "Q(l := butlast (Q l))" and ?p = "last (Q l)"
  have ne: "Q l \<noteq> []" using l(1) by (auto simp: next_free_def split: if_splits)
  then have "insert ?p (free_pages ?Q) = free_pages Q"
    using append_butlast_last_id [OF ne] by (cases l) (auto simp: free_pages_def dest: in_set_butlastD, (metis in_set_conv_decomp insert_iff set_append butlast_snoc Un_iff list.set(2) append_butlast_last_id)+)
  then have F: "F = free_pages ?Q \<union> tracked s' \<union> held_pages R" using D(4) l(6) by auto
  have sub: "free_pages ?Q \<subseteq> free_pages Q" by (cases l) (auto simp: free_pages_def dest: in_set_butlastD)
  have pf: "?p \<in> free_pages Q" using ne free_pages_mem last_in_set by metis
  have R: "list_all (req_ok F ?Q s') R"
  proof (rule reqs_kept [OF D(6)])
    show "in_dram (body s' x) = in_dram (body s x)" for x using l(7) frame_in_dram by blast
    fix x assume x: "x \<in> held_pages R"
    note h = held_keptI [OF D(6) x]
    have "x \<noteq> ?p" using h(2) pf by blast
    then show "held F ?Q s' x \<and> \<not> present (body s' x)" using h sub l(6,8) by (auto simp: held_def)
  qed
  have "keys_ok s'" using D(3) l(4,9,10) unfolding keys_ok_def by simp
  moreover have "pl \<Longrightarrow> list_all (req_tracked s') R" using D(7) l(6) by (auto simp: list_all_iff req_tracked_def)
  ultimately have "sys_ok F ?Q (pl, s', R)" using l(2,3) F R D(5) by (simp add: sys_ok_def)
  then show ?thesis using l(5) by (auto simp: sys_inv_def)
qed

lemma step_unmap:
  assumes ok: "sys_ok F Q (pl, s, R)" and r: "huge_range a n" and run: "arms_munmap 0 s a n = Some (0, s')"
  shows "sys_inv F (pl, s', R) \<and> app_view s' = (\<lambda>v. if v - a < n then (\<lambda>_. None) else app_view s v)"
proof -
  note D = sys_okD [OF ok]
  note U = arms_munmap_inv [OF D(1-3) r run]
  have "list_all (req_ok F Q s') R"
  proof (rule reqs_kept [OF D(6)])
    show "in_dram (body s' x) = in_dram (body s x)" for x using U frame_in_dram by blast
    show "held F Q s' x \<and> \<not> present (body s' x)" if "x \<in> held_pages R" for x
      using held_keptI [OF D(6) that] U by (auto simp: held_def)
  qed
  moreover have "pl \<Longrightarrow> list_all (req_tracked s') R" using D(7) U by (simp add: req_tracked_def list_all_iff)
  ultimately have "sys_ok F Q (pl, s', R)" using U D(4,5) by (simp only: sys_ok_def prod.case) blast
  then show ?thesis using U by (auto simp: sys_inv_def)
qed

lemma step_drain:
  assumes ok: "sys_ok F Q (False, s, R)" and run: "drain_one None s = Some (b, s')"
  shows "sys_inv F (False, s', R) \<and> app_view s' = app_view s"
proof -
  note D = sys_okD [OF ok]
  obtain Q' where Q': "pebs_inv F Q' s'" "pages s' = pages s" "free_pages Q' \<union> tracked s' = free_pages Q \<union> tracked s"
    "\<And>x. frame_of (body s' x) = frame_of (body s x)" "\<And>x. present (body s' x) = present (body s x)"
    using drain_one_inv [OF D(1) run] by blast
  note O = drain_one_other [OF run]
  have "list_all (req_ok F Q' s') R"
  proof (rule reqs_kept [OF D(6)])
    show "in_dram (body s' x) = in_dram (body s x)" for x using Q'(4) frame_in_dram by blast
    show "held F Q' s' x \<and> \<not> present (body s' x)" if "x \<in> held_pages R" for x
      using held_keptI [OF D(6) that] Q'(3,5) by (auto simp: held_def)
  qed
  moreover have "vmap_ok s'" "keys_ok s'" using D(2,3) by (simp_all add: vmap_ok_def keys_ok_def Q' O)
  ultimately have "sys_ok F Q' (False, s', R)" using Q' D(4,5) by (simp add: sys_ok_def)
  moreover have "app_view s' = app_view s" by (simp add: app_view_def app_load_def O fun_eq_iff cong: option.case_cong)
  ultimately show ?thesis by (auto simp: sys_inv_def)
qed

section \<open>Making requests\<close>

lemma inv_links:
  assumes "pebs_inv F Q s" "dll_rep lk (Q(l := butlast (Q l)))"
  shows "pebs_inv F (Q(l := butlast (Q l))) (s\<lparr>links := lk\<rparr>)"
  using inv_deq [OF assms] by (auto dest: in_set_butlastD)

lemma take_free:
  assumes ok: "sys_ok F Q (pl, s, R)" and run: "dequeue_fifo (links s) l = Some (np, lk)" and nn: "np \<noteq> NULL"
  defines "Q' \<equiv> Q(l := butlast (Q l))"
  shows "pebs_inv F Q' (s\<lparr>links := lk\<rparr>)" "held F Q' (s\<lparr>links := lk\<rparr>) np" "\<not> present (body s np)"
    "in_dram (body s np) = (l = DRAM_FREE)" "insert np (free_pages Q') = free_pages Q" "free_pages Q' \<subseteq> free_pages Q" "np \<in> free_pages Q"
proof -
  note D = sys_okD [OF ok]
  have ne: "Q l \<noteq> []" using run nn dequeue_fifo_empty [OF pebs_invD(1) [OF D(1)], of l] by auto
  then have np: "np = last (Q l)" "dll_rep lk Q'"
    using dequeue_fifo_rep [OF pebs_invD(1) [OF D(1)] ne] run by (auto simp: Q'_def)
  have mem: "np \<in> set (Q l)" using ne np(1) by simp
  note I = pebs_invD [OF D(1)]
  show inv: "pebs_inv F Q' (s\<lparr>links := lk\<rparr>)" unfolding Q'_def by (rule inv_links [OF D(1) np(2) [unfolded Q'_def]])
  show "\<not> present (body s np)" by (rule I(5) [OF mem])
  show "in_dram (body s np) = (l = DRAM_FREE)" using I(4) [OF mem] by (auto simp: free_list_of_def split: if_splits)
  show fp: "np \<in> free_pages Q" using free_pages_mem [of np Q l] mem by blast
  have "np \<notin> set (butlast (Q l))"
    using dll_repD(1) [OF I(1), of l] ne unfolding np(1) by (rule distinct_last_not_in_butlast)
  moreover have "np \<notin> set (Q k)" if "k \<noteq> l" for k using dll_rep_disjoint [OF I(1) mem] that by blast
  ultimately have nf: "np \<notin> free_pages Q'" unfolding Q'_def free_pages_upd by (cases l) auto
  have nt: "np \<notin> tracked s" using I(13) fp by blast
  show "held F Q' (s\<lparr>links := lk\<rparr>) np" using nf nt I(3) [OF mem] by (simp add: held_def)
  have "set (Q l) = insert np (set (butlast (Q l)))" by (subst append_butlast_last_id [OF ne, symmetric]) (simp add: np(1))
  then show "insert np (free_pages Q') = free_pages Q" unfolding Q'_def by (cases l) (auto simp: free_pages_def)
  then show "free_pages Q' \<subseteq> free_pages Q" by blast
qed

lemma step_plan:
  assumes ok: "sys_ok F Q (True, s, R)" and run: "dequeue_fifo (links s) l = Some (np, lk)" and nn: "np \<noteq> NULL"
    and p: "p \<in> ran (kh_map (pages_map s))" "\<not> in_dram (body s p)" "\<And>r. r \<in> set R \<Longrightarrow> p \<noteq> nvm_page r"
      "\<And>r. r \<in> set R \<Longrightarrow> need_demotion r \<Longrightarrow> p \<noteq> dram_page r"
    and cp: "nd \<Longrightarrow> cp \<in> ran (kh_map (pages_map s))" "nd \<Longrightarrow> in_dram (body s cp)" "\<And>r. nd \<Longrightarrow> r \<in> set R \<Longrightarrow> cp \<noteq> nvm_page r"
      "\<And>r. nd \<Longrightarrow> r \<in> set R \<Longrightarrow> need_demotion r \<Longrightarrow> cp \<noteq> dram_page r"
    and l: "(l = DRAM_FREE) = (\<not> nd)"
  defines "q \<equiv> \<lparr>dram_page = cp, nvm_page = p, free_page = np, need_demotion = nd\<rparr>"
  shows "sys_inv F (True, s\<lparr>links := lk\<rparr>, q # R) \<and> app_view (s\<lparr>links := lk\<rparr>) = app_view s"
proof -
  let ?Q = "Q(l := butlast (Q l))" and ?s = "s\<lparr>links := lk\<rparr>"
  note D = sys_okD [OF ok]
  note T = take_free [OF ok run nn]
  have rt: "ran (kh_map (pages_map s)) \<subseteq> tracked s" by (auto simp: tracked_def)
  have tF: "tracked s \<subseteq> F" "tracked s \<inter> free_pages Q = {}" by (rule pebs_invD [OF D(1)])+
  have old: "list_all (req_ok F ?Q ?s) R"
  proof (rule reqs_kept [OF D(6)])
    show "held F ?Q ?s x \<and> \<not> present (body ?s x)" if "x \<in> held_pages R" for x
      using held_keptI [OF D(6) that] T(6) by (auto simp: held_def)
  qed simp
  have new: "req_ok F ?Q ?s q" using T(2-4) p(1,2) cp(1,2) rt tF l by (auto simp: req_ok_def q_def)
  have hp: "x \<notin> held_pages R" if "x \<in> tracked s \<or> x \<in> free_pages Q" for x using held_keptI(2,3) [OF D(6), of x] that by blast
  have tr: "nvm_page r \<in> tracked s" "need_demotion r \<Longrightarrow> dram_page r \<in> tracked s" if "r \<in> set R" for r
    using D(7) that by (auto simp: list_all_iff req_tracked_def)
  have "np \<notin> tracked s" using T(2) by (simp add: held_def)
  then have npR: "np \<notin> set (req_pages r)" if "r \<in> set R" for r
    using tr [OF that] hp [of np] T(7) that by (auto simp: req_pages_def held_pages_def split: if_splits)
  have pR: "x \<notin> set (req_pages r)" if "r \<in> set R" "x \<in> tracked s" "x \<noteq> nvm_page r" "need_demotion r \<Longrightarrow> x \<noteq> dram_page r" for x r
    using that hp [of x] by (auto simp: req_pages_def held_pages_def split: if_splits)
  have dist1: "distinct (req_pages q)"
    using p(1,2) cp(1,2) rt \<open>np \<notin> tracked s\<close> by (auto simp: req_pages_def q_def)
  have sq: "set (req_pages q) = {p, np} \<union> (if nd then {cp} else {})" by (auto simp: req_pages_def q_def)
  have "set (req_pages q) \<inter> set (req_pages r) = {}" if r: "r \<in> set R" for r
  proof -
    have "p \<notin> set (req_pages r)" using pR [OF r, of p] p r rt by blast
    moreover have "cp \<notin> set (req_pages r)" if nd using pR [OF r, of cp] cp r rt that by blast
    ultimately show ?thesis using npR [OF r] by (simp add: sq)
  qed
  then have "distinct (concat (map req_pages (q # R)))" using D(5) dist1 by auto
  moreover have "list_all (req_tracked ?s) (q # R)" using D(7) p(1) cp(1) rt by (auto simp: list_all_iff req_tracked_def q_def)
  moreover have "F = free_pages ?Q \<union> tracked ?s \<union> held_pages (q # R)" using D(4) T(5) by (auto simp: held_pages_def q_def)
  moreover have "vmap_ok ?s" "keys_ok ?s" using D(2,3) by (simp_all add: keys_ok_def)
  ultimately have "sys_ok F ?Q (True, ?s, q # R)" using T(1) old new by (simp only: sys_ok_def prod.case list.pred_inject) blast
  then show ?thesis by (auto simp: sys_inv_def)
qed

section \<open>Carrying requests out\<close>

lemma mset_concat_remove1:
  "r \<in> set R \<Longrightarrow> mset (concat (map f R)) = mset (f r @ concat (map f (remove1 r R)))"
  by (induction R) auto

lemma req_parts:
  assumes ok: "sys_ok F Q (pl, s, R)" and r: "r \<in> set R"
  shows "req_ok F Q s r" "distinct (concat (map req_pages (remove1 r R)))"
    "\<And>q. q \<in> set (remove1 r R) \<Longrightarrow> set (req_pages r) \<inter> set (req_pages q) = {}" "distinct (req_pages r)"
    "held_pages R = insert (free_page r) (held_pages (remove1 r R))" "list_all (req_ok F Q s) (remove1 r R)"
    "pl \<Longrightarrow> list_all (req_tracked s) (remove1 r R)" "pl \<Longrightarrow> req_tracked s r"
proof -
  note D = sys_okD [OF ok]
  have set: "set R = insert r (set (remove1 r R))"
    using r by (induction R) auto
  have d: "distinct (req_pages r @ concat (map req_pages (remove1 r R)))"
    using D(5) mset_concat_remove1 [OF r, of req_pages] by (metis mset_eq_imp_distinct_iff)
  then show "distinct (concat (map req_pages (remove1 r R)))" "distinct (req_pages r)"
    "\<And>q. q \<in> set (remove1 r R) \<Longrightarrow> set (req_pages r) \<inter> set (req_pages q) = {}" by auto
  show "req_ok F Q s r" using D(6) r by (simp add: list_all_iff)
  show "held_pages R = insert (free_page r) (held_pages (remove1 r R))" using set by (auto simp: held_pages_def)
  show "list_all (req_ok F Q s) (remove1 r R)" using D(6) set by (auto simp: list_all_iff)
  show "pl \<Longrightarrow> list_all (req_tracked s) (remove1 r R)" "pl \<Longrightarrow> req_tracked s r" using D(7) set by (auto simp: list_all_iff)
qed

lemma reqs_disjoint_kept:
  assumes "list_all (req_ok F Q s) R" and b: "\<And>q x. q \<in> set R \<Longrightarrow> x \<in> set (req_pages q) \<Longrightarrow> body s' x = body s x"
    and t: "tracked s' = tracked s" and f: "\<And>x. x \<in> held_pages R \<Longrightarrow> x \<notin> free_pages Q'"
  shows "list_all (req_ok F Q' s') R"
proof (unfold list_all_iff, rule ballI)
  fix q assume q: "q \<in> set R"
  then have "body s' (nvm_page q) = body s (nvm_page q)" "body s' (free_page q) = body s (free_page q)"
    "need_demotion q \<Longrightarrow> body s' (dram_page q) = body s (dram_page q)"
    by (auto intro!: b simp: req_pages_def)
  moreover have "req_ok F Q s q" using assms(1) q by (simp add: list_all_iff)
  moreover have "free_page q \<notin> free_pages Q'" using f q by (simp add: held_pages_def)
  ultimately show "req_ok F Q' s' q" by (auto simp: req_ok_def held_def t)
qed

lemma step_demote:
  assumes K: "kernel_ok K" and ok: "sys_ok F Q (pl, s, R)" and r: "r \<in> set R" "need_demotion r"
    and run: "demote_to_free_nvm_page K s (dram_page r) (free_page r) = Some (True, s')"
  shows "sys_inv F (pl, s', r\<lparr>need_demotion := False\<rparr> # remove1 r R) \<and> app_view s' = app_view s"
proof -
  note D = sys_okD [OF ok] and P = req_parts [OF ok r(1)]
  let ?r = "r\<lparr>need_demotion := False\<rparr>"
  have ro: "dram_page r \<in> F" "in_dram (body s (dram_page r))" "held F Q s (free_page r)" "\<not> in_dram (body s (free_page r))"
    "\<not> present (body s (free_page r))" "nvm_page r \<in> F" "\<not> in_dram (body s (nvm_page r))"
    using P(1) r(2) by (auto simp: req_ok_def)
  have pt: "present (body s (dram_page r)) \<Longrightarrow> dram_page r \<in> tracked s" using present_tracked [OF ok ro(1)] .
  note X = demote_inv [OF D(1,2) pt ro(2,3,4,5) K run]
  have keep: "body s' x = body s x" if "x \<notin> {dram_page r, free_page r}" for x using X that by blast
  have d: "nvm_page r \<noteq> free_page r" "nvm_page r \<noteq> dram_page r" "dram_page r \<noteq> free_page r"
    using P(4) r(2) by (auto simp: req_pages_def)
  have rest: "list_all (req_ok F Q s') (remove1 r R)"
  proof (rule reqs_disjoint_kept [OF P(6)])
    show "body s' x = body s x" if "q \<in> set (remove1 r R)" "x \<in> set (req_pages q)" for q x
      using P(3) [OF that(1)] that(2) r(2) by (intro keep) (auto simp: req_pages_def [of r])
    show "x \<notin> free_pages Q" if "x \<in> held_pages (remove1 r R)" for x using held_keptI(2) [OF P(6) that] .
  qed (use X in blast)
  have "req_ok F Q s' ?r" using X ro keep [of "nvm_page r"] d by (auto simp: req_ok_def)
  moreover have sub: "set (req_pages ?r) \<subseteq> set (req_pages r)" "distinct (req_pages ?r)" using d by (auto simp: req_pages_def)
  have "distinct (concat (map req_pages (?r # remove1 r R)))" using P(2,3) sub by fastforce
  moreover have "F = free_pages Q \<union> tracked s' \<union> held_pages (?r # remove1 r R)"
    using D(4) P(5) X by (simp add: held_pages_def)
  moreover have "keys_ok s'" using D(3) X by (simp add: keys_ok_def)
  moreover have "pl \<Longrightarrow> list_all (req_tracked s') (?r # remove1 r R)"
    using P(7,8) X by (simp add: list_all_iff req_tracked_def)
  ultimately have "sys_ok F Q (pl, s', ?r # remove1 r R)"
    using X rest by (simp only: sys_ok_def prod.case list.pred_inject) blast
  then show ?thesis using X by (auto simp: sys_inv_def)
qed

lemma step_return:
  assumes ok: "sys_ok F Q (pl, s, R)" and r: "r \<in> set R"
    and s': "pebs_inv F (Q(l := free_page r # Q l)) s'" "vmap_ok s'" "pages s' = pages s" "tracked s' = tracked s"
    and keep: "\<And>x. x \<notin> set (req_pages r) \<Longrightarrow> body s' x = body s x"
  shows "sys_inv F (pl, s', remove1 r R)"
proof -
  note D = sys_okD [OF ok] and P = req_parts [OF ok r]
  let ?Q = "Q(l := free_page r # Q l)"
  have fp: "free_pages ?Q = insert (free_page r) (free_pages Q)" by (cases l) (auto simp: free_pages_def)
  have "list_all (req_ok F ?Q s') (remove1 r R)"
  proof (rule reqs_disjoint_kept [OF P(6)])
    show "body s' x = body s x" if "q \<in> set (remove1 r R)" "x \<in> set (req_pages q)" for q x
      using P(3) [OF that(1)] that(2) by (intro keep) blast
    show "x \<notin> free_pages ?Q" if "x \<in> held_pages (remove1 r R)" for x
    proof -
      obtain q where q: "q \<in> set (remove1 r R)" "x = free_page q" using \<open>x \<in> held_pages _\<close> by (auto simp: held_pages_def)
      have "x \<noteq> free_page r" using P(3) [OF q(1)] q(2) by (auto simp: req_pages_def)
      then show ?thesis using held_keptI(2) [OF P(6) that] fp by simp
    qed
  qed (rule s')
  moreover have "F = free_pages ?Q \<union> tracked s' \<union> held_pages (remove1 r R)" using D(4) P(5) s'(4) fp by auto
  moreover have "keys_ok s'" using D(3) s'(3) by (simp add: keys_ok_def)
  moreover have "pl \<Longrightarrow> list_all (req_tracked s') (remove1 r R)" using P(7) s'(4) by (simp add: list_all_iff req_tracked_def)
  ultimately have "sys_ok F ?Q (pl, s', remove1 r R)" using s' P(2) by (simp only: sys_ok_def prod.case) blast
  then show ?thesis by (auto simp: sys_inv_def)
qed

lemma step_give_up:
  assumes K: "kernel_ok K" and ok: "sys_ok F Q (pl, s, R)" and r: "r \<in> set R" "need_demotion r"
    and run: "demote_to_free_nvm_page K s (dram_page r) (free_page r) = Some (False, s')"
      "enqueue_fifo (links s') NVM_FREE (free_page r) = Some lk"
  shows "sys_inv F (pl, s'\<lparr>links := lk\<rparr>, remove1 r R) \<and> app_view (s'\<lparr>links := lk\<rparr>) = app_view s"
proof -
  note D = sys_okD [OF ok] and P = req_parts [OF ok r(1)]
  have ro: "held F Q s (free_page r)" "\<not> in_dram (body s (free_page r))" "\<not> present (body s (free_page r))"
    using P(1) r(2) by (auto simp: req_ok_def)
  have s': "s' = s" using run(1) by (auto simp: demote_to_free_nvm_page_def bind_Some_iff split: if_splits)
  have "free_list_of (body s (free_page r)) = NVM_FREE" using ro(2) by (simp add: free_list_of_def)
  then have "pebs_inv F (Q(NVM_FREE := free_page r # Q NVM_FREE)) (s\<lparr>links := lk\<rparr>)"
    using inv_enq [OF D(1) ro(1,3)] run(2) by (auto simp: s')
  then show ?thesis using D(2) s' by (auto intro: step_return [OF ok r(1)])
qed

lemma step_promote:
  assumes K: "kernel_ok K" and ok: "sys_ok F Q (pl, s, R)" and r: "r \<in> set R" "\<not> need_demotion r"
    and run: "promote_to_free_dram_page K s (nvm_page r) (free_page r) = Some s'"
  shows "sys_inv F (pl, s', remove1 r R) \<and> app_view s' = app_view s"
proof -
  note D = sys_okD [OF ok] and P = req_parts [OF ok r(1)]
  have ro: "nvm_page r \<in> F" "\<not> in_dram (body s (nvm_page r))" "held F Q s (free_page r)" "in_dram (body s (free_page r))"
    "\<not> present (body s (free_page r))" using P(1) r(2) by (auto simp: req_ok_def)
  have pt: "present (body s (nvm_page r)) \<Longrightarrow> nvm_page r \<in> tracked s" using present_tracked [OF ok ro(1)] .
  obtain l where X: "pebs_inv F (Q(l := free_page r # Q l)) s'" "vmap_ok s'" "app_view s' = app_view s" "pages s' = pages s"
    "tracked s' = tracked s" "\<forall>x. x \<noteq> nvm_page r \<longrightarrow> x \<noteq> free_page r \<longrightarrow> body s' x = body s x"
    using promote_inv [OF D(1,2) pt ro(2-5) K run] by (auto split: if_splits)
  have "sys_inv F (pl, s', remove1 r R)"
    by (rule step_return [OF ok r(1) X(1,2,4,5)]) (use X(6) in \<open>auto simp: req_pages_def\<close>)
  then show ?thesis using X(3) by simp
qed

lemma step_abandon:
  assumes ok: "sys_ok F Q (pl, s, R)" and r: "r \<in> set R" "\<not> need_demotion r"
    and run: "enqueue_fifo (links s) DRAM_FREE (free_page r) = Some lk"
  shows "sys_inv F (pl, s\<lparr>links := lk\<rparr>, remove1 r R)"
proof -
  note D = sys_okD [OF ok] and P = req_parts [OF ok r(1)]
  have ro: "held F Q s (free_page r)" "in_dram (body s (free_page r))" "\<not> present (body s (free_page r))"
    using P(1) r(2) by (auto simp: req_ok_def)
  have "free_list_of (body s (free_page r)) = DRAM_FREE" using ro(2) by (simp add: free_list_of_def)
  then have "pebs_inv F (Q(DRAM_FREE := free_page r # Q DRAM_FREE)) (s\<lparr>links := lk\<rparr>)"
    using inv_enq [OF D(1) ro(1,3)] run by auto
  then show ?thesis using D(2) by (auto intro: step_return [OF ok r(1)])
qed

lemma page_core_eq:
  "page_core p = page_core q \<longleftrightarrow> frame_of p = frame_of q \<and> pt p = pt q \<and> present p = present q \<and> va p = va q"
  by (simp add: page_core_def)

lemma same_core_inv:
  fixes s s' :: "'a pebs_state_scheme"
  assumes c: "same_core s s'"
  shows "sys_ok F Q (pl, s', R) = sys_ok F Q (pl, s, R)" "app_view s' = app_view s"
proof -
  have f: "links s' = links s" "pages s' = pages s" "pages_map s' = pages_map s" "mod_page_dq s' = mod_page_dq s"
    "dramsize s' = dramsize s" "nvmsize s' = nvmsize s" "vmap s' = vmap s" "dev_mem s' = dev_mem s"
    using c unfolding same_core_def by blast+
  have b: "frame_of (body s' x) = frame_of (body s x)" "pt (body s' x) = pt (body s x)"
    "present (body s' x) = present (body s x)" "va_of s' x = va_of s x" for x
    using c page_core_eq [of "body s' x" "body s x"] unfolding same_core_def by blast+
  have d: "in_dram (body s' x) = in_dram (body s x)" for x using frame_in_dram [OF b(1)] .
  have "devdax_offset (body s' x) = devdax_offset (body s x)" for x using b(1) [of x] by (simp add: frame_of_eq)
  then have v: "va_of s' = va_of s" and ff: "frame_fits s' (body s' x) = frame_fits s (body s x)" for x
    by (simp_all add: fun_eq_iff b d frame_fits_def f)
  have q: "queued s' = queued s" and t: "tracked s' = tracked s" by (simp_all add: queued_def tracked_def f)
  have fr: "frames_ok F s' = frames_ok F s" by (simp add: frames_ok_def ff b)
  have P: "pebs_inv F Q s' = pebs_inv F Q s"
    unfolding pebs_inv_def q t fr v f(1-4) by (simp add: free_list_of_def b d)
  have V: "vmap_ok s' = vmap_ok s" and k: "keys_ok s' = keys_ok s" by (simp_all add: vmap_ok_def keys_ok_def f b)
  have h: "held F Q s' x = held F Q s x" for x by (simp add: held_def t)
  have "req_ok F Q s' = req_ok F Q s" "req_tracked s' = req_tracked s"
    by (simp_all add: fun_eq_iff req_ok_def req_tracked_def h b d t)
  then show "sys_ok F Q (pl, s', R) = sys_ok F Q (pl, s, R)" by (simp add: sys_ok_def P V k t)
  show "app_view s' = app_view s" by (auto simp: fun_eq_iff app_view_def app_load_def f split: option.split)
qed

section \<open>The system\<close>

text \<open>What a step does to the memory that the application sees.\<close>

inductive view_step :: "(u64 \<Rightarrow> u64 \<Rightarrow> u8 option) \<Rightarrow> (u64 \<Rightarrow> u64 \<Rightarrow> u8 option) \<Rightarrow> bool" where
  same: "view_step m m"
| fresh: "m a = (\<lambda>_. None) \<Longrightarrow> view_step m (m(a := zero_view))"
| gone: "view_step m (\<lambda>v. if v - a < n then (\<lambda>_. None) else m v)"

lemma sys_step_inv:
  assumes K: "kernel_ok K" and st: "sys_step K c c'" and inv: "sys_inv F c"
  shows "sys_inv F c' \<and> view_step (app_view (fst (snd c))) (app_view (fst (snd c')))"
  using st inv
proof (induction rule: sys_step.induct)
  case (fault s a s' pl R)
  then obtain Q where "sys_ok F Q (pl, s, R)" by (auto simp: sys_inv_def)
  note F = step_fault [OF K this fault(1,2)]
  have "app_view s a = (\<lambda>_. None)" using fault(1) by (simp add: app_view_None fun_eq_iff)
  then show ?case unfolding fst_conv snd_conv F [THEN conjunct2]
    by (intro conjI F [THEN conjunct1] view_step.fresh)
next
  case (unmap a n s s' pl R)
  then obtain Q where "sys_ok F Q (pl, s, R)" by (auto simp: sys_inv_def)
  from step_unmap [OF this unmap(1,2)] show ?case by (auto intro: view_step.gone)
next
  case (drain s b s' R)
  then obtain Q where "sys_ok F Q (False, s, R)" by (auto simp: sys_inv_def)
  from step_drain [OF this drain(1)] show ?case by (auto intro: view_step.same)
next
  case (start s)
  then show ?case by (auto simp: sys_inv_def sys_ok_def intro: view_step.same)
next
  case (stop s R)
  then show ?case by (auto simp: sys_inv_def sys_ok_def intro: view_step.same)
next
  case (plan_up p s R np lk)
  then obtain Q where "sys_ok F Q (True, s, R)" by (auto simp: sys_inv_def)
  from step_plan [OF this plan_up(5,6,1-4), of False] show ?case by (auto intro: view_step.same)
next
  case (plan_swap p s R cp np lk)
  then obtain Q where "sys_ok F Q (True, s, R)" by (auto simp: sys_inv_def)
  from step_plan [OF this plan_swap(9,10,1-4), of True cp] plan_swap(5-8) show ?case by (auto intro: view_step.same)
next
  case (demote r R s s' pl)
  then obtain Q where "sys_ok F Q (pl, s, R)" by (auto simp: sys_inv_def)
  from step_demote [OF K this demote(1-3)] show ?case by (auto intro: view_step.same)
next
  case (give_up r R s s' lk pl)
  then obtain Q where "sys_ok F Q (pl, s, R)" by (auto simp: sys_inv_def)
  from step_give_up [OF K this give_up(1-4)] show ?case by (auto intro: view_step.same)
next
  case (promote r R s s' pl)
  then obtain Q where "sys_ok F Q (pl, s, R)" by (auto simp: sys_inv_def)
  from step_promote [OF K this promote(1-3)] show ?case by (auto intro: view_step.same)
next
  case (abandon r R s lk pl)
  then obtain Q where "sys_ok F Q (pl, s, R)" by (auto simp: sys_inv_def)
  from step_abandon [OF this abandon(1-3)] show ?case by (auto intro: view_step.same)
next
  case (aside s s' pl R)
  then show ?case using same_core_inv [OF aside(1)] by (auto simp: sys_inv_def intro: view_step.same)
qed

section \<open>The addresses of the pages\<close>

text \<open>
  The fault handler asserts that the address is not 0, and no other step changes the address of a
  page, so no page of the policy lies at address 0.
\<close>

definition vas_ok :: "'a pebs_state_scheme \<Rightarrow> bool" where
  "vas_ok s \<longleftrightarrow> (\<forall>p\<in>tracked s. va_of s p \<noteq> 0)"

lemma demote_va: "kernel_ok K \<Longrightarrow> demote_to_free_nvm_page K s p np = Some (done, s') \<Longrightarrow> va_of s' x = va_of s x"
  using migrate_fields(1) [of False K s p "devdax_offset (body s np)"]
  by (fastforce simp: demote_to_free_nvm_page_def bind_Some_iff Let_def split: if_splits)

lemma promote_va: "kernel_ok K \<Longrightarrow> promote_to_free_dram_page K s p np = Some s' \<Longrightarrow> va_of s' x = va_of s x"
  using migrate_fields(1) [of True K s p "devdax_offset (body s np)"]
  by (fastforce simp: promote_to_free_dram_page_def bind_Some_iff Let_def split: if_splits)

lemma fault_va:
  assumes K: "kernel_ok K" and inv: "pebs_inv F Q s" and vm: "vmap_ok s" and run: "handle_missing_fault K None s a = Some s'"
  shows "a \<noteq> 0 \<and> (va_of s' x = a \<or> va_of s' x = va_of s x)"
proof -
  let ?s = "s\<lparr>internal_call := True\<rparr>"
  have C: "pebs_inv F Q ?s" "vmap_ok ?s" using inv vm by (simp_all add: pebs_inv_cong(1) [of ?s s] vmap_ok_def)
  obtain p s1 s2 where 1: "place_page K True ?s a = Some (p, s1)" "pebs_add_page None s1 p = Some s2" "body s' = body s2"
    using run by (auto simp: handle_missing_fault_def Let_def bind_Some_iff)
  have "body s2 = body s1" using 1(2) by (auto simp: pebs_add_page_def bind_Some_iff Let_def)
  moreover have "va_of s1 p = a" "\<forall>q. q \<noteq> p \<longrightarrow> body s1 q = body s q" "a \<noteq> 0"
    using place_page_inv [OF C K 1(1)] by auto
  ultimately show ?thesis using 1(3) by (cases "x = p") simp_all
qed

lemma vas_ok_mono: "vas_ok s \<Longrightarrow> tracked s' \<subseteq> tracked s \<Longrightarrow> (\<And>x. va_of s' x = va_of s x) \<Longrightarrow> vas_ok s'"
  by (auto simp: vas_ok_def)

lemma sys_step_vas:
  assumes K: "kernel_ok K" and st: "sys_step K (pl, s, R) (pl', s', R')" and ok: "sys_ok F Q (pl, s, R)" and v: "vas_ok s"
  shows "vas_ok s'"
proof -
  note D = sys_okD [OF ok]
  have req: "pebs_inv F Q s" "vmap_ok s" "req_ok F Q s r" if "r \<in> set R" for r
    using D that by (auto simp: list_all_iff)
  from st show ?thesis
  proof cases
    case (fault a)
    note fa = fault_va [OF K D(1,2) fault(4)]
    have new: "a \<notin> dom (kh_map (pages s))" using vmap_okD [OF D(2), of a] fault(3) by auto
    obtain l where l: "va_of s' (last (Q l)) = a" "tracked s' = insert (last (Q l)) (tracked s)"
      using missing_fault_inv [OF D(1,2) K new fault(4)] by blast
    have "va_of s' x \<noteq> 0" if "x \<in> tracked s'" for x
      using that l v fa [of x] by (auto simp: vas_ok_def)
    then show ?thesis by (simp add: vas_ok_def)
  next
    case (unmap a n)
    then show ?thesis using arms_munmap_inv [OF D(1-3) unmap(3,4)] by (intro vas_ok_mono [OF v]) auto
  next
    case (drain b)
    then show ?thesis using drain_one_inv [OF D(1) drain(4)] by (intro vas_ok_mono [OF v]) auto
  next
    case (demote r)
    have "dram_page r \<in> F" "in_dram (body s (dram_page r))" "held F Q s (free_page r)" "\<not> in_dram (body s (free_page r))"
      "\<not> present (body s (free_page r))" using req(3) [OF demote(3)] demote(4) by (auto simp: req_ok_def)
    moreover from this(1) have "present (body s (dram_page r)) \<Longrightarrow> dram_page r \<in> tracked s" by (rule present_tracked [OF ok])
    ultimately have "tracked s' = tracked s" using demote_inv [OF D(1,2) _ _ _ _ _ K demote(5)] by blast
    then show ?thesis using demote_va [OF K demote(5)] by (intro vas_ok_mono [OF v]) auto
  next
    case (give_up r t lk)
    have "t = s" using give_up by (auto simp: demote_to_free_nvm_page_def bind_Some_iff split: if_splits)
    then show ?thesis using v by (simp add: give_up(2) vas_ok_def)
  next
    case (promote r)
    have "nvm_page r \<in> F" "\<not> in_dram (body s (nvm_page r))" "held F Q s (free_page r)" "in_dram (body s (free_page r))"
      "\<not> present (body s (free_page r))" using req(3) [OF promote(3)] promote(4) by (auto simp: req_ok_def)
    moreover from this(1) have "present (body s (nvm_page r)) \<Longrightarrow> nvm_page r \<in> tracked s" by (rule present_tracked [OF ok])
    ultimately have "tracked s' = tracked s" using promote_inv [OF D(1,2) _ _ _ _ _ K promote(5)] by blast
    then show ?thesis using promote_va [OF K promote(5)] by (intro vas_ok_mono [OF v]) auto
  next
    case aside
    then have "va_of s' x = va_of s x" "tracked s' = tracked s" for x
      using page_core_eq [of "body s' x" "body s x"] by (simp_all add: same_core_def tracked_def queued_def)
    then show ?thesis by (intro vas_ok_mono [OF v]) auto
  qed (use v in \<open>simp_all add: vas_ok_def\<close>)
qed

section \<open>The initial state\<close>

definition new_frame :: "free_list \<Rightarrow> nat \<Rightarrow> arms_page" where
  "new_frame l j = zero_page\<lparr>devdax_offset := of_nat j * PAGE_SIZE, present := False, in_dram := (l = DRAM_FREE), pt := HUGEP\<rparr>"

lemma init_frames_spec:
  assumes "dll_rep (links s) Q" "inj_on alloc {i..<i + n}" "\<And>j. j \<in> {i..<i + n} \<Longrightarrow> alloc j \<noteq> NULL"
    "\<And>j k. j \<in> {i..<i + n} \<Longrightarrow> alloc j \<notin> set (Q k)"
  shows "\<exists>s'. init_frames alloc l i n s = Some s' \<and> dll_rep (links s') (Q(l := rev (map alloc [i..<i + n]) @ Q l)) \<and>
    (\<forall>j\<in>{i..<i + n}. body s' (alloc j) = new_frame l j) \<and> (\<forall>x. x \<notin> alloc ` {i..<i + n} \<longrightarrow> body s' x = body s x) \<and>
    dramsize s' = dramsize s \<and> nvmsize s' = nvmsize s \<and> vmap s' = vmap s"
  using assms
proof (induction n arbitrary: i s Q)
  case 0
  then show ?case by simp
next
  case (Suc n)
  let ?p = "alloc i"
  define s1 where "s1 = s\<lparr>body := (body s)(?p := new_frame l i)\<rparr>"
  have pg: "pagesize_to_pt PAGE_SIZE = Some HUGEP" by (simp add: pagesize_to_pt_def page_size_defs)
  obtain lk where lk: "enqueue_fifo (links s) l ?p = Some lk" "dll_rep lk (Q(l := ?p # Q l))"
    using pageq.enq_rep [OF Suc.prems(1), of ?p l] Suc.prems(3,4) by auto
  define s2 where "s2 = s1\<lparr>links := lk\<rparr>"
  have run: "init_frames alloc l i (Suc n) s = init_frames alloc l (Suc i) n s2"
    using lk(1) by (simp add: pg s2_def s1_def new_frame_def)
  have i1: "inj_on alloc {Suc i..<Suc i + n}" using Suc.prems(2) by (rule inj_on_subset) auto
  have ni: "alloc j \<noteq> ?p" if "j \<in> {Suc i..<Suc i + n}" for j using Suc.prems(2) that by (auto dest: inj_onD)
  have d2: "dll_rep (links s2) (Q(l := ?p # Q l))" using lk(2) by (simp add: s2_def)
  have a2: "alloc j \<notin> set ((Q(l := ?p # Q l)) k)" if "j \<in> {Suc i..<Suc i + n}" for j k
    using ni [OF that] Suc.prems(4) [of j] that by auto
  have "\<exists>s'. init_frames alloc l (Suc i) n s2 = Some s' \<and>
      dll_rep (links s') ((Q(l := ?p # Q l))(l := rev (map alloc [Suc i..<Suc i + n]) @ (Q(l := ?p # Q l)) l)) \<and>
    (\<forall>j\<in>{Suc i..<Suc i + n}. body s' (alloc j) = new_frame l j) \<and>
    (\<forall>x. x \<notin> alloc ` {Suc i..<Suc i + n} \<longrightarrow> body s' x = body s2 x) \<and>
    dramsize s' = dramsize s2 \<and> nvmsize s' = nvmsize s2 \<and> vmap s' = vmap s2"
    by (rule Suc.IH [OF d2 i1 _ a2]) (use Suc.prems(3) in auto)
  then obtain s' where s': "init_frames alloc l (Suc i) n s2 = Some s'"
    "dll_rep (links s') (Q(l := rev (map alloc [Suc i..<Suc i + n]) @ ?p # Q l))"
    "\<forall>j\<in>{Suc i..<Suc i + n}. body s' (alloc j) = new_frame l j"
    "\<forall>x. x \<notin> alloc ` {Suc i..<Suc i + n} \<longrightarrow> body s' x = body s2 x"
    "dramsize s' = dramsize s" "nvmsize s' = nvmsize s" "vmap s' = vmap s" by (auto simp: s2_def s1_def)
  have up: "[i..<i + Suc n] = i # [Suc i..<Suc i + n]" by (simp add: upt_rec)
  have "?p \<notin> alloc ` {Suc i..<Suc i + n}" using ni by (metis imageE)
  then have "body s' ?p = new_frame l i" using s'(4) by (simp add: s2_def s1_def)
  then have "body s' (alloc j) = new_frame l j" if "j \<in> {i..<i + Suc n}" for j
    using s'(3) that by (cases "j = i") auto
  moreover have "body s' x = body s x" if "x \<notin> alloc ` {i..<i + Suc n}" for x
  proof -
    have "x \<notin> alloc ` {Suc i..<Suc i + n}" "x \<noteq> ?p" using that by auto
    then show ?thesis using s'(4) by (simp add: s2_def s1_def)
  qed
  moreover have "dll_rep (links s') (Q(l := rev (map alloc [i..<i + Suc n]) @ Q l))"
    unfolding up using s'(2) by (simp only: list.map rev.simps append_assoc append_Cons append_Nil)
  ultimately show ?case unfolding run using s'(1,5-7) by blast
qed

text \<open>Fresh, distinct addresses, as \<open>calloc\<close> returns them.\<close>

definition allocs_ok :: "(nat \<Rightarrow> addr) \<Rightarrow> nat \<Rightarrow> (nat \<Rightarrow> addr) \<Rightarrow> nat \<Rightarrow> bool" where
  "allocs_ok d nd n nn \<longleftrightarrow> inj_on d {..<nd} \<and> inj_on n {..<nn} \<and> d ` {..<nd} \<inter> n ` {..<nn} = {} \<and>
     NULL \<notin> d ` {..<nd} \<union> n ` {..<nn} \<and> nd + nn < 2 ^ 30"

definition frame_count :: "u64 \<Rightarrow> nat" where
  "frame_count sz = unat (sz div PAGE_SIZE)"

lemma new_frame_fits:
  assumes "j < frame_count (if l = DRAM_FREE then dramsize s else nvmsize s)"
  shows "frame_fits s (new_frame l j)" "unat (devdax_offset (new_frame l j)) = j * 2 ^ 21"
proof -
  let ?sz = "if l = DRAM_FREE then dramsize s else nvmsize s"
  have "j < unat ?sz div 2 ^ 21" using assms by (simp add: frame_count_def unat_div_distrib unat_PAGE_SIZE)
  then have "Suc j * 2 ^ 21 \<le> unat ?sz div 2 ^ 21 * 2 ^ 21" by (intro mult_le_mono1 Suc_leI)
  also have "\<dots> \<le> unat ?sz" by (rule div_times_less_eq_dividend)
  finally have le: "j * 2 ^ 21 + 2 ^ 21 \<le> unat ?sz" by simp
  then have lt: "j * 2 ^ 21 < 2 ^ 64" using unat_less_u64 [of ?sz] by linarith
  have "unat (of_nat j * PAGE_SIZE :: u64) = j * 2 ^ 21"
  proof -
    have "of_nat j * PAGE_SIZE = (of_nat (j * 2 ^ 21) :: u64)" by (simp add: page_size_defs)
    then show ?thesis using lt by (simp only: unat_of_nat) simp
  qed
  then show off: "unat (devdax_offset (new_frame l j)) = j * 2 ^ 21" by (simp add: new_frame_def)
  have al: "unat (w AND mask 21) = unat w mod 2 ^ 21" for w :: u64
  proof -
    have "unat (w AND mask 21) = unat (take_bit 21 w)" by (simp only: take_bit_eq_mask)
    also have "\<dots> = take_bit 21 (unat w)" by (rule unsigned_take_bit_eq)
    also have "\<dots> = unat w mod 2 ^ 21" by (rule take_bit_eq_mod)
    finally show ?thesis .
  qed
  have "frame_aligned (of_nat j * PAGE_SIZE)"
  proof -
    have "unat (of_nat j * PAGE_SIZE AND mask 21 :: u64) = unat (0 :: u64)"
      unfolding al \<open>unat (of_nat j * PAGE_SIZE :: u64) = j * 2 ^ 21\<close> by simp
    then show ?thesis unfolding frame_aligned_def by (rule unsigned_word_eqI)
  qed
  then show "frame_fits s (new_frame l j)" using le off by (cases l) (simp_all add: frame_fits_def new_frame_def)
qed

text \<open>The frames of new descriptors.\<close>

lemma frames_ok_start:
  assumes al: "allocs_ok d (frame_count (dramsize s)) n (frame_count (nvmsize s))"
    and bd: "\<And>j. j < frame_count (dramsize s) \<Longrightarrow> body s (d j) = new_frame DRAM_FREE j"
    and bn: "\<And>j. j < frame_count (nvmsize s) \<Longrightarrow> body s (n j) = new_frame NVM_FREE j"
  shows "frames_ok (d ` {..<frame_count (dramsize s)} \<union> n ` {..<frame_count (nvmsize s)}) s"
proof -
  let ?nd = "frame_count (dramsize s)" and ?nn = "frame_count (nvmsize s)"
  let ?F = "d ` {..<?nd} \<union> n ` {..<?nn}"
  have A: "NULL \<notin> ?F" "?nd + ?nn < 2 ^ 30" using al by (auto simp: allocs_ok_def)
  have fits: "frame_fits s (new_frame DRAM_FREE j)" "unat (devdax_offset (new_frame DRAM_FREE j)) = j * 2 ^ 21" if "j < ?nd" for j
    using new_frame_fits [of j DRAM_FREE s] that by simp_all
  have fitn: "frame_fits s (new_frame NVM_FREE j)" "unat (devdax_offset (new_frame NVM_FREE j)) = j * 2 ^ 21" if "j < ?nn" for j
    using new_frame_fits [of j NVM_FREE s] that by simp_all
  show ?thesis
    unfolding frames_ok_def
  proof (intro conjI)
    show "finite ?F" "NULL \<notin> ?F" using A(1) by simp_all
    have "card ?F \<le> ?nd + ?nn"
      using card_Un_le [of "d ` {..<?nd}" "n ` {..<?nn}"] card_image_le [of "{..<?nd}" d] card_image_le [of "{..<?nn}" n] by simp
    then show "card ?F < 2 ^ 30" using A(2) by linarith
    show "\<forall>p\<in>?F. frame_fits s (body s p)" using fits fitn bd bn by auto
    have io: "frame_of (new_frame l i) = (if l = DRAM_FREE then FASTMEM else SLOWMEM, devdax_offset (new_frame l i))" for l i
      by (simp add: frame_of_def new_frame_def)
    show "inj_on (\<lambda>p. frame_of (body s p)) ?F"
    proof (rule inj_onI)
      fix x y assume "x \<in> ?F" "y \<in> ?F" "frame_of (body s x) = frame_of (body s y)"
      then consider i j where "i < ?nd" "j < ?nd" "x = d i" "y = d j" "devdax_offset (new_frame DRAM_FREE i) = devdax_offset (new_frame DRAM_FREE j)"
        | i j where "i < ?nn" "j < ?nn" "x = n i" "y = n j" "devdax_offset (new_frame NVM_FREE i) = devdax_offset (new_frame NVM_FREE j)"
        by (auto simp: bd bn io)
      then show "x = y"
      proof cases
        case 1
        then have "i * 2 ^ 21 = j * 2 ^ 21" using fits(2) by metis
        then show ?thesis using 1 by simp
      next
        case 2
        then have "i * 2 ^ 21 = j * 2 ^ 21" using fitn(2) by metis
        then show ?thesis using 2 by simp
      qed
    qed
  qed
qed

lemma pebs_init_inv:
  fixes s :: "'a pebs_state_scheme"
  assumes al: "allocs_ok d (frame_count (dramsize s)) n (frame_count (nvmsize s))" and vm: "vmap s = Map.empty"
  defines "F \<equiv> d ` {..<frame_count (dramsize s)} \<union> n ` {..<frame_count (nvmsize s)}"
  shows "\<exists>s'. pebs_init d n s = Some s' \<and> sys_inv F (False, s', []) \<and> vmap s' = Map.empty"
proof -
  let ?nd = "frame_count (dramsize s)" and ?nn = "frame_count (nvmsize s)"
  let ?s0 = "s\<lparr>links := dll_empty\<rparr>"
  have A: "inj_on d {0..<0 + ?nd}" "inj_on n {0..<0 + ?nn}" "d ` {0..<?nd} \<inter> n ` {0..<?nn} = {}" "NULL \<notin> d ` {0..<?nd}"
    "NULL \<notin> n ` {0..<?nn}" "?nd + ?nn < 2 ^ 30" using al by (auto simp: allocs_ok_def atLeast0LessThan)
  have "\<exists>s1. init_frames d DRAM_FREE 0 ?nd ?s0 = Some s1 \<and>
      dll_rep (links s1) ((\<lambda>_. [])(DRAM_FREE := rev (map d [0..<0 + ?nd]) @ (\<lambda>_. []) DRAM_FREE)) \<and>
    (\<forall>j\<in>{0..<0 + ?nd}. body s1 (d j) = new_frame DRAM_FREE j) \<and> (\<forall>x. x \<notin> d ` {0..<0 + ?nd} \<longrightarrow> body s1 x = body ?s0 x) \<and>
    dramsize s1 = dramsize ?s0 \<and> nvmsize s1 = nvmsize ?s0 \<and> vmap s1 = vmap ?s0"
    by (rule init_frames_spec [OF _ A(1)]) (use A(4) in \<open>auto simp: dll_rep_empty\<close>)
  then obtain s1 where s1: "init_frames d DRAM_FREE 0 ?nd ?s0 = Some s1"
    "dll_rep (links s1) ((\<lambda>_. [])(DRAM_FREE := rev (map d [0..<?nd])))"
    "\<forall>j\<in>{0..<?nd}. body s1 (d j) = new_frame DRAM_FREE j" "dramsize s1 = dramsize s" "nvmsize s1 = nvmsize s" "vmap s1 = Map.empty"
    by (auto simp: vm)
  have dis: "n j \<noteq> d x" if "j < ?nn" "x < ?nd" for j x
  proof
    assume "n j = d x"
    moreover have "d x \<in> d ` {0..<?nd}" "n j \<in> n ` {0..<?nn}" using that by simp_all
    ultimately show False using A(3) by auto
  qed
  let ?Q1 = "(\<lambda>_. [])(DRAM_FREE := rev (map d [0..<?nd]))"
  let ?Q = "?Q1(NVM_FREE := rev (map n [0..<?nn]))"
  have "\<exists>s2. init_frames n NVM_FREE 0 ?nn s1 = Some s2 \<and>
      dll_rep (links s2) (?Q1(NVM_FREE := rev (map n [0..<0 + ?nn]) @ ?Q1 NVM_FREE)) \<and>
    (\<forall>j\<in>{0..<0 + ?nn}. body s2 (n j) = new_frame NVM_FREE j) \<and> (\<forall>x. x \<notin> n ` {0..<0 + ?nn} \<longrightarrow> body s2 x = body s1 x) \<and>
    dramsize s2 = dramsize s1 \<and> nvmsize s2 = nvmsize s1 \<and> vmap s2 = vmap s1"
    by (rule init_frames_spec [OF s1(2) A(2)]) (use A(5) dis in auto)
  then obtain s2 where s2: "init_frames n NVM_FREE 0 ?nn s1 = Some s2" "dll_rep (links s2) ?Q"
    "\<forall>j\<in>{0..<?nn}. body s2 (n j) = new_frame NVM_FREE j" "\<forall>x. x \<notin> n ` {0..<?nn} \<longrightarrow> body s2 x = body s1 x"
    "dramsize s2 = dramsize s" "nvmsize s2 = nvmsize s" "vmap s2 = Map.empty" using s1 by auto
  have bd: "body s2 (d j) = new_frame DRAM_FREE j" if "j < ?nd" for j
  proof -
    have "d j \<notin> n ` {0..<?nn}" using dis that by fastforce
    then show ?thesis using s1(3) s2(4) that by simp
  qed
  have bn: "body s2 (n j) = new_frame NVM_FREE j" if "j < ?nn" for j using s2(3) that by simp
  define s' where "s' = s2\<lparr>pages := kh_init, pages_map := kh_init, mod_page_dq := kdq_init (NULL, False), mlinks := dll_empty,
     completion := 0, promotion_cost_avg := of_int MIN_PROMOTION_COST, demotion_cost_avg := of_int MIN_DEMOTION_COST\<rparr>"
  have run: "pebs_init d n s = Some s'"
    using s1(1,4,5) s2(1) by (simp add: pebs_init_def frame_count_def s'_def Let_def)
  have sz: "dramsize s' = dramsize s" "nvmsize s' = nvmsize s" "body s' = body s2" by (simp_all add: s'_def s2(5,6))
  have fr: "frames_ok F s'" using frames_ok_start [of d s' n] al bd bn by (simp add: F_def sz)
  have q: "queued s' = []" "tracked s' = {}" "kh_map (pages s') = Map.empty"
    by (simp_all add: queued_def tracked_def s'_def kdq_init_list kh_init_wf)
  have "x \<in> F \<and> free_list_of (body s' x) = l \<and> \<not> present (body s' x)" if "x \<in> set (?Q l)" for x l
    using that bd bn by (cases l) (auto simp: F_def s'_def new_frame_def free_list_of_def)
  then have inv: "pebs_inv F ?Q s'" unfolding pebs_inv_def
    using fr s2(2) by (simp add: q own_keys_def) (simp add: s'_def kh_init_wf kdq_init_wf)
  have "F = free_pages ?Q" by (auto simp: F_def free_pages_def)
  then have "sys_ok F ?Q (False, s', [])" using inv s2(7)
    by (simp add: sys_ok_def vmap_ok_def keys_ok_def q held_pages_def) (simp add: s'_def)
  then show ?thesis using run s2(7) by (auto simp: sys_inv_def s'_def)
qed

section \<open>Faults and migrations do not abort\<close>

definition kernel_live :: "kernel \<Rightarrow> bool" where
  "kernel_live K \<longleftrightarrow> (\<forall>a n. k_mmap K a n = Some a) \<and> (\<forall>a n. k_register K a n) \<and> (\<forall>a b. k_writeprotect K a b)"

lemma host_kernel_live: "kernel_live host_kernel"
  by (simp add: kernel_live_def host_kernel_def)

lemma place_page_succeeds:
  assumes inv: "pebs_inv F Q s" and l: "next_free Q = Some l" and K: "kernel_live K" and a: "a \<noteq> 0" "a mod HUGEPAGE_SIZE = 0"
  shows "\<exists>p s'. place_page K ex s a = Some (p, s')"
proof -
  let ?Q = "Q(l := butlast (Q l))" and ?p = "last (Q l)"
  obtain s1 where s1: "pebs_pagefault s = Some (?p, s1)" "pebs_inv F ?Q s1" "held F ?Q s1 ?p"
    using pebs_pagefault_inv [OF inv] l by auto
  have "?p \<noteq> NULL" using s1(3) pebs_invD(2) [OF s1(2)] by (auto simp: held_def frames_ok_def)
  then show ?thesis using s1(1) K a by (simp add: place_page_def Let_def kernel_live_def)
qed

lemma missing_fault_succeeds:
  assumes ok: "sys_ok F Q (pl, s, R)" and l: "next_free Q = Some l" and K: "kernel_ok K" "kernel_live K"
    and a: "a \<noteq> 0" "a mod HUGEPAGE_SIZE = 0" "vmap s a = None"
  shows "\<exists>s'. handle_missing_fault K None s a = Some s'"
proof -
  note D = sys_okD [OF ok]
  let ?s = "s\<lparr>internal_call := True\<rparr>"
  have C: "pebs_inv F Q ?s" "vmap_ok ?s" using D(1,2) pebs_inv_cong(1) [of ?s s] by (simp_all add: vmap_ok_def)
  obtain p s1 where p: "place_page K True ?s a = Some (p, s1)" using place_page_succeeds [OF C(1) l K(2) a(1,2)] by blast
  from place_page_inv [OF C K(1) p] have P: "pebs_inv F (Q(l := butlast (Q l))) s1" "held F (Q(l := butlast (Q l))) s1 p"
    "present (body s1 p)" "va_of s1 p = a" "pages s1 = pages ?s" using l by auto
  have "va_of s1 p \<notin> dom (kh_map (pages s1))" using vmap_okD [OF D(2), of a] a(3) by (auto simp: P)
  then obtain s2 where "pebs_add_page None s1 p = Some s2" using pebs_add_page_inv [OF P(1-3)] by blast
  then show ?thesis using p a(1) by (simp add: handle_missing_fault_def Let_def)
qed

lemma arms_migrate_succeeds:
  assumes fr: "frames_ok F s" and p: "p \<in> F" "in_dram (body s p) = (\<not> up)" "va_of s p mod HUGEPAGE_SIZE = 0"
    and np: "np \<in> F" "in_dram (body s np) = up" and K: "kernel_ok K" "kernel_live K"
  shows "\<exists>s'. (if up then arms_migrate_up else arms_migrate_down) K s p (devdax_offset (body s np)) = Some s'"
proof -
  let ?off = "devdax_offset (body s np)"
  have pn: "p \<noteq> NULL" using fr p(1) by (auto simp: frames_ok_def)
  have fit: "frame_fits s (body s p)" "frame_fits s (body s np)" using fr p np by (auto simp: frames_ok_def)
  have room: "off < sz" "off + HUGEPAGE_SIZE \<le> sz" if "unat off + 2 ^ 21 \<le> unat sz" for off sz :: u64
  proof -
    have "unat (off + HUGEPAGE_SIZE) = unat off + 2 ^ 21"
      using that unat_less_u64 [of sz] by (simp add: HUGEPAGE_SIZE_def unat_add_lem [THEN iffD1])
    then show "off < sz" "off + HUGEPAGE_SIZE \<le> sz" using that by (simp_all add: word_less_nat_alt word_le_nat_alt)
  qed
  have ps: "pt (body s p) = HUGEP" using fit by (simp add: frame_fits_def)
  have cp: "k_copy K m m' x y HUGEPAGE_SIZE = Some (mem_copy m m' x y HUGEPAGE_SIZE)" for m m' x y
    using page_copier.copies [OF kernel_ok_copier [OF K(1)], of m m' x y HUGEP] by simp
  note kl = K(2) [unfolded kernel_live_def]
  show ?thesis
  proof (cases up)
    case True
    have "\<exists>s'. arms_migrate_up K s p ?off = Some s'"
      using True p pn kl cp ps room fit np
      by (simp add: arms_migrate_up_def migrate_up_copy_def migrate_up_remap_def frame_fits_def Let_def)
    then show ?thesis using True by simp
  next
    case False
    have "\<exists>s'. arms_migrate_down K s p ?off = Some s'"
      using False p pn kl cp ps room fit np
      by (simp add: arms_migrate_down_def migrate_down_copy_def migrate_down_remap_def frame_fits_def Let_def)
    then show ?thesis using False by simp
  qed
qed

lemma migrate_succeeds:
  assumes fr: "frames_ok F s" and p: "p \<in> F" "in_dram (body s p) = (\<not> up)" "va_of s p \<noteq> 0" "va_of s p mod HUGEPAGE_SIZE = 0"
    and np: "np \<in> F" "in_dram (body s np) = up" and K: "kernel_ok K" "kernel_live K"
  shows "\<exists>s'. (if up then pebs_migrate_up else pebs_migrate_down) K s p (devdax_offset (body s np)) = Some s'"
proof -
  let ?u = "upd_page p (\<lambda>x. x\<lparr>migrating := True\<rparr>) s" and ?off = "devdax_offset (body s np)"
  let ?s = "?u\<lparr>wprot := (wprot ?u)(va_of s p := True), internal_call := False\<rparr>"
  have pn: "p \<noteq> NULL" using fr p(1) by (auto simp: frames_ok_def)
  have "frames_ok F ?u" using frames_ok_upd [OF fr, of _ p] by (simp add: frame_of_def)
  then have fs: "frames_ok F ?s" using frames_ok_body [of ?s ?u F] by simp
  have o: "devdax_offset (body ?s np) = ?off" "in_dram (body ?s np) = up" using np(2) by (auto simp: upd_page_def)
  have wp: "arms_wp_page K ?u p True = Some ?s"
    using p(3,4) pn K(2) by (simp add: arms_wp_page_def kernel_live_def Let_def upd_page_def)
  obtain s' where "(if up then arms_migrate_up else arms_migrate_down) K ?s p ?off = Some s'"
    using arms_migrate_succeeds [OF fs p(1) _ _ np(1) o(2) K] p(2,4) unfolding o(1) by (auto simp: upd_page_def)
  then show ?thesis using wp
    by (cases up) (simp_all add: pebs_migrate_up_def pebs_migrate_down_def upd_page_def)
qed

text \<open>Whatever requests are outstanding, each of them can be carried on: its next half does not abort.\<close>

lemma request_goes_on:
  assumes ok: "sys_ok F Q (pl, s, R)" and r: "r \<in> set R" and K: "kernel_ok K" "kernel_live K"
  shows "if need_demotion r
     then \<exists>done s'. demote_to_free_nvm_page K s (dram_page r) (free_page r) = Some (done, s') \<and>
       (done \<or> (\<exists>lk. enqueue_fifo (links s') NVM_FREE (free_page r) = Some lk))
     else \<exists>s'. promote_to_free_dram_page K s (nvm_page r) (free_page r) = Some s'"
proof -
  note D = sys_okD [OF ok] and P = req_parts [OF ok r]
  have fr: "frames_ok F s" by (rule pebs_invD(2) [OF D(1)])
  have npF: "held F Q s (free_page r)" "\<not> present (body s (free_page r))" "free_page r \<in> F" using P(1) by (auto simp: req_ok_def held_def)
  have key: "va_of s x \<noteq> 0" "va_of s x mod HUGEPAGE_SIZE = 0" if "x \<in> F" "present (body s x)" for x
  proof -
    have "x \<in> tracked s" by (rule present_tracked [OF ok that])
    then have "x \<in> ran (kh_map (pages s))" using pebs_invD(14) [OF D(1)] that(2) by blast
    then have "va_of s x \<in> dom (kh_map (pages s))" using own_keys_ran [OF pages_own [OF D(1)]] by auto
    then show "va_of s x \<noteq> 0" "va_of s x mod HUGEPAGE_SIZE = 0" using D(3) unfolding keys_ok_def by blast+
  qed
  show ?thesis
  proof (cases "need_demotion r")
    case True
    then have ro: "dram_page r \<in> F" "in_dram (body s (dram_page r))" "\<not> in_dram (body s (free_page r))" using P(1) by (auto simp: req_ok_def)
    show ?thesis
    proof (cases "present (body s (dram_page r))")
      case pr: True
      have "\<exists>s'. (if False then pebs_migrate_up else pebs_migrate_down) K s (dram_page r) (devdax_offset (body s (free_page r))) = Some s'"
        by (rule migrate_succeeds [OF fr ro(1) _ key [OF ro(1) pr] npF(3) _ K]) (use ro in simp_all)
      then show ?thesis using True pr by (auto simp: demote_to_free_nvm_page_def Let_def)
    next
      case False
      have "free_list_of (body s (free_page r)) = NVM_FREE" using ro(3) by (simp add: free_list_of_def)
      then show ?thesis using True False inv_enq [OF D(1) npF(1,2)] by (auto simp: demote_to_free_nvm_page_def)
    qed
  next
    case False
    then have ro: "nvm_page r \<in> F" "\<not> in_dram (body s (nvm_page r))" "in_dram (body s (free_page r))" using P(1) by (auto simp: req_ok_def)
    have "\<exists>s'. promote_to_free_dram_page K s (nvm_page r) (free_page r) = Some s'"
    proof (cases "present (body s (nvm_page r))")
      case pr: True
      let ?p = "nvm_page r" and ?np = "free_page r"
      have "\<exists>s1. (if True then pebs_migrate_up else pebs_migrate_down) K s ?p (devdax_offset (body s ?np)) = Some s1"
        by (rule migrate_succeeds [OF fr ro(1) _ key [OF ro(1) pr] npF(3) _ K]) (use ro in simp_all)
      then obtain s1 where s1: "(if True then pebs_migrate_up else pebs_migrate_down) K s ?p (devdax_offset (body s ?np)) = Some s1" by blast
      have pt: "?p \<in> tracked s" by (rule present_tracked [OF ok ro(1) pr])
      have "in_dram (body s ?p) = (\<not> True)" "in_dram (body s ?np) = True" using ro by simp_all
      note M = migrate_page_inv [OF D(1,2) pt this(1) pr npF(1) this(2) K(1) s1]
      have "free_list_of (body s ?np) = DRAM_FREE" using ro(3) by (simp add: free_list_of_def)
      then show ?thesis using s1 pr inv_enq [OF M(1,3,4)] M(5)
        by (auto simp: promote_to_free_dram_page_def Let_def free_list_of_def)
    next
      case npr: False
      have "free_list_of (body s (free_page r)) = DRAM_FREE" using ro(3) by (simp add: free_list_of_def)
      then show ?thesis using npr inv_enq [OF D(1) npF(1,2)] by (auto simp: promote_to_free_dram_page_def)
    qed
    then show ?thesis using False by simp
  qed
qed

text \<open>After its demotion a request goes on with the promotion.\<close>

lemma request_finishes:
  assumes ok: "sys_ok F Q (pl, s, R)" and r: "r \<in> set R" and K: "kernel_ok K" "kernel_live K"
  shows "if need_demotion r
     then \<exists>done s1. demote_to_free_nvm_page K s (dram_page r) (free_page r) = Some (done, s1) \<and>
       (if done then \<exists>s2. promote_to_free_dram_page K s1 (nvm_page r) (free_page r) = Some s2
        else \<exists>lk. enqueue_fifo (links s1) NVM_FREE (free_page r) = Some lk)
     else \<exists>s2. promote_to_free_dram_page K s (nvm_page r) (free_page r) = Some s2"
proof (cases "need_demotion r")
  case True
  then obtain dn s1 where 1: "demote_to_free_nvm_page K s (dram_page r) (free_page r) = Some (dn, s1)"
    "dn \<or> (\<exists>lk. enqueue_fifo (links s1) NVM_FREE (free_page r) = Some lk)"
    using request_goes_on [OF ok r K] by auto
  have "\<exists>s2. promote_to_free_dram_page K s1 (nvm_page r) (free_page r) = Some s2" if d: dn
  proof -
    let ?r = "r\<lparr>need_demotion := False\<rparr>"
    obtain Q' where "sys_ok F Q' (pl, s1, ?r # remove1 r R)"
      using step_demote [OF K(1) ok r True, of s1] 1(1) d unfolding sys_inv_def by auto
    from request_goes_on [OF this, of ?r] show ?thesis using K by simp
  qed
  then show ?thesis using True 1 by auto
qed (use request_goes_on [OF ok r K] in simp)

section \<open>Reachable states\<close>

lemma reachable_inv:
  assumes K: "kernel_ok K" and run: "rtranclp (sys_step K) c c'" and inv: "sys_inv F c"
  shows "sys_inv F c'"
  using run by induction (use inv sys_step_inv [OF K] in blast)+

text \<open>An invariant of the steps, relative to the one of the system.\<close>

lemma reachable_vas:
  assumes K: "kernel_ok K" and run: "rtranclp (sys_step K) (pl, s, R) (pl', s', R')" and inv: "sys_inv F (pl, s, R)" and v: "vas_ok s"
  shows "vas_ok s'"
proof -
  have "sys_inv F c' \<and> vas_ok (fst (snd c'))" if "rtranclp (sys_step K) (pl, s, R) c'" for c'
    using that
  proof (induction rule: rtranclp_induct)
    case base
    then show ?case using inv v by simp
  next
    case (step c1 c2)
    obtain pl1 s1 R1 pl2 s2 R2 where c: "c1 = (pl1, s1, R1)" "c2 = (pl2, s2, R2)" by (cases c1; cases c2)
    obtain Q where "sys_ok F Q (pl1, s1, R1)" using step c by (auto simp: sys_inv_def)
    from sys_step_vas [OF K _ this] sys_step_inv [OF K step(2)] step show ?case by (auto simp: c)
  qed
  from this [OF run] show ?thesis by simp
qed

lemma pebs_init_vas: "pebs_init d n s = Some s0 \<Longrightarrow> vas_ok s0"
  by (auto simp: pebs_init_def bind_Some_iff Let_def vas_ok_def tracked_def queued_def kdq_init_list kh_init_wf)

lemma pebs_init_reaches:
  assumes "allocs_ok d (frame_count (dramsize s)) n (frame_count (nvmsize s))" "vmap s = Map.empty"
    "pebs_init d n s = Some s0" "kernel_ok K" "rtranclp (sys_step K) (False, s0, []) c"
  shows "sys_inv (d ` {..<frame_count (dramsize s)} \<union> n ` {..<frame_count (nvmsize s)}) c"
  using pebs_init_inv [OF assms(1,2)] reachable_inv [OF assms(4,5)] assms(3) by fastforce

text \<open>The static storage of \<open>pebs.c\<close> with the two configured sizes.\<close>

definition pebs_start :: "u64 \<Rightarrow> u64 \<Rightarrow> pebs_state" where
  "pebs_start ds ns = arms_state.extend (arms_start\<lparr>dramsize := ds, nvmsize := ns\<rparr>)
     (pebs_state.fields dll_empty kh_init kh_init (kdq_init (NULL, False)) dll_empty
       (\<lambda>_. \<lparr>dram_page = NULL, nvm_page = NULL, free_page = NULL, need_demotion = False\<rparr>) 0 0 0)"

lemma pebs_start_simps [simp]:
  "dramsize (pebs_start ds ns) = ds" "nvmsize (pebs_start ds ns) = ns" "vmap (pebs_start ds ns) = Map.empty"
  by (simp_all add: pebs_start_def arms_state.defs pebs_state.defs arms_start_def)

text \<open>Two frames in each tier, for the witnesses.\<close>

definition demo_dram :: "nat \<Rightarrow> addr" where "demo_dram j = of_nat (j + 1) * 4096"
definition demo_nvm :: "nat \<Rightarrow> addr" where "demo_nvm j = of_nat (j + 101) * 4096"

lemma demo_count: "frame_count 0x400000 = 2"
  by (simp add: frame_count_def page_size_defs unat_div_distrib)

lemma demo_allocs: "allocs_ok demo_dram (frame_count 0x400000) demo_nvm (frame_count 0x400000)"
  by (auto simp: allocs_ok_def demo_count demo_dram_def demo_nvm_def inj_on_def less_2_cases_iff)

lemma demo_init:
  "\<exists>s0. pebs_init demo_dram demo_nvm (pebs_start 0x400000 0x400000) = Some s0 \<and> vmap s0 = Map.empty \<and>
     sys_inv (demo_dram ` {..<2} \<union> demo_nvm ` {..<2}) (False, s0, [])"
  using pebs_init_inv [of demo_dram "pebs_start 0x400000 0x400000" demo_nvm] demo_allocs by (auto simp: demo_count)

lemma next_free_some: "Q l \<noteq> [] \<Longrightarrow> \<exists>k. next_free Q = Some k"
  by (cases l; cases "Q DRAM_FREE = []") (auto simp: next_free_def)

lemma demo_free:
  assumes init: "pebs_init demo_dram demo_nvm (pebs_start 0x400000 0x400000) = Some s0"
  shows "\<exists>Q l. sys_ok (demo_dram ` {..<2} \<union> demo_nvm ` {..<2}) Q (False, s0, []) \<and> Q l \<noteq> []"
proof -
  obtain Q where Q: "sys_ok (demo_dram ` {..<2} \<union> demo_nvm ` {..<2}) Q (False, s0, [])"
    using demo_init init by (auto simp: sys_inv_def)
  have "tracked s0 = {}" using init
    by (auto simp: pebs_init_def bind_Some_iff Let_def tracked_def queued_def kdq_init_list kh_init_wf)
  moreover have "demo_dram 0 \<in> demo_dram ` {..<2} \<union> demo_nvm ` {..<2}" by simp
  ultimately have "demo_dram 0 \<in> free_pages Q" unfolding sys_okD(4) [OF Q] by (simp add: held_pages_def)
  then have "Q DRAM_FREE \<noteq> [] \<or> Q NVM_FREE \<noteq> []" by (auto simp: free_pages_def)
  then show ?thesis using Q by blast
qed

lemma demo_fault:
  assumes init: "pebs_init demo_dram demo_nvm (pebs_start 0x400000 0x400000) = Some s0"
  shows "\<exists>s1. sys_step host_kernel (False, s0, []) (False, s1, []) \<and> app_view s1 0x200000 = zero_view"
proof -
  have v: "vmap s0 0x200000 = None" using demo_init init by auto
  obtain Q l where Q: "sys_ok (demo_dram ` {..<2} \<union> demo_nvm ` {..<2}) Q (False, s0, [])" "Q l \<noteq> []"
    using demo_free [OF init] by blast
  obtain k where k: "next_free Q = Some k" using next_free_some [of Q l] Q(2) by blast
  obtain s1 where s1: "handle_missing_fault host_kernel None s0 0x200000 = Some s1"
    using missing_fault_succeeds [OF Q(1) k host_kernel_ok host_kernel_live, of "0x200000"] v by (auto simp: HUGEPAGE_SIZE_def)
  from sys_step.fault [OF v s1] step_fault [OF host_kernel_ok Q(1) v s1] show ?thesis by (metis fun_upd_same)
qed

section \<open>Properties\<close>

text \<open>
  C1: No page descriptor is ever lost, duplicated or shared: in every reachable state each one
  is in exactly one of three places, a free list, the tables and queue of the policy, or an
  outstanding migration request, and no two descriptors own the same frame of a device (the
  state is any one that the initialisation and the steps of the fault handler, the unmapping
  calls, the policy thread and the migration threads can reach; unmapping calls are of ranges
  aligned to 2 MiB and succeed, allocations succeed, and an unmapping call with its removals is
  one step, as is one round of the drain).
\<close>

theorem no_page_lost:
  assumes "allocs_ok d (frame_count (dramsize s)) n (frame_count (nvmsize s))" "vmap s = Map.empty"
    "pebs_init d n s = Some s0" "kernel_ok K" "rtranclp (sys_step K) (False, s0, []) (pl, s', R)"
  shows "\<exists>Q. dll_rep (links s') Q \<and>
    d ` {..<frame_count (dramsize s)} \<union> n ` {..<frame_count (nvmsize s)} = free_pages Q \<union> tracked s' \<union> free_page ` set R \<and>
    free_pages Q \<inter> tracked s' = {} \<and> (free_pages Q \<union> tracked s') \<inter> free_page ` set R = {} \<and>
    inj_on (\<lambda>p. frame_of (body s' p)) (free_pages Q \<union> tracked s' \<union> free_page ` set R)"
proof -
  let ?F = "d ` {..<frame_count (dramsize s)} \<union> n ` {..<frame_count (nvmsize s)}"
  obtain Q where Q: "sys_ok ?F Q (pl, s', R)" using pebs_init_reaches [OF assms] by (auto simp: sys_inv_def)
  note D = sys_okD [OF Q]
  note P = pebs_invD [OF D(1)]
  have F: "?F = free_pages Q \<union> tracked s' \<union> free_page ` set R" using D(4) by (simp add: held_pages_def)
  have "inj_on (\<lambda>p. frame_of (body s' p)) ?F" using P(2) by (simp add: frames_ok_def)
  moreover have "(free_pages Q \<union> tracked s') \<inter> free_page ` set R = {}"
    using held_keptI(2,3) [OF D(6)] by (auto simp: held_pages_def)
  ultimately show ?thesis using P(1,13) F by (intro exI [of _ Q]) auto
qed

lemma no_page_lost_witness:
  "\<exists>s0 s1 Q. pebs_init demo_dram demo_nvm (pebs_start 0x400000 0x400000) = Some s0 \<and>
     sys_step host_kernel (False, s0, []) (False, s1, []) \<and>
     demo_dram ` {..<2} \<union> demo_nvm ` {..<2} = free_pages Q \<union> tracked s1 \<and> free_pages Q \<inter> tracked s1 = {}"
proof -
  obtain s0 where s0: "pebs_init demo_dram demo_nvm (pebs_start 0x400000 0x400000) = Some s0" using demo_init by blast
  obtain s1 where s1: "sys_step host_kernel (False, s0, []) (False, s1, [])" using demo_fault [OF s0] by blast
  then have "rtranclp (sys_step host_kernel) (False, s0, []) (False, s1, [])" by blast
  from no_page_lost [OF _ _ s0 host_kernel_ok this] show ?thesis using demo_allocs s0 s1 by (auto simp: demo_count)
qed





text \<open>
  C4: In every reachable state the loop of the policy thread that drains the queue of page
  changes, run without pushes in between and with allocations that succeed, ends without a
  failed assertion, and afterwards the table of the policy holds the same pages as the table of
  the fault handler. As before, unmapping calls are of ranges aligned to 2 MiB and succeed, and
  each of them is one step.
\<close>

theorem drain_catches_up:
  assumes "allocs_ok d (frame_count (dramsize s)) n (frame_count (nvmsize s))" "vmap s = Map.empty"
    "pebs_init d n s = Some s0" "kernel_ok K" "rtranclp (sys_step K) (False, s0, []) (pl, s', R)"
  shows "\<exists>s''. drain (\<lambda>_. None) 0 s' = Some s'' \<and> queued s'' = [] \<and> kh_map (pages_map s'') = kh_map (pages s') \<and>
    kh_map (pages s'') = kh_map (pages s')"
proof -
  obtain F Q where "sys_ok F Q (pl, s', R)" using pebs_init_reaches [OF assms] by (auto simp: sys_inv_def)
  from drain_empties [OF sys_okD(1) [OF this], of 0] show ?thesis by auto
qed

lemma drain_catches_up_witness:
  "\<exists>s0 s1 s2. pebs_init demo_dram demo_nvm (pebs_start 0x400000 0x400000) = Some s0 \<and>
     sys_step host_kernel (False, s0, []) (False, s1, []) \<and> drain (\<lambda>_. None) 0 s1 = Some s2 \<and> queued s2 = []"
proof -
  obtain s0 where s0: "pebs_init demo_dram demo_nvm (pebs_start 0x400000 0x400000) = Some s0" using demo_init by blast
  obtain s1 where s1: "sys_step host_kernel (False, s0, []) (False, s1, [])" using demo_fault [OF s0] by blast
  then have "rtranclp (sys_step host_kernel) (False, s0, []) (False, s1, [])" by blast
  from drain_catches_up [OF _ _ s0 host_kernel_ok this] show ?thesis using demo_allocs s0 s1 by auto
qed

end
