(* ===== verification/Pebs_Sampling.thy ===== *)
theory Pebs_Sampling
  imports Hot_Change Pebs_System
begin

text \<open>
  The scan thread of \<open>src/pebs.c\<close> and the globals of the policy thread. Each processor has one ring of
  performance records per kind of event; a pass of the scan thread takes at most one record out of
  each ring and counts a sample for the page it fell into. What the kernel writes into the rings
  is part of the state: \<open>data_head\<close> and the record that starts at an offset.
\<close>

datatype perf_record = PERF_RECORD_SAMPLE u64 | PERF_RECORD_THROTTLE | PERF_RECORD_UNTHROTTLE | PERF_RECORD_OTHER

record perf_ring =
  data_head :: u64
  data_tail :: u64
  data_size :: u64
  rec_at :: "u64 \<Rightarrow> perf_record \<times> u16"

record policy_state = pebs_state +
  perf_page :: "nat \<Rightarrow> pbuftype \<Rightarrow> perf_ring"
  sample_periods :: "nat \<Rightarrow> pbuftype \<Rightarrow> int"
  sampling_mode :: sampling_modes
  global_version :: u64
  curr_access_version :: u8
  prev_access_version :: u8
  curr_window_index :: u8
  arms_pages_cnt :: u64
  other_pages_cnt :: u64
  total_pages_cnt :: u64
  zero_pages_cnt :: u64
  throttle_cnt :: u64
  unthrottle_cnt :: u64
  policy_thread_period :: u32
  detector :: hcd
  prev_bw_val :: "nat \<Rightarrow> nat \<Rightarrow> nat \<Rightarrow> u64"
  scores :: "score_entry list"
  min_score :: rat
  max_score :: rat
  submission :: nat
  promote_idx :: nat
  demote_idx :: nat
  num_migration_jobs :: nat
  max_migrations_cur_interval :: u32
  migrated_pages :: nat
  migrated_bytes :: u64

section \<open>One record\<close>

definition count_access :: "pbuftype \<Rightarrow> u8 \<Rightarrow> arms_page \<Rightarrow> arms_page" where
  "count_access j v p = p\<lparr>accesses := (accesses p)(j := (accesses p j)(v := accesses p j v + 1))\<rparr>"

definition scan_sample :: "pbuftype \<Rightarrow> u64 \<Rightarrow> 'a policy_state_scheme \<Rightarrow> 'a policy_state_scheme option" where
  "scan_sample j a s =
     (if a \<noteq> 0 then do {
        page \<leftarrow> pebs_find_page s (a AND HUGE_PFN_MASK);
        let s = (if page \<noteq> NULL then
                   (let s = (if va (body s page) \<noteq> 0 then upd_page page (count_access j (curr_access_version s)) s else s)
                    in s\<lparr>arms_pages_cnt := arms_pages_cnt s + 1\<rparr>)
                 else s\<lparr>other_pages_cnt := other_pages_cnt s + 1\<rparr>);
        Some (s\<lparr>total_pages_cnt := total_pages_cnt s + 1\<rparr>)
      } else Some (s\<lparr>zero_pages_cnt := zero_pages_cnt s + 1\<rparr>))"

fun scan_record :: "pbuftype \<Rightarrow> perf_record \<Rightarrow> 'a policy_state_scheme \<Rightarrow> 'a policy_state_scheme option" where
  "scan_record j (PERF_RECORD_SAMPLE a) s = scan_sample j a s"
| "scan_record j PERF_RECORD_THROTTLE s = Some (s\<lparr>throttle_cnt := throttle_cnt s + 1\<rparr>)"
| "scan_record j PERF_RECORD_UNTHROTTLE s = Some (s\<lparr>unthrottle_cnt := unthrottle_cnt s + 1\<rparr>)"
| "scan_record j PERF_RECORD_OTHER s = None"

definition scan_one :: "nat \<Rightarrow> pbuftype \<Rightarrow> 'a policy_state_scheme \<Rightarrow> 'a policy_state_scheme option" where
  "scan_one i j s = (
     let p = perf_page s i j in
     if data_head p = data_tail p then Some s
     else do {
       let (ph, sz) = rec_at p (data_tail p mod data_size p);
       s \<leftarrow> scan_record j ph s;
       Some (s\<lparr>perf_page := (perf_page s)(i := (perf_page s i)(j := (perf_page s i j)\<lparr>data_tail := data_tail p + ucast sz\<rparr>))\<rparr>)
     })"

section \<open>A pass over all rings\<close>

definition scan_order :: "(nat \<times> pbuftype) list" where
  "scan_order = List.product (filter sampled_cpu [0..<PEBS_NPROCS]) pbuftypes"

fun scan_rings :: "(nat \<times> pbuftype) list \<Rightarrow> 'a policy_state_scheme \<Rightarrow> 'a policy_state_scheme option" where
  "scan_rings [] s = Some s"
| "scan_rings ((i, j) # rs) s = do {
     s \<leftarrow> scan_one i j s;
     scan_rings rs s
   }"

definition scan_pass :: "'a policy_state_scheme \<Rightarrow> 'a policy_state_scheme option" where
  "scan_pass s = scan_rings scan_order s"

section \<open>Samples do not disturb the bookkeeping\<close>

lemma page_core_upd [simp]: "page_core (count_access j v p) = page_core p"
  by (simp add: page_core_def frame_of_def count_access_def)

lemma same_core_refl [simp]: "same_core s s"
  by (simp add: same_core_def)

lemma same_core_trans: "same_core s t \<Longrightarrow> same_core t u \<Longrightarrow> same_core s u"
  by (simp add: same_core_def)

lemma dev_mem_upd [simp]: "dev_mem (upd_page p f s) = dev_mem s"
  by (auto simp: dev_mem_def fun_eq_iff split: memtypes.splits)

lemma dev_mem_cong: "dram_mem s' = dram_mem s \<Longrightarrow> nvm_mem s' = nvm_mem s \<Longrightarrow> dev_mem s' = dev_mem s"
  by (auto simp: dev_mem_def fun_eq_iff split: memtypes.splits)

lemma same_coreI:
  fixes s s' :: "'a pebs_state_scheme"
  assumes "links s' = links s" "pages s' = pages s" "pages_map s' = pages_map s" "mod_page_dq s' = mod_page_dq s"
    "dramsize s' = dramsize s" "nvmsize s' = nvmsize s" "vmap s' = vmap s" "dram_mem s' = dram_mem s" "nvm_mem s' = nvm_mem s"
    "\<And>x. page_core (body s' x) = page_core (body s x)"
  shows "same_core s s'"
  using assms dev_mem_cong [of s' s] by (simp add: same_core_def)

lemma scan_sample_core: "scan_sample j a s = Some s' \<Longrightarrow> same_core s s' \<and> perf_page s' = perf_page s"
  by (auto simp: scan_sample_def Let_def bind_Some_iff upd_page_def split: if_splits intro!: same_coreI)

lemma scan_record_core: "scan_record j r s = Some s' \<Longrightarrow> same_core s s'"
  by (cases r) (auto simp: scan_sample_core intro!: same_coreI)

lemma scan_one_cases:
  assumes "scan_one i j s = Some s'"
  obtains "s' = s" | r t pp where "scan_record j r s = Some t" "s' = t\<lparr>perf_page := pp\<rparr>"
  using assms by (auto simp: scan_one_def Let_def bind_Some_iff split: if_splits prod.splits)

lemma scan_one_core:
  assumes "scan_one i j s = Some s'"
  shows "same_core s s'"
  using assms
proof (cases rule: scan_one_cases)
  case (2 r t pp)
  have "same_core t s'" unfolding 2(2) by (rule same_coreI) simp_all
  then show ?thesis using scan_record_core [OF 2(1)] same_core_trans by blast
qed simp

lemma scan_pass_core: "scan_pass s = Some s' \<Longrightarrow> same_core s s'"
proof -
  have "scan_rings rs s = Some s' \<Longrightarrow> same_core s s'" for rs
  proof (induction rs arbitrary: s)
    case (Cons r rs)
    then show ?case using same_core_trans scan_one_core by (cases r) (fastforce simp: bind_Some_iff)
  qed simp
  then show "scan_pass s = Some s' \<Longrightarrow> same_core s s'" by (simp add: scan_pass_def)
qed

section \<open>The counts\<close>

definition counts_ok :: "'a policy_state_scheme \<Rightarrow> bool" where
  "counts_ok s \<longleftrightarrow> total_pages_cnt s = arms_pages_cnt s + other_pages_cnt s"

lemma scan_record_counts: "scan_record j r s = Some s' \<Longrightarrow> counts_ok s \<Longrightarrow> counts_ok s'"
  by (cases "(j, r, s)" rule: scan_record.cases)
    (auto simp: scan_sample_def Let_def bind_Some_iff upd_page_def counts_ok_def split: if_splits)

lemma scan_one_counts: "scan_one i j s = Some s' \<Longrightarrow> counts_ok s \<Longrightarrow> counts_ok s'"
  by (erule scan_one_cases) (auto dest: scan_record_counts simp: counts_ok_def)

lemma scan_pass_counts: "scan_pass s = Some s' \<Longrightarrow> counts_ok s \<Longrightarrow> counts_ok s'"
proof -
  have "scan_rings rs s = Some s' \<Longrightarrow> counts_ok s \<Longrightarrow> counts_ok s'" for rs
  proof (induction rs arbitrary: s)
    case (Cons r rs)
    then show ?case using scan_one_counts by (cases r) (fastforce simp: bind_Some_iff)
  qed simp
  then show "scan_pass s = Some s' \<Longrightarrow> counts_ok s \<Longrightarrow> counts_ok s'" by (simp add: scan_pass_def)
qed

section \<open>The initial values\<close>

definition empty_ring :: perf_ring where
  "empty_ring = \<lparr>data_head = 0, data_tail = 0, data_size = 2 ^ 20, rec_at = \<lambda>_. (PERF_RECORD_OTHER, 0)\<rparr>"

text \<open>The initial values of the globals of \<open>pebs.c\<close>, with the rings as the kernel creates them.\<close>

definition policy_start :: "u64 \<Rightarrow> u64 \<Rightarrow> policy_state" where
  "policy_start ds ns = pebs_state.extend (pebs_start ds ns)
     (policy_state.fields (\<lambda>_ _. empty_ring) (\<lambda>_ _. DEFAULT_SAMPLE_PERIOD) DEFAULT_SAMPLING 0 0 0 0 0 0 0 0 0 0
        PEBS_KSWAPD_INTERVAL_BIG hcd_start (\<lambda>_ _ _. 0) [] 0 0 0 0 0 0 0 0 0)"

lemma policy_start_simps [simp]:
  "dramsize (policy_start ds ns) = ds" "nvmsize (policy_start ds ns) = ns" "vmap (policy_start ds ns) = Map.empty"
  "pages (policy_start ds ns) = kh_init" "body (policy_start ds ns) = (\<lambda>_. zero_page)"
  by (simp_all add: policy_start_def pebs_start_def arms_state.defs pebs_state.defs policy_state.defs arms_start_def)

section \<open>Properties\<close>

text \<open>
  C17: When the scanning thread comes to a ring whose next record is a sample in a tracked page
  with an address, it adds one to the access counter of that page for the kind of event and the
  current version, adds one to the two counters of samples, moves the tail of the ring past the
  record, and changes nothing else of the state.
\<close>

lemma sample_counted:
  assumes "kh_wf (pages s)" "kh_map (pages s) (a AND HUGE_PFN_MASK) = Some p" "a \<noteq> 0" "p \<noteq> NULL" "va (body s p) \<noteq> 0"
    "data_head (perf_page s i j) \<noteq> data_tail (perf_page s i j)"
    "rec_at (perf_page s i j) (data_tail (perf_page s i j) mod data_size (perf_page s i j)) = (PERF_RECORD_SAMPLE a, n)"
  shows "scan_one i j s = Some (s
    \<lparr>body := (body s)(p := count_access j (curr_access_version s) (body s p)),
     arms_pages_cnt := arms_pages_cnt s + 1, total_pages_cnt := total_pages_cnt s + 1,
     perf_page := (perf_page s)(i := (perf_page s i)
       (j := (perf_page s i j)\<lparr>data_tail := data_tail (perf_page s i j) + ucast n\<rparr>))\<rparr>)"
proof -
  have "pebs_find_page s (a AND HUGE_PFN_MASK) = Some p"
    using pages_find_spec [OF assms(1)] assms(2) by (simp add: pebs_find_page_def)
  then show ?thesis using assms(3-7) by (simp add: scan_one_def scan_sample_def upd_page_def Let_def)
qed

text \<open>One page at \<open>0x200000\<close> and one sample in it.\<close>

definition demo_page :: addr where "demo_page = 4096"

definition demo_sampled :: policy_state where
  "demo_sampled = (policy_start 0x400000 0x400000)
     \<lparr>pages := the (pages_put None kh_init 0x200000 demo_page),
      body := (\<lambda>_. zero_page)(demo_page := zero_page\<lparr>va := 0x200000\<rparr>),
      perf_page := (\<lambda>_ _. empty_ring\<lparr>data_head := 32, rec_at := \<lambda>_. (PERF_RECORD_SAMPLE 0x212345, 32)\<rparr>)\<rparr>"

lemma sample_counted_witness:
  "\<exists>s'. scan_one 3 NVMREAD demo_sampled = Some s' \<and> data_tail (perf_page s' 3 NVMREAD) = 32 \<and>
     accesses (body s' demo_page) NVMREAD (curr_access_version demo_sampled) = 1"
proof -
  obtain h where h: "pages_put None kh_init 0x200000 demo_page = Some h" "kh_wf h" "kh_map h = [0x200000 \<mapsto> demo_page]"
    using pages_put_spec [of kh_init "0x200000" demo_page] by (auto simp: kh_init_wf)
  have "(0x212345 :: u64) AND HUGE_PFN_MASK = 0x200000" by (simp add: HUGE_PFN_MASK_def HUGEPAGE_MASK_def page_size_defs UINT64_MAX_def)
  then show ?thesis using sample_counted [of demo_sampled "0x212345" demo_page 3 NVMREAD 32] h
    by (auto simp: demo_sampled_def demo_page_def empty_ring_def zero_page_def count_access_def)
qed

end
