(* ===== verification/Pebs_Policy.thy ===== *)
theory Pebs_Policy
  imports Pebs_Sampling
begin

text \<open>
  One interval of the policy thread of \<open>src/pebs.c\<close>: the bump of the access version, the measurement
  of the bandwidth, the scores of all pages in the table (\<open>calculate_scores_map\<close>), the sort, the marks of
  the pages that stay hot, the wait for the migrations of the last interval, and the loop that
  plans the migrations of this one. \<open>qsort\<close> is the argument \<open>qs\<close>: any function that permutes its
  argument into the order of \<open>sort_entry_cmp\<close>. The local variables of the thread that live
  longer than one round are fields of the state.
\<close>

section \<open>The start of an interval\<close>

definition begin_interval :: "'a policy_state_scheme \<Rightarrow> 'a policy_state_scheme" where
  "begin_interval s = s\<lparr>curr_window_index := ucast (global_version s mod of_nat WINDOW_SIZE),
     global_version := global_version s + 1,
     prev_access_version := curr_access_version s,
     curr_access_version := 1 - curr_access_version s\<rparr>"

text \<open>\<open>rd i j k\<close> is the reading of counter \<open>(j, k)\<close> of tier \<open>i\<close>.\<close>

definition watch_bandwidth :: "(nat \<Rightarrow> nat \<Rightarrow> nat \<Rightarrow> u64 option) \<Rightarrow> 'a policy_state_scheme \<Rightarrow> 'a policy_state_scheme option" where
  "watch_bandwidth rd s =
     (if global_version s mod ucast (1000000 div policy_thread_period s) = 0 then do {
        (dram_lines, prev0) \<leftarrow> measure_bw (rd 0) (prev_bw_val s 0);
        (nvm_lines, prev1) \<leftarrow> measure_bw (rd 1) (prev_bw_val s 1);
        Some (s\<lparr>prev_bw_val := (prev_bw_val s)(0 := prev0, 1 := prev1),
                detector := bw_step dram_lines nvm_lines (detector s)\<rparr>)
      } else Some s)"

section \<open>Scores\<close>

definition clear_accesses :: "u8 \<Rightarrow> arms_page \<Rightarrow> arms_page" where
  "clear_accesses prev p = p\<lparr>accesses := (\<lambda>j v. if v = prev then 0 else accesses p j v)\<rparr>"

definition score_page :: "sampling_modes \<Rightarrow> u8 \<Rightarrow> rat list \<Rightarrow> arms_page \<Rightarrow> arms_page" where
  "score_page mode prev bias_vals p = (
     let p = clear_accesses prev (update_window mode prev p);
         p = p\<lparr>prev_score := score p\<rparr>
     in p\<lparr>score := compute_score p bias_vals\<rparr>)"

text \<open>The loop over the buckets, and the array of scores that it fills.\<close>

fun calculate_scores_loop :: "u32 list \<Rightarrow> score_entry list \<Rightarrow> 'a policy_state_scheme \<Rightarrow> score_entry list \<times> 'a policy_state_scheme" where
  "calculate_scores_loop [] out s = (out, s)"
| "calculate_scores_loop (key # keys) out s =
     (if \<not> kh_exist (pages_map s) key then calculate_scores_loop keys out s
      else let page = kh_value (pages_map s) key in
        if page = NULL \<or> \<not> present (body s page) then calculate_scores_loop keys out s
        else
          let s = upd_page page (score_page (sampling_mode s) (prev_access_version s) (bias_values_of (bias (detector s)))) s
          in calculate_scores_loop keys (out @ [\<lparr>se_page = page, se_score = score (body s page)\<rparr>]) s)"

definition calculate_scores_map :: "'a policy_state_scheme \<Rightarrow> score_entry list \<times> 'a policy_state_scheme" where
  "calculate_scores_map s =
     (if kh_size (pages_map s) = 0 then ([], s)
      else calculate_scores_loop (map of_nat [0..<unat (kh_end (pages_map s))]) [] s)"

text \<open>The pages that would fit into the fast tier grow older, the others start again.\<close>

definition mark_top :: "score_entry \<Rightarrow> 'a policy_state_scheme \<Rightarrow> 'a policy_state_scheme" where
  "mark_top e s =
     (if se_score e \<noteq> 0 then
        let s = upd_page (se_page e) (\<lambda>p. p\<lparr>hot_age := hot_age p + 1\<rparr>) s in
        if hot_age (body s (se_page e)) > 1 \<and> score (body s (se_page e)) \<ge> prev_score (body s (se_page e))
        then upd_page (se_page e) (\<lambda>p. p\<lparr>can_promote := True\<rparr>) s else s
      else s)"

definition mark_rest :: "score_entry \<Rightarrow> 'a policy_state_scheme \<Rightarrow> 'a policy_state_scheme" where
  "mark_rest e s = upd_page (se_page e) (\<lambda>p. p\<lparr>hot_age := 0, can_promote := False\<rparr>) s"

definition dram_pages :: "'a arms_state_scheme \<Rightarrow> nat" where
  "dram_pages s = unat (dramsize s div PAGE_SIZE)"

definition mark_pages :: "'a policy_state_scheme \<Rightarrow> 'a policy_state_scheme" where
  "mark_pages s = (
     let n = dram_pages s;
         s' = fold mark_top (take n (scores s)) s
     in fold mark_rest (drop n (scores s')) s')"

definition rank_pages :: "(score_entry list \<Rightarrow> score_entry list) \<Rightarrow> 'a policy_state_scheme \<Rightarrow> 'a policy_state_scheme" where
  "rank_pages qs s = (
     let (out, s) = calculate_scores_map s;
         s = mark_pages (s\<lparr>scores := qs out\<rparr>)
     in if scores s = [] then s
        else s\<lparr>min_score := se_score (scores s ! (length (scores s) - 1)), max_score := se_score (scores s ! 0),
               promote_idx := 0, demote_idx := length (scores s) - 1, migrated_pages := 0\<rparr>)"

section \<open>The wait and the limit\<close>

definition wait_one :: "'a policy_state_scheme \<Rightarrow> 'a policy_state_scheme" where
  "wait_one s = s\<lparr>completion := completion s - 1, num_migration_jobs := num_migration_jobs s - 1\<rparr>"

definition plan_start :: "'a policy_state_scheme \<Rightarrow> 'a policy_state_scheme" where
  "plan_start s = s\<lparr>migrated_bytes := 0, num_migration_jobs := 0,
     max_migrations_cur_interval := of_int \<lfloor>f32 (f32 (f32 (of_int (uint (policy_thread_period s))) /
         f32 (promotion_cost_avg s + demotion_cost_avg s)) * batch_size (detector s))\<rfloor>\<rparr>"

section \<open>The planning loop\<close>

text \<open>The two inner loops that skip pages in the wrong tier.\<close>

function skip_fast :: "(nat \<Rightarrow> bool) \<Rightarrow> nat \<Rightarrow> nat \<Rightarrow> nat" where
  "skip_fast fast p d = (if p < d \<and> fast p then skip_fast fast (p + 1) d else p)"
  by pat_completeness auto

termination by (relation "measure (\<lambda>(f, p, d). d - p)") auto

function skip_slow :: "(nat \<Rightarrow> bool) \<Rightarrow> nat \<Rightarrow> nat \<Rightarrow> nat" where
  "skip_slow fast p d = (if d > p \<and> \<not> fast d then skip_slow fast p (d - 1) else d)"
  by pat_completeness auto

termination by (relation "measure (\<lambda>(f, p, d). d)") auto

declare skip_fast.simps [simp del] skip_slow.simps [simp del]

text \<open>A request made by \<open>arms_malloc\<close> at the address \<open>m\<close> and handed to the migration threads.\<close>

definition submit :: "addr \<Rightarrow> migration_req \<Rightarrow> 'a policy_state_scheme \<Rightarrow> 'a policy_state_scheme option" where
  "submit m req s = do {
     ml \<leftarrow> enqueue_fifo_m (mlinks s) () m;
     let s = s\<lparr>mlinks := ml, reqs := (reqs s)(m := req), num_migration_jobs := num_migration_jobs s + 1\<rparr>;
     Some (if f32 (of_nat (num_migration_jobs s)) \<le> batch_size (detector s) then s\<lparr>submission := submission s + 1\<rparr> else s)
   }"

definition on_fast :: "'a policy_state_scheme \<Rightarrow> nat \<Rightarrow> bool" where
  "on_fast s i = in_dram (body s (se_page (scores s ! i)))"

definition plan_promotion :: "addr \<Rightarrow> addr \<Rightarrow> addr \<Rightarrow> 'a policy_state_scheme \<Rightarrow> (bool \<times> 'a policy_state_scheme) option" where
  "plan_promotion m p np s = do {
     assert_that (\<not> present (body s np));
     let cost = migration_cost (promotion_cost_avg s) (demotion_cost_avg s);
     let benefit = migration_benefit (score (body s p)) (hot_age (body s p)) (latency_diff (detector s));
     (if benefit < cost then do {
        lk \<leftarrow> enqueue_fifo (links s) DRAM_FREE np;
        Some (False, s\<lparr>links := lk\<rparr>)
      } else do {
        s \<leftarrow> submit m \<lparr>dram_page = NULL, nvm_page = p, free_page = np, need_demotion = False\<rparr> s;
        Some (True, s\<lparr>migrated_bytes := migrated_bytes s + pt_to_pagesize (pt (body s p)),
                      migrated_pages := migrated_pages s + 1, promote_idx := promote_idx s + 1\<rparr>)
      })
   }"

definition plan_exchange :: "addr \<Rightarrow> addr \<Rightarrow> 'a policy_state_scheme \<Rightarrow> (bool \<times> 'a policy_state_scheme) option" where
  "plan_exchange m p s = do {
     let s = s\<lparr>demote_idx := skip_slow (on_fast s) (promote_idx s) (demote_idx s)\<rparr>;
     (if demote_idx s \<le> promote_idx s \<or> demote_idx s \<le> dram_pages s then Some (False, s)
      else do {
        let cp = se_page (scores s ! demote_idx s);
        assert_that (in_dram (body s cp) \<and> va (body s cp) > 0);
        (if \<not> continue_migration (promotion_cost_avg s) (demotion_cost_avg s) (latency_diff (detector s)) (body s p) (body s cp)
         then Some (False, s)
         else do {
           (np, lk) \<leftarrow> dequeue_fifo (links s) NVM_FREE;
           (if np = NULL then Some (False, s)
            else do {
              s \<leftarrow> submit m \<lparr>dram_page = cp, nvm_page = p, free_page = np, need_demotion = True\<rparr> (s\<lparr>links := lk\<rparr>);
              Some (True, s\<lparr>migrated_bytes := migrated_bytes s + 2 * pt_to_pagesize (pt (body s cp)),
                            migrated_pages := migrated_pages s + 2,
                            promote_idx := promote_idx s + 1, demote_idx := demote_idx s - 1\<rparr>)
            })
         })
      })
   }"

text \<open>One round: the result says whether the loop goes on.\<close>

definition plan_iter :: "addr \<Rightarrow> 'a policy_state_scheme \<Rightarrow> (bool \<times> 'a policy_state_scheme) option" where
  "plan_iter m s =
     (if \<not> (promote_idx s < dram_pages s \<and> promote_idx s < demote_idx s) then Some (False, s)
      else if num_migration_jobs s \<ge> unat (max_migrations_cur_interval s) then Some (False, s)
      else if se_score (scores s ! promote_idx s) = 0 then Some (False, s)
      else
        let s = s\<lparr>promote_idx := skip_fast (on_fast s) (promote_idx s) (demote_idx s)\<rparr> in
        if promote_idx s \<ge> demote_idx s then Some (False, s)
        else do {
          let p = se_page (scores s ! promote_idx s);
          assert_that (\<not> in_dram (body s p));
          (if \<not> can_promote (body s p) then Some (True, s\<lparr>promote_idx := promote_idx s + 1\<rparr>)
           else do {
             (np, lk) \<leftarrow> dequeue_fifo (links s) DRAM_FREE;
             (if np \<noteq> NULL then plan_promotion m p np (s\<lparr>links := lk\<rparr>)
              else plan_exchange m p s)
           })
        })"

lemma skip_fast_bounds: "p \<le> skip_fast f p d \<and> (p \<le> d \<longrightarrow> skip_fast f p d \<le> d) \<and> (skip_fast f p d < d \<longrightarrow> \<not> f (skip_fast f p d))"
  by (induction f p d rule: skip_fast.induct) (subst (1 2 3 4) skip_fast.simps, auto)

lemma skip_slow_bounds: "skip_slow f p d \<le> d \<and> (p < skip_slow f p d \<longrightarrow> f (skip_slow f p d))"
  by (induction f p d rule: skip_slow.induct) (subst (1 2 3) skip_slow.simps, auto)

lemma submit_fields:
  assumes "submit m r s = Some s'"
  shows "promote_idx s' = promote_idx s" "demote_idx s' = demote_idx s" "num_migration_jobs s' = num_migration_jobs s + 1"
    "scores s' = scores s" "body s' = body s" "links s' = links s" "dramsize s' = dramsize s"
  using assms by (auto simp: submit_def bind_Some_iff Let_def)

definition fast_stop :: "'a policy_state_scheme \<Rightarrow> nat" where
  "fast_stop s = skip_fast (on_fast s) (promote_idx s) (demote_idx s)"

definition slow_stop :: "'a policy_state_scheme \<Rightarrow> nat" where
  "slow_stop s = skip_slow (on_fast s) (fast_stop s) (demote_idx s)"

text \<open>What a round that starts must have seen, and the outcomes of a round.\<close>

definition round_starts :: "'a policy_state_scheme \<Rightarrow> bool" where
  "round_starts s \<longleftrightarrow> promote_idx s < dram_pages s \<and> fast_stop s < demote_idx s \<and>
     num_migration_jobs s < unat (max_migrations_cur_interval s) \<and> se_score (scores s ! promote_idx s) \<noteq> 0 \<and>
     \<not> on_fast s (fast_stop s)"

definition worth_promoting :: "'a policy_state_scheme \<Rightarrow> addr \<Rightarrow> bool" where
  "worth_promoting s p \<longleftrightarrow> migration_cost (promotion_cost_avg s) (demotion_cost_avg s) \<le>
     migration_benefit (score (body s p)) (hot_age (body s p)) (latency_diff (detector s))"

inductive plan_result :: "addr \<Rightarrow> 'a policy_state_scheme \<Rightarrow> bool \<Rightarrow> 'a policy_state_scheme \<Rightarrow> bool" where
  stop: "plan_result m s False (s\<lparr>promote_idx := i, demote_idx := j\<rparr>)"
| skip: "round_starts s \<Longrightarrow> plan_result m s True (s\<lparr>promote_idx := fast_stop s + 1\<rparr>)"
| give_back: "round_starts s \<Longrightarrow> p = se_page (scores s ! fast_stop s) \<Longrightarrow>
    dequeue_fifo (links s) DRAM_FREE = Some (np, lk) \<Longrightarrow> np \<noteq> NULL \<Longrightarrow> enqueue_fifo lk DRAM_FREE np = Some lk' \<Longrightarrow>
    plan_result m s False (s\<lparr>promote_idx := fast_stop s, links := lk'\<rparr>)"
| up: "round_starts s \<Longrightarrow> p = se_page (scores s ! fast_stop s) \<Longrightarrow> can_promote (body s p) \<Longrightarrow>
    dequeue_fifo (links s) DRAM_FREE = Some (np, lk) \<Longrightarrow> np \<noteq> NULL \<Longrightarrow> worth_promoting s p \<Longrightarrow>
    submit m \<lparr>dram_page = NULL, nvm_page = p, free_page = np, need_demotion = False\<rparr> (s\<lparr>promote_idx := fast_stop s, links := lk\<rparr>) = Some t \<Longrightarrow>
    plan_result m s True (t\<lparr>migrated_bytes := b, migrated_pages := c, promote_idx := fast_stop s + 1\<rparr>)"
| swap: "round_starts s \<Longrightarrow> p = se_page (scores s ! fast_stop s) \<Longrightarrow> can_promote (body s p) \<Longrightarrow>
    fast_stop s < slow_stop s \<Longrightarrow> dram_pages s < slow_stop s \<Longrightarrow> on_fast s (slow_stop s) \<Longrightarrow>
    cp = se_page (scores s ! slow_stop s) \<Longrightarrow>
    continue_migration (promotion_cost_avg s) (demotion_cost_avg s) (latency_diff (detector s)) (body s p) (body s cp) \<Longrightarrow>
    dequeue_fifo (links s) NVM_FREE = Some (np, lk) \<Longrightarrow> np \<noteq> NULL \<Longrightarrow>
    submit m \<lparr>dram_page = cp, nvm_page = p, free_page = np, need_demotion = True\<rparr>
      (s\<lparr>promote_idx := fast_stop s, demote_idx := slow_stop s, links := lk\<rparr>) = Some t \<Longrightarrow>
    plan_result m s True (t\<lparr>migrated_bytes := b, migrated_pages := c, promote_idx := fast_stop s + 1, demote_idx := slow_stop s - 1\<rparr>)"

lemma on_fast_fields [simp]:
  "on_fast (s\<lparr>promote_idx := i\<rparr>) = on_fast s" "on_fast (s\<lparr>demote_idx := j\<rparr>) = on_fast s" "on_fast (s\<lparr>links := lk\<rparr>) = on_fast s"
  by (auto simp: on_fast_def fun_eq_iff)

lemma plan_promotion_result:
  assumes "plan_promotion m p np (s\<lparr>promote_idx := fast_stop s, links := lk\<rparr>) = Some (go, s')" "round_starts s" "can_promote (body s p)"
    "p = se_page (scores s ! fast_stop s)" "dequeue_fifo (links s) DRAM_FREE = Some (np, lk)" "np \<noteq> NULL"
  shows "plan_result m s go s'"
proof -
  let ?s = "s\<lparr>promote_idx := fast_stop s, links := lk\<rparr>"
  show ?thesis
  proof (cases "worth_promoting s p")
    case True
    then obtain t where t: "submit m \<lparr>dram_page = NULL, nvm_page = p, free_page = np, need_demotion = False\<rparr> ?s = Some t" "go"
      "s' = t\<lparr>migrated_bytes := migrated_bytes t + pt_to_pagesize (pt (body t p)), migrated_pages := migrated_pages t + 1,
        promote_idx := promote_idx t + 1\<rparr>"
      using assms(1) by (auto simp: plan_promotion_def Let_def worth_promoting_def bind_Some_iff)
    have "promote_idx t = fast_stop s" using submit_fields(1) [OF t(1)] by simp
    then show ?thesis using plan_result.up [OF assms(2,4,3,5,6) True t(1)] t(2,3) by simp
  next
    case False
    then show ?thesis using assms plan_result.give_back [OF assms(2,4-6)]
      by (auto simp: plan_promotion_def Let_def worth_promoting_def bind_Some_iff)
  qed
qed

lemma plan_exchange_result:
  assumes "plan_exchange m p (s\<lparr>promote_idx := fast_stop s\<rparr>) = Some (go, s')" "round_starts s" "can_promote (body s p)"
    "p = se_page (scores s ! fast_stop s)"
  shows "plan_result m s go s'"
proof -
  let ?s = "s\<lparr>promote_idx := fast_stop s, demote_idx := slow_stop s\<rparr>" and ?cp = "se_page (scores s ! slow_stop s)"
  have dp: "dram_pages ?s = dram_pages s" by (simp add: dram_pages_def)
  have st: "plan_result m s False ?s" by (rule plan_result.stop)
  have D: "skip_slow (on_fast s) (fast_stop s) (demote_idx s) = slow_stop s" by (simp add: slow_stop_def)
  note run = assms(1)
  note ex = plan_exchange_def Let_def D dram_pages_def bind_Some_iff on_fast_def [of s "slow_stop s"]
  show ?thesis
  proof (cases "slow_stop s \<le> fast_stop s \<or> slow_stop s \<le> dram_pages s")
    case True
    then show ?thesis using run st by (auto simp: ex)
  next
    case False
    then have f: "fast_stop s < slow_stop s" "dram_pages s < slow_stop s" by auto
    show ?thesis
    proof (cases "continue_migration (promotion_cost_avg s) (demotion_cost_avg s) (latency_diff (detector s)) (body s p) (body s ?cp)")
      case go: True
      obtain np lk where np: "dequeue_fifo (links s) NVM_FREE = Some (np, lk)" and on: "on_fast s (slow_stop s)"
        using run f go by (auto simp: ex)
      show ?thesis
      proof (cases "np = NULL")
        case True
        then show ?thesis using run st f go np on by (auto simp: ex)
      next
        case False
        then obtain t where t: "submit m \<lparr>dram_page = ?cp, nvm_page = p, free_page = np, need_demotion = True\<rparr> (?s\<lparr>links := lk\<rparr>) = Some t" "go"
          "s' = t\<lparr>migrated_bytes := migrated_bytes t + 2 * pt_to_pagesize (pt (body t ?cp)), migrated_pages := migrated_pages t + 2,
             promote_idx := promote_idx t + 1, demote_idx := demote_idx t - 1\<rparr>"
          using run f go np on by (auto simp: ex)
        have "promote_idx t = fast_stop s" "demote_idx t = slow_stop s" using submit_fields(1,2) [OF t(1)] by simp_all
        then show ?thesis using plan_result.swap [OF assms(2,4,3) f on HOL.refl go np False t(1)] t(2,3) by simp
      qed
    next
      case stop: False
      then show ?thesis using run st f by (auto simp: ex)
    qed
  qed
qed

lemma plan_iter_result:
  assumes "plan_iter m s = Some (go, s')"
  shows "plan_result m s go s'"
proof -
  have st: "plan_result m s False s" "plan_result m s False (s\<lparr>promote_idx := i\<rparr>)" for i
    using plan_result.stop [where m = m and s = s and i = "promote_idx s" and j = "demote_idx s"]
      plan_result.stop [where m = m and s = s and i = i and j = "demote_idx s"] by simp_all
  let ?s = "s\<lparr>promote_idx := fast_stop s\<rparr>" and ?p = "se_page (scores s ! fast_stop s)"
  note run = assms [unfolded plan_iter_def Let_def, simplified, folded fast_stop_def]
  show ?thesis
  proof (cases "round_starts s")
    case True
    then have on: "\<not> in_dram (body s ?p)" and r: "promote_idx s < dram_pages s" "fast_stop s < demote_idx s"
      "num_migration_jobs s < unat (max_migrations_cur_interval s)" "se_score (scores s ! promote_idx s) \<noteq> 0"
      by (auto simp: round_starts_def on_fast_def)
    have lt: "promote_idx s < demote_idx s"
      using skip_fast_bounds [of "promote_idx s" "on_fast s" "demote_idx s"] r(2) unfolding fast_stop_def by linarith
    note run1 = run [simplified r lt on, simplified]
    show ?thesis
    proof (cases "can_promote (body s ?p)")
      case c: True
      obtain np lk where np: "dequeue_fifo (links s) DRAM_FREE = Some (np, lk)" using run1 r c on by (auto simp: bind_Some_iff)
      show ?thesis
      proof (cases "np = NULL")
        case n: True
        then have "plan_exchange m ?p ?s = Some (go, s')" using run1 r c on np by (auto simp: bind_Some_iff)
        then show ?thesis by (rule plan_exchange_result [OF _ True c HOL.refl])
      next
        case False
        then have "plan_promotion m ?p np (?s\<lparr>links := lk\<rparr>) = Some (go, s')" using run1 r c on np by (auto simp: bind_Some_iff)
        then show ?thesis by (rule plan_promotion_result [OF _ True c HOL.refl np False])
      qed
    next
      case False
      then show ?thesis using run1 r on plan_result.skip [OF True, of m] by auto
    qed
  next
    case False
    then show ?thesis using run st by (auto simp: round_starts_def on_fast_def bind_Some_iff split: if_splits)
  qed
qed

lemma stops_bounds:
  "promote_idx s \<le> fast_stop s" "slow_stop s \<le> demote_idx s"
  using skip_fast_bounds [of "promote_idx s" "on_fast s" "demote_idx s"] skip_slow_bounds [of "on_fast s" "fast_stop s" "demote_idx s"]
  by (auto simp: fast_stop_def slow_stop_def)

lemma plan_iter_decreases:
  assumes "plan_iter m s = Some (True, s')"
  shows "demote_idx s' - promote_idx s' < demote_idx s - promote_idx s"
  using plan_iter_result [OF assms]
proof cases
  case (up p np lk t b c)
  then show ?thesis using submit_fields(2) [OF up(8)] stops_bounds(1) [of s] by (auto simp: round_starts_def)
next
  case (swap p cp np lk t b c)
  then show ?thesis using stops_bounds [of s] by (auto simp: round_starts_def)
next
  case skip
  then show ?thesis using stops_bounds(1) [of s] by (auto simp: round_starts_def)
qed simp_all

text \<open>The loop; \<open>alloc\<close> gives the address of each request.\<close>

function plan_loop :: "(nat \<Rightarrow> addr) \<Rightarrow> 'a policy_state_scheme \<Rightarrow> 'a policy_state_scheme option" where
  "plan_loop alloc s =
     (case plan_iter (alloc (num_migration_jobs s)) s of
        None \<Rightarrow> None
      | Some (go, s') \<Rightarrow> if go then plan_loop alloc s' else Some s')"
  by pat_completeness auto

termination
  by (relation "measure (\<lambda>(alloc, s). demote_idx s - promote_idx s)") (auto intro: plan_iter_decreases)

declare plan_loop.simps [simp del]

section \<open>The end of an interval\<close>

definition end_interval :: "(nat \<Rightarrow> pbuftype \<Rightarrow> bool) \<Rightarrow> 'a policy_state_scheme \<Rightarrow> 'a policy_state_scheme" where
  "end_interval ok s = (
     let s = (if migrated_pages s = 0 then
                s\<lparr>promotion_cost_avg := decay_cost MIN_PROMOTION_COST (promotion_cost_avg s),
                  demotion_cost_avg := decay_cost MIN_DEMOTION_COST (demotion_cost_avg s)\<rparr> else s);
         (mode, per) = switch_mode ok (bias (detector s)) (sampling_mode s, sample_periods s)
     in s\<lparr>sampling_mode := mode, sample_periods := per\<rparr>)"

end
