(* ===== verification/Pebs_Program.thy ===== *)
theory Pebs_Program
  imports Pebs_Policy
begin

text \<open>
  The threads of \<open>src/pebs.c\<close> and \<open>src/arms.c\<close> together, with the code of each thread: the fault
  handler, unmapping calls, the scan thread, the policy thread with its phases, and the migration
  threads that take requests out of the queue \<open>migration_queue\<close>. The lemmas relate every step to
  the steps of theory Pebs_System, so that what is proved there holds for the program.
\<close>

section \<open>What the page operations leave alone\<close>

definition keeps :: "'a pebs_state_scheme \<Rightarrow> 'a pebs_state_scheme \<Rightarrow> bool" where
  "keeps s s' \<longleftrightarrow> mlinks s' = mlinks s \<and> reqs s' = reqs s \<and> completion s' = completion s \<and>
     promotion_cost_avg s' = promotion_cost_avg s \<and> demotion_cost_avg s' = demotion_cost_avg s \<and>
     pebs_state.more s' = pebs_state.more s"

lemma keeps_refl [simp]: "keeps s s"
  by (simp add: keeps_def)

lemma keeps_trans: "keeps s t \<Longrightarrow> keeps t u \<Longrightarrow> keeps s u"
  by (simp add: keeps_def)

lemma keeps_links [simp]:
  "keeps s (t\<lparr>links := lk\<rparr>) = keeps s t" "keeps s (t\<lparr>pages := h\<rparr>) = keeps s t" "keeps s (t\<lparr>pages_map := h\<rparr>) = keeps s t"
  "keeps s (t\<lparr>mod_page_dq := q\<rparr>) = keeps s t" "keeps s (upd_page p f t) = keeps s t"
  by (simp_all add: keeps_def upd_page_def)

lemma keeps_arms:
  fixes s s' :: "'a pebs_state_scheme"
  assumes "arms_state.more s' = arms_state.more s"
  shows "keeps s s'"
  using assms by (cases s; cases s'; simp add: keeps_def)

lemma keeps_fields:
  fixes s s' :: "'a policy_state_scheme"
  assumes "keeps s s'"
  shows "scores s' = scores s" "promote_idx s' = promote_idx s" "demote_idx s' = demote_idx s"
    "num_migration_jobs s' = num_migration_jobs s" "detector s' = detector s" "sampling_mode s' = sampling_mode s"
    "max_migrations_cur_interval s' = max_migrations_cur_interval s"
  using assms unfolding keeps_def by (cases s; cases s'; simp)+

lemma keeps_arms_fields [simp]:
  "keeps s (t\<lparr>internal_call := b\<rparr>) = keeps s t" "keeps s (t\<lparr>memsets := c\<rparr>) = keeps s t"
  "keeps s (t\<lparr>mem_allocated := c\<rparr>) = keeps s t" "keeps s (t\<lparr>vmap := v\<rparr>) = keeps s t"
  "keeps s (t\<lparr>missing_faults_handled := c\<rparr>) = keeps s t" "keeps s (t\<lparr>pages_allocated := c\<rparr>) = keeps s t"
  "keeps s (t\<lparr>mem_mmaped := c\<rparr>) = keeps s t" "keeps s (t\<lparr>pages_freed := c\<rparr>) = keeps s t"
  "keeps (s\<lparr>internal_call := b\<rparr>) t = keeps s t"
  by (simp_all add: keeps_def)

lemma zero_map_keeps [simp]:
  "keeps s (zero_frame t d off n) = keeps s t" "keeps s (map_frame t a d off) = keeps s t"
  "pages_map (zero_frame (t :: 'a pebs_state_scheme) d off n) = pages_map t" "pages_map (map_frame (t :: 'a pebs_state_scheme) a d off) = pages_map t"
  by (simp_all add: keeps_def zero_frame_def map_frame_def)

lemma pagefault_keeps: "pebs_pagefault s = Some (p, s') \<Longrightarrow> keeps s s' \<and> pages_map s' = pages_map s"
  by (auto simp: pebs_pagefault_def pebs_allocate_page_def bind_Some_iff split: if_splits)

lemma place_page_keeps: "place_page K ex s a = Some (p, s') \<Longrightarrow> keeps s s' \<and> pages_map s' = pages_map s"
  using pagefault_keeps [of s] by (auto simp: place_page_def Let_def bind_Some_iff)

lemma add_page_keeps: "pebs_add_page oom s p = Some s' \<Longrightarrow> keeps s s' \<and> pages_map s' = pages_map s"
  by (auto simp: pebs_add_page_def Let_def bind_Some_iff)

lemma fault_keeps:
  assumes "handle_missing_fault K oom s a = Some s'"
  shows "keeps s s' \<and> pages_map s' = pages_map s"
proof -
  obtain p s1 s2 where "place_page K True (s\<lparr>internal_call := True\<rparr>) a = Some (p, s1)" "pebs_add_page oom s1 p = Some s2"
    "s' = s2\<lparr>missing_faults_handled := missing_faults_handled s2 + 1, pages_allocated := pages_allocated s2 + 1, internal_call := False\<rparr>"
    using assms by (auto simp: handle_missing_fault_def Let_def bind_Some_iff)
  then have "keeps s s1 \<and> pages_map s1 = pages_map s" "keeps s1 s2 \<and> pages_map s2 = pages_map s1" "keeps s2 s' \<and> pages_map s' = pages_map s2"
    using place_page_keeps [of K True "s\<lparr>internal_call := True\<rparr>" a p s1] add_page_keeps [of oom s1 p s2] by simp_all
  then show ?thesis using keeps_trans by metis
qed

lemma remove_keeps: "pebs_remove_page s p = Some s' \<Longrightarrow> keeps s s'"
  by (auto simp: pebs_remove_page_def remove_page_queue_def remove_page_clear_def bind_Some_iff Let_def)

lemma munmap_pages_keeps: "munmap_pages stop b s = Some s' \<Longrightarrow> keeps s s'"
proof (induct rule: munmap_pages.raw_induct [rotated 1, consumes 1, case_names step])
  case (step f stop b s s')
  have go: "keeps s s'" if "keeps s t" "f stop c t = Some s'" for c t
    using step(1) [OF that(2)] that(1) keeps_trans by blast
  show ?case
  proof (cases "b < stop")
    case True
    then obtain page where page: "pebs_find_page s b = Some page" using step(2) by (auto simp: bind_Some_iff)
    show ?thesis
    proof (cases "page = NULL")
      case n: True
      then have "f stop (b + BASEPAGE_SIZE) s = Some s'" using step(2) page True by auto
      then show ?thesis by (rule step(1))
    next
      case False
      then obtain t c where "f stop c t = Some s'" "keeps s t"
        using step(2) True page remove_keeps [of s page] by (auto simp: bind_Some_iff Let_def)
      then show ?thesis using go by blast
    qed
  next
    case False
    then show ?thesis using step(2) by simp
  qed
qed

lemma munmap_keeps: 
  assumes "arms_munmap ret s a n = Some (r, s')"
  shows "keeps s s'"
proof -
  let ?s = "s\<lparr>internal_call := True\<rparr>"
  obtain s1 where s1: "munmap_pages (a + n) a ?s = Some s1"
    "s' = (if ret = 0 then s1\<lparr>vmap := (\<lambda>v. if v - a < n then None else vmap s1 v)\<rparr> else s1)\<lparr>internal_call := False\<rparr>"
    using assms by (auto simp: arms_munmap_def bind_Some_iff Let_def)
  have "keeps s ?s" by (rule keeps_arms) simp
  moreover have "keeps s1 s'" by (rule keeps_arms) (simp add: s1(2))
  ultimately show ?thesis using munmap_pages_keeps [OF s1(1)] keeps_trans by blast
qed

lemma drain_keeps: "drain_one oom s = Some (b, s') \<Longrightarrow> keeps s s'"
  by (auto simp: drain_one_def Let_def bind_Some_iff upd_page_def keeps_def split: prod.splits option.splits if_splits)

lemma migrate_keeps:
  assumes "kernel_ok K" "(if up then pebs_migrate_up else pebs_migrate_down) K s p off = Some s'"
  shows "keeps s s' \<and> pages_map s' = pages_map s"
  using keeps_arms [OF migrate_fields(5) [OF assms(2,1)]] pebs_fields_more(3) [OF migrate_fields(5) [OF assms(2,1)]] by simp

lemma demote_keeps:
  assumes K: "kernel_ok K" and run: "demote_to_free_nvm_page K s cp np = Some (b, s')"
  shows "keeps s s' \<and> pages_map s' = pages_map s"
  using run migrate_keeps [OF K, of False s cp]
  by (auto simp: demote_to_free_nvm_page_def Let_def bind_Some_iff split: if_splits)

lemma promote_keeps:
  assumes K: "kernel_ok K" and run: "promote_to_free_dram_page K s p np = Some s'"
  shows "keeps s s' \<and> pages_map s' = pages_map s"
  using run migrate_keeps [OF K, of True s p]
  by (auto simp: promote_to_free_dram_page_def Let_def bind_Some_iff split: if_splits)

section \<open>Scoring and planning change no page\<close>

lemma page_core_score [simp]:
  "page_core (score_page mode prev b p) = page_core p" "page_core (p\<lparr>hot_age := a\<rparr>) = page_core p"
  "page_core (p\<lparr>can_promote := c\<rparr>) = page_core p"
  by (cases mode; simp add: page_core_def frame_of_def score_page_def clear_accesses_def update_window_def Let_def)+

text \<open>\<open>quiet s s'\<close>: the step changed scores and counters only, and left queue and requests alone.\<close>

definition quiet :: "'a policy_state_scheme \<Rightarrow> 'a policy_state_scheme \<Rightarrow> bool" where
  "quiet s s' \<longleftrightarrow> same_core s s' \<and> mlinks s' = mlinks s \<and> reqs s' = reqs s \<and> completion s' = completion s \<and>
     num_migration_jobs s' = num_migration_jobs s"

lemma quiet_refl [simp]: "quiet s s"
  by (simp add: quiet_def)

lemma quiet_trans: "quiet s t \<Longrightarrow> quiet t u \<Longrightarrow> quiet s u"
  by (auto simp: quiet_def intro: same_core_trans)

lemma quiet_upd:
  assumes "\<And>x. page_core (f x) = page_core x"
  shows "quiet s (upd_page p f s)"
  using assms by (auto simp: quiet_def upd_page_def intro!: same_coreI)

lemma scores_upd [simp]: "scores (upd_page p f s) = scores s" "num_migration_jobs (upd_page p f s) = num_migration_jobs s"
  by (simp_all add: upd_page_def)

text \<open>The pages that the loop over the buckets scores, in the order of the buckets.\<close>

definition scored :: "'a policy_state_scheme \<Rightarrow> u32 list \<Rightarrow> addr list" where
  "scored s keys = filter (\<lambda>p. p \<noteq> NULL \<and> present (body s p))
     (map (kh_value (pages_map s)) (filter (kh_exist (pages_map s)) keys))"

lemma present_core: "page_core p = page_core q \<Longrightarrow> present p = present q"
  by (simp add: page_core_def)

lemma scored_quiet: "quiet s s' \<Longrightarrow> scored s' keys = scored s keys"
  unfolding scored_def by (rule filter_cong) (auto simp: quiet_def same_core_def dest: present_core)

lemma calculate_scores_loop_spec:
  "calculate_scores_loop keys out s = (out', s') \<Longrightarrow>
     quiet s s' \<and> scores s' = scores s \<and> map se_page out' = map se_page out @ scored s keys"
proof (induction keys arbitrary: out s)
  case Nil
  then show ?case by (simp add: scored_def)
next
  case (Cons key keys)
  let ?p = "kh_value (pages_map s) key"
  show ?case
  proof (cases "kh_exist (pages_map s) key \<and> ?p \<noteq> NULL \<and> present (body s ?p)")
    case False
    then have "scored s (key # keys) = scored s keys" by (auto simp: scored_def)
    moreover have "calculate_scores_loop keys out s = (out', s')"
      using Cons.prems False by (cases "kh_exist (pages_map s) key") (auto simp: Let_def split: if_splits)
    ultimately show ?thesis using Cons.IH by simp
  next
    case True
    define t where "t = upd_page ?p (score_page (sampling_mode s) (prev_access_version s) (bias_values_of (bias (detector s)))) s"
    have q: "quiet s t" unfolding t_def by (rule quiet_upd) simp
    have "calculate_scores_loop keys (out @ [\<lparr>se_page = ?p, se_score = score (body t ?p)\<rparr>]) t = (out', s')"
      using Cons.prems True by (simp add: Let_def t_def)
    note IH = Cons.IH [OF this]
    have "scored s (key # keys) = ?p # scored s keys" using True by (simp add: scored_def)
    then show ?thesis using IH q quiet_trans [OF q] scored_quiet [OF q] by (simp add: t_def)
  qed
qed

lemma kh_exist_live: "kh_exist h k \<longleftrightarrow> live (kh_flags h) (unat k)"
  by (simp add: kh_exist_def ac_iseither_live)

text \<open>No page is scored twice, and all of them are in the table.\<close>

lemma scored_all:
  assumes wf: "kh_wf (pages_map s)" and own: "own_keys (va_of s) (kh_map (pages_map s))"
  defines "ks \<equiv> map of_nat [0..<unat (kh_end (pages_map s))]"
  shows "distinct (scored s ks) \<and> set (scored s ks) \<subseteq> ran (kh_map (pages_map s))"
proof -
  let ?h = "pages_map s"
  have d: "distinct (map fst (kh_entries ?h))" using wf by (simp add: kh_wf_def)
  have u: "unat (of_nat j :: u32) = j" if "j < kh_n ?h" for j
  proof -
    have "kh_n ?h < 2 ^ LENGTH(32)" by (rule unsigned_less)
    then show ?thesis using that by (simp add: unat_of_nat)
  qed
  have m: "kh_map ?h (kh_keys ?h ! unat k) = Some (kh_value ?h k)" if "k \<in> set ks" "kh_exist ?h k" for k
    using that u unfolding kh_map_iff [OF d] by (auto simp: ks_def kh_end_def kh_exist_live kh_value_def)
  have i: "inj_on (kh_value ?h) {k \<in> set ks. kh_exist ?h k}"
  proof (rule inj_onI)
    fix k k' assume k: "k \<in> {k \<in> set ks. kh_exist ?h k}" "k' \<in> {k \<in> set ks. kh_exist ?h k}" "kh_value ?h k = kh_value ?h k'"
    then have "kh_keys ?h ! unat k = kh_keys ?h ! unat k'"
      using m [of k] m [of k'] own unfolding own_keys_def by (metis (mono_tags, lifting) mem_Collect_eq)
    moreover have "inj_on (\<lambda>j. kh_keys ?h ! j) (lives (kh_n ?h) (kh_flags ?h))"
      using d unfolding kh_entries_def by (simp only: slots_distinct_iff)
    moreover have "unat k \<in> lives (kh_n ?h) (kh_flags ?h)" "unat k' \<in> lives (kh_n ?h) (kh_flags ?h)"
      using k u by (auto simp: lives_def ks_def kh_end_def kh_exist_live)
    ultimately have "unat k = unat k'" by (auto dest: inj_onD)
    then show "k = k'" by (rule unsigned_word_eqI)
  qed
  have "distinct ks" unfolding ks_def distinct_map
    using u by (auto simp: kh_end_def inj_on_def) (metis)
  then have "distinct (map (kh_value ?h) (filter (kh_exist ?h) ks))"
    using i by (simp add: distinct_map)
  then show ?thesis using m by (auto simp: scored_def intro: ranI)
qed

text \<open>Marking and sorting.\<close>

lemma mark_quiet:
  "quiet s (mark_top e s) \<and> scores (mark_top e s) = scores s" "quiet s (mark_rest e s) \<and> scores (mark_rest e s) = scores s"
proof -
  let ?t = "upd_page (se_page e) (\<lambda>p. p\<lparr>hot_age := hot_age p + 1\<rparr>) s"
  have "quiet s ?t" by (rule quiet_upd) simp
  moreover have "quiet t (upd_page p (\<lambda>p. p\<lparr>can_promote := True\<rparr>) t)" for p and t :: "'a policy_state_scheme" by (rule quiet_upd) simp
  ultimately show "quiet s (mark_top e s) \<and> scores (mark_top e s) = scores s"
    by (auto simp: mark_top_def Let_def intro: quiet_trans)
  have "page_core (p\<lparr>hot_age := 0, can_promote := False\<rparr>) = page_core p" for p by (simp add: page_core_def frame_of_def)
  then show "quiet s (mark_rest e s) \<and> scores (mark_rest e s) = scores s"
    unfolding mark_rest_def by (simp add: quiet_upd)
qed

lemma fold_quiet:
  assumes "\<And>e s. quiet s (f e s) \<and> scores (f e s) = scores s"
  shows "quiet s (fold f es s) \<and> scores (fold f es s) = scores s"
proof (induction es arbitrary: s)
  case (Cons e es)
  then show ?case using assms [of s e] quiet_trans by (metis fold_simps(2))
qed simp

lemma mark_pages_quiet: "quiet s (mark_pages s) \<and> scores (mark_pages s) = scores s"
proof -
  let ?t = "fold mark_top (take (dram_pages s) (scores s)) s"
  have "quiet s ?t \<and> scores ?t = scores s" by (rule fold_quiet) (rule mark_quiet)
  moreover have "quiet ?t (mark_pages s) \<and> scores (mark_pages s) = scores ?t"
    unfolding mark_pages_def Let_def by (rule fold_quiet) (rule mark_quiet)
  ultimately show ?thesis using quiet_trans by metis
qed

text \<open>What \<open>qsort\<close> promises.\<close>

definition sorts :: "(score_entry list \<Rightarrow> score_entry list) \<Rightarrow> bool" where
  "sorts qs \<longleftrightarrow> (\<forall>es. mset (qs es) = mset es \<and> sorted_wrt (\<lambda>a b. sort_entry_cmp a b \<le> 0) (qs es))"

definition scores_ok :: "'a policy_state_scheme \<Rightarrow> bool" where
  "scores_ok s \<longleftrightarrow> distinct (map se_page (scores s)) \<and> set (map se_page (scores s)) \<subseteq> ran (kh_map (pages_map s))"

lemma rank_pages_spec:
  assumes qs: "sorts qs" and wf: "kh_wf (pages_map s)" and own: "own_keys (va_of s) (kh_map (pages_map s))"
  shows "quiet s (rank_pages qs s) \<and> scores_ok (rank_pages qs s) \<and>
    sorted_wrt (\<lambda>a b. se_score a \<ge> se_score b) (scores (rank_pages qs s)) \<and>
    (scores (rank_pages qs s) \<noteq> [] \<longrightarrow> promote_idx (rank_pages qs s) = 0 \<and> demote_idx (rank_pages qs s) = length (scores (rank_pages qs s)) - 1)"
proof -
  obtain out s1 where c: "calculate_scores_map s = (out, s1)" by (cases "calculate_scores_map s")
  let ?ks = "map of_nat [0..<unat (kh_end (pages_map s))] :: u32 list"
  have 1: "quiet s s1 \<and> distinct (map se_page out) \<and> set (map se_page out) \<subseteq> ran (kh_map (pages_map s))"
  proof (cases "kh_size (pages_map s) = 0")
    case True
    then show ?thesis using c by (simp add: calculate_scores_map_def)
  next
    case False
    then have "calculate_scores_loop ?ks [] s = (out, s1)" using c by (simp add: calculate_scores_map_def)
    then show ?thesis using calculate_scores_loop_spec scored_all [OF wf own] by fastforce
  qed
  let ?s2 = "s1\<lparr>scores := qs out\<rparr>"
  have q2: "quiet s1 ?s2" by (auto simp: quiet_def intro!: same_coreI)
  note q3 = mark_pages_quiet [of ?s2]
  define s3 where "s3 = mark_pages ?s2"
  have r: "rank_pages qs s = (if scores s3 = [] then s3
        else s3\<lparr>min_score := se_score (scores s3 ! (length (scores s3) - 1)), max_score := se_score (scores s3 ! 0),
               promote_idx := 0, demote_idx := length (scores s3) - 1, migrated_pages := 0\<rparr>)"
    by (simp add: rank_pages_def c Let_def s3_def)
  have q4: "quiet s3 (rank_pages qs s)" unfolding r by (auto simp: quiet_def intro!: same_coreI)
  have "scores s3 = qs out" using q3 by (simp add: s3_def)
  then have sc: "scores (rank_pages qs s) = qs out" by (simp add: r)
  have m: "mset (qs out) = mset out" and so: "sorted_wrt (\<lambda>a b. sort_entry_cmp a b \<le> 0) (qs out)"
    using qs unfolding sorts_def by blast+
  have "mset (map se_page (qs out)) = mset (map se_page out)" using m by simp
  then have d: "distinct (map se_page (qs out))" "set (map se_page (qs out)) = set (map se_page out)"
    using 1 by (metis mset_eq_imp_distinct_iff, metis mset_eq_setD)
  have Q: "quiet s (rank_pages qs s)" using 1 q2 q3 q4 quiet_trans unfolding s3_def by metis
  then have "pages_map (rank_pages qs s) = pages_map s" by (simp add: quiet_def same_core_def)
  then have "scores_ok (rank_pages qs s)" using d 1 by (simp add: scores_ok_def sc)
  moreover have "sorted_wrt (\<lambda>a b. se_score a \<ge> se_score b) (qs out)"
    using so by (rule sorted_wrt_mono_rel [rotated]) (auto simp: sort_entry_cmp_def split: if_splits)
  moreover have "scores (rank_pages qs s) \<noteq> [] \<longrightarrow> promote_idx (rank_pages qs s) = 0 \<and> demote_idx (rank_pages qs s) = length (scores (rank_pages qs s)) - 1"
    by (simp add: r)
  ultimately show ?thesis using Q sc by simp
qed

section \<open>The program\<close>

text \<open>
  The phases of the policy thread: between two plans, scores sorted and waiting for the last
  migrations, and planning. The third part of a state are the requests that a migration thread has
  taken out of the queue and not finished, the fourth is the number of migration threads that are
  awake and hold no request. The other migration threads wait for \<open>submission_sem\<close>.
\<close>

datatype phase = IDLE | READY | PLANNING

type_synonym 'a prog = "phase \<times> 'a policy_state_scheme \<times> migration_req list \<times> nat"

inductive prog_step :: "kernel \<Rightarrow> (score_entry list \<Rightarrow> score_entry list) \<Rightarrow> 'a prog \<Rightarrow> 'a prog \<Rightarrow> bool" for K qs where
  fault: "vmap s a = None \<Longrightarrow> handle_missing_fault K None s a = Some s' \<Longrightarrow> prog_step K qs (ph, s, H, w) (ph, s', H, w)"
| unmap: "huge_range a n \<Longrightarrow> arms_munmap 0 s a n = Some (0, s') \<Longrightarrow> prog_step K qs (ph, s, H, w) (ph, s', H, w)"
| scan: "scan_one i j s = Some s' \<Longrightarrow> prog_step K qs (ph, s, H, w) (ph, s', H, w)"
| begin_round: "prog_step K qs (IDLE, s, H, w) (IDLE, begin_interval s, H, w)"
| bandwidth: "watch_bandwidth rd s = Some s' \<Longrightarrow> prog_step K qs (IDLE, s, H, w) (IDLE, s', H, w)"
| drain: "drain_one None s = Some (b, s') \<Longrightarrow> prog_step K qs (IDLE, s, H, w) (IDLE, s', H, w)"
| rank: "prog_step K qs (IDLE, s, H, w) (READY, rank_pages qs s, H, w)"
| no_pages: "scores s = [] \<Longrightarrow> prog_step K qs (READY, s, H, w) (IDLE, end_interval ok s, H, w)"
| wait: "scores s \<noteq> [] \<Longrightarrow> 0 < num_migration_jobs s \<Longrightarrow> 0 < completion s \<Longrightarrow> prog_step K qs (READY, s, H, w) (READY, wait_one s, H, w)"
| start: "scores s \<noteq> [] \<Longrightarrow> num_migration_jobs s = 0 \<Longrightarrow> prog_step K qs (READY, s, H, w) (PLANNING, plan_start s, H, w)"
| plan: "plan_iter m s = Some (True, s') \<Longrightarrow> m \<noteq> NULL \<Longrightarrow> d_list (mlinks s) m = None \<Longrightarrow>
    prog_step K qs (PLANNING, s, H, w) (PLANNING, s', H, w)"
| finish: "plan_iter m s = Some (False, s') \<Longrightarrow> prog_step K qs (PLANNING, s, H, w) (IDLE, end_interval ok s', H, w)"
| wake: "0 < submission s \<Longrightarrow> int (w + length H) < NUM_MIGRATION_THREADS \<Longrightarrow>
    prog_step K qs (ph, s, H, w) (ph, s\<lparr>submission := submission s - 1\<rparr>, H, w + 1)"
| take_req: "dequeue_fifo_m (mlinks s) () = Some (r, ml) \<Longrightarrow> r \<noteq> NULL \<Longrightarrow>
    prog_step K qs (ph, s, H, w + 1) (ph, s\<lparr>mlinks := ml\<rparr>, reqs s r # H, w)"
| sleep: "dequeue_fifo_m (mlinks s) () = Some (NULL, ml) \<Longrightarrow> prog_step K qs (ph, s, H, w + 1) (ph, s\<lparr>mlinks := ml\<rparr>, H, w)"
| demote: "r \<in> set H \<Longrightarrow> need_demotion r \<Longrightarrow> demote_to_free_nvm_page K s (dram_page r) (free_page r) = Some (True, s') \<Longrightarrow>
    prog_step K qs (ph, s, H, w) (ph, s'\<lparr>demotion_cost_avg := c\<rparr>, r\<lparr>need_demotion := False\<rparr> # remove1 r H, w)"
| give_up: "r \<in> set H \<Longrightarrow> need_demotion r \<Longrightarrow> demote_to_free_nvm_page K s (dram_page r) (free_page r) = Some (False, s') \<Longrightarrow>
    enqueue_fifo (links s') NVM_FREE (free_page r) = Some lk \<Longrightarrow>
    prog_step K qs (ph, s, H, w) (ph, s'\<lparr>links := lk, completion := completion s' + 1\<rparr>, remove1 r H, w + 1)"
| promote: "r \<in> set H \<Longrightarrow> \<not> need_demotion r \<Longrightarrow> promote_to_free_dram_page K s (nvm_page r) (free_page r) = Some s' \<Longrightarrow>
    prog_step K qs (ph, s, H, w) (ph, s'\<lparr>promotion_cost_avg := c, completion := completion s' + 1\<rparr>, remove1 r H, w + 1)"

text \<open>The pages that the planning loop can still choose.\<close>

definition plan_window :: "'a policy_state_scheme \<Rightarrow> addr set" where
  "plan_window s = {se_page (scores s ! i) |i. promote_idx s \<le> i \<and> i \<le> demote_idx s}"

text \<open>\<open>R\<close> are the requests handed out and not finished: those in the queue and those being carried out.\<close>

type_synonym 'a core_prog = "phase \<times> 'a policy_state_scheme \<times> migration_req list"

definition prog_ok :: "'a core_prog \<Rightarrow> migration_req list \<Rightarrow> bool" where
  "prog_ok = (\<lambda>(ph, s, H) R.
     (\<exists>q. dll_rep (mlinks s) q \<and> mset R = mset (map (reqs s) (q ())) + mset H) \<and>
     num_migration_jobs s = completion s + length R \<and>
     (ph \<noteq> IDLE \<longrightarrow> scores_ok s) \<and>
     (ph = READY \<and> scores s \<noteq> [] \<longrightarrow> promote_idx s = 0 \<and> demote_idx s = length (scores s) - 1) \<and>
     (ph = PLANNING \<longrightarrow> demote_idx s < length (scores s) \<and>
        (\<forall>r\<in>set R. nvm_page r \<notin> plan_window s \<and> (need_demotion r \<longrightarrow> dram_page r \<notin> plan_window s))))"

lemma prog_okI:
  assumes "dll_rep (mlinks s) q" "mset R = mset (map (reqs s) (q ())) + mset H" "num_migration_jobs s = completion s + length R"
    "ph \<noteq> IDLE \<Longrightarrow> scores_ok s"
    "ph = READY \<Longrightarrow> scores s \<noteq> [] \<Longrightarrow> promote_idx s = 0 \<and> demote_idx s = length (scores s) - 1"
    "ph = PLANNING \<Longrightarrow> demote_idx s < length (scores s)"
    "\<And>r. ph = PLANNING \<Longrightarrow> r \<in> set R \<Longrightarrow> nvm_page r \<notin> plan_window s"
    "\<And>r. ph = PLANNING \<Longrightarrow> r \<in> set R \<Longrightarrow> need_demotion r \<Longrightarrow> dram_page r \<notin> plan_window s"
  shows "prog_ok (ph, s, H) R"
  using assms unfolding prog_ok_def prod.case by blast

lemma prog_okD:
  assumes "prog_ok (ph, s, H) R"
  obtains q where "dll_rep (mlinks s) q" "mset R = mset (map (reqs s) (q ())) + mset H" "num_migration_jobs s = completion s + length R"
    "ph \<noteq> IDLE \<Longrightarrow> scores_ok s"
    "ph = READY \<Longrightarrow> scores s \<noteq> [] \<Longrightarrow> promote_idx s = 0 \<and> demote_idx s = length (scores s) - 1"
    "ph = PLANNING \<Longrightarrow> demote_idx s < length (scores s)"
    "\<And>r. ph = PLANNING \<Longrightarrow> r \<in> set R \<Longrightarrow> nvm_page r \<notin> plan_window s"
    "\<And>r. ph = PLANNING \<Longrightarrow> r \<in> set R \<Longrightarrow> need_demotion r \<Longrightarrow> dram_page r \<notin> plan_window s"
  using assms unfolding prog_ok_def prod.case by blast

lemma prog_ok_rest:
  assumes "prog_ok (ph, s, H) R"
  shows "ph \<noteq> IDLE \<Longrightarrow> scores_ok s" "ph = READY \<Longrightarrow> scores s \<noteq> [] \<Longrightarrow> promote_idx s = 0 \<and> demote_idx s = length (scores s) - 1"
    "ph = PLANNING \<Longrightarrow> demote_idx s < length (scores s)"
    "ph = PLANNING \<Longrightarrow> r \<in> set R \<Longrightarrow> nvm_page r \<notin> plan_window s"
    "ph = PLANNING \<Longrightarrow> r \<in> set R \<Longrightarrow> need_demotion r \<Longrightarrow> dram_page r \<notin> plan_window s"
    "num_migration_jobs s = completion s + length R"
  using assms unfolding prog_ok_def prod.case by blast+

text \<open>A step that keeps the fields of the policy keeps \<open>prog_ok\<close>.\<close>

lemma prog_ok_keeps:
  fixes s s' :: "'a policy_state_scheme"
  assumes ok: "prog_ok (ph, s, H) R" and k: "keeps s s'" and m: "ph \<noteq> IDLE \<Longrightarrow> pages_map s' = pages_map s"
  shows "prog_ok (ph, s', H) R"
proof -
  have f: "mlinks s' = mlinks s" "reqs s' = reqs s" "completion s' = completion s" using k by (simp_all add: keeps_def)
  note g = keeps_fields [OF k]
  have w: "plan_window s' = plan_window s" by (simp add: plan_window_def g)
  from ok show ?thesis
    by (rule prog_okD) (rule prog_okI, simp_all add: f g w m scores_ok_def)
qed

lemma prog_ok_quiet:
  assumes ok: "prog_ok (ph, s, H) R" and q: "quiet s s'"
    and f: "ph \<noteq> IDLE \<Longrightarrow> scores s' = scores s" "ph \<noteq> IDLE \<Longrightarrow> promote_idx s' = promote_idx s" "ph \<noteq> IDLE \<Longrightarrow> demote_idx s' = demote_idx s"
  shows "prog_ok (ph, s', H) R"
proof -
  have g: "mlinks s' = mlinks s" "reqs s' = reqs s" "completion s' = completion s" "num_migration_jobs s' = num_migration_jobs s"
    "pages_map s' = pages_map s" using q by (simp_all add: quiet_def same_core_def)
  have w: "plan_window s' = plan_window s" if "ph \<noteq> IDLE" using f that by (simp add: plan_window_def)
  from ok show ?thesis by (rule prog_okD) (rule prog_okI, auto simp: f g w scores_ok_def)
qed

section \<open>Every step of the program is a sequence of system steps\<close>

abbreviation planning :: "phase \<Rightarrow> bool" where
  "planning ph \<equiv> ph = PLANNING"

lemma sys_aside: "same_core s s' \<Longrightarrow> rtranclp (sys_step K) (pl, s, R) (pl, s', R)"
  by (rule r_into_rtranclp) (rule sys_step.aside)

lemma scan_one_quiet:
  assumes "scan_one i j s = Some s'"
  shows "quiet s s' \<and> scores s' = scores s \<and> promote_idx s' = promote_idx s \<and> demote_idx s' = demote_idx s"
proof -
  have r: "mlinks t = mlinks s \<and> reqs t = reqs s \<and> completion t = completion s \<and> num_migration_jobs t = num_migration_jobs s \<and>
    scores t = scores s \<and> promote_idx t = promote_idx s \<and> demote_idx t = demote_idx s" if "scan_record j r s = Some t" for r t
    using that by (cases r) (auto simp: scan_sample_def Let_def bind_Some_iff upd_page_def split: if_splits)
  show ?thesis using scan_one_core [OF assms] assms by (elim scan_one_cases) (auto simp: quiet_def dest: r)
qed

lemma begin_quiet: "quiet s (begin_interval s)"
  by (auto simp: quiet_def begin_interval_def intro!: same_coreI)

lemma bandwidth_quiet: "watch_bandwidth rd s = Some s' \<Longrightarrow> quiet s s'"
  by (auto simp: quiet_def watch_bandwidth_def bind_Some_iff intro!: same_coreI split: if_splits prod.splits)

lemma end_interval_core: "same_core s (end_interval ok s)"
  by (auto simp: end_interval_def Let_def split: prod.splits intro!: same_coreI)

lemma end_interval_fields:
  "mlinks (end_interval ok s) = mlinks s" "reqs (end_interval ok s) = reqs s" "completion (end_interval ok s) = completion s"
  "num_migration_jobs (end_interval ok s) = num_migration_jobs s"
  by (simp_all add: end_interval_def Let_def split: prod.splits)

lemma end_interval_ok: "prog_ok (ph, s, H) R \<Longrightarrow> prog_ok (IDLE, end_interval ok s, H) R"
  by (erule prog_okD) (rule prog_okI, simp_all add: end_interval_fields)

lemma submit_spec:
  assumes run: "submit m r s = Some s'" and m: "m \<noteq> NULL" "d_list (mlinks s) m = None" and q: "dll_rep (mlinks s) q"
  shows "same_core s s' \<and> dll_rep (mlinks s') (q(() := m # q ())) \<and>
    mset (map (reqs s') (m # q ())) = mset (map (reqs s) (q ())) + {#r#} \<and> completion s' = completion s"
proof -
  obtain ml where ml: "enqueue_fifo (mlinks s) () m = Some ml" "dll_rep ml (q(() := m # q ()))"
    using enqueue_fifo_rep [OF q m] by blast
  have "m \<notin> set (q ())" using m(2) dll_repD(7) [OF q] by simp
  then have "image_mset ((reqs s)(m := r)) (mset (q ())) = image_mset (reqs s) (mset (q ()))" by (intro image_mset_cong) auto
  moreover have "same_core s s'" "mlinks s' = ml" "reqs s' = (reqs s)(m := r)" "completion s' = completion s"
    using run ml(1) by (auto simp: submit_def enqueue_fifo_m_eq Let_def intro!: same_coreI)
  ultimately show ?thesis using ml(2) by simp
qed

text \<open>The page that a round chooses is in the window, and in no request that is under way.\<close>

lemma window_page:
  assumes ok: "prog_ok (PLANNING, s, H) R" and i: "promote_idx s \<le> i" "i \<le> demote_idx s"
  defines "p \<equiv> se_page (scores s ! i)"
  shows "p \<in> ran (kh_map (pages_map s))" "\<And>r. r \<in> set R \<Longrightarrow> p \<noteq> nvm_page r" "\<And>r. r \<in> set R \<Longrightarrow> need_demotion r \<Longrightarrow> p \<noteq> dram_page r"
proof -
  have w: "p \<in> plan_window s" using i by (auto simp: plan_window_def p_def)
  from ok obtain d: "demote_idx s < length (scores s)" and sok: "scores_ok s"
    and R: "\<And>r. r \<in> set R \<Longrightarrow> nvm_page r \<notin> plan_window s" "\<And>r. r \<in> set R \<Longrightarrow> need_demotion r \<Longrightarrow> dram_page r \<notin> plan_window s"
    by (rule prog_okD) blast
  show "p \<in> ran (kh_map (pages_map s))" using sok d i by (auto simp: scores_ok_def p_def)
  show "p \<noteq> nvm_page r" if "r \<in> set R" for r using R(1) [OF that] w by blast
  show "p \<noteq> dram_page r" if "r \<in> set R" "need_demotion r" for r using R(2) [OF that] w by blast
qed

lemma window_shrinks:
  assumes "scores s' = scores s" "promote_idx s \<le> promote_idx s'" "demote_idx s' \<le> demote_idx s"
  shows "plan_window s' \<subseteq> plan_window s"
  using assms by (fastforce simp: plan_window_def)

lemma scores_inj:
  assumes "scores_ok s" "i < length (scores s)" "j < length (scores s)" "se_page (scores s ! i) = se_page (scores s ! j)"
  shows "i = j"
  using assms by (auto simp: scores_ok_def distinct_conv_nth)

text \<open>A round of the planning loop that submits the request \<open>r\<close>.\<close>

lemma prog_ok_submit:
  assumes ok: "prog_ok (PLANNING, s, H) R" and m: "m \<noteq> NULL" "d_list (mlinks s) m = None"
    and run: "submit m r t = Some u" and t: "t = s\<lparr>promote_idx := i, demote_idx := j, links := lk\<rparr>"
    and s': "s' = u\<lparr>migrated_bytes := b, migrated_pages := c, promote_idx := i + 1, demote_idx := j'\<rparr>"
    and i: "promote_idx s \<le> i" "i < j" "j \<le> demote_idx s" "j' \<le> j"
    and r: "nvm_page r = se_page (scores s ! i)" "need_demotion r \<Longrightarrow> j' < j \<and> dram_page r = se_page (scores s ! j)"
  shows "prog_ok (PLANNING, s', H) (r # R) \<and> same_core t s'"
proof -
  from ok obtain q where q: "dll_rep (mlinks s) q" "mset R = mset (map (reqs s) (q ())) + mset H"
    "num_migration_jobs s = completion s + length R" and sok: "scores_ok s" and d: "demote_idx s < length (scores s)"
    and R: "\<And>r. r \<in> set R \<Longrightarrow> nvm_page r \<notin> plan_window s" "\<And>r. r \<in> set R \<Longrightarrow> need_demotion r \<Longrightarrow> dram_page r \<notin> plan_window s"
    by (rule prog_okD) blast
  have "mlinks t = mlinks s" "reqs t = reqs s" "completion t = completion s" by (simp_all add: t)
  then have S: "same_core t u" "dll_rep (mlinks u) (q(() := m # q ()))"
    "mset (map (reqs u) (m # q ())) = mset (map (reqs s) (q ())) + {#r#}" "completion u = completion s"
    using submit_spec [OF run m(1) _, of q] m(2) q(1) by simp_all
  note f = submit_fields [OF run]
  have c: "same_core u s'" unfolding s' by (rule same_coreI) simp_all
  have pm: "pages_map s' = pages_map s" using S(1) by (simp add: s' t same_core_def)
  have sc: "scores s' = scores s" using f by (simp add: s' t)
  have idx: "promote_idx s' = i + 1" "demote_idx s' = j'" by (simp_all add: s')
  have sub: "plan_window s' \<subseteq> plan_window s" using i by (intro window_shrinks) (simp_all add: sc idx)
  have notin: "se_page (scores s ! k) \<notin> plan_window s'" if "k \<le> i \<or> j' < k" "k \<le> demote_idx s" for k
  proof
    assume "se_page (scores s ! k) \<in> plan_window s'"
    then obtain l where l: "se_page (scores s ! k) = se_page (scores s ! l)" "i + 1 \<le> l" "l \<le> j'"
      by (auto simp: plan_window_def sc idx)
    then have "k = l" using d i that(2) by (intro scores_inj [OF sok]) auto
    then show False using l that(1) by auto
  qed
  have "prog_ok (PLANNING, s', H) (r # R)"
  proof (rule prog_okI)
    show "dll_rep (mlinks s') (q(() := m # q ()))" using S(2) by (simp add: s')
    show "mset (r # R) = mset (map (reqs s') ((q(() := m # q ())) ())) + mset H" using S(3) q(2) by (simp add: s')
    show "num_migration_jobs s' = completion s' + length (r # R)" using S(4) q(3) f(3) by (simp add: s' t)
    show "scores_ok s'" using sok by (simp add: scores_ok_def sc pm)
    show "demote_idx s' < length (scores s')" using d i by (simp add: sc idx)
    show "nvm_page x \<notin> plan_window s'" if "x \<in> set (r # R)" for x
      using that notin [of i] r(1) i R(1) sub by auto
    show "dram_page x \<notin> plan_window s'" if "x \<in> set (r # R)" "need_demotion x" for x
      using that notin [of j] r(2) i R(2) sub by auto
  qed simp_all
  then show ?thesis using same_core_trans [OF S(1) c] by blast
qed

lemma prog_ok_idle: "prog_ok (ph, s, H) R \<Longrightarrow> mlinks s' = mlinks s \<Longrightarrow> reqs s' = reqs s \<Longrightarrow> completion s' = completion s \<Longrightarrow>
    num_migration_jobs s' = num_migration_jobs s \<Longrightarrow> prog_ok (IDLE, s', H) R"
  by (erule prog_okD) (rule prog_okI, simp_all)

lemma round_bounds:
  assumes "round_starts s"
  shows "promote_idx s \<le> fast_stop s" "fast_stop s < demote_idx s" "\<not> in_dram (body s (se_page (scores s ! fast_stop s)))"
  using assms stops_bounds(1) [of s] by (auto simp: round_starts_def on_fast_def)

lemma plan_goes_on:
  assumes ok: "prog_ok (PLANNING, s, H) R" and st: "plan_result m s True s'" and m: "m \<noteq> NULL" "d_list (mlinks s) m = None"
  shows "\<exists>R'. rtranclp (sys_step K) (True, s, R) (True, s', R') \<and> prog_ok (PLANNING, s', H) R'"
  using st
proof cases
  case skip
  note b = round_bounds [OF skip(2)]
  have c: "same_core s s'" unfolding skip(1) by (rule same_coreI) simp_all
  have w: "plan_window s' \<subseteq> plan_window s" using b by (intro window_shrinks) (simp_all add: skip(1))
  have "prog_ok (PLANNING, s', H) R"
    using ok by (rule prog_okD) (rule prog_okI, use w in \<open>auto simp: skip(1) scores_ok_def\<close>)
  then show ?thesis using sys_aside [OF c] by blast
next
  case (up p np lk t c b)
  note B = round_bounds [OF up(2)]
  let ?r = "\<lparr>dram_page = NULL, nvm_page = p, free_page = np, need_demotion = False\<rparr>"
  let ?t = "s\<lparr>promote_idx := fast_stop s, links := lk\<rparr>"
  note W = window_page [OF ok B(1) less_imp_le [OF B(2)], folded up(3)]
  have 1: "sys_step K (True, s, R) (True, s\<lparr>links := lk\<rparr>, ?r # R)"
    by (rule sys_step.plan_up [OF W(1) _ W(2,3) up(5,6)]) (use B(3) in \<open>simp add: up(3)\<close>)
  have c: "same_core (s\<lparr>links := lk\<rparr>) ?t" by (rule same_coreI) simp_all
  have e1: "?t = s\<lparr>promote_idx := fast_stop s, demote_idx := demote_idx s, links := lk\<rparr>" by (cases s) simp
  have "demote_idx t = demote_idx s" using submit_fields(2) [OF up(8)] by simp
  then have e2: "s' = t\<lparr>migrated_bytes := b, migrated_pages := c, promote_idx := fast_stop s + 1, demote_idx := demote_idx s\<rparr>"
    unfolding up(1) by (cases t) simp
  have 2: "prog_ok (PLANNING, s', H) (?r # R) \<and> same_core ?t s'"
    by (rule prog_ok_submit [OF ok m up(8) e1 e2 B(1,2)]) (simp_all add: up(3))
  have "rtranclp (sys_step K) (True, s\<lparr>links := lk\<rparr>, ?r # R) (True, s', ?r # R)"
    by (rule sys_aside [OF same_core_trans [OF c 2 [THEN conjunct2]]])
  with 1 have "rtranclp (sys_step K) (True, s, R) (True, s', ?r # R)" by (rule converse_rtranclp_into_rtranclp)
  then show ?thesis using 2 [THEN conjunct1] by blast
next
  case (swap p cp np lk t c b)
  note B = round_bounds [OF swap(2)]
  have d: "slow_stop s \<le> demote_idx s" by (rule stops_bounds)
  let ?r = "\<lparr>dram_page = cp, nvm_page = p, free_page = np, need_demotion = True\<rparr>"
  let ?t = "s\<lparr>promote_idx := fast_stop s, demote_idx := slow_stop s, links := lk\<rparr>"
  note W = window_page [OF ok B(1) less_imp_le [OF B(2)], folded swap(3)]
  have lo: "promote_idx s \<le> slow_stop s" using B(1) swap(5) by simp
  note V = window_page [OF ok lo d, folded swap(8)]
  have 1: "sys_step K (True, s, R) (True, s\<lparr>links := lk\<rparr>, ?r # R)"
    by (rule sys_step.plan_swap [OF W(1) _ W(2,3) V(1) _ V(2,3) swap(10,11)])
      (use B(3) swap(7) in \<open>simp_all add: swap(3,8) on_fast_def\<close>)
  have c: "same_core (s\<lparr>links := lk\<rparr>) ?t" by (rule same_coreI) simp_all
  have 2: "prog_ok (PLANNING, s', H) (?r # R) \<and> same_core ?t s'"
    by (rule prog_ok_submit [OF ok m swap(12) HOL.refl swap(1) B(1) swap(5) d]) (use swap(5) in \<open>simp_all add: swap(3,8)\<close>)
  have "rtranclp (sys_step K) (True, s\<lparr>links := lk\<rparr>, ?r # R) (True, s', ?r # R)"
    by (rule sys_aside [OF same_core_trans [OF c 2 [THEN conjunct2]]])
  with 1 have "rtranclp (sys_step K) (True, s, R) (True, s', ?r # R)" by (rule converse_rtranclp_into_rtranclp)
  then show ?thesis using 2 [THEN conjunct1] by blast
qed simp_all

lemma plan_stops:
  assumes ok: "prog_ok (PLANNING, s, H) R" and st: "plan_result m s False s'"
  shows "rtranclp (sys_step K) (True, s, R) (True, s', R) \<and> prog_ok (IDLE, s', H) R"
  using st
proof cases
  case (stop j i)
  have "same_core s s'" unfolding stop by (rule same_coreI) simp_all
  then show ?thesis using sys_aside prog_ok_idle [OF ok, of s'] by (simp add: stop)
next
  case (give_back p np lk lk')
  note B = round_bounds [OF give_back(2)]
  let ?r = "\<lparr>dram_page = NULL, nvm_page = p, free_page = np, need_demotion = False\<rparr>"
  note W = window_page [OF ok B(1) less_imp_le [OF B(2)], folded give_back(3)]
  have 1: "sys_step K (True, s, R) (True, s\<lparr>links := lk\<rparr>, ?r # R)"
    by (rule sys_step.plan_up [OF W(1) _ W(2,3) give_back(4,5)]) (use B(3) in \<open>simp add: give_back(3)\<close>)
  have 2: "sys_step K (True, s\<lparr>links := lk\<rparr>, ?r # R) (True, s\<lparr>links := lk, links := lk'\<rparr>, remove1 ?r (?r # R))"
    by (rule sys_step.abandon) (use give_back(6) in simp_all)
  have "same_core (s\<lparr>links := lk, links := lk'\<rparr>) s'" unfolding give_back(1) by (rule same_coreI) simp_all
  from sys_aside [OF this] have "rtranclp (sys_step K) (True, s\<lparr>links := lk, links := lk'\<rparr>, R) (True, s', R)" .
  with 2 have "rtranclp (sys_step K) (True, s\<lparr>links := lk\<rparr>, ?r # R) (True, s', R)" by (simp add: converse_rtranclp_into_rtranclp)
  with 1 have "rtranclp (sys_step K) (True, s, R) (True, s', R)" by (rule converse_rtranclp_into_rtranclp)
  then show ?thesis using prog_ok_idle [OF ok, of s'] by (simp add: give_back)
qed simp_all

text \<open>The migration threads.\<close>

lemma prog_ok_take:
  assumes ok: "prog_ok (ph, s, H) R" and run: "dequeue_fifo_m (mlinks s) () = Some (r, ml)" "r \<noteq> NULL"
  shows "prog_ok (ph, s\<lparr>mlinks := ml\<rparr>, reqs s r # H) R"
  using ok
proof (rule prog_okD)
  fix q
  assume q: "dll_rep (mlinks s) q" "mset R = mset (map (reqs s) (q ())) + mset H" "num_migration_jobs s = completion s + length R"
    "ph \<noteq> IDLE \<Longrightarrow> scores_ok s" "ph = READY \<Longrightarrow> scores s \<noteq> [] \<Longrightarrow> promote_idx s = 0 \<and> demote_idx s = length (scores s) - 1"
    "ph = PLANNING \<Longrightarrow> demote_idx s < length (scores s)" "\<And>r. ph = PLANNING \<Longrightarrow> r \<in> set R \<Longrightarrow> nvm_page r \<notin> plan_window s"
    "\<And>r. ph = PLANNING \<Longrightarrow> r \<in> set R \<Longrightarrow> need_demotion r \<Longrightarrow> dram_page r \<notin> plan_window s"
  have ne: "q () \<noteq> []" using run dequeue_fifo_empty [OF q(1), of "()"] by (auto simp: dequeue_fifo_m_eq)
  then have r: "r = last (q ())" "dll_rep ml (q(() := butlast (q ())))"
    using dequeue_fifo_rep [OF q(1) ne] run by (auto simp: dequeue_fifo_m_eq)
  have "mset (q ()) = add_mset r (mset (butlast (q ())))"
    unfolding r(1) by (subst append_butlast_last_id [OF ne, symmetric]) simp
  then show "prog_ok (ph, s\<lparr>mlinks := ml\<rparr>, reqs s r # H) R"
    using q r(2) by (intro prog_okI [where q = "q(() := butlast (q ()))"]) (auto simp: scores_ok_def plan_window_def)
qed

lemma prog_ok_change:
  assumes ok: "prog_ok (ph, s, H) R"
    and f: "mlinks s' = mlinks s" "reqs s' = reqs s" "scores s' = scores s" "promote_idx s' = promote_idx s"
      "demote_idx s' = demote_idx s" "pages_map s' = pages_map s"
    and m: "\<And>A. mset R = A + mset H \<Longrightarrow> mset R' = A + mset H'" and n: "num_migration_jobs s' = completion s' + length R'"
    and sub: "\<And>x. x \<in> set R' \<Longrightarrow> \<exists>y\<in>set R. nvm_page x = nvm_page y \<and> (need_demotion x \<longrightarrow> need_demotion y \<and> dram_page x = dram_page y)"
  shows "prog_ok (ph, s', H') R'"
proof -
  from ok obtain q where q: "dll_rep (mlinks s) q" "mset R = mset (map (reqs s) (q ())) + mset H" by (rule prog_okD)
  note P = prog_ok_rest [OF ok]
  have w: "plan_window s' = plan_window s" by (simp add: plan_window_def f)
  show ?thesis
  proof (rule prog_okI)
    show "dll_rep (mlinks s') q" "mset R' = mset (map (reqs s') (q ())) + mset H'" using q m by (simp_all add: f)
    show "nvm_page x \<notin> plan_window s'" if "planning ph" "x \<in> set R'" for x using sub [OF that(2)] P(4) [OF that(1)] unfolding w by auto
    show "dram_page x \<notin> plan_window s'" if "planning ph" "x \<in> set R'" "need_demotion x" for x
      using sub [OF that(2)] P(5) [OF that(1)] that(3) unfolding w by auto
  qed (use P n in \<open>simp_all add: f scores_ok_def\<close>)
qed

lemma prog_ok_hands:
  fixes s s' :: "'a policy_state_scheme"
  assumes ok: "prog_ok (ph, s, H) R" and r: "r \<in> set H" and k: "keeps s s'" "pages_map s' = pages_map s"
  shows "prog_ok (ph, s'\<lparr>demotion_cost_avg := c\<rparr>, r\<lparr>need_demotion := False\<rparr> # remove1 r H) (r\<lparr>need_demotion := False\<rparr> # remove1 r R)"
    "prog_ok (ph, s'\<lparr>links := lk, completion := completion s' + 1\<rparr>, remove1 r H) (remove1 r R)"
    "prog_ok (ph, s'\<lparr>promotion_cost_avg := c, completion := completion s' + 1\<rparr>, remove1 r H) (remove1 r R)"
    "r \<in> set R"
proof -
  from ok obtain q where "mset R = mset (map (reqs s) (q ())) + mset H" by (rule prog_okD)
  moreover have m: "r \<in># mset H" using r by simp
  ultimately have "r \<in># mset R" by simp
  then show R: "r \<in> set R" by simp
  have rm: "mset (remove1 r R) = A + mset (remove1 r H)" if "mset R = A + mset H" for A using m that by simp
  have n: "num_migration_jobs s' = Suc (completion s' + length (remove1 r R))"
    using R prog_ok_rest(6) [OF ok] k keeps_fields(4) [OF k(1)] length_pos_if_in_set [OF R] by (simp add: keeps_def length_remove1)
  have in1: "\<exists>y\<in>set R. nvm_page x = nvm_page y \<and> (need_demotion x \<longrightarrow> need_demotion y \<and> dram_page x = dram_page y)"
    if "x \<in> set (remove1 r R)" for x using that notin_set_remove1 by metis
  note f = k [unfolded keeps_def] keeps_fields(1-3) [OF k(1)]
  show "prog_ok (ph, s'\<lparr>demotion_cost_avg := c\<rparr>, r\<lparr>need_demotion := False\<rparr> # remove1 r H) (r\<lparr>need_demotion := False\<rparr> # remove1 r R)"
  proof (rule prog_ok_change [OF ok])
    fix x assume "x \<in> set (r\<lparr>need_demotion := False\<rparr> # remove1 r R)"
    then show "\<exists>y\<in>set R. nvm_page x = nvm_page y \<and> (need_demotion x \<longrightarrow> need_demotion y \<and> dram_page x = dram_page y)"
      using in1 R by (cases "x \<in> set (remove1 r R)") auto
  qed (use f n rm in simp_all)
  show "prog_ok (ph, s'\<lparr>links := lk, completion := completion s' + 1\<rparr>, remove1 r H) (remove1 r R)"
    by (rule prog_ok_change [OF ok _ _ _ _ _ _ rm _ in1]) (use f n in simp_all)
  show "prog_ok (ph, s'\<lparr>promotion_cost_avg := c, completion := completion s' + 1\<rparr>, remove1 r H) (remove1 r R)"
    by (rule prog_ok_change [OF ok _ _ _ _ _ _ rm _ in1]) (use f n in simp_all)
qed

text \<open>One step.\<close>

lemma one_then_aside:
  assumes "sys_step K c (pl, s, R)" "same_core s s'"
  shows "rtranclp (sys_step K) c (pl, s', R)"
  using assms sys_aside by (metis converse_rtranclp_into_rtranclp)

definition refined :: "kernel \<Rightarrow> 'a core_prog \<Rightarrow> migration_req list \<Rightarrow> 'a core_prog \<Rightarrow> bool" where
  "refined K = (\<lambda>(ph, s, H) R (ph', s', H'). \<exists>R'. rtranclp (sys_step K) (planning ph, s, R) (planning ph', s', R') \<and> prog_ok (ph', s', H') R')"

lemma refinedI:
  "rtranclp (sys_step K) (planning ph, s, R) (planning ph', s', R') \<Longrightarrow> prog_ok (ph', s', H') R' \<Longrightarrow> refined K (ph, s, H) R (ph', s', H')"
  by (auto simp: refined_def)

lemma refined_quiet:
  assumes "prog_ok (ph, s, H) R" "quiet s s'" "ph \<noteq> IDLE \<Longrightarrow> scores s' = scores s \<and> promote_idx s' = promote_idx s \<and> demote_idx s' = demote_idx s"
  shows "refined K (ph, s, H) R (ph, s', H)"
  by (rule refinedI [OF sys_aside prog_ok_quiet]) (use assms in \<open>auto simp: quiet_def\<close>)

lemma refined_sys:
  assumes "prog_ok (ph, s, H) R" "sys_step K (planning ph, s, R) (planning ph, s', R)" "keeps s s'" "ph \<noteq> IDLE \<Longrightarrow> pages_map s' = pages_map s"
  shows "refined K (ph, s, H) R (ph, s', H)"
  by (rule refinedI [OF r_into_rtranclp prog_ok_keeps]) (use assms in auto)


fun core_of :: "'a prog \<Rightarrow> 'a core_prog" where
  "core_of (ph, s, H, w) = (ph, s, H)"

lemma prog_step_refines:
  assumes K: "kernel_ok K" and qs: "sorts qs" and st: "prog_step K qs (ph, s, H, w) c'"
    and ok: "prog_ok (ph, s, H) R" and inv: "sys_inv F (planning ph, s, R)"
  shows "refined K (ph, s, H) R (core_of c')"
proof -
  obtain Q where Q: "sys_ok F Q (planning ph, s, R)" using inv by (auto simp: sys_inv_def)
  note D = sys_okD [OF Q]
  show ?thesis using st
  proof cases
    case (fault a s')
    then show ?thesis using refined_sys [OF ok sys_step.fault [OF fault(2,3)]] fault_keeps [OF fault(3)] by simp
  next
    case (unmap a n s')
    have "pages_map s' = pages_map s" using arms_munmap_inv [OF D(1-3) unmap(2,3)] by blast
    then show ?thesis using refined_sys [OF ok sys_step.unmap [OF unmap(2,3)]] munmap_keeps [OF unmap(3)] unmap by simp
  next
    case (scan i j s')
    then show ?thesis using refined_quiet [OF ok, of s'] scan_one_quiet [OF scan(2)] by simp
  next
    case begin_round
    then show ?thesis using refined_quiet [OF ok begin_quiet] by simp
  next
    case (bandwidth rd s')
    then show ?thesis using refined_quiet [OF ok bandwidth_quiet [OF bandwidth(3)]] by simp
  next
    case (drain b s')
    then have "sys_step K (planning ph, s, R) (planning ph, s', R)" using sys_step.drain [OF drain(3)] by simp
    then show ?thesis using refined_sys [OF ok _ drain_keeps [OF drain(3)]] drain by simp
  next
    case rank
    let ?s = "rank_pages qs s"
    note P = rank_pages_spec [OF qs pebs_invD(7,9) [OF D(1)]]
    have "prog_ok (READY, ?s, H) R"
      using ok by (rule prog_okD) (rule prog_okI, use P in \<open>auto simp: quiet_def\<close>)
    moreover have "rtranclp (sys_step K) (False, s, R) (False, ?s, R)" using P by (intro sys_aside) (simp add: quiet_def)
    ultimately show ?thesis unfolding rank core_of.simps by (intro refinedI) simp_all
  next
    case (no_pages ok')
    have "rtranclp (sys_step K) (planning ph, s, R) (planning IDLE, end_interval ok' s, R)"
      using sys_aside [OF end_interval_core] by (simp add: no_pages)
    then show ?thesis unfolding no_pages(2) core_of.simps by (rule refinedI) (rule end_interval_ok [OF ok])
  next
    case wait
    have "same_core s (wait_one s)" by (auto simp: wait_one_def intro!: same_coreI)
    from sys_aside [OF this] have "rtranclp (sys_step K) (planning ph, s, R) (planning READY, wait_one s, R)" by (simp add: wait)
    moreover have "prog_ok (READY, wait_one s, H) R"
      using ok by (rule prog_okD) (rule prog_okI, use wait in \<open>auto simp: wait_one_def scores_ok_def\<close>)
    ultimately show ?thesis unfolding wait(2) core_of.simps by (rule refinedI)
  next
    case start
    have R: "R = []" using prog_ok_rest(6) [OF ok] start by simp
    have core: "same_core s (plan_start s)" by (auto simp: plan_start_def intro!: same_coreI)
    have "sys_step K (planning ph, s, R) (True, s, R)" unfolding R using sys_step.start [of K s] by (simp add: start)
    from one_then_aside [OF this core] have run: "rtranclp (sys_step K) (planning ph, s, R) (planning PLANNING, plan_start s, R)" by simp
    have "prog_ok (PLANNING, plan_start s, H) R"
    proof -
      from ok obtain q where q: "dll_rep (mlinks s) q" "mset R = mset (map (reqs s) (q ())) + mset H" by (rule prog_okD)
      note P = prog_ok_rest [OF ok]
      show ?thesis
        using q P start R by (intro prog_okI [of _ q]) (simp_all add: plan_start_def scores_ok_def)
    qed
    with run show ?thesis unfolding start(2) core_of.simps by (rule refinedI)
  next
    case (plan m s')
    then obtain R' where R': "rtranclp (sys_step K) (planning ph, s, R) (planning PLANNING, s', R')" "prog_ok (PLANNING, s', H) R'"
      using plan_goes_on [OF _ plan_iter_result [OF plan(3)] plan(4,5), of H R K] ok by auto
    then show ?thesis unfolding plan(2) core_of.simps by (rule refinedI)
  next
    case (finish m s' ok')
    have P: "rtranclp (sys_step K) (True, s, R) (True, s', R)" "prog_ok (IDLE, s', H) R"
      using plan_stops [OF _ plan_iter_result [OF finish(3)], of H R K] ok finish(1) by auto
    have 2: "sys_step K (True, s', R) (False, s', R)" by (rule sys_step.stop)
    have "rtranclp (sys_step K) (planning ph, s, R) (planning IDLE, end_interval ok' s', R)"
      using rtranclp_trans [OF P(1) one_then_aside [OF 2 end_interval_core]] by (simp add: finish)
    then show ?thesis unfolding finish(2) core_of.simps by (rule refinedI) (rule end_interval_ok [OF P(2)])
  next
    case wake
    let ?s = "s\<lparr>submission := submission s - 1\<rparr>"
    have "quiet s ?s" by (auto simp: quiet_def intro!: same_coreI)
    from refined_quiet [OF ok this] show ?thesis unfolding wake core_of.simps by simp
  next
    case (take_req r ml w1)
    have "same_core s (s\<lparr>mlinks := ml\<rparr>)" by (rule same_coreI) simp_all
    from refinedI [OF sys_aside [OF this]] show ?thesis
      using prog_ok_take [OF ok take_req(3,4)] by (simp add: take_req(2))
  next
    case (sleep ml w1)
    obtain q where q: "dll_rep (mlinks s) q" using ok by (rule prog_okD)
    have "q () = []"
    proof (rule ccontr)
      assume ne: "q () \<noteq> []"
      then have "NULL \<in> set (q ())" using dequeue_fifo_rep [OF q ne] sleep(3) by (metis dequeue_fifo_m_eq last_in_set option.inject prod.inject)
      then show False using dll_repD(2) [OF q] by blast
    qed
    then have "ml = mlinks s" using dequeue_fifo_empty [OF q] sleep(3) by (simp add: dequeue_fifo_m_eq)
    then have "s\<lparr>mlinks := ml\<rparr> = s" by simp
    then show ?thesis using refined_quiet [OF ok quiet_refl] by (simp add: sleep(2))
  next
    case (demote r s' c)
    note k = demote_keeps [OF K demote(4)]
    note P = prog_ok_hands [OF ok demote(2)] 
    have core: "same_core s' (s'\<lparr>demotion_cost_avg := c\<rparr>)" by (rule same_coreI) simp_all
    show ?thesis unfolding demote(1) core_of.simps
      by (rule refinedI [OF one_then_aside [OF sys_step.demote core] P(1)]) (use P(4) k demote in auto)
  next
    case (give_up r s' lk)
    note k = demote_keeps [OF K give_up(4)]
    note P = prog_ok_hands [OF ok give_up(2)] 
    have core: "same_core (s'\<lparr>links := lk\<rparr>) (s'\<lparr>links := lk, completion := completion s' + 1\<rparr>)" by (rule same_coreI) simp_all
    show ?thesis unfolding give_up(1) core_of.simps
      by (rule refinedI [OF one_then_aside [OF sys_step.give_up core] P(2)]) (use P(4) k give_up in auto)
  next
    case (promote r s' c)
    note k = promote_keeps [OF K promote(4)]
    note P = prog_ok_hands [OF ok promote(2)] 
    have core: "same_core s' (s'\<lparr>promotion_cost_avg := c, completion := completion s' + 1\<rparr>)" by (rule same_coreI) simp_all
    show ?thesis unfolding promote(1) core_of.simps
      by (rule refinedI [OF one_then_aside [OF sys_step.promote core] P(3)]) (use P(4) k promote in auto)
  qed
qed

section \<open>Reachable states of the program\<close>

lemma prog_reaches:
  assumes K: "kernel_ok K" and qs: "sorts qs" and run: "rtranclp (prog_step K qs) c c'"
    and ok: "prog_ok (core_of c) R" and inv: "sys_inv F (planning (fst c), fst (snd c), R)"
  shows "\<exists>R'. rtranclp (sys_step K) (planning (fst c), fst (snd c), R) (planning (fst c'), fst (snd c'), R') \<and> prog_ok (core_of c') R'"
  using run
proof (induction rule: rtranclp_induct)
  case base
  then show ?case using ok by blast
next
  case (step c1 c2)
  then obtain R1 where R1: "rtranclp (sys_step K) (planning (fst c), fst (snd c), R) (planning (fst c1), fst (snd c1), R1)"
    "prog_ok (core_of c1) R1" by blast
  obtain ph s H w where c1: "c1 = (ph, s, H, w)" by (cases c1)
  obtain ph2 s2 H2 w2 where c2: "c2 = (ph2, s2, H2, w2)" by (cases c2)
  have "sys_inv F (planning ph, s, R1)" using reachable_inv [OF K R1(1) inv] by (simp add: c1)
  from prog_step_refines [OF K qs step(2) [unfolded c1] _ this] R1(2)
  obtain R2 where "rtranclp (sys_step K) (planning ph, s, R1) (planning ph2, s2, R2)" "prog_ok (ph2, s2, H2) R2"
    by (auto simp: c1 c2 refined_def)
  then show ?case using R1(1) by (intro exI [of _ R2]) (auto simp: c1 c2)
qed

lemma init_frames_keeps:
  "init_frames alloc l i n s = Some s' \<Longrightarrow> keeps s s'"
proof (induction n arbitrary: i s)
  case (Suc n)
  then obtain t lk where "init_frames alloc l (Suc i) n (s\<lparr>body := (body s)(alloc i := t), links := lk\<rparr>) = Some s'"
    by (auto simp: bind_Some_iff Let_def)
  from Suc.IH [OF this] show ?case by (simp add: keeps_def)
qed simp

lemma pebs_init_start:
  assumes "pebs_init d n s = Some s0"
  shows "num_migration_jobs s0 = num_migration_jobs s" "mlinks s0 = dll_empty" "completion s0 = 0" "submission s0 = submission s"
proof -
  obtain s1 s2 where "init_frames d DRAM_FREE 0 (unat (dramsize s div PAGE_SIZE)) (s\<lparr>links := dll_empty\<rparr>) = Some s1"
    "init_frames n NVM_FREE 0 (unat (nvmsize s1 div PAGE_SIZE)) s1 = Some s2"
    and s0: "s0 = s2\<lparr>pages := kh_init, pages_map := kh_init, mod_page_dq := kdq_init (NULL, False),
             mlinks := dll_empty, completion := 0,
             promotion_cost_avg := of_int MIN_PROMOTION_COST, demotion_cost_avg := of_int MIN_DEMOTION_COST\<rparr>"
    using assms by (auto simp: pebs_init_def bind_Some_iff Let_def)
  then have "keeps (s\<lparr>links := dll_empty\<rparr>) s2" using init_frames_keeps keeps_trans by blast
  then have m: "pebs_state.more s2 = pebs_state.more s" by (simp add: keeps_def)
  show "num_migration_jobs s0 = num_migration_jobs s" "submission s0 = submission s"
    using m by (cases s2; cases s; simp add: s0)+
  show "mlinks s0 = dll_empty" "completion s0 = 0" by (simp_all add: s0)
qed

lemma init_prog_ok:
  assumes "pebs_init d n s = Some s0" "num_migration_jobs s = 0"
  shows "prog_ok (IDLE, s0, []) []"
  using pebs_init_start [OF assms(1)] assms(2)
  by (intro prog_okI [where q = "\<lambda>_. []"]) (simp_all add: dll_rep_empty)

lemma program_reaches:
  assumes "allocs_ok d (frame_count (dramsize s)) n (frame_count (nvmsize s))" "vmap s = Map.empty" "num_migration_jobs s = 0"
    "pebs_init d n s = Some s0" "kernel_ok K" "sorts qs" "rtranclp (prog_step K qs) (IDLE, s0, [], 0) (ph, s', H, w)"
  shows "\<exists>F R. rtranclp (sys_step K) (False, s0, []) (planning ph, s', R) \<and> prog_ok (ph, s', H) R \<and> sys_inv F (planning ph, s', R)"
proof -
  obtain F where F: "sys_inv F (False, s0, [])" using pebs_init_inv [OF assms(1,2)] assms(4) by auto
  obtain R where R: "rtranclp (sys_step K) (False, s0, []) (planning ph, s', R)" "prog_ok (ph, s', H) R"
    using prog_reaches [OF assms(5-7), of "[]" F] init_prog_ok [OF assms(4,3)] F by auto
  then show ?thesis using reachable_inv [OF assms(5) R(1) F] by blast
qed

text \<open>No page that the policy ranks lies at address 0.\<close>

lemma program_vas:
  assumes "allocs_ok d (frame_count (dramsize s)) n (frame_count (nvmsize s))" "vmap s = Map.empty" "num_migration_jobs s = 0"
    "pebs_init d n s = Some s0" "kernel_ok K" "sorts qs" "rtranclp (prog_step K qs) (IDLE, s0, [], 0) (ph, s', H, w)"
  shows "vas_ok s'"
proof -
  obtain F where "sys_inv F (False, s0, [])" using pebs_init_inv [OF assms(1,2)] assms(4) by auto
  then show ?thesis using program_reaches [OF assms] reachable_vas [OF assms(5)] pebs_init_vas [OF assms(4)] by blast
qed

end
