(* ===== verification/Pebs_Live.thy ===== *)
theory Pebs_Live
  imports Pebs_Program
begin

text \<open>
  What the threads of the program do over time: the program refines the system of theory
  Pebs_System, the planning loop does not abort and stays within its limit, a plan starts only when
  no migration is outstanding, and a request that is submitted without a wake-up while no
  migration thread is awake is never served.
\<close>

section \<open>A round of the planning loop does not abort\<close>

lemma submit_succeeds:
  assumes "m \<noteq> NULL" "d_list (mlinks s) m = None" "dll_rep (mlinks s) q"
  shows "\<exists>s'. submit m r s = Some s'"
  using enqueue_fifo_rep [OF assms(3,1,2), of "()"] by (auto simp: submit_def enqueue_fifo_m_eq Let_def)

lemma taken_page:
  assumes Q: "dll_rep lk Q" and run: "dequeue_fifo lk l = Some (np, lk')" and np: "np \<noteq> NULL"
  shows "np \<in> set (Q l) \<and> (\<exists>lk2. enqueue_fifo lk' l np = Some lk2)"
proof -
  have ne: "Q l \<noteq> []" using run np dequeue_fifo_empty [OF Q, of l] by auto
  then have r: "np = last (Q l)" "dll_rep lk' (Q(l := butlast (Q l)))" using dequeue_fifo_rep [OF Q ne] run by auto
  have "np \<notin> set ((Q(l := butlast (Q l))) k)" for k
  proof (cases "k = l")
    case True
    have "distinct (butlast (Q l) @ [np])" using dll_repD(1) [OF Q, of l] ne by (simp add: r(1))
    then show ?thesis using True by simp
  next
    case False
    then show ?thesis using dll_rep_disjoint [OF Q, of np l k] ne by (auto simp: r(1))
  qed
  then have "d_list lk' np = None" using dll_repD(7) [OF r(2)] by (metis option.exhaust)
  then show ?thesis using enqueue_fifo_rep [OF r(2) np] ne by (auto simp: r(1))
qed

lemma dequeue_succeeds: "dll_rep lk Q \<Longrightarrow> \<exists>np lk'. dequeue_fifo lk l = Some (np, lk')"
  using dequeue_fifo_empty [of lk Q l] dequeue_fifo_rep [of lk Q l] by (cases "Q l = []") auto

lemma plan_promotion_succeeds:
  fixes s :: "'a policy_state_scheme"
  assumes Q: "dll_rep (links s) Q" and free: "\<And>x l. x \<in> set (Q l) \<Longrightarrow> \<not> present (body s x)"
    and np: "dequeue_fifo (links s) DRAM_FREE = Some (np, lk)" "np \<noteq> NULL"
    and m: "m \<noteq> NULL" "d_list (mlinks s) m = None" "dll_rep (mlinks s) q"
  shows "\<exists>r. plan_promotion m p np (s\<lparr>links := lk\<rparr>) = Some r"
proof -
  note t = taken_page [OF Q np]
  then have "\<not> present (body s np)" using free by blast
  moreover obtain lk2 where "enqueue_fifo lk DRAM_FREE np = Some lk2" using t by blast
  moreover obtain s' where "submit m \<lparr>dram_page = NULL, nvm_page = p, free_page = np, need_demotion = False\<rparr> (s\<lparr>links := lk\<rparr>) = Some s'"
    using submit_succeeds [OF m(1), of "s\<lparr>links := lk\<rparr>" q] m(2,3) by auto
  ultimately show ?thesis by (auto simp: plan_promotion_def Let_def)
qed

lemma plan_exchange_succeeds:
  assumes Q: "dll_rep (links s) Q" and m: "m \<noteq> NULL" "d_list (mlinks s) m = None" "dll_rep (mlinks s) q"
    and va: "\<And>j. j \<le> demote_idx s \<Longrightarrow> va_of s (se_page (scores s ! j)) \<noteq> 0"
  shows "\<exists>r. plan_exchange m p s = Some r"
proof -
  let ?s = "s\<lparr>demote_idx := skip_slow (on_fast s) (promote_idx s) (demote_idx s)\<rparr>"
  let ?cp = "se_page (scores s ! demote_idx ?s)"
  obtain np lk where np: "dequeue_fifo (links s) NVM_FREE = Some (np, lk)" using dequeue_succeeds [OF Q] by blast
  have b: "demote_idx ?s \<le> demote_idx s" "promote_idx s < demote_idx ?s \<longrightarrow> on_fast s (demote_idx ?s)"
    using skip_slow_bounds [of "on_fast s" "promote_idx s" "demote_idx s"] by simp_all
  obtain s' where s': "submit m \<lparr>dram_page = ?cp, nvm_page = p, free_page = np, need_demotion = True\<rparr> (?s\<lparr>links := lk\<rparr>) = Some s'"
    using submit_succeeds [OF m(1), of "?s\<lparr>links := lk\<rparr>" q] m(2,3) by auto
  show ?thesis
  proof (cases "demote_idx ?s \<le> promote_idx s \<or> demote_idx ?s \<le> dram_pages s")
    case True
    then show ?thesis by (auto simp: plan_exchange_def Let_def dram_pages_def)
  next
    case False
    have "va_of s ?cp \<noteq> 0" using va b(1) by simp
    moreover have "in_dram (body s ?cp)" using b(2) False by (simp add: on_fast_def)
    ultimately show ?thesis using False np s'
      by (auto simp: plan_exchange_def Let_def dram_pages_def word_gt_0)
  qed
qed

lemma plan_iter_succeeds:
  fixes s :: "'a policy_state_scheme"
  assumes Q: "dll_rep (links s) Q" and free: "\<And>x l. x \<in> set (Q l) \<Longrightarrow> \<not> present (body s x)"
    and m: "m \<noteq> NULL" "d_list (mlinks s) m = None" "dll_rep (mlinks s) q"
    and va: "\<And>j. j \<le> demote_idx s \<Longrightarrow> va_of s (se_page (scores s ! j)) \<noteq> 0"
  shows "\<exists>r. plan_iter m s = Some r"
proof -
  let ?s = "s\<lparr>promote_idx := skip_fast (on_fast s) (promote_idx s) (demote_idx s)\<rparr>"
  let ?p = "se_page (scores s ! promote_idx ?s)"
  obtain np lk where np: "dequeue_fifo (links s) DRAM_FREE = Some (np, lk)" using dequeue_succeeds [OF Q] by blast
  have 1: "\<exists>r. plan_promotion m ?p np (?s\<lparr>links := lk\<rparr>) = Some r" if "np \<noteq> NULL"
    using plan_promotion_succeeds [of ?s Q np lk m q ?p] Q free np that m by auto
  have 2: "\<exists>r. plan_exchange m ?p ?s = Some r"
    using plan_exchange_succeeds [of ?s Q m q ?p] Q m va by auto
  have "\<not> on_fast s (promote_idx ?s)" if "promote_idx ?s < demote_idx s"
    using skip_fast_bounds [of "promote_idx s" "on_fast s" "demote_idx s"] that by simp
  then show ?thesis using 1 2 np unfolding plan_iter_def Let_def
    by (auto simp: on_fast_def)
qed

section \<open>The limit of an interval\<close>

lemma plan_iter_limit:
  assumes "plan_iter m s = Some (go, s')"
  shows "num_migration_jobs s' = num_migration_jobs s \<or>
    (num_migration_jobs s' = num_migration_jobs s + 1 \<and> num_migration_jobs s' \<le> unat (max_migrations_cur_interval s))"
  using plan_iter_result [OF assms]
proof cases
  case (up p np lk t b c)
  then show ?thesis using submit_fields(3) [OF up(9)] by (simp add: round_starts_def)
next
  case (swap p cp np lk t b c)
  then show ?thesis using submit_fields(3) [OF swap(13)] by (simp add: round_starts_def)
qed simp_all

section \<open>A lost wake-up\<close>

text \<open>
  A state in which the request \<open>m\<close> waits in the queue, no migration thread is awake or has a wake-up
  coming, and the limit of wake-ups of the interval is used up.
\<close>

definition deaf :: "addr \<Rightarrow> 'a prog \<Rightarrow> bool" where
  "deaf m = (\<lambda>(ph, s, H, w). submission s = 0 \<and> H = [] \<and> w = 0 \<and> d_list (mlinks s) m = Some () \<and>
     completion s < num_migration_jobs s \<and> (ph = PLANNING \<longrightarrow> batch_size (detector s) < f32 (of_nat (num_migration_jobs s + 1))))"

lemma submission_upd [simp]: "submission (upd_page p f s) = submission s" "detector (upd_page p f s) = detector s"
  by (simp_all add: upd_page_def)

lemma submission_scores: "calculate_scores_loop keys out s = (out', s') \<Longrightarrow> submission s' = submission s"
proof (induction keys arbitrary: out s)
  case (Cons key keys)
  from Cons.prems show ?case by (auto simp: Let_def split: if_splits dest!: Cons.IH)
qed simp

lemma submission_fold: "(\<And>e s. submission (f e s) = submission s) \<Longrightarrow> submission (fold f es s) = submission s"
  by (induction es arbitrary: s) simp_all

lemma submission_mark: "submission (mark_pages s) = submission s"
proof -
  have "submission (mark_top e s) = submission s" "submission (mark_rest e s) = submission s" for e and s :: "'a policy_state_scheme"
    by (simp_all add: mark_top_def mark_rest_def Let_def)
  then show ?thesis by (simp add: mark_pages_def Let_def submission_fold)
qed

lemma submission_policy:
  "submission (begin_interval s) = submission s" "watch_bandwidth rd s = Some s' \<Longrightarrow> submission s' = submission s"
  "submission (rank_pages qs s) = submission s" "submission (end_interval ok s) = submission s"
proof -
  show "submission (begin_interval s) = submission s" by (simp add: begin_interval_def)
  show "watch_bandwidth rd s = Some s' \<Longrightarrow> submission s' = submission s"
    by (auto simp: watch_bandwidth_def bind_Some_iff split: if_splits prod.splits)
  obtain out t where t: "calculate_scores_map s = (out, t)" by (cases "calculate_scores_map s")
  then have "submission t = submission s" using submission_scores
    by (auto simp: calculate_scores_map_def split: if_splits)
  then show "submission (rank_pages qs s) = submission s" using t submission_mark [of "t\<lparr>scores := qs out\<rparr>"]
    by (simp add: rank_pages_def Let_def)
  show "submission (end_interval ok s) = submission s" by (simp add: end_interval_def Let_def split: prod.splits)
qed

lemma submission_keeps:
  fixes s s' :: "'a policy_state_scheme"
  assumes "keeps s s'"
  shows "submission s' = submission s"
  using assms unfolding keeps_def by (cases s; cases s'; simp)

lemma submission_scan:
  assumes "scan_one i j s = Some s'"
  shows "submission s' = submission s \<and> detector s' = detector s"
proof -
  have "submission t = submission s \<and> detector t = detector s" if "scan_record j r s = Some t" for r t
    using that by (cases r) (auto simp: scan_sample_def Let_def bind_Some_iff split: if_splits)
  then show ?thesis using assms by (elim scan_one_cases) auto
qed

lemma enqueue_keeps_owner: "enqueue_fifo lk l x = Some lk' \<Longrightarrow> d_list lk y = Some k \<Longrightarrow> d_list lk x = None \<Longrightarrow> d_list lk' y = Some k"
  by (auto simp: enqueue_fifo_def bind_Some_iff Let_def split: if_splits)

lemma deaf_submit:
  assumes run: "submit m2 r t = Some u" and t: "submission t = 0" "d_list (mlinks t) m = Some ()" "d_list (mlinks t) m2 = None"
    and b: "batch_size (detector t) < f32 (of_nat (num_migration_jobs t + 1))"
  shows "submission u = 0 \<and> d_list (mlinks u) m = Some () \<and> detector u = detector t \<and> completion u = completion t \<and> num_migration_jobs u = num_migration_jobs t + 1"
proof -
  obtain ml where ml: "enqueue_fifo (mlinks t) () m2 = Some ml" "mlinks u = ml"
    using run by (auto simp: submit_def bind_Some_iff enqueue_fifo_m_eq Let_def)
  have "submission u = 0" "detector u = detector t" "completion u = completion t" using run t(1) b
    by (auto simp: submit_def bind_Some_iff Let_def split: if_splits)
  then show ?thesis using enqueue_keeps_owner [OF ml(1) t(2,3)] ml(2) submit_fields(3) [OF run] by simp
qed

lemma deaf_more: "b < f32 (of_nat (n + 1)) \<Longrightarrow> b < f32 (of_nat (n + 1 + 1))"
  using f32_mono [of "of_nat (n + 1)" "of_nat (n + 1 + 1)"] by simp

lemma deaf_plan:
  assumes d: "deaf m (PLANNING, s, H, w)" and st: "plan_result m2 s go s'" and f: "d_list (mlinks s) m2 = None"
  shows "deaf m (PLANNING, s', H, w)"
  using st
proof cases
  case (up p np lk t b c)
  have "submission t = 0 \<and> d_list (mlinks t) m = Some () \<and> detector t = detector s \<and> completion t = completion s \<and>
      num_migration_jobs t = num_migration_jobs s + 1"
    using deaf_submit [OF up(9), of m] d f by (simp add: deaf_def)
  then show ?thesis using d deaf_more by (simp add: up(2) deaf_def)
next
  case (swap p cp np lk t b c)
  have "submission t = 0 \<and> d_list (mlinks t) m = Some () \<and> detector t = detector s \<and> completion t = completion s \<and>
      num_migration_jobs t = num_migration_jobs s + 1"
    using deaf_submit [OF swap(13), of m] d f by (simp add: deaf_def)
  then show ?thesis using d deaf_more by (simp add: swap(2) deaf_def)
qed (use d in \<open>simp_all add: deaf_def\<close>)

text \<open>The fields that matter here.\<close>

lemma deaf_same:
  assumes "deaf m (ph, s, H, w)" "mlinks s' = mlinks s" "submission s' = submission s" "detector s' = detector s"
    "num_migration_jobs s' = num_migration_jobs s" "completion s' = completion s"
  shows "deaf m (ph, s', H, w)"
  using assms by (simp add: deaf_def)

lemma deaf_keeps: "deaf m (ph, s, H, w) \<Longrightarrow> keeps s s' \<Longrightarrow> deaf m (ph, s', H, w)" for s s' :: "'a policy_state_scheme"
  using keeps_fields(4,5) [of s s'] submission_keeps [of s s'] by (simp add: deaf_def keeps_def)

lemma deaf_idle:
  "deaf m (ph, s, H, w) \<Longrightarrow> mlinks s' = mlinks s \<Longrightarrow> submission s' = submission s \<Longrightarrow>
    completion s' < num_migration_jobs s' \<Longrightarrow> ph' \<noteq> PLANNING \<Longrightarrow> deaf m (ph', s', H, w)"
  by (simp add: deaf_def)

text \<open>Nothing wakes a migration thread again, and no further plan starts.\<close>

lemma deaf_step:
  assumes st: "prog_step K qs (ph, s, H, w) c'" and d: "deaf m (ph, s, H, w)"
  shows "deaf m c'"
  using st
proof cases
  case (fault a s')
  then show ?thesis using deaf_keeps [OF d] fault_keeps [OF fault(3)] by simp
next
  case (unmap a n s')
  then show ?thesis using deaf_keeps [OF d] munmap_keeps [OF unmap(3)] by simp
next
  case (scan i j s')
  then show ?thesis using deaf_same [OF d, of s'] scan_one_quiet [OF scan(2)] submission_scan [OF scan(2)] by (simp add: quiet_def)
next
  case begin_round
  show ?thesis unfolding begin_round(2) by (rule deaf_idle [OF d]) (use d in \<open>simp_all add: submission_policy begin_interval_def deaf_def\<close>)
next
  case (bandwidth rd s')
  show ?thesis unfolding bandwidth(2)
    by (rule deaf_idle [OF d]) (use bandwidth_quiet [OF bandwidth(3)] submission_policy(2) [OF bandwidth(3)] d in \<open>simp_all add: quiet_def deaf_def\<close>)
next
  case (drain b s')
  show ?thesis unfolding drain(2)
    by (rule deaf_idle [OF d]) (use drain_keeps [OF drain(3)] submission_keeps [of s s'] keeps_fields(4) [of s s'] d in \<open>simp_all add: keeps_def deaf_def\<close>)
next
  case rank
  obtain out t where t: "calculate_scores_map s = (out, t)" by (cases "calculate_scores_map s")
  have "quiet s t" using t
    by (auto simp: calculate_scores_map_def split: if_splits dest: calculate_scores_loop_spec)
  then have "mlinks (rank_pages qs s) = mlinks s \<and> completion (rank_pages qs s) = completion s \<and>
      num_migration_jobs (rank_pages qs s) = num_migration_jobs s"
    using t mark_pages_quiet [of "t\<lparr>scores := qs out\<rparr>"] by (auto simp: rank_pages_def Let_def quiet_def)
  then show ?thesis unfolding rank(2) by (intro deaf_idle [OF d]) (use d in \<open>simp_all add: submission_policy deaf_def\<close>)
next
  case (no_pages ok')
  show ?thesis unfolding no_pages(2) by (rule deaf_idle [OF d]) (use d in \<open>simp_all add: submission_policy end_interval_fields deaf_def\<close>)
next
  case wait
  show ?thesis unfolding wait(2) by (rule deaf_idle [OF d]) (use d wait in \<open>auto simp: wait_one_def deaf_def\<close>)
next
  case start
  then show ?thesis using d by (simp add: deaf_def)
next
  case (plan m2 s')
  then show ?thesis using deaf_plan [OF d [unfolded plan(1)] plan_iter_result [OF plan(3)] plan(5)] by simp
next
  case (finish m2 s' ok')
  have "mlinks s' = mlinks s \<and> submission s' = submission s \<and> completion s' = completion s \<and> num_migration_jobs s' = num_migration_jobs s"
    using plan_iter_result [OF finish(3)] by cases simp_all
  then show ?thesis unfolding finish(2) by (intro deaf_idle [OF d]) (use d in \<open>simp_all add: submission_policy end_interval_fields deaf_def\<close>)
qed (use d in \<open>auto simp: deaf_def\<close>)

lemma deaf_run: "rtranclp (prog_step K qs) c c' \<Longrightarrow> deaf m c \<Longrightarrow> deaf m c'"
proof (induction rule: rtranclp_induct)
  case (step c1 c2)
  then show ?case using deaf_step by (cases c1) blast
qed

lemma deaf_blocked: "deaf m (ph, s, H, w) \<Longrightarrow> ph \<noteq> PLANNING \<Longrightarrow> prog_step K qs (ph, s, H, w) (ph', s', H', w') \<Longrightarrow> ph' \<noteq> PLANNING"
  by (auto simp: deaf_def elim: prog_step.cases)

lemma deaf_starts:
  assumes run: "plan_iter m s = Some (True, s')" and n: "num_migration_jobs s' = num_migration_jobs s + 1"
    and m: "d_list (mlinks s) m = None" and d: "submission s = 0" "completion s \<le> num_migration_jobs s"
    "batch_size (detector s) < f32 (of_nat (num_migration_jobs s + 1))"
  shows "deaf m (PLANNING, s', [], 0)"
proof -
  have sub: "submission u = 0 \<and> d_list (mlinks u) m = Some () \<and> detector u = detector s \<and> completion u = completion s \<and>
      num_migration_jobs u = num_migration_jobs s + 1"
    if u: "submit m r t = Some u" and t: "mlinks t = mlinks s" "submission t = submission s" "completion t = completion s"
      "detector t = detector s" "num_migration_jobs t = num_migration_jobs s" for r t u
  proof -
    obtain ml where ml: "enqueue_fifo (mlinks s) () m = Some ml" "mlinks u = ml"
      using u t(1) by (auto simp: submit_def bind_Some_iff enqueue_fifo_m_eq Let_def)
    have "d_list ml m = Some ()" using ml(1) by (auto simp: enqueue_fifo_def bind_Some_iff Let_def split: if_splits)
    then show ?thesis using u t d ml(2) submit_fields(3) [OF u]
      by (auto simp: submit_def bind_Some_iff Let_def split: if_splits)
  qed
  show ?thesis using plan_iter_result [OF run]
  proof cases
    case skip
    then show ?thesis using n by simp
  next
    case (up p np lk t b c)
    show ?thesis using sub [OF up(8)] d deaf_more by (simp add: up(1) deaf_def)
  next
    case (swap p cp np lk t b c)
    show ?thesis using sub [OF swap(12)] d deaf_more by (simp add: swap(1) deaf_def)
  qed simp_all
qed

section \<open>A run of the program\<close>

text \<open>A stable sort by descending score, and a run with one page up to the first plan.\<close>

definition demo_sort :: "score_entry list \<Rightarrow> score_entry list" where
  "demo_sort = sort_key (\<lambda>e. - se_score e)"

lemma demo_sorts: "sorts demo_sort"
proof -
  have "sorted_wrt (\<lambda>a b. sort_entry_cmp a b \<le> 0) (demo_sort es)" for es
  proof -
    have "sorted_wrt (\<lambda>a b. - se_score a \<le> - se_score b) (demo_sort es)"
      using sorted_sort_key [of "\<lambda>e. - se_score e" es] by (simp add: demo_sort_def sorted_map)
    then show ?thesis by (rule sorted_wrt_mono_rel [rotated]) (auto simp: sort_entry_cmp_def)
  qed
  then show ?thesis by (simp add: sorts_def demo_sort_def)
qed

lemma jobs_start [simp]: "num_migration_jobs (policy_start ds ns) = 0"
  by (simp add: policy_start_def pebs_state.defs policy_state.defs)

lemma scored_mem:
  assumes wf: "kh_wf h" and h: "h = pages_map s" "kh_map h v = Some p" "p \<noteq> NULL" "present (body s p)"
  shows "p \<in> set (scored s (map of_nat [0..<unat (kh_end h)]))"
proof -
  have d: "distinct (map fst (kh_entries h))" using wf by (simp add: kh_wf_def)
  obtain j where j: "j < kh_n h" "live (kh_flags h) j" "kh_vals h ! j = p"
    using h(2) kh_map_iff [OF d, of v p] by auto
  have u: "unat (of_nat j :: u32) = j"
  proof -
    have "kh_n h < 2 ^ LENGTH(32)" by (rule unsigned_less)
    then show ?thesis using j(1) by (simp add: unat_of_nat)
  qed
  have "kh_exist h (of_nat j)" "kh_value h (of_nat j) = p" using j u by (simp_all add: kh_exist_live kh_value_def)
  then show ?thesis using j(1) assms(2,4,5) by (force simp: scored_def kh_end_def)
qed

lemma demo_pages: "demo_dram ` {..<2} \<union> demo_nvm ` {..<2} = {4096, 8192, 413696, 417792}"
  by (auto simp: demo_dram_def demo_nvm_def lessThan_Suc numeral_2_eq_2)

lemma plan_start_same: "pages_map (plan_start s) = pages_map s" "mlinks (plan_start s) = mlinks s"
  by (simp_all add: plan_start_def)

lemma demo_program:
  "\<exists>s0 s1 s2. pebs_init demo_dram demo_nvm (policy_start 0x400000 0x400000) = Some s0 \<and>
     rtranclp (prog_step host_kernel demo_sort) (IDLE, s0, [], 0) (READY, s1, [], 0) \<and>
     prog_step host_kernel demo_sort (READY, s1, [], 0) (PLANNING, s2, [], 0) \<and>
     d_list (mlinks s2) 4096 = None"
proof -
  let ?F = "demo_dram ` {..<2} \<union> demo_nvm ` {..<2}" and ?s = "policy_start 0x400000 0x400000" and ?a = "0x200000 :: u64"
  obtain s0 where s0: "pebs_init demo_dram demo_nvm ?s = Some s0" "sys_inv ?F (False, s0, [])" "vmap s0 = Map.empty"
    using pebs_init_inv [of demo_dram ?s demo_nvm] demo_allocs by (auto simp: demo_count)
  note st = pebs_init_start [OF s0(1)]
  obtain Q where Q: "sys_ok ?F Q (False, s0, [])" using s0(2) by (auto simp: sys_inv_def)
  note D = sys_okD [OF Q]
  have e: "tracked s0 = {}" "queued s0 = []" "kh_map (pages_map s0) = Map.empty" "kh_map (pages s0) = Map.empty"
    using s0(1) by (auto simp: pebs_init_def bind_Some_iff Let_def tracked_def queued_def kdq_init_list kh_init_wf)
  then have "demo_dram 0 \<in> free_pages Q" using D(4) by (auto simp: held_pages_def)
  then have "Q DRAM_FREE \<noteq> [] \<or> Q NVM_FREE \<noteq> []" by (auto simp: free_pages_def)
  then obtain l where "Q l \<noteq> []" by blast
  then obtain k where k: "next_free Q = Some k" using next_free_some by blast
  obtain t1 where t1: "handle_missing_fault host_kernel None s0 ?a = Some t1"
    using missing_fault_succeeds [OF Q k host_kernel_ok host_kernel_live, of ?a] s0(3) by (auto simp: HUGEPAGE_SIZE_def)
  let ?p = "last (Q k)"
  have m1: "pebs_inv ?F (Q(k := butlast (Q k))) t1" "kh_map (pages t1) = [?a \<mapsto> ?p]" "queued t1 = [(?p, False)]" "present (body t1 ?p)"
    "va_of t1 ?p = ?a" "tracked t1 = {?p}"
    using missing_fault_inv [OF D(1,2) host_kernel_ok _ t1] e k by auto
  have 1: "prog_step host_kernel demo_sort (IDLE, s0, [], 0) (IDLE, t1, [], 0)" by (rule prog_step.fault [OF _ t1]) (simp add: s0(3))
  have k1: "keeps s0 t1" "pages_map t1 = pages_map s0" using fault_keeps [OF t1] by simp_all
  obtain t2 where t2: "drain_one None t1 = Some (True, t2)" "pebs_inv ?F (Q(k := butlast (Q k))) t2" "queued t2 = []"
    "pages t2 = pages t1" "body t2 = body t1"
    using drain_one_add [OF m1(1,3)] by blast
  have 2: "prog_step host_kernel demo_sort (IDLE, t1, [], 0) (IDLE, t2, [], 0)" by (rule prog_step.drain [OF t2(1)])
  have k2: "keeps s0 t2" using keeps_trans [OF k1(1) drain_keeps [OF t2(1)]] .
  have mp: "kh_map (pages_map t2) = [?a \<mapsto> ?p]" using pebs_invD(10) [OF t2(2)] by (simp add: t2(3,4) m1(2))
  let ?s1 = "rank_pages demo_sort t2"
  have 3: "prog_step host_kernel demo_sort (IDLE, t2, [], 0) (READY, ?s1, [], 0)" by (rule prog_step.rank)
  note R = rank_pages_spec [OF demo_sorts pebs_invD(7,9) [OF t2(2)]]
  have "?p \<in> ?F" using pebs_invD(12) [OF m1(1)] m1(6) by simp
  then have "?p \<noteq> NULL" unfolding demo_pages by auto
  then have in1: "?p \<in> set (scored t2 (map of_nat [0..<unat (kh_end (pages_map t2))]))"
    using m1(4) t2(5) by (intro scored_mem [OF pebs_invD(7) [OF t2(2)] HOL.refl, of ?a]) (simp_all add: mp)
  have ne: "scores ?s1 \<noteq> []"
  proof -
    obtain out t where t: "calculate_scores_map t2 = (out, t)" by (cases "calculate_scores_map t2")
    have "kh_size (pages_map t2) \<noteq> 0"
    proof
      assume "kh_size (pages_map t2) = 0"
      then have "card (dom (kh_map (pages_map t2))) = 0" using kh_wf_dom [OF pebs_invD(7) [OF t2(2)]] by simp
      then show False by (simp add: mp)
    qed
    then have "map se_page out \<noteq> []" using t calculate_scores_loop_spec [of _ "[]" t2 out t] in1
      by (auto simp: calculate_scores_map_def)
    moreover have "scores (mark_pages (t\<lparr>scores := demo_sort out\<rparr>)) = demo_sort out"
      using mark_pages_quiet [of "t\<lparr>scores := demo_sort out\<rparr>"] by simp
    moreover have "demo_sort out \<noteq> [] \<longleftrightarrow> out \<noteq> []" unfolding demo_sort_def by (metis length_0_conv length_sort)
    ultimately show ?thesis using t by (simp add: rank_pages_def Let_def)
  qed
  have n: "num_migration_jobs ?s1 = 0" "mlinks ?s1 = dll_empty" "pages_map ?s1 = pages_map t2"
    using R st k2 keeps_fields(4) [OF k2] by (simp_all add: quiet_def same_core_def keeps_def)
  have 4: "prog_step host_kernel demo_sort (READY, ?s1, [], 0) (PLANNING, plan_start ?s1, [], 0)"
    by (rule prog_step.start [OF ne n(1)])
  have "rtranclp (prog_step host_kernel demo_sort) (IDLE, s0, [], 0) (READY, ?s1, [], 0)"
    using 1 2 3 by (meson converse_rtranclp_into_rtranclp rtranclp.rtrancl_refl)
  moreover have "d_list (mlinks (plan_start ?s1)) 4096 = None" by (simp only: plan_start_same n) (simp add: dll_empty_def)
  ultimately show ?thesis using s0(1) 4 by blast
qed

section \<open>Properties\<close>

text \<open>
  C20: Every run of the threads of the program from its initialisation on, in any order of their
  steps, is a run of the abstract system of page operations, whose outstanding requests are
  those in the queue and those in the hands of the migration threads; the number of jobs that
  the policy waits for is that of the finished and the outstanding ones. A step is one call of
  the fault handler, one unmapping call with its removals, one record of the scanning thread,
  one round of the drain, one round of the planning loop, or one half of a request; unmapping
  calls are of ranges aligned to 2 MiB and succeed, and allocations succeed. The code takes
  several locks in an unmapping call and in a round of the drain; what happens between them is
  outside (removal_race, and the finding on pebs.c:1077).
\<close>

theorem program_refines_system:
  assumes "allocs_ok d (frame_count (dramsize s)) n (frame_count (nvmsize s))" "vmap s = Map.empty" "num_migration_jobs s = 0"
    "pebs_init d n s = Some s0" "kernel_ok K" "sorts qs" "rtranclp (prog_step K qs) (IDLE, s0, [], 0) (ph, s', H, w)"
  shows "\<exists>R q. rtranclp (sys_step K) (False, s0, []) (ph = PLANNING, s', R) \<and>
    dll_rep (mlinks s') q \<and> mset R = mset (map (reqs s') (q ())) + mset H \<and>
    num_migration_jobs s' = completion s' + length (q ()) + length H"
proof -
  obtain F R where R: "rtranclp (sys_step K) (False, s0, []) (planning ph, s', R)" "prog_ok (ph, s', H) R"
    using program_reaches [OF assms] by blast
  obtain q where q: "dll_rep (mlinks s') q" "mset R = mset (map (reqs s') (q ())) + mset H" using R(2) by (rule prog_okD)
  then have "length R = length (q ()) + length H" by (metis length_map size_mset size_union)
  then show ?thesis using R(1) q prog_ok_rest(6) [OF R(2)] by auto
qed

lemma program_refines_system_witness:
  "\<exists>s0 s1 R. pebs_init demo_dram demo_nvm (policy_start 0x400000 0x400000) = Some s0 \<and>
     rtranclp (prog_step host_kernel demo_sort) (IDLE, s0, [], 0) (READY, s1, [], 0) \<and>
     rtranclp (sys_step host_kernel) (False, s0, []) (False, s1, R)"
proof -
  obtain s0 s1 where s: "pebs_init demo_dram demo_nvm (policy_start 0x400000 0x400000) = Some s0"
    "rtranclp (prog_step host_kernel demo_sort) (IDLE, s0, [], 0) (READY, s1, [], 0)" using demo_program by blast
  from program_refines_system [OF _ _ _ s(1) host_kernel_ok demo_sorts s(2)] show ?thesis using demo_allocs s by auto
qed

text \<open>
  C21: In every reachable state of the program (with the steps of the property before) a round
  of the planning loop, given a fresh request node, fails no assertion, a round that goes on
  moves the two indices towards each other, and no round hands out more requests than the limit
  of the interval. In particular no page of the ranking lies at address 0, which one of the
  assertions asks.
\<close>

theorem planning_goes_on:
  assumes "allocs_ok d (frame_count (dramsize s)) n (frame_count (nvmsize s))" "vmap s = Map.empty" "num_migration_jobs s = 0"
    "pebs_init d n s = Some s0" "kernel_ok K" "sorts qs" "rtranclp (prog_step K qs) (IDLE, s0, [], 0) (PLANNING, s', H, w)"
    "m \<noteq> NULL" "d_list (mlinks s') m = None"
  shows "\<exists>go s''. plan_iter m s' = Some (go, s'') \<and>
    (go \<longrightarrow> demote_idx s'' - promote_idx s'' < demote_idx s' - promote_idx s') \<and>
    num_migration_jobs s'' \<le> max (num_migration_jobs s') (unat (max_migrations_cur_interval s'))"
proof -
  obtain F R where R: "prog_ok (PLANNING, s', H) R" "sys_inv F (True, s', R)"
    using program_reaches [OF assms(1-7)] by auto
  obtain q where q: "dll_rep (mlinks s') q" using R(1) by (rule prog_okD)
  obtain Q where Q: "sys_ok F Q (True, s', R)" using R(2) by (auto simp: sys_inv_def)
  note P = pebs_invD [OF sys_okD(1) [OF Q]]
  have "va_of s' (se_page (scores s' ! j)) \<noteq> 0" if "j \<le> demote_idx s'" for j
  proof
    let ?p = "se_page (scores s' ! j)"
    assume 0: "va_of s' ?p = 0"
    have "?p \<in> ran (kh_map (pages_map s'))"
      using prog_ok_rest(1,3) [OF R(1)] that by (auto simp: scores_ok_def)
    then show False using program_vas [OF assms(1-7)] 0 by (auto simp: vas_ok_def tracked_def)
  qed
  then obtain go s'' where r: "plan_iter m s' = Some (go, s'')"
    using plan_iter_succeeds [OF P(1) _ assms(8,9) q] P(5) by fast
  then show ?thesis using plan_iter_decreases plan_iter_limit [OF r] by (intro exI [of _ go] exI [of _ s'']) auto
qed

lemma planning_goes_on_witness:
  "\<exists>s0 s2 r. pebs_init demo_dram demo_nvm (policy_start 0x400000 0x400000) = Some s0 \<and>
     rtranclp (prog_step host_kernel demo_sort) (IDLE, s0, [], 0) (PLANNING, s2, [], 0) \<and> plan_iter 4096 s2 = Some r"
proof -
  obtain s0 s1 s2 where s: "pebs_init demo_dram demo_nvm (policy_start 0x400000 0x400000) = Some s0"
    "rtranclp (prog_step host_kernel demo_sort) (IDLE, s0, [], 0) (READY, s1, [], 0)"
    "prog_step host_kernel demo_sort (READY, s1, [], 0) (PLANNING, s2, [], 0)"
    "d_list (mlinks s2) 4096 = None" using demo_program by blast
  note run = rtranclp.rtrancl_into_rtrancl [OF s(2,3)]
  from planning_goes_on [OF _ _ _ s(1) host_kernel_ok demo_sorts run _ s(4)] show ?thesis using demo_allocs s(1) run by fastforce
qed

text \<open>
  C22: The policy thread starts to plan only when no migration of an earlier interval is left:
  the queue of requests is empty, no migration thread holds one and no completion is left over.
  The steps are those of program_refines_system.
\<close>

theorem plan_starts_clean:
  assumes "allocs_ok d (frame_count (dramsize s)) n (frame_count (nvmsize s))" "vmap s = Map.empty" "num_migration_jobs s = 0"
    "pebs_init d n s = Some s0" "kernel_ok K" "sorts qs" "rtranclp (prog_step K qs) (IDLE, s0, [], 0) (READY, s1, H, w)"
    "prog_step K qs (READY, s1, H, w) (PLANNING, s2, H2, w2)"
  shows "H2 = [] \<and> completion s2 = 0 \<and> dll_rep (mlinks s2) (\<lambda>_. []) \<and> s2 = plan_start s1"
proof -
  obtain F R where R: "prog_ok (READY, s1, H) R" using program_reaches [OF assms(1-7)] by blast
  obtain q where q: "dll_rep (mlinks s1) q" "mset R = mset (map (reqs s1) (q ())) + mset H" using R by (rule prog_okD)
  have s: "s2 = plan_start s1" "H2 = H" "num_migration_jobs s1 = 0" using assms(8) by (auto elim: prog_step.cases)
  then have 0: "completion s1 = 0" "R = []" using prog_ok_rest(6) [OF R] by simp_all
  then have "q = (\<lambda>_. [])" "H = []" using q(2) by (auto simp: fun_eq_iff)
  then show ?thesis using q(1) s 0 by (simp add: plan_start_def)
qed

lemma plan_starts_clean_witness:
  "\<exists>(s1 :: policy_state) s2. prog_step host_kernel demo_sort (READY, s1, [], 0) (PLANNING, s2, [], 0) \<and> completion s2 = 0 \<and>
     dll_rep (mlinks s2) (\<lambda>_. [])"
proof -
  obtain s0 s1 s2 where s: "pebs_init demo_dram demo_nvm (policy_start 0x400000 0x400000) = Some s0"
    "rtranclp (prog_step host_kernel demo_sort) (IDLE, s0, [], 0) (READY, s1, [], 0)"
    "prog_step host_kernel demo_sort (READY, s1, [], 0) (PLANNING, s2, [], 0)" using demo_program by blast
  from plan_starts_clean [OF _ _ _ s(1) host_kernel_ok demo_sorts s(2,3)] have "completion s2 = 0 \<and> dll_rep (mlinks s2) (\<lambda>_. [])"
    using demo_allocs by (metis policy_start_simps(1-3) jobs_start)
  then show ?thesis using s(3) by blast
qed

text \<open>
  C23: A request that is submitted after the wake-ups of the interval are used up, while every
  migration thread sleeps, is never served: in every later state it is still in the queue, all
  migration threads still sleep, and the policy thread never plans again, since it waits for
  that request.
\<close>

theorem wakeup_lost:
  assumes "plan_iter m s = Some (True, s')" "num_migration_jobs s' = num_migration_jobs s + 1" "d_list (mlinks s) m = None"
    "submission s = 0" "completion s \<le> num_migration_jobs s" "batch_size (detector s) < f32 (of_nat (num_migration_jobs s + 1))"
    "rtranclp (prog_step K qs) (PLANNING, s', [], 0) (ph, t, H, w)"
  shows "d_list (mlinks t) m = Some () \<and> H = [] \<and> w = 0 \<and> completion t < num_migration_jobs t \<and>
    (ph \<noteq> PLANNING \<longrightarrow> (\<forall>c. prog_step K qs (ph, t, H, w) c \<longrightarrow> fst c \<noteq> PLANNING))"
proof -
  have d: "deaf m (ph, t, H, w)" by (rule deaf_run [OF assms(7) deaf_starts [OF assms(1-6)]])
  have "fst c \<noteq> PLANNING" if "ph \<noteq> PLANNING" "prog_step K qs (ph, t, H, w) c" for c
    using deaf_blocked [OF d that(1), of K qs "fst c"] that(2) by (cases c) auto
  then show ?thesis using d by (simp add: deaf_def)
qed

text \<open>A plan with the eight jobs of the batch done and nobody awake.\<close>

definition demo_full :: policy_state where
  "demo_full = (policy_start 0x400000 0x400000)
     \<lparr>links := the (enqueue_fifo dll_empty DRAM_FREE 4096), body := (\<lambda>_. zero_page)(8192 := zero_page\<lparr>can_promote := True\<rparr>),
      scores := [\<lparr>se_page = 8192, se_score = 1\<rparr>, \<lparr>se_page = 12288, se_score = 0\<rparr>], demote_idx := 1,
      completion := 8, num_migration_jobs := 8, max_migrations_cur_interval := 100,
      promotion_cost_avg := 0, demotion_cost_avg := 0\<rparr>"

lemma demo_full_plan:
  "\<exists>s'. plan_iter 16384 demo_full = Some (True, s') \<and> num_migration_jobs s' = 9 \<and> plan_iter 16384 s' = Some (False, s')"
proof -
  let ?lk = "dll_empty\<lparr>l_first := (l_first dll_empty)(DRAM_FREE := 4096), l_last := (l_last dll_empty)(DRAM_FREE := 4096),
    l_num := (l_num dll_empty)(DRAM_FREE := 1), d_list := (d_list dll_empty)(4096 := Some DRAM_FREE)\<rparr>"
  have lk: "enqueue_fifo dll_empty DRAM_FREE 4096 = Some ?lk"
    by (simp add: enqueue_fifo_def dll_empty_def Let_def fun_eq_iff)
  have dq: "\<exists>lk'. dequeue_fifo ?lk DRAM_FREE = Some (4096, lk')" by (simp add: dequeue_fifo_def dll_empty_def Let_def)
  have z: "migration_cost 0 0 = 0" "migration_benefit 0 0 l = 0" for l
    by (simp_all add: migration_cost_def migration_benefit_def)
  have f: "links demo_full = ?lk" "promote_idx demo_full = 0" "demote_idx demo_full = 1" "num_migration_jobs demo_full = 8"
    "dram_pages demo_full = 2" "unat (max_migrations_cur_interval demo_full) = 100" "mlinks demo_full = dll_empty"
    "scores demo_full = [\<lparr>se_page = 8192, se_score = 1\<rparr>, \<lparr>se_page = 12288, se_score = 0\<rparr>]"
    "body demo_full = (\<lambda>_. zero_page)(8192 := zero_page\<lparr>can_promote := True\<rparr>)" "promotion_cost_avg demo_full = 0" "demotion_cost_avg demo_full = 0"
    using lk demo_count by (simp_all add: demo_full_def policy_start_def pebs_start_def pebs_state.defs policy_state.defs arms_state.defs
      dram_pages_def frame_count_def arms_start_def)
  have sk: "skip_fast (on_fast demo_full) 0 (Suc 0) = 0" by (subst skip_fast.simps) (simp add: on_fast_def f zero_page_def)
  obtain lk' where 1: "dequeue_fifo ?lk DRAM_FREE = Some (4096, lk')" using dq by blast
  let ?s = "demo_full\<lparr>promote_idx := 0, links := lk'\<rparr>"
  obtain u where u: "submit 16384 \<lparr>dram_page = NULL, nvm_page = 8192, free_page = 4096, need_demotion = False\<rparr> ?s = Some u"
    using submit_succeeds [of 16384 ?s "\<lambda>_. []"] by (auto simp: f dll_rep_empty) (auto simp: dll_empty_def)
  note U = submit_fields [OF u]
  have "\<exists>s'. plan_promotion 16384 8192 4096 ?s = Some (True, s') \<and> num_migration_jobs s' = 9 \<and> promote_idx s' = 1 \<and> demote_idx s' = 1"
    using u U by (simp add: plan_promotion_def f z zero_page_def)
  then obtain s' where s': "plan_promotion 16384 8192 4096 ?s = Some (True, s')" "num_migration_jobs s' = 9" "promote_idx s' = 1" "demote_idx s' = 1"
    by blast
  have "plan_iter 16384 demo_full = Some (True, s')"
    using s'(1) by (simp add: plan_iter_def f sk zero_page_def 1)
  then show ?thesis using s' by (auto simp: plan_iter_def)
qed

lemma wakeup_lost_witness:
  "\<exists>s1 s2. plan_iter 16384 demo_full = Some (True, s1) \<and>
     prog_step host_kernel demo_sort (PLANNING, s1, [], 0) (IDLE, end_interval (\<lambda>_ _. True) s2, [], 0) \<and>
     d_list (mlinks (end_interval (\<lambda>_ _. True) s2)) 16384 = Some () \<and> completion (end_interval (\<lambda>_ _. True) s2) < num_migration_jobs (end_interval (\<lambda>_ _. True) s2)"
proof -
  obtain s1 where s1: "plan_iter 16384 demo_full = Some (True, s1)" "num_migration_jobs s1 = 9" "plan_iter 16384 s1 = Some (False, s1)"
    using demo_full_plan by blast
  have f: "num_migration_jobs demo_full = 8" "d_list (mlinks demo_full) 16384 = None" "submission demo_full = 0" "completion demo_full = 8"
    "detector demo_full = hcd_start"
    by (simp_all add: demo_full_def policy_start_def pebs_start_def pebs_state.defs policy_state.defs arms_state.defs dll_empty_def)
  have b: "batch_size hcd_start < f32 (of_nat (8 + 1))"
    using f32_of_int [of 9] by (simp add: hcd_start_def NUM_MIGRATION_THREADS_def)
  have st: "prog_step host_kernel demo_sort (PLANNING, s1, [], 0) (IDLE, end_interval (\<lambda>_ _. True) s1, [], 0)" by (rule prog_step.finish [OF s1(3)])
  have "rtranclp (prog_step host_kernel demo_sort) (PLANNING, s1, [], 0) (IDLE, end_interval (\<lambda>_ _. True) s1, [], 0)" using st by blast
  from wakeup_lost [OF s1(1) _ _ _ _ _ this] show ?thesis using s1 f b st by (intro exI [of _ s1]) simp
qed

end
