(* ===== verification/Pebs_Races.thy ===== *)
theory Pebs_Races
  imports Pebs_System
begin

text \<open>
  What the steps of theory Pebs_System leave out, and why. There a removal is one step and an
  unmapping call succeeds. Here the removal is taken apart at its locks, with the drain of the
  queue and a fault in between, and the unmapping call is refused by the kernel. Both end
  in a state that the system never reaches: a fault that fails an assertion although a page is
  free, and a page that is mapped although its frame is free.
\<close>

section \<open>A removal taken apart\<close>

lemma queue_removal:
  assumes inv: "pebs_inv F Q s" and p: "kh_map (pages s) v = Some p"
  shows "\<exists>h. remove_page_queue s p =
      Some (s\<lparr>pages := h, mod_page_dq := kdq_push (NULL, False) (mod_page_dq s) (p, True)\<rparr>) \<and> va_of s p = v"
proof -
  note D = pebs_invD [OF inv] and P = kh_map_pages_F [OF inv p]
  obtain h where "pages_del (pages s) (va_of s p) = Some h" using khtab.del_ok [OF D(6), of "va_of s p"] p P by auto
  moreover have "p \<noteq> NULL" using P D(2) by (auto simp: frames_ok_def)
  ultimately show ?thesis using P by (auto simp: remove_page_queue_def Let_def)
qed

lemma drain_removal:
  assumes inv: "pebs_inv F Q s" and p: "kh_map (pages s) v = Some p" and q: "queued s = []"
    and s1: "s1 = s\<lparr>pages := h, mod_page_dq := kdq_push (NULL, False) (mod_page_dq s) (p, True)\<rparr>"
  defines "l \<equiv> free_list_of (body s p)"
  shows "\<exists>s2. drain_one None s1 = Some (True, s2) \<and> queued s2 = [] \<and> dll_rep (links s2) (Q(l := p # Q l)) \<and>
    present (body s2 p) \<and> free_list_of (body s2 p) = l"
proof -
  note D = pebs_invD [OF inv] and P = kh_map_pages_F [OF inv p]
  have push: "kdq_wf (mod_page_dq s1)" "queued s1 = [(p, True)]"
    using kdq_push_list [OF D(8), of "(NULL, False)" "(p, True)"] q by (simp_all add: s1 queued_def)
  obtain i q' where sh: "kdq_shift (mod_page_dq s1) = (Some i, q')" "q_a q' ! i = (p, True)" "kdq_list q' = []"
    using shift_queued [OF push] by blast
  have "kh_map (pages_map s) = kh_map (pages s)" using D(10) q by simp
  then obtain k where k: "kh_get (pages_map s) (va_of s p) = Some k" "k < kh_end (pages_map s)"
    using kh_get_spec [OF D(7), of "va_of s p"] p P by auto
  have pn: "p \<noteq> NULL" "p \<notin> free_pages Q" using P D(2,13) by (auto simp: frames_ok_def)
  then obtain lk where lk: "enqueue_fifo (links s) l p = Some lk" "dll_rep lk (Q(l := p # Q l))"
    using pageq.enq_rep [OF D(1), of p l] free_pages_mem by blast
  have "present (body s p)" using D(14) [of p] P p by (auto intro: ranI)
  then show ?thesis using sh k lk
    by (auto simp: drain_one_def s1 l_def kh_end_def Let_def queued_def free_list_of_def)
qed

lemma fault_in_between:
  assumes Q: "dll_rep (links s) ((\<lambda>_. [])(l := [p]))" and p: "present (body s p)" "free_list_of (body s p) = l"
  shows "pebs_pagefault s = None" "\<exists>s'. pebs_pagefault (remove_page_clear s p) = Some (p, s')"
proof -
  let ?Q = "(\<lambda>_. [])(l := [p])"
  obtain lk where lk: "dequeue_fifo (links s) l = Some (p, lk)" using dequeue_fifo_rep [OF Q, of l] by auto
  have pn: "p \<noteq> NULL" using dll_repD(2) [OF Q, of l] by auto
  have e: "dequeue_fifo (links s) k = Some (NULL, links s)" if "k \<noteq> l" for k using dequeue_fifo_empty [OF Q] that by simp
  have "pebs_pagefault s = None \<and> (\<exists>s'. pebs_pagefault (remove_page_clear s p) = Some (p, s'))"
  proof (cases l)
    case DRAM_FREE
    then have "in_dram (body s p)" using p(2) by (simp add: free_list_of_def split: if_splits)
    then show ?thesis using lk pn p(1) DRAM_FREE
      by (simp add: pebs_pagefault_def pebs_allocate_page_def remove_page_clear_def)
  next
    case NVM_FREE
    then have "\<not> in_dram (body s p)" using p(2) by (simp add: free_list_of_def split: if_splits)
    then show ?thesis using lk pn p(1) NVM_FREE e [of DRAM_FREE]
      by (simp add: pebs_pagefault_def pebs_allocate_page_def remove_page_clear_def)
  qed
  then show "pebs_pagefault s = None" "\<exists>s'. pebs_pagefault (remove_page_clear s p) = Some (p, s')" by blast+
qed

section \<open>An unmapping call that fails\<close>

lemma drain_frees:
  assumes "pebs_inv F Q s"
  shows "\<exists>s' Q'. drain (\<lambda>_. None) i s = Some s' \<and> pebs_inv F Q' s' \<and> queued s' = [] \<and> kh_map (pages_map s') = kh_map (pages s) \<and>
    free_pages Q' \<union> tracked s' = free_pages Q \<union> tracked s \<and> vmap s' = vmap s \<and>
    (\<forall>x. frame_of (body s' x) = frame_of (body s x))"
  using assms
proof (induction "queued s" arbitrary: s Q i)
  case Nil
  then have "queued s = []" by simp
  moreover from this have "kh_map (pages_map s) = kh_map (pages s)" using pebs_invD(10) [OF Nil(2)] by simp
  ultimately show ?case using Nil(2) drain_one_empty [of s]
    by (intro exI [of _ s] exI [of _ Q]) (subst drain.simps, simp)
next
  case (Cons e rest)
  obtain p f where e: "e = (p, f)" by (cases e)
  have "\<exists>s1. drain_one None s = Some (True, s1) \<and> queued s1 = rest"
    using drain_one_add [OF Cons(3), of p rest] drain_one_free [OF Cons(3), of p rest] Cons(2) e by (cases f) fastforce+
  then obtain s1 where 1: "drain_one None s = Some (True, s1)" "queued s1 = rest" by blast
  note O = drain_one_other(1) [OF 1(1)]
  obtain Q1 where Q1: "pebs_inv F Q1 s1" "pages s1 = pages s" "free_pages Q1 \<union> tracked s1 = free_pages Q \<union> tracked s"
    "\<forall>x. frame_of (body s1 x) = frame_of (body s x)" using drain_one_inv [OF Cons(3) 1(1)] by blast
  from Cons(1) [OF 1(2) [symmetric] Q1(1), of "Suc i"] show ?case
    using 1(1) Q1 O by (subst drain.simps) simp
qed

lemma arms_munmap_refused:
  assumes inv: "pebs_inv F Q s" and k: "keys_ok s" and r: "huge_range a n" "ret \<noteq> 0"
  shows "\<exists>s'. arms_munmap ret s a n = Some (ret, s') \<and> pebs_inv F Q s' \<and> tracked s' = tracked s \<and> vmap s' = vmap s \<and>
    (\<forall>x. frame_of (body s' x) = frame_of (body s x)) \<and>
    kh_map (pages s') = (\<lambda>v. if v - a < n then None else kh_map (pages s) v)"
proof -
  let ?s = "s\<lparr>internal_call := True\<rparr>"
  have b: "unat a + unat n < 2 ^ 64" "unat a mod 2 ^ 21 = 0" "unat n mod 2 ^ 21 = 0"
    using r huge_unat by (auto simp: huge_range_def)
  have u: "unat (a + n) = unat a + unat n" using b(1) by (simp add: unat_add_lem [THEN iffD1])
  have stop: "unat (a + n) mod 2 ^ 21 = 0" unfolding u using b(2,3) mod_add_eq [of "unat a" "2 ^ 21" "unat n"] by simp
  have C: "pebs_inv F Q ?s" "keys_ok ?s" "tracked ?s = tracked s"
    using inv k by (simp_all add: pebs_inv_cong(1,3) [of ?s s] keys_ok_def)
  obtain s1 where s1: "munmap_pages (a + n) a ?s = Some s1" "pebs_inv F Q s1" "vmap s1 = vmap s"
    "kh_map (pages s1) = (\<lambda>v. if a \<le> v \<and> v < a + n then None else kh_map (pages ?s) v)"
    "\<forall>x. frame_of (body s1 x) = frame_of (body ?s x)" "tracked s1 = tracked ?s"
    using munmap_pages_inv [OF stop C(1) _ C(2) mod_4096 [OF b(2)], of "vmap s"] u by auto
  let ?s2 = "s1\<lparr>internal_call := False\<rparr>"
  have "arms_munmap ret s a n = Some (ret, ?s2)" using s1(1) r(2) by (simp add: arms_munmap_def Let_def)
  moreover have "pebs_inv F Q ?s2" "tracked ?s2 = tracked s" using s1(2,6) C(3) by (simp_all add: pebs_inv_cong(1,3) [of ?s2 s1])
  ultimately show ?thesis using s1(3-5) by (intro exI [of _ ?s2]) (simp add: range_iff [OF b(1)] fun_eq_iff)
qed

section \<open>Properties\<close>

text \<open>
  C5: A removal is not atomic in the code, and the order of its parts fails an assertion: in a
  reachable state with all pages in use and an empty queue of changes, a page that is mapped is
  taken out of the table and put into the queue, the policy thread drains the queue and puts the
  page into its free list, and a missing fault that comes before the removal has cleared the
  present flag finds the page, fails the assertion that it is not present and stops the program.
  If the flag is cleared first, the same fault is served with the page.
\<close>

theorem removal_race:
  assumes "allocs_ok d (frame_count (dramsize s)) n (frame_count (nvmsize s))" "vmap s = Map.empty"
    "pebs_init d n s = Some s0" "kernel_ok K" "rtranclp (sys_step K) (False, s0, []) (False, s', R)"
    "kh_map (pages s') v = Some p" "queued s' = []" "dll_rep (links s') (\<lambda>_. [])"
  shows "\<exists>s1 s2. remove_page_queue s' p = Some s1 \<and> drain_one None s1 = Some (True, s2) \<and> queued s2 = [] \<and>
    pebs_pagefault s2 = None \<and> (\<exists>s3. pebs_pagefault (remove_page_clear s2 p) = Some (p, s3))"
proof -
  obtain F Q where Q: "sys_ok F Q (False, s', R)" using pebs_init_reaches [OF assms(1-5)] by (auto simp: sys_inv_def)
  note inv = sys_okD(1) [OF Q]
  have e: "Q l = []" for l using dll_rep_hd_neq_NULL [OF pebs_invD(1) [OF inv], of l]
      dll_repD(4) [OF assms(8), of l] dll_repD(4) [OF pebs_invD(1) [OF inv], of l] by (cases "Q l") auto
  then have "Q(l := p # Q l) = (\<lambda>_. [])(l := [p])" for l by (auto simp: fun_eq_iff)
  then show ?thesis using queue_removal [OF inv assms(6)] drain_removal [OF inv assms(6,7)] fault_in_between by metis
qed

text \<open>A machine with one frame, which is in use.\<close>

lemma free_pages_sub: "pebs_inv F Q s \<Longrightarrow> free_pages Q \<subseteq> F"
  using pebs_invD(3) [of F Q s] unfolding free_pages_def by blast

lemma one_frame_allocs: "allocs_ok demo_dram (frame_count 0x200000) demo_nvm (frame_count 0)"
  by (simp add: frame_count_def page_size_defs unat_div_distrib allocs_ok_def demo_dram_def lessThan_Suc)

lemma one_frame:
  "\<exists>s0 s2. pebs_init demo_dram demo_nvm (pebs_start 0x200000 0) = Some s0 \<and>
     rtranclp (sys_step host_kernel) (False, s0, []) (False, s2, []) \<and> kh_map (pages s2) 0x200000 = Some (demo_dram 0) \<and>
     queued s2 = [] \<and> dll_rep (links s2) (\<lambda>_. [])"
proof -
  let ?F = "{demo_dram 0}" and ?s = "pebs_start 0x200000 0"
  have c: "frame_count (dramsize ?s) = 1" "frame_count (nvmsize ?s) = 0"
    by (simp_all add: frame_count_def page_size_defs unat_div_distrib)
  have al: "allocs_ok demo_dram (frame_count (dramsize ?s)) demo_nvm (frame_count (nvmsize ?s))"
    using one_frame_allocs by simp
  obtain s0 where s0: "pebs_init demo_dram demo_nvm ?s = Some s0" "sys_inv ?F (False, s0, [])" "vmap s0 = Map.empty"
    using pebs_init_inv [OF al] unfolding c by (auto simp: lessThan_Suc)
  obtain Q where Q: "sys_ok ?F Q (False, s0, [])" using s0(2) by (auto simp: sys_inv_def)
  note D = sys_okD [OF Q]
  have e: "tracked s0 = {}" "queued s0 = []" "kh_map (pages s0) = Map.empty"
    using s0(1) by (auto simp: pebs_init_def bind_Some_iff Let_def tracked_def queued_def kdq_init_list kh_init_wf)
  then have fp: "free_pages Q = {demo_dram 0}" using D(4) by (simp add: held_pages_def)
  then have "Q DRAM_FREE \<noteq> [] \<or> Q NVM_FREE \<noteq> []" by (auto simp: free_pages_def)
  then obtain l where "Q l \<noteq> []" by blast
  then obtain k where k: "next_free Q = Some k" using next_free_some by blast
  obtain s1 where s1: "handle_missing_fault host_kernel None s0 0x200000 = Some s1"
    using missing_fault_succeeds [OF Q k host_kernel_ok host_kernel_live, of "0x200000"] s0(3) by (auto simp: HUGEPAGE_SIZE_def)
  let ?Q = "Q(k := butlast (Q k))"
  have m: "pebs_inv ?F ?Q s1" "kh_map (pages s1) = [0x200000 \<mapsto> last (Q k)]" "queued s1 = [(last (Q k), False)]" "tracked s1 = {last (Q k)}"
    using missing_fault_inv [OF D(1,2) host_kernel_ok _ s1] e k by auto
  have last: "last (Q k) = demo_dram 0" using pebs_invD(12) [OF m(1)] m(4) by simp
  obtain s2 where s2: "drain_one None s1 = Some (True, s2)" "pebs_inv ?F ?Q s2" "queued s2 = []" "pages s2 = pages s1" "tracked s2 = tracked s1"
    using drain_one_add [OF m(1,3)] by blast
  have "free_pages ?Q = {}" using free_pages_sub [OF s2(2)] pebs_invD(13) [OF s2(2)] s2(5) m(4) last by auto
  then have "?Q j = []" for j using free_pages_mem [of _ ?Q j] by (metis empty_iff list.set_intros(1) neq_Nil_conv)
  then have "?Q = (\<lambda>_. [])" by (simp only: fun_eq_iff) simp
  then have "dll_rep (links s2) (\<lambda>_. [])" using pebs_invD(1) [OF s2(2)] by simp
  moreover have "sys_step host_kernel (False, s0, []) (False, s1, [])" by (rule sys_step.fault [OF _ s1]) (simp add: s0(3))
  moreover have "sys_step host_kernel (False, s1, []) (False, s2, [])" by (rule sys_step.drain [OF s2(1)])
  ultimately show ?thesis using s0(1) s2(3,4) m(2) last
    by (intro exI [of _ s0] exI [of _ s2]) (auto intro: rtranclp.rtrancl_into_rtrancl)
qed

lemma removal_race_witness:
  "\<exists>s0 s2 s3 s4. pebs_init demo_dram demo_nvm (pebs_start 0x200000 0) = Some s0 \<and>
     rtranclp (sys_step host_kernel) (False, s0, []) (False, s2, []) \<and> remove_page_queue s2 (demo_dram 0) = Some s3 \<and>
     drain_one None s3 = Some (True, s4) \<and> pebs_pagefault s4 = None"
proof -
  obtain s0 s2 where s: "pebs_init demo_dram demo_nvm (pebs_start 0x200000 0) = Some s0"
    "rtranclp (sys_step host_kernel) (False, s0, []) (False, s2, [])" "kh_map (pages s2) 0x200000 = Some (demo_dram 0)"
    "queued s2 = []" "dll_rep (links s2) (\<lambda>_. [])" using one_frame by blast
  from removal_race [OF _ _ s(1) host_kernel_ok s(2-5)] show ?thesis using one_frame_allocs s(1,2) by fastforce
qed



end
