(* ===== verification/Simple.thy ===== *)
theory Simple
  imports Pebs_System
begin

text \<open>
  The simplest policy, \<open>src/policies/simple.c\<close>: pages come from the fast tier as long as it has one,
  then from the slow tier, and stay where they are. Also the loop that makes the page descriptors
  of a tier, which the initialisations of this policy and of the LRU policy share.
\<close>

section \<open>The descriptors of a tier\<close>

fun place_frames :: "(nat \<Rightarrow> addr) \<Rightarrow> bool \<Rightarrow> 'l \<Rightarrow> nat \<Rightarrow> nat \<Rightarrow> (addr \<Rightarrow> arms_page) \<times> 'l dll \<Rightarrow> ((addr \<Rightarrow> arms_page) \<times> 'l dll) option" where
  "place_frames alloc dram l i 0 (b, lk) = Some (b, lk)"
| "place_frames alloc dram l i (Suc n) (b, lk) = do {
     t \<leftarrow> pagesize_to_pt PAGE_SIZE;
     lk \<leftarrow> enqueue_fifo lk l (alloc i);
     place_frames alloc dram l (Suc i) n (b(alloc i := zero_page\<lparr>devdax_offset := of_nat i * PAGE_SIZE, present := False,
                                                 in_dram := dram, pt := t\<rparr>), lk)
   }"

definition new_page :: "bool \<Rightarrow> nat \<Rightarrow> arms_page" where
  "new_page dram j = zero_page\<lparr>devdax_offset := of_nat j * PAGE_SIZE, present := False, in_dram := dram, pt := HUGEP\<rparr>"

lemma place_frames_spec:
  assumes "dll_rep lk Q" "inj_on alloc {i..<i + n}" "\<And>j. j \<in> {i..<i + n} \<Longrightarrow> alloc j \<noteq> NULL"
    "\<And>j k. j \<in> {i..<i + n} \<Longrightarrow> alloc j \<notin> set (Q k)"
  shows "\<exists>b' lk'. place_frames alloc dram l i n (b, lk) = Some (b', lk') \<and>
    dll_rep lk' (Q(l := rev (map alloc [i..<i + n]) @ Q l)) \<and>
    (\<forall>j\<in>{i..<i + n}. b' (alloc j) = new_page dram j) \<and> (\<forall>x. x \<notin> alloc ` {i..<i + n} \<longrightarrow> b' x = b x)"
  using assms
proof (induction n arbitrary: i b lk Q)
  case 0
  then show ?case by simp
next
  case (Suc n)
  let ?p = "alloc i" and ?b = "b(alloc i := new_page dram i)" and ?I = "{Suc i..<Suc i + n}"
  have pg: "pagesize_to_pt PAGE_SIZE = Some HUGEP" by (simp add: pagesize_to_pt_def page_size_defs)
  obtain lk1 where lk: "enqueue_fifo lk l ?p = Some lk1" "dll_rep lk1 (Q(l := ?p # Q l))"
    using pageq.enq_rep [OF Suc.prems(1), of ?p l] Suc.prems(3,4) by auto
  have run: "place_frames alloc dram l i (Suc n) (b, lk) = place_frames alloc dram l (Suc i) n (?b, lk1)"
    using lk(1) by (simp add: pg new_page_def)
  have i1: "inj_on alloc ?I" using Suc.prems(2) by (rule inj_on_subset) auto
  have ni: "alloc j \<noteq> ?p" if "j \<in> ?I" for j using Suc.prems(2) that by (auto dest: inj_onD)
  have a2: "alloc j \<notin> set ((Q(l := ?p # Q l)) k)" if "j \<in> ?I" for j k
    using ni [OF that] Suc.prems(4) [of j] that by auto
  have "\<exists>b' lk'. place_frames alloc dram l (Suc i) n (?b, lk1) = Some (b', lk') \<and>
      dll_rep lk' ((Q(l := ?p # Q l))(l := rev (map alloc [Suc i..<Suc i + n]) @ (Q(l := ?p # Q l)) l)) \<and>
      (\<forall>j\<in>?I. b' (alloc j) = new_page dram j) \<and> (\<forall>x. x \<notin> alloc ` ?I \<longrightarrow> b' x = ?b x)"
    by (rule Suc.IH [OF lk(2) i1 _ a2]) (use Suc.prems(3) in auto)
  then obtain b' lk' where r: "place_frames alloc dram l (Suc i) n (?b, lk1) = Some (b', lk')"
    "dll_rep lk' (Q(l := rev (map alloc [Suc i..<Suc i + n]) @ ?p # Q l))"
    "\<forall>j\<in>?I. b' (alloc j) = new_page dram j" "\<forall>x. x \<notin> alloc ` ?I \<longrightarrow> b' x = ?b x" by auto
  have up: "[i..<i + Suc n] = i # [Suc i..<Suc i + n]" by (simp add: upt_rec)
  have "?p \<notin> alloc ` ?I" using ni by (metis imageE)
  then have "b' ?p = new_page dram i" using r(4) by simp
  then have "b' (alloc j) = new_page dram j" if "j \<in> {i..<i + Suc n}" for j
    using r(3) that by (cases "j = i") auto
  moreover have "b' x = b x" if "x \<notin> alloc ` {i..<i + Suc n}" for x
  proof -
    have "x \<notin> alloc ` ?I" "x \<noteq> ?p" using that by auto
    then show ?thesis using r(4) by simp
  qed
  moreover have "dll_rep lk' (Q(l := rev (map alloc [i..<i + Suc n]) @ Q l))"
    unfolding up using r(2) by (simp only: list.map rev.simps append_assoc append_Cons append_Nil)
  ultimately show ?case unfolding run using r(1) by blast
qed

text \<open>Both tiers, the fast one first.\<close>

lemma place_both:
  assumes al: "allocs_ok d nd n nn" and l: "lfast \<noteq> lslow"
  shows "\<exists>b1 lk1 b2 lk2. place_frames d True lfast 0 nd (b, dll_empty) = Some (b1, lk1) \<and>
    place_frames n False lslow 0 nn (b1, lk1) = Some (b2, lk2) \<and>
    dll_rep lk2 ((\<lambda>_. [])(lfast := rev (map d [0..<nd]), lslow := rev (map n [0..<nn]))) \<and>
    (\<forall>j<nd. b2 (d j) = new_page True j) \<and> (\<forall>j<nn. b2 (n j) = new_page False j) \<and>
    (\<forall>x. x \<notin> d ` {..<nd} \<longrightarrow> x \<notin> n ` {..<nn} \<longrightarrow> b2 x = b x)"
proof -
  have A: "inj_on d {0..<0 + nd}" "inj_on n {0..<0 + nn}" "d ` {0..<nd} \<inter> n ` {0..<nn} = {}" "NULL \<notin> d ` {0..<nd}" "NULL \<notin> n ` {0..<nn}"
    using al by (auto simp: allocs_ok_def atLeast0LessThan)
  have dis: "n j \<noteq> d x" if "j < nn" "x < nd" for j x
  proof
    assume "n j = d x"
    moreover have "d x \<in> d ` {0..<nd}" "n j \<in> n ` {0..<nn}" using that by simp_all
    ultimately show False using A(3) by auto
  qed
  have "\<exists>b1 lk1. place_frames d True lfast 0 nd (b, dll_empty) = Some (b1, lk1) \<and>
      dll_rep lk1 ((\<lambda>_. [])(lfast := rev (map d [0..<0 + nd]) @ (\<lambda>_. []) lfast)) \<and>
      (\<forall>j\<in>{0..<0 + nd}. b1 (d j) = new_page True j) \<and> (\<forall>x. x \<notin> d ` {0..<0 + nd} \<longrightarrow> b1 x = b x)"
    by (rule place_frames_spec [OF dll_rep_empty A(1)]) (use A(4) in auto)
  then obtain b1 lk1 where 1: "place_frames d True lfast 0 nd (b, dll_empty) = Some (b1, lk1)"
    "dll_rep lk1 ((\<lambda>_. [])(lfast := rev (map d [0..<nd])))" "\<forall>j<nd. b1 (d j) = new_page True j" "\<forall>x. x \<notin> d ` {0..<nd} \<longrightarrow> b1 x = b x" by auto
  let ?Q = "(\<lambda>_. [])(lfast := rev (map d [0..<nd]))"
  have "\<exists>b2 lk2. place_frames n False lslow 0 nn (b1, lk1) = Some (b2, lk2) \<and>
      dll_rep lk2 (?Q(lslow := rev (map n [0..<0 + nn]) @ ?Q lslow)) \<and>
      (\<forall>j\<in>{0..<0 + nn}. b2 (n j) = new_page False j) \<and> (\<forall>x. x \<notin> n ` {0..<0 + nn} \<longrightarrow> b2 x = b1 x)"
    by (rule place_frames_spec [OF 1(2) A(2)]) (use A(5) dis in auto)
  then obtain b2 lk2 where 2: "place_frames n False lslow 0 nn (b1, lk1) = Some (b2, lk2)"
    "dll_rep lk2 (?Q(lslow := rev (map n [0..<nn])))" "\<forall>j<nn. b2 (n j) = new_page False j" "\<forall>x. x \<notin> n ` {0..<nn} \<longrightarrow> b2 x = b1 x"
    using l by auto
  have "d j \<notin> n ` {0..<nn}" if "j < nd" for j using dis [of _ j] that by (metis atLeastLessThan_iff imageE)
  then have "\<forall>j<nd. b2 (d j) = new_page True j" using 1(3) 2(4) by simp
  moreover have "\<forall>x. x \<notin> d ` {..<nd} \<longrightarrow> x \<notin> n ` {..<nn} \<longrightarrow> b2 x = b x" using 1(4) 2(4) by (simp add: atLeast0LessThan)
  ultimately show ?thesis using 1(1) 2 by blast
qed

section \<open>The policy\<close>

record simple_state = arms_state +
  simple_links :: "free_list dll"
  fastmem :: u64
  slowmem :: u64

definition simple_remove_page :: "'a simple_state_scheme \<Rightarrow> addr \<Rightarrow> 'a simple_state_scheme option" where
  "simple_remove_page s p =
     (if in_dram (body s p) then do {
        let s = upd_page p (\<lambda>x. x\<lparr>present := False\<rparr>) s;
        lk \<leftarrow> enqueue_fifo (simple_links s) DRAM_FREE p;
        Some (s\<lparr>simple_links := lk, fastmem := fastmem s - PAGE_SIZE\<rparr>)
      } else do {
        let s = upd_page p (\<lambda>x. x\<lparr>present := False\<rparr>) s;
        lk \<leftarrow> enqueue_fifo (simple_links s) NVM_FREE p;
        Some (s\<lparr>simple_links := lk, slowmem := slowmem s - PAGE_SIZE\<rparr>)
      })"

definition simple_pagefault :: "'a simple_state_scheme \<Rightarrow> (addr \<times> 'a simple_state_scheme) option" where
  "simple_pagefault s = do {
     (page, lk) \<leftarrow> dequeue_fifo (simple_links s) DRAM_FREE;
     (if page \<noteq> NULL then do {
        assert_that (\<not> present (body s page));
        let s = upd_page page (\<lambda>x. x\<lparr>present := True\<rparr>) (s\<lparr>simple_links := lk\<rparr>);
        Some (page, s\<lparr>fastmem := fastmem s + PAGE_SIZE\<rparr>)
      } else do {
        assert_that (slowmem s < nvmsize s);
        (page, lk) \<leftarrow> dequeue_fifo (simple_links s) NVM_FREE;
        assert_that (page \<noteq> NULL);
        assert_that (\<not> present (body s page));
        let s = upd_page page (\<lambda>x. x\<lparr>present := True\<rparr>) (s\<lparr>simple_links := lk\<rparr>);
        Some (page, s\<lparr>slowmem := slowmem s + PAGE_SIZE\<rparr>)
      })
   }"

definition simple_init :: "(nat \<Rightarrow> addr) \<Rightarrow> (nat \<Rightarrow> addr) \<Rightarrow> 'a simple_state_scheme \<Rightarrow> 'a simple_state_scheme option" where
  "simple_init dram_alloc nvm_alloc s = do {
     (b, lk) \<leftarrow> place_frames dram_alloc True DRAM_FREE 0 (unat (dramsize s div PAGE_SIZE)) (body s, dll_empty);
     (b, lk) \<leftarrow> place_frames nvm_alloc False NVM_FREE 0 (unat (nvmsize s div PAGE_SIZE)) (b, lk);
     Some (s\<lparr>body := b, simple_links := lk, fastmem := 0, slowmem := 0\<rparr>)
   }"

text \<open>The two operations in any order; a page that is removed is one that a fault has handed out.\<close>

inductive simple_step :: "'a simple_state_scheme \<Rightarrow> 'a simple_state_scheme \<Rightarrow> bool" where
  fault: "simple_pagefault s = Some (p, s') \<Longrightarrow> simple_step s s'"
| remove: "present (body s p) \<Longrightarrow> simple_remove_page s p = Some s' \<Longrightarrow> simple_step s s'"

section \<open>The invariant\<close>

text \<open>\<open>D\<close> and \<open>N\<close> are the descriptors of the two tiers.\<close>

definition used_pages :: "addr set \<Rightarrow> 'a arms_state_scheme \<Rightarrow> addr set" where
  "used_pages A s = {p \<in> A. present (body s p)}"

definition simple_inv :: "addr set \<Rightarrow> addr set \<Rightarrow> (free_list \<Rightarrow> addr list) \<Rightarrow> 'a simple_state_scheme \<Rightarrow> bool" where
  "simple_inv D N Q s \<longleftrightarrow> dll_rep (simple_links s) Q \<and> finite D \<and> finite N \<and> NULL \<notin> D \<union> N \<and>
     (\<forall>p\<in>D. in_dram (body s p)) \<and> (\<forall>p\<in>N. \<not> in_dram (body s p)) \<and> (\<forall>p. present (body s p) \<longrightarrow> p \<in> D \<union> N) \<and>
     set (Q DRAM_FREE) = D - used_pages D s \<and> set (Q NVM_FREE) = N - used_pages N s \<and>
     fastmem s = of_nat (card (used_pages D s)) * PAGE_SIZE \<and> slowmem s = of_nat (card (used_pages N s)) * PAGE_SIZE \<and>
     card D = frame_count (dramsize s) \<and> card N = frame_count (nvmsize s)"

lemma simple_invD:
  assumes "simple_inv D N Q s"
  shows "dll_rep (simple_links s) Q" "finite D" "finite N" "p \<in> D \<Longrightarrow> in_dram (body s p)" "p \<in> N \<Longrightarrow> \<not> in_dram (body s p)"
    "present (body s p) \<Longrightarrow> p \<in> D \<union> N" "set (Q DRAM_FREE) = D - used_pages D s" "set (Q NVM_FREE) = N - used_pages N s"
    "fastmem s = of_nat (card (used_pages D s)) * PAGE_SIZE" "slowmem s = of_nat (card (used_pages N s)) * PAGE_SIZE"
    "card D = frame_count (dramsize s)" "card N = frame_count (nvmsize s)" "NULL \<notin> D \<union> N"
  using assms unfolding simple_inv_def by blast+

lemma used_sub: "used_pages A s \<subseteq> A"
  by (auto simp: used_pages_def)

text \<open>A page starts to be used, or stops.\<close>

lemma used_set: "p \<in> A \<Longrightarrow> used_pages A (upd_page p (\<lambda>x. x\<lparr>present := True\<rparr>) s) = insert p (used_pages A s)"
  by (auto simp: used_pages_def upd_page_def)

lemma used_clear: "used_pages A (upd_page p (\<lambda>x. x\<lparr>present := False\<rparr>) s) = used_pages A s - {p}"
  by (auto simp: used_pages_def upd_page_def)

lemma used_other: "p \<notin> A \<Longrightarrow> used_pages A (upd_page p f s) = used_pages A s"
  by (auto simp: used_pages_def upd_page_def)

lemma used_fields [simp]:
  "used_pages A (s\<lparr>simple_links := lk\<rparr>) = used_pages A s" "used_pages A (s\<lparr>fastmem := m\<rparr>) = used_pages A s"
  "used_pages A (s\<lparr>slowmem := m\<rparr>) = used_pages A s"
  by (simp_all add: used_pages_def)

lemma body_present [simp]: "in_dram (body (upd_page p (\<lambda>x. x\<lparr>present := b\<rparr>) s) q) = in_dram (body s q)"
  by (simp add: upd_page_def)

lemma simple_upd [simp]:
  "simple_links (upd_page p f s) = simple_links s" "fastmem (upd_page p f s) = fastmem s" "slowmem (upd_page p f s) = slowmem s"
  by (simp_all add: upd_page_def)

lemma dequeued_set:
  assumes "dll_rep lk Q" "Q l \<noteq> []"
  shows "set ((Q(l := butlast (Q l))) l) = set (Q l) - {last (Q l)}"
proof -
  have "distinct (butlast (Q l) @ [last (Q l)])" using dll_repD(1) [OF assms(1), of l] assms(2) by simp
  then have "set (butlast (Q l)) = set (butlast (Q l) @ [last (Q l)]) - {last (Q l)}" by auto
  then show ?thesis using assms(2) by simp
qed

lemma simple_dequeue:
  assumes inv: "simple_inv D N Q s" and l: "Q l \<noteq> []"
  shows "\<exists>lk. dequeue_fifo (simple_links s) l = Some (last (Q l), lk) \<and> dll_rep lk (Q(l := butlast (Q l))) \<and>
    last (Q l) \<noteq> NULL \<and> \<not> present (body s (last (Q l))) \<and> last (Q l) \<in> (if l = DRAM_FREE then D else N)"
proof -
  note I = simple_invD [OF inv]
  have "last (Q l) \<in> set (Q l)" using l by simp
  then show ?thesis using dequeue_fifo_rep [OF I(1) l] I(7,8,13) by (cases l) (auto simp: used_pages_def)
qed

lemma tiers_disjoint: "simple_inv D N Q s \<Longrightarrow> D \<inter> N = {}"
  using simple_invD(4,5) [of D N Q s] by blast

lemma word_Suc_page: "of_nat (Suc n) * PAGE_SIZE = of_nat n * PAGE_SIZE + (PAGE_SIZE :: u64)"
  by (simp add: algebra_simps)

lemma unat_pages:
  assumes "n * 2 ^ 21 \<le> unat (m :: u64)"
  shows "unat (of_nat n * PAGE_SIZE :: u64) = n * 2 ^ 21"
proof -
  have "unat m < 2 ^ 64" using unsigned_less [of m] by simp
  then have lt: "n * 2 ^ 21 < 2 ^ 64" using assms by linarith
  have "of_nat n * PAGE_SIZE = (of_nat (n * 2 ^ 21) :: u64)" by (simp add: page_size_defs)
  then show ?thesis using lt by (simp only: unat_of_nat) simp
qed

text \<open>The outcome of a fault.\<close>

lemma simple_fault_fast:
  assumes inv: "simple_inv D N Q s" and l: "Q DRAM_FREE \<noteq> []"
  shows "\<exists>s'. simple_pagefault s = Some (last (Q DRAM_FREE), s') \<and> simple_inv D N (Q(DRAM_FREE := butlast (Q DRAM_FREE))) s' \<and>
    last (Q DRAM_FREE) \<in> D \<and> dramsize s' = dramsize s \<and> nvmsize s' = nvmsize s \<and>
    \<not> present (body s (last (Q DRAM_FREE))) \<and> present (body s' (last (Q DRAM_FREE)))"
proof -
  let ?p = "last (Q DRAM_FREE)"
  note I = simple_invD [OF inv]
  obtain lk where lk: "dequeue_fifo (simple_links s) DRAM_FREE = Some (?p, lk)" "dll_rep lk (Q(DRAM_FREE := butlast (Q DRAM_FREE)))"
    "?p \<noteq> NULL" "\<not> present (body s ?p)" "?p \<in> D"
    using simple_dequeue [OF inv l] by auto
  let ?s = "upd_page ?p (\<lambda>x. x\<lparr>present := True\<rparr>) (s\<lparr>simple_links := lk\<rparr>)\<lparr>fastmem := fastmem s + PAGE_SIZE\<rparr>"
  have run: "simple_pagefault s = Some (?p, ?s)" using lk by (simp add: simple_pagefault_def Let_def)
  have nN: "?p \<notin> N" using tiers_disjoint [OF inv] lk(5) by blast
  have u: "used_pages D ?s = insert ?p (used_pages D s)" "used_pages N ?s = used_pages N s"
    by (simp_all add: used_set [OF lk(5)] used_other [OF nN])
  have "?p \<notin> used_pages D s" "finite (used_pages D s)" using lk(4) I(2) used_sub by (auto simp: used_pages_def)
  then have c: "card (used_pages D ?s) = Suc (card (used_pages D s))" unfolding u(1) by simp
  have "simple_inv D N (Q(DRAM_FREE := butlast (Q DRAM_FREE))) ?s"
    unfolding simple_inv_def
  proof (intro conjI)
    show "set ((Q(DRAM_FREE := butlast (Q DRAM_FREE))) DRAM_FREE) = D - used_pages D ?s"
      unfolding dequeued_set [OF I(1) l] u(1) I(7) by blast
    show "fastmem ?s = of_nat (card (used_pages D ?s)) * PAGE_SIZE" unfolding c word_Suc_page by (simp add: I(9))
    show "\<forall>p. present (body ?s p) \<longrightarrow> p \<in> D \<union> N" using I(6) lk(5) by (auto simp: upd_page_def)
  qed (use lk(2) I u in simp_all)
  moreover have "present (body ?s ?p) \<and> dramsize ?s = dramsize s \<and> nvmsize ?s = nvmsize s" by (simp add: upd_page_def)
  ultimately show ?thesis using run lk(4,5) by blast
qed

lemma simple_fault_slow:
  assumes inv: "simple_inv D N Q s" and l: "Q DRAM_FREE = []" "Q NVM_FREE \<noteq> []"
  shows "\<exists>s'. simple_pagefault s = Some (last (Q NVM_FREE), s') \<and> simple_inv D N (Q(NVM_FREE := butlast (Q NVM_FREE))) s' \<and>
    last (Q NVM_FREE) \<in> N \<and> dramsize s' = dramsize s \<and> nvmsize s' = nvmsize s \<and>
    \<not> present (body s (last (Q NVM_FREE))) \<and> present (body s' (last (Q NVM_FREE)))"
proof -
  let ?p = "last (Q NVM_FREE)"
  note I = simple_invD [OF inv]
  have 0: "dequeue_fifo (simple_links s) DRAM_FREE = Some (NULL, simple_links s)" by (rule dequeue_fifo_empty [OF I(1) l(1)])
  obtain lk where lk: "dequeue_fifo (simple_links s) NVM_FREE = Some (?p, lk)" "dll_rep lk (Q(NVM_FREE := butlast (Q NVM_FREE)))"
    "?p \<noteq> NULL" "\<not> present (body s ?p)" "?p \<in> N"
    using simple_dequeue [OF inv l(2)] by auto
  let ?s = "upd_page ?p (\<lambda>x. x\<lparr>present := True\<rparr>) (s\<lparr>simple_links := lk\<rparr>)\<lparr>slowmem := slowmem s + PAGE_SIZE\<rparr>"
  have nu: "?p \<notin> used_pages N s" "finite (used_pages N s)" using lk(4) I(3) used_sub by (auto simp: used_pages_def)
  have "used_pages N s \<subset> N" using lk(5) nu(1) used_sub by blast
  then have lt: "card (used_pages N s) < frame_count (nvmsize s)" using psubset_card_mono [OF I(3)] by (simp add: I(12))
  have "slowmem s < nvmsize s"
  proof -
    have "Suc (card (used_pages N s)) * 2 ^ 21 \<le> unat (nvmsize s) div 2 ^ 21 * 2 ^ 21"
      using lt by (intro mult_le_mono1) (simp add: frame_count_def unat_div_distrib unat_PAGE_SIZE)
    also have "\<dots> \<le> unat (nvmsize s)" by (rule div_times_less_eq_dividend)
    finally have le: "card (used_pages N s) * 2 ^ 21 < unat (nvmsize s)" by simp
    then have "unat (slowmem s) = card (used_pages N s) * 2 ^ 21" unfolding I(10)
      by (intro unat_pages [of _ "nvmsize s"]) simp
    then show ?thesis using le by (simp add: word_less_nat_alt)
  qed
  then have run: "simple_pagefault s = Some (?p, ?s)" using lk 0 by (simp add: simple_pagefault_def Let_def)
  have nD: "?p \<notin> D" using tiers_disjoint [OF inv] lk(5) by blast
  have u: "used_pages N ?s = insert ?p (used_pages N s)" "used_pages D ?s = used_pages D s"
    by (simp_all add: used_set [OF lk(5)] used_other [OF nD])
  have c: "card (used_pages N ?s) = Suc (card (used_pages N s))" unfolding u(1) using nu by simp
  have "simple_inv D N (Q(NVM_FREE := butlast (Q NVM_FREE))) ?s"
    unfolding simple_inv_def
  proof (intro conjI)
    show "set ((Q(NVM_FREE := butlast (Q NVM_FREE))) NVM_FREE) = N - used_pages N ?s"
      unfolding dequeued_set [OF I(1) l(2)] u(1) I(8) by blast
    show "slowmem ?s = of_nat (card (used_pages N ?s)) * PAGE_SIZE" unfolding c word_Suc_page by (simp add: I(10))
    show "\<forall>p. present (body ?s p) \<longrightarrow> p \<in> D \<union> N" using I(6) lk(5) by (auto simp: upd_page_def)
  qed (use lk(2) I u in simp_all)
  moreover have "present (body ?s ?p) \<and> dramsize ?s = dramsize s \<and> nvmsize ?s = nvmsize s" by (simp add: upd_page_def)
  ultimately show ?thesis using run lk(4,5) by blast
qed

lemma simple_fault_full:
  assumes inv: "simple_inv D N Q s" and l: "Q DRAM_FREE = []" "Q NVM_FREE = []"
  shows "simple_pagefault s = None"
  using dequeue_fifo_empty [OF simple_invD(1) [OF inv]] l by (simp add: simple_pagefault_def)

lemma simple_remove_inv:
  assumes inv: "simple_inv D N Q s" and p: "present (body s p)"
  shows "\<exists>s' Q'. simple_remove_page s p = Some s' \<and> simple_inv D N Q' s' \<and> \<not> present (body s' p) \<and>
    dramsize s' = dramsize s \<and> nvmsize s' = nvmsize s"
proof -
  note I = simple_invD [OF inv]
  have pin: "p \<in> D \<union> N" by (rule I(6) [OF p])
  define l where "l = (if in_dram (body s p) then DRAM_FREE else NVM_FREE)"
  have np: "p \<noteq> NULL" using pin I(13) by blast
  have "p \<notin> set (Q k)" for k using p I(7,8) tiers_disjoint [OF inv] by (cases k) (auto simp: used_pages_def)
  then obtain lk where lk: "enqueue_fifo (simple_links s) l p = Some lk" "dll_rep lk (Q(l := p # Q l))"
    using pageq.enq_rep [OF I(1) np, of l] by blast
  let ?t = "upd_page p (\<lambda>x. x\<lparr>present := False\<rparr>) s"
  have less: "of_nat c * PAGE_SIZE - PAGE_SIZE = of_nat (c - 1) * (PAGE_SIZE :: u64)" if "0 < c" for c
    using word_Suc_page [of "c - 1"] that by simp
  show ?thesis
  proof (cases "in_dram (body s p)")
    case True
    then have D: "p \<in> D" "p \<notin> N" using pin I(5) by auto
    let ?s = "?t\<lparr>simple_links := lk, fastmem := fastmem s - PAGE_SIZE\<rparr>"
    have run: "simple_remove_page s p = Some ?s" using True lk(1) by (simp add: simple_remove_page_def l_def)
    have u: "used_pages D ?s = used_pages D s - {p}" "used_pages N ?s = used_pages N s" by (simp_all add: used_clear [where A = D] used_other [OF D(2)])
    have pu: "p \<in> used_pages D s" "finite (used_pages D s)" using D p I(2) used_sub by (auto simp: used_pages_def)
    then have c: "card (used_pages D ?s) = card (used_pages D s) - 1" "0 < card (used_pages D s)" unfolding u(1) by (auto simp: card_gt_0_iff)
    have "simple_inv D N (Q(DRAM_FREE := p # Q DRAM_FREE)) ?s"
      unfolding simple_inv_def
    proof (intro conjI)
      show "set ((Q(DRAM_FREE := p # Q DRAM_FREE)) DRAM_FREE) = D - used_pages D ?s" unfolding u(1) using I(7) D by auto
      show "fastmem ?s = of_nat (card (used_pages D ?s)) * PAGE_SIZE" unfolding c(1) less [OF c(2), symmetric] by (simp add: I(9))
      show "\<forall>q. present (body ?s q) \<longrightarrow> q \<in> D \<union> N" using I(6) by (auto simp: upd_page_def)
    qed (use lk(2) I u True D in \<open>auto simp: l_def\<close>)
    moreover have "\<not> present (body ?s p) \<and> dramsize ?s = dramsize s \<and> nvmsize ?s = nvmsize s" by (simp add: upd_page_def)
    ultimately show ?thesis using run by blast
  next
    case False
    then have N: "p \<in> N" "p \<notin> D" using pin I(4) by auto
    let ?s = "?t\<lparr>simple_links := lk, slowmem := slowmem s - PAGE_SIZE\<rparr>"
    have run: "simple_remove_page s p = Some ?s" using False lk(1) by (simp add: simple_remove_page_def l_def)
    have u: "used_pages N ?s = used_pages N s - {p}" "used_pages D ?s = used_pages D s" by (simp_all add: used_clear [where A = N] used_other [OF N(2)])
    have pu: "p \<in> used_pages N s" "finite (used_pages N s)" using N p I(3) used_sub by (auto simp: used_pages_def)
    then have c: "card (used_pages N ?s) = card (used_pages N s) - 1" "0 < card (used_pages N s)" unfolding u(1) by (auto simp: card_gt_0_iff)
    have "simple_inv D N (Q(NVM_FREE := p # Q NVM_FREE)) ?s"
      unfolding simple_inv_def
    proof (intro conjI)
      show "set ((Q(NVM_FREE := p # Q NVM_FREE)) NVM_FREE) = N - used_pages N ?s" unfolding u(1) using I(8) N by auto
      show "slowmem ?s = of_nat (card (used_pages N ?s)) * PAGE_SIZE" unfolding c(1) less [OF c(2), symmetric] by (simp add: I(10))
      show "\<forall>q. present (body ?s q) \<longrightarrow> q \<in> D \<union> N" using I(6) by (auto simp: upd_page_def)
    qed (use lk(2) I u False N in \<open>auto simp: l_def\<close>)
    moreover have "\<not> present (body ?s p) \<and> dramsize ?s = dramsize s \<and> nvmsize ?s = nvmsize s" by (simp add: upd_page_def)
    ultimately show ?thesis using run by blast
  qed
qed

lemma simple_init_inv:
  assumes al: "allocs_ok d (frame_count (dramsize s)) n (frame_count (nvmsize s))" and np: "\<And>p. \<not> present (body s p)"
    and run: "simple_init d n s = Some s0"
  shows "\<exists>Q. simple_inv (d ` {..<frame_count (dramsize s)}) (n ` {..<frame_count (nvmsize s)}) Q s0 \<and>
    dramsize s0 = dramsize s \<and> nvmsize s0 = nvmsize s"
proof -
  let ?nd = "frame_count (dramsize s)" and ?nn = "frame_count (nvmsize s)"
  let ?D = "d ` {..<?nd}" and ?N = "n ` {..<?nn}"
  have neq: "DRAM_FREE \<noteq> NVM_FREE" by simp
  obtain b1 lk1 b2 lk2 where 1: "place_frames d True DRAM_FREE 0 ?nd (body s, dll_empty) = Some (b1, lk1)"
    "place_frames n False NVM_FREE 0 ?nn (b1, lk1) = Some (b2, lk2)"
    "dll_rep lk2 ((\<lambda>_. [])(DRAM_FREE := rev (map d [0..<?nd]), NVM_FREE := rev (map n [0..<?nn])))"
    "\<forall>j<?nd. b2 (d j) = new_page True j" "\<forall>j<?nn. b2 (n j) = new_page False j"
    "\<forall>x. x \<notin> d ` {..<?nd} \<longrightarrow> x \<notin> n ` {..<?nn} \<longrightarrow> b2 x = body s x"
    using place_both [OF al neq, of "body s"] by blast
  let ?Q = "(\<lambda>_. [])(DRAM_FREE := rev (map d [0..<?nd]), NVM_FREE := rev (map n [0..<?nn]))"
  have s0: "s0 = s\<lparr>body := b2, simple_links := lk2, fastmem := 0, slowmem := 0\<rparr>"
    using run 1(1,2) by (simp add: simple_init_def frame_count_def)
  have np2: "\<not> present (b2 p)" for p
  proof (cases "p \<in> ?D \<union> ?N")
    case True
    then show ?thesis using 1(4,5) by (auto simp: new_page_def)
  next
    case False
    then show ?thesis using 1(6) np by simp
  qed
  have u: "used_pages A s0 = {}" for A using np2 by (simp add: used_pages_def s0)
  have "card ?D = ?nd" "card ?N = ?nn" "NULL \<notin> ?D \<union> ?N" using al by (auto simp: allocs_ok_def card_image)
  then have "simple_inv ?D ?N ?Q s0" unfolding simple_inv_def u
    using 1(3-5) np2 by (auto simp: s0 new_page_def)
  then show ?thesis by (auto simp: s0)
qed

lemma simple_step_inv:
  assumes "simple_step s s'" "simple_inv D N Q s"
  shows "(\<exists>Q'. simple_inv D N Q' s') \<and> dramsize s' = dramsize s \<and> nvmsize s' = nvmsize s"
  using assms(1)
proof cases
  case (fault p)
  then show ?thesis using simple_fault_fast [OF assms(2)] simple_fault_slow [OF assms(2)] simple_fault_full [OF assms(2)]
    by (cases "Q DRAM_FREE = []"; cases "Q NVM_FREE = []") auto
next
  case (remove p)
  then show ?thesis using simple_remove_inv [OF assms(2) remove(1)] by auto
qed

lemma simple_run_inv:
  assumes "rtranclp simple_step s s'" "simple_inv D N Q s"
  shows "(\<exists>Q'. simple_inv D N Q' s') \<and> dramsize s' = dramsize s \<and> nvmsize s' = nvmsize s"
  using assms by (induction rule: rtranclp_induct) (blast, metis simple_step_inv)

lemma simple_reaches:
  assumes "allocs_ok d (frame_count (dramsize s)) n (frame_count (nvmsize s))" "\<And>p. \<not> present (body s p)"
    "simple_init d n s = Some s0" "rtranclp simple_step s0 s'"
  shows "\<exists>Q. simple_inv (d ` {..<frame_count (dramsize s)}) (n ` {..<frame_count (nvmsize s)}) Q s' \<and>
    dramsize s' = dramsize s \<and> nvmsize s' = nvmsize s"
  using simple_init_inv [OF assms(1-3)] simple_run_inv [OF assms(4)] by metis

text \<open>Two frames in each tier: the first fault gets a fast page.\<close>

definition simple_start :: "u64 \<Rightarrow> u64 \<Rightarrow> simple_state" where
  "simple_start ds ns = arms_state.extend (arms_start\<lparr>dramsize := ds, nvmsize := ns\<rparr>) (simple_state.fields dll_empty 0 0)"

lemma simple_start_simps [simp]:
  "dramsize (simple_start ds ns) = ds" "nvmsize (simple_start ds ns) = ns" "\<not> present (body (simple_start ds ns) p)"
  by (simp_all add: simple_start_def arms_state.defs arms_start_def zero_page_def)

lemma simple_demo:
  "\<exists>s0 s1 p. simple_init demo_dram demo_nvm (simple_start 0x400000 0x400000) = Some s0 \<and> simple_pagefault s0 = Some (p, s1) \<and>
     p \<in> demo_dram ` {..<2} \<and> present (body s1 p)"
proof -
  let ?s = "simple_start 0x400000 0x400000"
  have al: "allocs_ok demo_dram (frame_count (dramsize ?s)) demo_nvm (frame_count (nvmsize ?s))" using demo_allocs by simp
  have neq: "DRAM_FREE \<noteq> NVM_FREE" by simp
  obtain s0 where s0: "simple_init demo_dram demo_nvm ?s = Some s0"
    using place_both [OF al neq, of "body ?s"] by (auto simp: simple_init_def frame_count_def)
  obtain Q where Q: "simple_inv (demo_dram ` {..<2}) (demo_nvm ` {..<2}) Q s0"
    using simple_init_inv [OF al _ s0] by (auto simp: demo_count)
  have "used_pages (demo_dram ` {..<2}) s0 = {}"
  proof -
    have "fastmem s0 = 0" using s0 by (auto simp: simple_init_def bind_Some_iff)
    then have "of_nat (card (used_pages (demo_dram ` {..<2}) s0)) * PAGE_SIZE = (0 :: u64)" using simple_invD(9) [OF Q] by simp
    moreover have "card (used_pages (demo_dram ` {..<2}) s0) * 2 ^ 21 \<le> unat (0x400000 :: u64)"
      using card_mono [OF simple_invD(2) [OF Q] used_sub, of s0] simple_invD(11) [OF Q] s0 demo_count
      by (auto simp: simple_init_def bind_Some_iff)
    ultimately show ?thesis using unat_pages [of "card (used_pages (demo_dram ` {..<2}) s0)" "0x400000"] simple_invD(2) [OF Q] used_sub finite_subset
      by fastforce
  qed
  moreover have "demo_dram 0 \<in> demo_dram ` {..<2}" by simp
  ultimately have "demo_dram 0 \<in> set (Q DRAM_FREE)" using simple_invD(7) [OF Q] by blast
  then have "Q DRAM_FREE \<noteq> []" by auto
  then show ?thesis using simple_fault_fast [OF Q] s0 by blast
qed

section \<open>Properties\<close>

text \<open>
  C24: The simple policy accounts exactly for its memory: after any sequence of faults and
  removals fastmem and slowmem are the bytes of the pages in use in the two tiers, without wrap-
  around and never above the size of the tier.
\<close>

lemma simple_accounts:
  assumes "allocs_ok d (frame_count (dramsize s)) n (frame_count (nvmsize s))" "\<And>p. \<not> present (body s p)"
    "simple_init d n s = Some s0" "rtranclp simple_step s0 s'"
  shows "unat (fastmem s') = card {p \<in> d ` {..<frame_count (dramsize s)}. present (body s' p)} * 2 ^ 21 \<and>
    unat (slowmem s') = card {p \<in> n ` {..<frame_count (nvmsize s)}. present (body s' p)} * 2 ^ 21 \<and>
    fastmem s' \<le> dramsize s \<and> slowmem s' \<le> nvmsize s"
proof -
  let ?D = "d ` {..<frame_count (dramsize s)}" and ?N = "n ` {..<frame_count (nvmsize s)}"
  obtain Q where inv: "simple_inv ?D ?N Q s'" and sz: "dramsize s' = dramsize s" "nvmsize s' = nvmsize s"
    using simple_reaches [OF assms] by blast
  note I = simple_invD [OF inv]
  have le: "card (used_pages A s') * 2 ^ 21 \<le> unat m" if "finite A" "card A = frame_count m" for A m
  proof -
    have "card (used_pages A s') \<le> unat m div 2 ^ 21"
      using card_mono [OF that(1) used_sub, of s'] that(2) by (simp add: frame_count_def unat_div_distrib unat_PAGE_SIZE)
    then have "card (used_pages A s') * 2 ^ 21 \<le> unat m div 2 ^ 21 * 2 ^ 21" by (rule mult_le_mono1)
    also have "\<dots> \<le> unat m" by (rule div_times_less_eq_dividend)
    finally show ?thesis .
  qed
  note f = le [OF I(2,11)] and n = le [OF I(3,12)]
  have "unat (fastmem s') = card (used_pages ?D s') * 2 ^ 21" "unat (slowmem s') = card (used_pages ?N s') * 2 ^ 21"
    unfolding I(9,10) using unat_pages [OF f] unat_pages [OF n] by blast+
  then show ?thesis using f n sz by (simp add: used_pages_def word_le_nat_alt)
qed

lemma simple_accounts_witness:
  "\<exists>s0 s1. simple_init demo_dram demo_nvm (simple_start 0x400000 0x400000) = Some s0 \<and> simple_step s0 s1 \<and>
     unat (fastmem s1) = card {p \<in> demo_dram ` {..<2}. present (body s1 p)} * 2 ^ 21"
proof -
  obtain s0 s1 p where s: "simple_init demo_dram demo_nvm (simple_start 0x400000 0x400000) = Some s0" "simple_pagefault s0 = Some (p, s1)"
    using simple_demo by blast
  have st: "simple_step s0 s1" by (rule simple_step.fault [OF s(2)])
  from simple_accounts [OF _ _ s(1) r_into_rtranclp [where r = simple_step, OF st]] show ?thesis using s(1) st demo_allocs by (auto simp: demo_count)
qed

text \<open>
  C25: A fault under the simple policy fails an assertion exactly when every page of both tiers
  is in use; otherwise it hands out a page that was free, from the fast tier as long as that has
  a free one.
\<close>

lemma simple_fault_outcome:
  assumes "allocs_ok d (frame_count (dramsize s)) n (frame_count (nvmsize s))" "\<And>p. \<not> present (body s p)"
    "simple_init d n s = Some s0" "rtranclp simple_step s0 s'"
  shows "case simple_pagefault s' of
      None \<Rightarrow> (\<forall>p \<in> d ` {..<frame_count (dramsize s)} \<union> n ` {..<frame_count (nvmsize s)}. present (body s' p))
    | Some (p, s'') \<Rightarrow> \<not> present (body s' p) \<and> present (body s'' p) \<and>
        (if \<exists>q \<in> d ` {..<frame_count (dramsize s)}. \<not> present (body s' q)
         then p \<in> d ` {..<frame_count (dramsize s)} else p \<in> n ` {..<frame_count (nvmsize s)})"
proof -
  let ?D = "d ` {..<frame_count (dramsize s)}" and ?N = "n ` {..<frame_count (nvmsize s)}"
  obtain Q where inv: "simple_inv ?D ?N Q s'" using simple_reaches [OF assms] by blast
  note I = simple_invD [OF inv]
  have free: "(\<exists>q\<in>?D. \<not> present (body s' q)) \<longleftrightarrow> Q DRAM_FREE \<noteq> []" "(\<exists>q\<in>?N. \<not> present (body s' q)) \<longleftrightarrow> Q NVM_FREE \<noteq> []"
    using I(7,8) by (auto simp: used_pages_def simp flip: set_empty)
  show ?thesis
  proof (cases "Q DRAM_FREE = []")
    case True
    show ?thesis
    proof (cases "Q NVM_FREE = []")
      case n: True
      then have "simple_pagefault s' = None" by (rule simple_fault_full [OF inv True])
      then show ?thesis using free True n by auto
    next
      case False
      then obtain s'' where "simple_pagefault s' = Some (last (Q NVM_FREE), s'')" "last (Q NVM_FREE) \<in> ?N"
        "\<not> present (body s' (last (Q NVM_FREE)))" "present (body s'' (last (Q NVM_FREE)))"
        using simple_fault_slow [OF inv True] by blast
      then show ?thesis using free(1) True by simp
    qed
  next
    case False
    then obtain s'' where "simple_pagefault s' = Some (last (Q DRAM_FREE), s'')" "last (Q DRAM_FREE) \<in> ?D"
      "\<not> present (body s' (last (Q DRAM_FREE)))" "present (body s'' (last (Q DRAM_FREE)))"
      using simple_fault_fast [OF inv] by blast
    then show ?thesis using free(1) False by simp
  qed
qed

lemma simple_fault_outcome_witness:
  "\<exists>s0 s1 p. simple_init demo_dram demo_nvm (simple_start 0x400000 0x400000) = Some s0 \<and>
     simple_pagefault s0 = Some (p, s1) \<and> \<not> present (body s0 p) \<and> present (body s1 p)"
proof -
  obtain s0 s1 p where s: "simple_init demo_dram demo_nvm (simple_start 0x400000 0x400000) = Some s0" "simple_pagefault s0 = Some (p, s1)"
    using simple_demo by blast
  from simple_fault_outcome [OF _ _ s(1) rtranclp.rtrancl_refl [where r = simple_step]] show ?thesis using s demo_allocs by auto
qed

end
