(* ===== verification/Lru.thy ===== *)
theory Lru
  imports Simple
begin

text \<open>
  The LRU policy, \<open>src/policies/lru.c\<close>. Every page is in one of eight lists: for each tier a list of
  written, of active and of inactive pages, and the free pages. The scan thread (\<open>kscand\<close>) sorts the
  pages of the six lists by the accessed and dirty bits, the swap thread (\<open>kswapd\<close>) moves the pages
  of the two hot lists of the slow tier into the fast one. The bits come from the kernel, by a
  parameter that answers \<open>UFFDIO_GET_FLAG\<close>. The fields \<open>written\<close> and \<open>naccesses\<close> that the file uses
  are kept beside the page descriptors, since \<open>struct arms_page\<close> does not have them.
\<close>

section \<open>The state\<close>

datatype lru_list = ACTIVE | INACTIVE | NVM_ACTIVE | NVM_INACTIVE | WRITTEN | NVM_WRITTEN | LRU_DRAM_FREE | LRU_NVM_FREE

record lru_state = arms_state +
  lru_links :: "lru_list dll"
  written :: "addr \<Rightarrow> bool"
  naccesses :: "addr \<Rightarrow> nat"
  vas :: "u64 list"
  lru_runs :: u64
  in_kscand :: bool

definition MAX_VAS :: nat where "MAX_VAS = 1000000"
definition ARMS_ACCESSED_FLAG :: u64 where "ARMS_ACCESSED_FLAG = 0x20"
definition ARMS_DIRTY_FLAG :: u64 where "ARMS_DIRTY_FLAG = 0x40"
definition KSWAPD_MIGRATE_RATE :: u64 where "KSWAPD_MIGRATE_RATE = 50 * 1024 * 1024 * 1024"

text \<open>What the kernel answers to the additional \<open>ioctl\<close>s: the two flags of a page, and success.\<close>

record flag_kernel =
  k_get_flag :: "addr \<Rightarrow> (u64 \<times> u64) option"
  k_clear_flag :: "u64 \<Rightarrow> bool"
  k_tlbflush :: "u64 \<Rightarrow> bool"

definition arms_get_bits :: "flag_kernel \<Rightarrow> 'a arms_state_scheme \<Rightarrow> addr \<Rightarrow> u64 option" where
  "arms_get_bits G s p = do {
     assert_that (p \<noteq> NULL);
     assert_that (va (body s p) mod HUGEPAGE_SIZE = 0);
     (res1, res2) \<leftarrow> k_get_flag G p;
     Some (res1 OR res2)
   }"

definition arms_clear_bits :: "flag_kernel \<Rightarrow> u64 \<Rightarrow> 'a \<Rightarrow> 'a option" where
  "arms_clear_bits G v s = do {
     assert_that (v mod HUGEPAGE_SIZE = 0);
     assert_that (k_clear_flag G v);
     Some s
   }"

definition arms_tlb_shootdown :: "flag_kernel \<Rightarrow> u64 \<Rightarrow> 'a \<Rightarrow> 'a option" where
  "arms_tlb_shootdown G v s = do {
     assert_that (k_tlbflush G (v AND NOT (PAGE_SIZE - 1)));
     Some s
   }"

section \<open>The scan\<close>

definition lru_put :: "lru_list \<Rightarrow> addr \<Rightarrow> 'a lru_state_scheme \<Rightarrow> 'a lru_state_scheme option" where
  "lru_put l p s = do {
     lk \<leftarrow> enqueue_fifo (lru_links s) l p;
     Some (s\<lparr>lru_links := lk\<rparr>)
   }"

text \<open>The address goes into the array of those whose bits are cleared.\<close>

definition note_va :: "addr \<Rightarrow> 'a lru_state_scheme \<Rightarrow> 'a lru_state_scheme option" where
  "note_va p s = do {
     assert_that (List.length (vas s) < MAX_VAS);
     Some (s\<lparr>vas := vas s @ [va (body s p)]\<rparr>)
   }"

definition set_written :: "addr \<Rightarrow> bool \<Rightarrow> 'a lru_state_scheme \<Rightarrow> 'a lru_state_scheme" where
  "set_written p b s = s\<lparr>written := (written s)(p := b)\<rparr>"

definition set_naccesses :: "addr \<Rightarrow> nat \<Rightarrow> 'a lru_state_scheme \<Rightarrow> 'a lru_state_scheme" where
  "set_naccesses p n s = s\<lparr>naccesses := (naccesses s)(p := n)\<rparr>"

definition accessed :: "u64 \<Rightarrow> bool" where
  "accessed bits \<longleftrightarrow> bits AND ARMS_ACCESSED_FLAG = ARMS_ACCESSED_FLAG"

definition dirty :: "u64 \<Rightarrow> bool" where
  "dirty bits \<longleftrightarrow> bits AND ARMS_DIRTY_FLAG = ARMS_DIRTY_FLAG"

text \<open>The bodies of the three loops, for the page that has been taken from the list.\<close>

definition shrink_one :: "flag_kernel \<Rightarrow> lru_list \<Rightarrow> lru_list \<Rightarrow> lru_list \<Rightarrow> addr \<Rightarrow> 'a lru_state_scheme \<Rightarrow> 'a lru_state_scheme option" where
  "shrink_one G active inactive written_l p s = do {
     bits \<leftarrow> arms_get_bits G s p;
     (if accessed bits then
        (if dirty bits then do {
           s \<leftarrow> note_va p (set_written p True s);
           lru_put written_l p s
         } else do {
           s \<leftarrow> note_va p (set_written p False s);
           lru_put active p s
         })
      else lru_put inactive p (set_naccesses p 0 s))
   }"

definition expand_one :: "flag_kernel \<Rightarrow> lru_list \<Rightarrow> lru_list \<Rightarrow> lru_list \<Rightarrow> addr \<Rightarrow> 'a lru_state_scheme \<Rightarrow> 'a lru_state_scheme option" where
  "expand_one G active inactive written_l p s = do {
     bits \<leftarrow> arms_get_bits G s p;
     (if accessed bits then
        (if dirty bits then lru_put written_l p (set_written p True s)
         else do {
           let s = set_written p False s;
           (if naccesses s p \<ge> 4 then lru_put active p (set_naccesses p 0 s)
            else do {
              s \<leftarrow> note_va p (set_naccesses p (naccesses s p + 1) s);
              lru_put inactive p s
            })
         })
      else lru_put inactive p (set_naccesses p 0 s))
   }"

definition check_one :: "flag_kernel \<Rightarrow> lru_list \<Rightarrow> lru_list \<Rightarrow> lru_list \<Rightarrow> addr \<Rightarrow> 'a lru_state_scheme \<Rightarrow> 'a lru_state_scheme option" where
  "check_one G active inactive written_l p s = do {
     bits \<leftarrow> arms_get_bits G s p;
     (if accessed bits then
        (if dirty bits then do {
           s \<leftarrow> note_va p (set_written p True s);
           lru_put written_l p s
         } else lru_put active p (set_written p False s))
      else lru_put inactive p s)
   }"

text \<open>The loops over the pages that a list has at the start.\<close>

fun shrink_loop :: "flag_kernel \<Rightarrow> lru_list \<Rightarrow> lru_list \<Rightarrow> lru_list \<Rightarrow> nat \<Rightarrow> 'a lru_state_scheme \<Rightarrow> 'a lru_state_scheme option" where
  "shrink_loop G active inactive written_l 0 s = Some s"
| "shrink_loop G active inactive written_l (Suc n) s =
     (if l_num (lru_links s) active > 0 then do {
        (page, lk) \<leftarrow> dequeue_fifo (lru_links s) active;
        s \<leftarrow> shrink_one G active inactive written_l page (s\<lparr>lru_links := lk\<rparr>);
        shrink_loop G active inactive written_l n s
      } else Some s)"

definition shrink_caches :: "flag_kernel \<Rightarrow> lru_list \<Rightarrow> lru_list \<Rightarrow> lru_list \<Rightarrow> 'a lru_state_scheme \<Rightarrow> 'a lru_state_scheme option" where
  "shrink_caches G active inactive written_l s =
     shrink_loop G active inactive written_l (unat (l_num (lru_links s) active)) s"

fun scan_loop :: "(addr \<Rightarrow> 'a lru_state_scheme \<Rightarrow> 'a lru_state_scheme option) \<Rightarrow> lru_list \<Rightarrow> nat \<Rightarrow> 'a lru_state_scheme \<Rightarrow> 'a lru_state_scheme option" where
  "scan_loop one l 0 s = Some s"
| "scan_loop one l (Suc n) s = do {
     (page, lk) \<leftarrow> dequeue_fifo (lru_links s) l;
     (if page = NULL then Some (s\<lparr>lru_links := lk\<rparr>)
      else do {
        s \<leftarrow> one page (s\<lparr>lru_links := lk\<rparr>);
        scan_loop one l n s
      })
   }"

definition expand_caches :: "flag_kernel \<Rightarrow> lru_list \<Rightarrow> lru_list \<Rightarrow> lru_list \<Rightarrow> 'a lru_state_scheme \<Rightarrow> 'a lru_state_scheme option" where
  "expand_caches G active inactive written_l s =
     scan_loop (expand_one G active inactive written_l) inactive (unat (l_num (lru_links s) inactive)) s"

definition check_writes :: "flag_kernel \<Rightarrow> lru_list \<Rightarrow> lru_list \<Rightarrow> lru_list \<Rightarrow> 'a lru_state_scheme \<Rightarrow> 'a lru_state_scheme option" where
  "check_writes G active inactive written_l s =
     scan_loop (check_one G active inactive written_l) written_l (unat (l_num (lru_links s) written_l)) s"

fun clear_all :: "flag_kernel \<Rightarrow> u64 list \<Rightarrow> 'a lru_state_scheme \<Rightarrow> 'a lru_state_scheme option" where
  "clear_all G [] s = Some s"
| "clear_all G (v # vs) s = do {
     s \<leftarrow> arms_clear_bits G v s;
     clear_all G vs s
   }"

text \<open>One pass of the scan thread.\<close>

definition lru_kscand :: "flag_kernel \<Rightarrow> 'a lru_state_scheme \<Rightarrow> 'a lru_state_scheme option" where
  "lru_kscand G s = do {
     let s = s\<lparr>in_kscand := True\<rparr>;
     let s = s\<lparr>vas := []\<rparr>;
     s \<leftarrow> check_writes G ACTIVE INACTIVE WRITTEN s;
     s \<leftarrow> check_writes G NVM_ACTIVE NVM_INACTIVE NVM_WRITTEN s;
     s \<leftarrow> shrink_caches G ACTIVE INACTIVE WRITTEN s;
     s \<leftarrow> shrink_caches G NVM_ACTIVE NVM_INACTIVE NVM_WRITTEN s;
     s \<leftarrow> expand_caches G ACTIVE INACTIVE WRITTEN s;
     s \<leftarrow> expand_caches G NVM_ACTIVE NVM_INACTIVE NVM_WRITTEN s;
     s \<leftarrow> clear_all G (vas s) s;
     s \<leftarrow> arms_tlb_shootdown G 0 s;
     Some (s\<lparr>in_kscand := False\<rparr>)
   }"

section \<open>The swap thread\<close>

definition lru_migrate_down :: "kernel \<Rightarrow> flag_kernel \<Rightarrow> 'a lru_state_scheme \<Rightarrow> addr \<Rightarrow> u64 \<Rightarrow> 'a lru_state_scheme option" where
  "lru_migrate_down K G s p offset = do {
     let s = s\<lparr>body := (body s)(p := (body s p)\<lparr>migrating := True\<rparr>)\<rparr>;
     s \<leftarrow> arms_wp_page K s p True;
     s \<leftarrow> arms_migrate_down K s p offset;
     s \<leftarrow> arms_tlb_shootdown G (va (body s p)) s;
     Some (s\<lparr>body := (body s)(p := (body s p)\<lparr>migrating := False\<rparr>)\<rparr>)
   }"

definition lru_migrate_up :: "kernel \<Rightarrow> flag_kernel \<Rightarrow> 'a lru_state_scheme \<Rightarrow> addr \<Rightarrow> u64 \<Rightarrow> 'a lru_state_scheme option" where
  "lru_migrate_up K G s p offset = do {
     let s = s\<lparr>body := (body s)(p := (body s p)\<lparr>migrating := True\<rparr>)\<rparr>;
     s \<leftarrow> arms_wp_page K s p True;
     s \<leftarrow> arms_migrate_up K s p offset;
     s \<leftarrow> arms_tlb_shootdown G (va (body s p)) s;
     Some (s\<lparr>body := (body s)(p := (body s p)\<lparr>migrating := False\<rparr>)\<rparr>)
   }"

definition take_frame :: "addr \<Rightarrow> u64 \<Rightarrow> bool \<Rightarrow> 'a lru_state_scheme \<Rightarrow> 'a lru_state_scheme" where
  "take_frame np old_offset dram s = upd_page np (\<lambda>x. x\<lparr>devdax_offset := old_offset, in_dram := dram, present := False\<rparr>) s"

text \<open>
  The tries for one hot page \<open>p\<close>: what is left of the tries, and as result whether the pass is over,
  the bytes that were moved up, and the state.
\<close>

fun swap_tries :: "kernel \<Rightarrow> flag_kernel \<Rightarrow> bool \<Rightarrow> addr \<Rightarrow> nat \<Rightarrow> 'a lru_state_scheme \<Rightarrow> (bool \<times> u64 \<times> 'a lru_state_scheme) option" where
  "swap_tries K G from_written_list p 0 s = Some (False, 0, s)"
| "swap_tries K G from_written_list p (Suc tries) s = do {
     (np, lk) \<leftarrow> dequeue_fifo (lru_links s) LRU_DRAM_FREE;
     let s = s\<lparr>lru_links := lk\<rparr>;
     (if np \<noteq> NULL then do {
        assert_that (\<not> present (body s np));
        let old_offset = devdax_offset (body s p);
        s \<leftarrow> lru_migrate_up K G s p (devdax_offset (body s np));
        let s = take_frame np old_offset False s;
        s \<leftarrow> lru_put ACTIVE p s;
        s \<leftarrow> lru_put LRU_NVM_FREE np s;
        Some (False, pt_to_pagesize (pt (body s p)), s)
      } else do {
        (cp, lk) \<leftarrow> dequeue_fifo (lru_links s) INACTIVE;
        let s = s\<lparr>lru_links := lk\<rparr>;
        (if cp = NULL then do {
           s \<leftarrow> lru_put (if from_written_list then NVM_WRITTEN else NVM_ACTIVE) p s;
           Some (True, 0, s)
         } else do {
           (np, lk) \<leftarrow> dequeue_fifo (lru_links s) LRU_NVM_FREE;
           let s = s\<lparr>lru_links := lk\<rparr>;
           assert_that (np \<noteq> NULL);
           assert_that (\<not> present (body s np));
           let old_offset = devdax_offset (body s cp);
           s \<leftarrow> lru_migrate_down K G s cp (devdax_offset (body s np));
           let s = take_frame np old_offset True s;
           s \<leftarrow> lru_put NVM_INACTIVE cp s;
           s \<leftarrow> lru_put LRU_DRAM_FREE np s;
           swap_tries K G from_written_list p tries s
         })
      })
   }"

text \<open>One pass under the global lock; \<open>None\<close> is a failed assertion or a pass that does not end.\<close>

partial_function (option) swap_loop :: "kernel \<Rightarrow> flag_kernel \<Rightarrow> u64 \<Rightarrow> 'a lru_state_scheme \<Rightarrow> 'a lru_state_scheme option" where
  "swap_loop K G migrated_bytes s =
     (if \<not> migrated_bytes < KSWAPD_MIGRATE_RATE then Some s
      else do {
        (p, lk) \<leftarrow> dequeue_fifo (lru_links s) NVM_WRITTEN;
        let s = s\<lparr>lru_links := lk\<rparr>;
        let from_written_list = (p \<noteq> NULL);
        (p, lk) \<leftarrow> (if p = NULL then dequeue_fifo (lru_links s) NVM_ACTIVE else Some (p, lru_links s));
        let s = s\<lparr>lru_links := lk\<rparr>;
        (if p = NULL then Some s
         else do {
           (out, bytes, s) \<leftarrow> swap_tries K G from_written_list p 2 s;
           (if out then Some s else swap_loop K G (migrated_bytes + bytes) s)
         })
      })"

definition lru_kswapd :: "kernel \<Rightarrow> flag_kernel \<Rightarrow> 'a lru_state_scheme \<Rightarrow> 'a lru_state_scheme option" where
  "lru_kswapd K G s = do {
     s \<leftarrow> swap_loop K G 0 s;
     Some (s\<lparr>lru_runs := lru_runs s + 1\<rparr>)
   }"

section \<open>Faults and removals\<close>

definition lru_hand_out :: "lru_list \<Rightarrow> addr \<Rightarrow> 'a lru_state_scheme \<Rightarrow> (addr \<times> 'a lru_state_scheme) option" where
  "lru_hand_out l page s = do {
     assert_that (\<not> present (body s page));
     s \<leftarrow> lru_put l page (upd_page page (\<lambda>x. x\<lparr>present := True\<rparr>) s);
     Some (page, s)
   }"

definition lru_allocate_page :: "'a lru_state_scheme \<Rightarrow> (addr \<times> 'a lru_state_scheme) option" where
  "lru_allocate_page s = do {
     (page, lk) \<leftarrow> dequeue_fifo (lru_links s) LRU_DRAM_FREE;
     let s = s\<lparr>lru_links := lk\<rparr>;
     (if page \<noteq> NULL then do {
        assert_that (in_dram (body s page));
        lru_hand_out ACTIVE page s
      } else do {
        (page, lk) \<leftarrow> dequeue_fifo (lru_links s) LRU_NVM_FREE;
        let s = s\<lparr>lru_links := lk\<rparr>;
        assert_that (page \<noteq> NULL);
        assert_that (\<not> in_dram (body s page));
        lru_hand_out NVM_ACTIVE page s
      })
   }"

text \<open>The variant \<open>LRU_SWAP\<close>: a fault takes a fast page, and moves a cold page down for it if need be.\<close>

fun lru_swap_allocate :: "kernel \<Rightarrow> flag_kernel \<Rightarrow> nat \<Rightarrow> 'a lru_state_scheme \<Rightarrow> (addr \<times> 'a lru_state_scheme) option" where
  "lru_swap_allocate K G 0 s = None"
| "lru_swap_allocate K G (Suc tries) s = do {
     (page, lk) \<leftarrow> dequeue_fifo (lru_links s) LRU_DRAM_FREE;
     let s = s\<lparr>lru_links := lk\<rparr>;
     (if page \<noteq> NULL then do {
        assert_that (in_dram (body s page));
        lru_hand_out ACTIVE page s
      } else do {
        s \<leftarrow> (if l_num (lru_links s) INACTIVE = 0 then shrink_caches G ACTIVE INACTIVE WRITTEN s else Some s);
        (cp, lk) \<leftarrow> dequeue_fifo (lru_links s) INACTIVE;
        let s = s\<lparr>lru_links := lk\<rparr>;
        (page, lk) \<leftarrow> dequeue_fifo (lru_links s) LRU_NVM_FREE;
        let s = s\<lparr>lru_links := lk\<rparr>;
        s \<leftarrow> (if page \<noteq> NULL then do {
                assert_that (cp \<noteq> NULL);
                let old_offset = devdax_offset (body s cp);
                s \<leftarrow> lru_migrate_down K G s cp (devdax_offset (body s page));
                let s = take_frame page old_offset True s;
                s \<leftarrow> lru_put NVM_INACTIVE cp s;
                lru_put LRU_DRAM_FREE page s
              } else Some s);
        lru_swap_allocate K G tries s
      })
   }"

definition lru_pagefault :: "'a lru_state_scheme \<Rightarrow> (addr \<times> 'a lru_state_scheme) option" where
  "lru_pagefault s = do {
     (page, s) \<leftarrow> lru_allocate_page s;
     assert_that (page \<noteq> NULL);
     Some (page, s)
   }"

text \<open>A removal waits until \<open>in_kscand\<close> is false.\<close>

definition lru_remove_page :: "'a lru_state_scheme \<Rightarrow> addr \<Rightarrow> 'a lru_state_scheme option" where
  "lru_remove_page s page = do {
     assert_that (page \<noteq> NULL);
     l \<leftarrow> d_list (lru_links s) page;
     lk \<leftarrow> page_list_remove_page (lru_links s) l page;
     let s = upd_page page (\<lambda>x. x\<lparr>present := False\<rparr>) (s\<lparr>lru_links := lk\<rparr>);
     (if in_dram (body s page) then lru_put LRU_DRAM_FREE page s else lru_put LRU_NVM_FREE page s)
   }"

definition lru_init :: "(nat \<Rightarrow> addr) \<Rightarrow> (nat \<Rightarrow> addr) \<Rightarrow> 'a lru_state_scheme \<Rightarrow> 'a lru_state_scheme option" where
  "lru_init dram_alloc nvm_alloc s = do {
     (b, lk) \<leftarrow> place_frames dram_alloc True LRU_DRAM_FREE 0 (unat (dramsize s div PAGE_SIZE)) (body s, dll_empty);
     (b, lk) \<leftarrow> place_frames nvm_alloc False LRU_NVM_FREE 0 (unat (nvmsize s div PAGE_SIZE)) (b, lk);
     Some (s\<lparr>body := b, lru_links := lk\<rparr>)
   }"

end
