(* ===== verification/Lru_Scan.thy ===== *)
theory Lru_Scan
  imports Lru
begin

text \<open>
  What a pass of the scan thread of the LRU policy does to the lists: written pages go to the written
  list of their tier, pages that were not touched to the inactive list, and nothing is lost. The
  three loops share one contract, the locale \<open>lru_scan\<close>: the body of the loop puts the page into the
  list that a function of the page chooses.
\<close>

section \<open>The contract of a loop body\<close>

text \<open>What a body may change besides the lists.\<close>

definition scan_frame :: "addr \<Rightarrow> 'a lru_state_scheme \<Rightarrow> 'a lru_state_scheme \<Rightarrow> bool" where
  "scan_frame p s s' \<longleftrightarrow> body s' = body s \<and> (\<forall>q. q \<noteq> p \<longrightarrow> naccesses s' q = naccesses s q) \<and>
     (\<exists>vs. vas s' = vas s @ vs \<and> List.length vs \<le> 1 \<and> set vs \<subseteq> {va_of s p}) \<and> dramsize s' = dramsize s \<and> nvmsize s' = nvmsize s \<and>
     vmap s' = vmap s \<and> in_kscand s' = in_kscand s"

locale lru_scan =
  fixes one :: "addr \<Rightarrow> 'a lru_state_scheme \<Rightarrow> 'a lru_state_scheme option"
    and dest :: "'a lru_state_scheme \<Rightarrow> addr \<Rightarrow> lru_list"
  assumes one_moves: "\<lbrakk>dll_rep (lru_links s) Q; p \<noteq> NULL; d_list (lru_links s) p = None; va_of s p mod HUGEPAGE_SIZE = 0;
      List.length (vas s) < MAX_VAS\<rbrakk> \<Longrightarrow>
      \<exists>s'. one p s = Some s' \<and> scan_frame p s s' \<and> dll_rep (lru_links s') (Q(dest s p := p # Q (dest s p)))"
    and dest_local: "\<lbrakk>body s' = body s; naccesses s' p = naccesses s p\<rbrakk> \<Longrightarrow> dest s' p = dest s p"
    and dest_fields: "dest (s\<lparr>lru_links := lk\<rparr>) p = dest s p"

lemma scan_frame_refl: "scan_frame p s s"
  by (auto simp: scan_frame_def)

text \<open>The lists after the loop: the pages of \<open>src\<close> that were there at the start are distributed.\<close>

definition distributed :: "lru_list \<Rightarrow> addr list \<Rightarrow> addr list \<Rightarrow> (addr \<Rightarrow> lru_list) \<Rightarrow> (lru_list \<Rightarrow> addr list) \<Rightarrow> (lru_list \<Rightarrow> addr list) \<Rightarrow> bool" where
  "distributed src kept rest f Q Q' \<longleftrightarrow>
     (\<forall>l. set (Q' l) = (if l = src then set kept else set (Q l)) \<union> {p \<in> set rest. f p = l})"

definition scan_result :: "nat \<Rightarrow> addr list \<Rightarrow> 'a lru_state_scheme \<Rightarrow> 'a lru_state_scheme \<Rightarrow> bool" where
  "scan_result n ps s s' \<longleftrightarrow> body s' = body s \<and> (\<forall>q. q \<notin> set ps \<longrightarrow> naccesses s' q = naccesses s q) \<and>
     (\<exists>vs. vas s' = vas s @ vs \<and> List.length vs \<le> n \<and> set vs \<subseteq> va_of s ` set ps) \<and> dramsize s' = dramsize s \<and> nvmsize s' = nvmsize s \<and>
     vmap s' = vmap s \<and> in_kscand s' = in_kscand s"

lemma scan_result_refl: "scan_result n ps s s"
  by (auto simp: scan_result_def)

lemma scan_result_step:
  assumes "scan_frame p s t" "scan_result n ps t s'"
  shows "scan_result (Suc n) (p # ps) s s'"
  using assms by (fastforce simp: scan_frame_def scan_result_def)

lemma scan_result_trans:
  assumes "scan_result n ps s t" "scan_result m qs t s'"
  shows "scan_result (n + m) (ps @ qs) s s'"
  using assms by (fastforce simp: scan_result_def)

lemma dequeued_links:
  assumes Q: "dll_rep lk Q" and ne: "Q l \<noteq> []"
  shows "\<exists>lk'. dequeue_fifo lk l = Some (last (Q l), lk') \<and> dll_rep lk' (Q(l := butlast (Q l))) \<and> last (Q l) \<noteq> NULL \<and>
    d_list lk' (last (Q l)) = None"
proof -
  obtain lk' where lk': "dequeue_fifo lk l = Some (last (Q l), lk')" "dll_rep lk' (Q(l := butlast (Q l)))"
    using dequeue_fifo_rep [OF Q ne] by blast
  have "last (Q l) \<notin> set ((Q(l := butlast (Q l))) k)" for k
  proof (cases "k = l")
    case True
    then show ?thesis using dequeued_set [OF Q ne] by simp
  next
    case False
    then show ?thesis using dll_rep_disjoint [OF Q, of "last (Q l)" l k] ne by auto
  qed
  then have "d_list lk' (last (Q l)) = None" using dll_repD(7) [OF lk'(2)] by (metis option.exhaust)
  then show ?thesis using lk' dll_rep_last_neq_NULL [OF Q ne] by blast
qed

context lru_scan
begin

text \<open>\<open>rest\<close> is what the loop has still to visit, \<open>kept\<close> what it has put back into the list.\<close>

lemma scan_spec:
  assumes "dll_rep (lru_links s) Q" "Q src = kept @ rest" "List.length rest = n"
    "\<And>p. p \<in> set rest \<Longrightarrow> va_of s p mod HUGEPAGE_SIZE = 0" "List.length (vas s) + n \<le> MAX_VAS"
  shows "\<exists>s' Q'. scan_loop one src n s = Some s' \<and> dll_rep (lru_links s') Q' \<and>
    distributed src kept rest (dest s) Q Q' \<and> scan_result n rest s s'"
  using assms
proof (induction n arbitrary: s Q kept rest)
  case 0
  then show ?case by (intro exI [of _ s] exI [of _ Q]) (auto simp: distributed_def scan_result_refl)
next
  case (Suc n)
  obtain r p where rp: "rest = r @ [p]" "List.length r = n" using Suc.prems(3) by (metis length_Suc_conv_rev)
  have ne: "Q src \<noteq> []" and la: "last (Q src) = p" and bl: "butlast (Q src) = kept @ r"
    by (simp_all add: Suc.prems(2) rp(1) butlast_append)
  obtain lk where lk: "dequeue_fifo (lru_links s) src = Some (p, lk)" "dll_rep lk (Q(src := kept @ r))" "p \<noteq> NULL" "d_list lk p = None"
    using dequeued_links [OF Suc.prems(1) ne] unfolding la bl by blast
  let ?s = "s\<lparr>lru_links := lk\<rparr>" and ?Q1 = "Q(src := kept @ r)"
  have d0: "dest ?s p = dest s p" by (rule dest_fields)
  have vp: "va_of ?s p mod HUGEPAGE_SIZE = 0" and lv: "List.length (vas ?s) < MAX_VAS" using Suc.prems(4,5) rp(1) by simp_all
  have "dll_rep (lru_links ?s) ?Q1" "d_list (lru_links ?s) p = None" using lk(2,4) by simp_all
  from one_moves [OF this(1) lk(3) this(2) vp lv]
  obtain t where t: "one p ?s = Some t" "scan_frame p ?s t" "dll_rep (lru_links t) (?Q1(dest s p := p # ?Q1 (dest s p)))"
    unfolding d0 by blast
  define k where "k = (if dest s p = src then p # kept else kept)"
  define Q2 where "Q2 = ?Q1(dest s p := p # ?Q1 (dest s p))"
  have pr: "p \<notin> set r" "p \<notin> set kept" using dll_repD(1) [OF Suc.prems(1), of src] by (auto simp: Suc.prems(2) rp(1))
  have same: "body t = body s" "\<And>q. q \<in> set r \<Longrightarrow> naccesses t q = naccesses s q"
    using t(2) pr(1) by (auto simp: scan_frame_def)
  have len: "List.length (vas t) + n \<le> MAX_VAS" using t(2) Suc.prems(5) by (auto simp: scan_frame_def)
  have vr: "\<And>q. q \<in> set r \<Longrightarrow> va_of t q mod HUGEPAGE_SIZE = 0" using Suc.prems(4) same(1) rp(1) by simp
  have Q2: "dll_rep (lru_links t) Q2" "Q2 src = k @ r" using t(3) by (auto simp: Q2_def k_def)
  obtain s' Q' where s': "scan_loop one src n t = Some s'" "dll_rep (lru_links s') Q'" "distributed src k r (dest t) Q2 Q'" "scan_result n r t s'"
    using Suc.IH [OF Q2 rp(2) vr len] by blast
  have dr: "dest t q = dest s q" if "q \<in> set r" for q using dest_local same that by blast
  have D: "distributed src kept rest (dest s) Q Q'" unfolding distributed_def
  proof
    fix l
    have "set (Q' l) = (if l = src then set k else set (Q2 l)) \<union> {q \<in> set r. dest t q = l}" using s'(3) by (simp add: distributed_def)
    also have "{q \<in> set r. dest t q = l} = {q \<in> set r. dest s q = l}" using dr by auto
    finally show "set (Q' l) = (if l = src then set kept else set (Q l)) \<union> {q \<in> set rest. dest s q = l}"
      by (auto simp: k_def Q2_def rp(1))
  qed
  have "scan_result (Suc n) (p # r) ?s s'" by (rule scan_result_step [OF t(2) s'(4)])
  then have R: "scan_result (Suc n) rest s s'" unfolding scan_result_def rp(1) by auto
  have "scan_loop one src (Suc n) s = Some s'" using lk(1,3) t(1) s'(1) by simp
  then show ?case using s'(2) D R by blast
qed

end

section \<open>The three loop bodies meet it\<close>

text \<open>A kernel that always answers with the flags of the page: \<open>f\<close>, and the answers of the other calls.\<close>

definition with_flags :: "(addr \<Rightarrow> u64 \<times> u64) \<Rightarrow> flag_kernel \<Rightarrow> flag_kernel" where
  "with_flags f G = G\<lparr>k_get_flag := \<lambda>p. Some (f p)\<rparr>"

definition flag_bits :: "(addr \<Rightarrow> u64 \<times> u64) \<Rightarrow> addr \<Rightarrow> u64" where
  "flag_bits f p = fst (f p) OR snd (f p)"

lemma get_bits_with: "p \<noteq> NULL \<Longrightarrow> va_of s p mod HUGEPAGE_SIZE = 0 \<Longrightarrow> arms_get_bits (with_flags f G) s p = Some (flag_bits f p)"
  by (simp add: arms_get_bits_def with_flags_def flag_bits_def split: prod.splits)

definition sorted_to :: "lru_list \<Rightarrow> lru_list \<Rightarrow> lru_list \<Rightarrow> (addr \<Rightarrow> u64 \<times> u64) \<Rightarrow> addr \<Rightarrow> lru_list" where
  "sorted_to active inactive written_l f p =
     (if \<not> accessed (flag_bits f p) then inactive else if dirty (flag_bits f p) then written_l else active)"

definition warm_dest :: "lru_list \<Rightarrow> lru_list \<Rightarrow> lru_list \<Rightarrow> (addr \<Rightarrow> u64 \<times> u64) \<Rightarrow> 'a lru_state_scheme \<Rightarrow> addr \<Rightarrow> lru_list" where
  "warm_dest active inactive written_l f s p =
     (if accessed (flag_bits f p) \<and> \<not> dirty (flag_bits f p) \<and> naccesses s p < 4 then inactive else sorted_to active inactive written_l f p)"

text \<open>The changes of fields before the page is put back.\<close>

lemma scan_frame_pre:
  assumes "scan_frame p s t" "lru_links t = lru_links s" "vas t = vas s \<or> vas t = vas s @ [va_of s p]"
    "dll_rep (lru_links s) Q" "p \<noteq> NULL" "d_list (lru_links s) p = None"
  shows "\<exists>s'. lru_put l p t = Some s' \<and> scan_frame p s s' \<and> dll_rep (lru_links s') (Q(l := p # Q l))"
  using enqueue_fifo_rep [OF assms(4-6), of l] assms(1-3) by (auto simp: lru_put_def scan_frame_def)

lemma pre_frames:
  "scan_frame p s (set_written p b s)" "scan_frame p s (set_naccesses p n s)" "scan_frame p s (set_naccesses p n (set_written p b s))"
  "scan_frame p s (s\<lparr>vas := vas s @ [va_of s p]\<rparr>)"
  "scan_frame p s ((set_written p b s)\<lparr>vas := vas s @ [va_of s p]\<rparr>)"
  "scan_frame p s ((set_naccesses p n (set_written p b s))\<lparr>vas := vas s @ [va_of s p]\<rparr>)"
  by (auto simp: scan_frame_def set_written_def set_naccesses_def)

lemma pre_links [simp]:
  "lru_links (set_written p b s) = lru_links s" "lru_links (set_naccesses p n s) = lru_links s"
  "vas (set_written p b s) = vas s" "vas (set_naccesses p n s) = vas s"
  "body (set_written p b s) = body s" "body (set_naccesses p n s) = body s" "naccesses (set_written p b s) = naccesses s"
  by (simp_all add: set_written_def set_naccesses_def)

lemma note_va_ok: "List.length (vas s) < MAX_VAS \<Longrightarrow> note_va p s = Some (s\<lparr>vas := vas s @ [va_of s p]\<rparr>)"
  by (simp add: note_va_def)

lemma shrink_one_moves:
  fixes active inactive written_l f
  assumes "dll_rep (lru_links s) Q" "p \<noteq> NULL" "d_list (lru_links s) p = None" "va_of s p mod HUGEPAGE_SIZE = 0"
    "List.length (vas s) < MAX_VAS"
  defines "l \<equiv> sorted_to active inactive written_l f p"
  shows "\<exists>s'. shrink_one (with_flags f G) active inactive written_l p s = Some s' \<and> scan_frame p s s' \<and>
    dll_rep (lru_links s') (Q(l := p # Q l))"
proof -
  note put = scan_frame_pre [OF _ _ _ assms(1-3)]
  consider "\<not> accessed (flag_bits f p)" | "accessed (flag_bits f p)" "dirty (flag_bits f p)" | "accessed (flag_bits f p)" "\<not> dirty (flag_bits f p)"
    by blast
  then show ?thesis
  proof cases
    case 1
    then show ?thesis using put [OF pre_frames(2), of 0 inactive] by (simp add: shrink_one_def get_bits_with assms(2,4) l_def sorted_to_def)
  next
    case 2
    then show ?thesis using put [OF pre_frames(5), of True written_l]
      by (simp add: shrink_one_def get_bits_with assms(2,4,5) l_def sorted_to_def note_va_ok)
  next
    case 3
    then show ?thesis using put [OF pre_frames(5), of False active]
      by (simp add: shrink_one_def get_bits_with assms(2,4,5) l_def sorted_to_def note_va_ok)
  qed
qed

lemma check_one_moves:
  fixes active inactive written_l f
  assumes "dll_rep (lru_links s) Q" "p \<noteq> NULL" "d_list (lru_links s) p = None" "va_of s p mod HUGEPAGE_SIZE = 0"
    "List.length (vas s) < MAX_VAS"
  defines "l \<equiv> sorted_to active inactive written_l f p"
  shows "\<exists>s'. check_one (with_flags f G) active inactive written_l p s = Some s' \<and> scan_frame p s s' \<and>
    dll_rep (lru_links s') (Q(l := p # Q l))"
proof -
  note put = scan_frame_pre [OF _ _ _ assms(1-3)]
  consider "\<not> accessed (flag_bits f p)" | "accessed (flag_bits f p)" "dirty (flag_bits f p)" | "accessed (flag_bits f p)" "\<not> dirty (flag_bits f p)"
    by blast
  then show ?thesis
  proof cases
    case 1
    then show ?thesis using put [OF scan_frame_refl, of inactive] by (simp add: check_one_def get_bits_with assms(2,4) l_def sorted_to_def)
  next
    case 2
    then show ?thesis using put [OF pre_frames(5), of True written_l]
      by (simp add: check_one_def get_bits_with assms(2,4,5) l_def sorted_to_def note_va_ok)
  next
    case 3
    then show ?thesis using put [OF pre_frames(1), of False active]
      by (simp add: check_one_def get_bits_with assms(2,4) l_def sorted_to_def)
  qed
qed

lemma expand_one_moves:
  fixes active inactive written_l f
  assumes "dll_rep (lru_links s) Q" "p \<noteq> NULL" "d_list (lru_links s) p = None" "va_of s p mod HUGEPAGE_SIZE = 0"
    "List.length (vas s) < MAX_VAS"
  defines "l \<equiv> warm_dest active inactive written_l f s p"
  shows "\<exists>s'. expand_one (with_flags f G) active inactive written_l p s = Some s' \<and> scan_frame p s s' \<and>
    dll_rep (lru_links s') (Q(l := p # Q l))"
proof -
  note put = scan_frame_pre [OF _ _ _ assms(1-3)]
  consider "\<not> accessed (flag_bits f p)" | "accessed (flag_bits f p)" "dirty (flag_bits f p)"
    | "accessed (flag_bits f p)" "\<not> dirty (flag_bits f p)" "naccesses s p < 4"
    | "accessed (flag_bits f p)" "\<not> dirty (flag_bits f p)" "\<not> naccesses s p < 4"
    by blast
  then show ?thesis
  proof cases
    case 1
    then show ?thesis using put [OF pre_frames(2), of 0 inactive]
      by (simp add: expand_one_def get_bits_with assms(2,4) l_def warm_dest_def sorted_to_def)
  next
    case 2
    then show ?thesis using put [OF pre_frames(1), of True written_l]
      by (simp add: expand_one_def get_bits_with assms(2,4) l_def warm_dest_def sorted_to_def)
  next
    case 3
    then show ?thesis using put [OF pre_frames(6), of "naccesses s p + 1" False inactive]
      by (simp add: expand_one_def get_bits_with assms(2,4,5) l_def warm_dest_def sorted_to_def note_va_ok Let_def)
  next
    case 4
    then show ?thesis using put [OF pre_frames(3), of 0 False active]
      by (simp add: expand_one_def get_bits_with assms(2,4) l_def warm_dest_def sorted_to_def Let_def)
  qed
qed

interpretation shrink: lru_scan "shrink_one (with_flags f G) active inactive written_l" "\<lambda>_. sorted_to active inactive written_l f"
  for f G active inactive written_l
  by unfold_locales (erule (4) shrink_one_moves, rule HOL.refl, rule HOL.refl)

interpretation check: lru_scan "check_one (with_flags f G) active inactive written_l" "\<lambda>_. sorted_to active inactive written_l f"
  for f G active inactive written_l
  by unfold_locales (erule (4) check_one_moves, rule HOL.refl, rule HOL.refl)

interpretation expand: lru_scan "expand_one (with_flags f G) active inactive written_l" "warm_dest active inactive written_l f"
  for f G active inactive written_l
  by unfold_locales (erule (4) expand_one_moves, simp_all add: warm_dest_def)

section \<open>The loops\<close>

lemma list_size:
  assumes "dll_rep lk Q"
  shows "unat (l_num lk l) = List.length (Q l)"
proof -
  have "set (Q l) \<subseteq> UNIV - {NULL}" using dll_repD(2) [OF assms, of l] by auto
  then have "card (set (Q l)) \<le> card (UNIV - {NULL :: addr})" by (intro card_mono) auto
  also have "\<dots> < 2 ^ 64" by (simp add: card_Diff_singleton card_word)
  finally have "List.length (Q l) < 2 ^ 64" using dll_repD(1) [OF assms, of l] by (simp add: distinct_card)
  then show ?thesis by (simp add: dll_repD(6) [OF assms] unat_of_nat)
qed

text \<open>The loop of \<open>shrink_caches\<close> tests the number of entries instead of the page.\<close>

lemma shrink_loop_scan:
  assumes "dll_rep (lru_links s) Q" "Q active = kept @ rest" "List.length rest = n"
    "\<And>p. p \<in> set rest \<Longrightarrow> va_of s p mod HUGEPAGE_SIZE = 0" "List.length (vas s) + n \<le> MAX_VAS"
  shows "shrink_loop (with_flags f G) active inactive written_l n s =
    scan_loop (shrink_one (with_flags f G) active inactive written_l) active n s"
  using assms
proof (induction n arbitrary: s Q kept rest)
  case (Suc n)
  obtain r p where rp: "rest = r @ [p]" "List.length r = n" using Suc.prems(3) by (metis length_Suc_conv_rev)
  have ne: "Q active \<noteq> []" and la: "last (Q active) = p" and bl: "butlast (Q active) = kept @ r"
    by (simp_all add: Suc.prems(2) rp(1) butlast_append)
  obtain lk where lk: "dequeue_fifo (lru_links s) active = Some (p, lk)" "dll_rep lk (Q(active := kept @ r))" "p \<noteq> NULL" "d_list lk p = None"
    using dequeued_links [OF Suc.prems(1) ne] unfolding la bl by blast
  let ?s = "s\<lparr>lru_links := lk\<rparr>" and ?Q1 = "Q(active := kept @ r)" and ?d = "sorted_to active inactive written_l f p"
  have "dll_rep (lru_links ?s) ?Q1" "d_list (lru_links ?s) p = None" "va_of ?s p mod HUGEPAGE_SIZE = 0" "List.length (vas ?s) < MAX_VAS"
    using lk Suc.prems(4,5) rp(1) by simp_all
  from shrink.one_moves [OF this(1) lk(3) this(2-4), of f G active inactive written_l]
  obtain t where t: "shrink_one (with_flags f G) active inactive written_l p ?s = Some t" "scan_frame p ?s t"
    "dll_rep (lru_links t) (?Q1(?d := p # ?Q1 ?d))" by blast
  have Q2: "(?Q1(?d := p # ?Q1 ?d)) active = (if ?d = active then p # kept else kept) @ r" by simp
  have "shrink_loop (with_flags f G) active inactive written_l n t = scan_loop (shrink_one (with_flags f G) active inactive written_l) active n t"
    by (rule Suc.IH [OF t(3) Q2 rp(2)]) (use t(2) Suc.prems(4,5) rp(1) in \<open>auto simp: scan_frame_def\<close>)
  then show ?case using lk(1,3) t(1) dll_rep_num_pos [OF Suc.prems(1) ne] by simp
qed simp

text \<open>What each loop does, on lists whose pages have aligned addresses.\<close>

definition lists_aligned :: "'a lru_state_scheme \<Rightarrow> (lru_list \<Rightarrow> addr list) \<Rightarrow> bool" where
  "lists_aligned s Q \<longleftrightarrow> (\<forall>l. \<forall>p\<in>set (Q l). va_of s p mod HUGEPAGE_SIZE = 0)"

lemma caches_spec:
  assumes Q: "dll_rep (lru_links s) Q" "lists_aligned s Q"
  shows "List.length (vas s) + List.length (Q active) \<le> MAX_VAS \<Longrightarrow>
      \<exists>s' Q'. shrink_caches (with_flags f G) active inactive written_l s = Some s' \<and> dll_rep (lru_links s') Q' \<and>
      distributed active [] (Q active) (sorted_to active inactive written_l f) Q Q' \<and> scan_result (List.length (Q active)) (Q active) s s'"
    and "List.length (vas s) + List.length (Q written_l) \<le> MAX_VAS \<Longrightarrow>
      \<exists>s' Q'. check_writes (with_flags f G) active inactive written_l s = Some s' \<and> dll_rep (lru_links s') Q' \<and>
      distributed written_l [] (Q written_l) (sorted_to active inactive written_l f) Q Q' \<and> scan_result (List.length (Q written_l)) (Q written_l) s s'"
    and "List.length (vas s) + List.length (Q inactive) \<le> MAX_VAS \<Longrightarrow>
      \<exists>s' Q'. expand_caches (with_flags f G) active inactive written_l s = Some s' \<and> dll_rep (lru_links s') Q' \<and>
      distributed inactive [] (Q inactive) (warm_dest active inactive written_l f s) Q Q' \<and> scan_result (List.length (Q inactive)) (Q inactive) s s'"
proof -
  have al: "\<And>p l. p \<in> set (Q l) \<Longrightarrow> va_of s p mod HUGEPAGE_SIZE = 0" using Q(2) by (auto simp: lists_aligned_def)
  note n = list_size [OF Q(1)]
  show "\<exists>s' Q'. shrink_caches (with_flags f G) active inactive written_l s = Some s' \<and> dll_rep (lru_links s') Q' \<and>
      distributed active [] (Q active) (sorted_to active inactive written_l f) Q Q' \<and> scan_result (List.length (Q active)) (Q active) s s'"
    if "List.length (vas s) + List.length (Q active) \<le> MAX_VAS"
    using shrink.scan_spec [OF Q(1) _ HOL.refl al that, where kept = "[]" and f = f and G = G and active = active and inactive = inactive and written_l = written_l]
      shrink_loop_scan [OF Q(1) _ HOL.refl al that, where kept = "[]" and f = f and G = G and inactive = inactive and written_l = written_l]
    by (simp add: shrink_caches_def n)
  show "\<exists>s' Q'. check_writes (with_flags f G) active inactive written_l s = Some s' \<and> dll_rep (lru_links s') Q' \<and>
      distributed written_l [] (Q written_l) (sorted_to active inactive written_l f) Q Q' \<and> scan_result (List.length (Q written_l)) (Q written_l) s s'"
    if "List.length (vas s) + List.length (Q written_l) \<le> MAX_VAS"
    using check.scan_spec [OF Q(1) _ HOL.refl al that, where kept = "[]" and f = f and G = G and active = active and inactive = inactive and written_l = written_l] by (simp add: check_writes_def n)
  show "\<exists>s' Q'. expand_caches (with_flags f G) active inactive written_l s = Some s' \<and> dll_rep (lru_links s') Q' \<and>
      distributed inactive [] (Q inactive) (warm_dest active inactive written_l f s) Q Q' \<and> scan_result (List.length (Q inactive)) (Q inactive) s s'"
    if "List.length (vas s) + List.length (Q inactive) \<le> MAX_VAS"
    using expand.scan_spec [OF Q(1) _ HOL.refl al that, where kept = "[]" and f = f and G = G and active = active and inactive = inactive and written_l = written_l] by (simp add: expand_caches_def n)
qed

section \<open>A pass\<close>

definition tier_pages :: "lru_list \<Rightarrow> lru_list \<Rightarrow> lru_list \<Rightarrow> (lru_list \<Rightarrow> addr list) \<Rightarrow> addr set" where
  "tier_pages active inactive written_l Q = set (Q active) \<union> set (Q inactive) \<union> set (Q written_l)"

abbreviation fast_pages :: "(lru_list \<Rightarrow> addr list) \<Rightarrow> addr set" where
  "fast_pages \<equiv> tier_pages ACTIVE INACTIVE WRITTEN"

abbreviation slow_pages :: "(lru_list \<Rightarrow> addr list) \<Rightarrow> addr set" where
  "slow_pages \<equiv> tier_pages NVM_ACTIVE NVM_INACTIVE NVM_WRITTEN"

lemma distributed_tier:
  assumes "distributed src [] (Q src) d Q Q'" "src \<in> {a, i, w}" "\<And>p. d p \<in> {a, i, w}"
  shows "tier_pages a i w Q' = tier_pages a i w Q" "l \<notin> {a, i, w} \<Longrightarrow> set (Q' l) = set (Q l)"
proof -
  have eq: "set (Q' l) = (if l = src then {} else set (Q l)) \<union> {p \<in> set (Q src). d p = l}" for l
    using assms(1) by (simp add: distributed_def)
  show "l \<notin> {a, i, w} \<Longrightarrow> set (Q' l) = set (Q l)" unfolding eq using assms(2,3) by auto
  show "tier_pages a i w Q' = tier_pages a i w Q" unfolding tier_pages_def eq using assms(2,3) by auto
qed

lemma dests [simp]:
  "sorted_to a i w f p \<in> {a, i, w}" "warm_dest a i w f s p \<in> {a, i, w}"
  by (auto simp: sorted_to_def warm_dest_def)

lemma distributed_aligned:
  assumes "distributed src [] (Q src) d Q Q'" "lists_aligned s Q" "body s' = body s"
  shows "lists_aligned s' Q'"
  using assms by (fastforce simp: distributed_def lists_aligned_def split: if_splits)

text \<open>The three loops over the lists of one tier, one after the other.\<close>

definition sorted_tier :: "lru_list \<Rightarrow> lru_list \<Rightarrow> lru_list \<Rightarrow> (addr \<Rightarrow> u64 \<times> u64) \<Rightarrow> (addr \<Rightarrow> nat) \<Rightarrow> (lru_list \<Rightarrow> addr list) \<Rightarrow> (lru_list \<Rightarrow> addr list) \<Rightarrow> bool" where
  "sorted_tier active inactive written_l f n Q Q' \<longleftrightarrow>
     (let P = tier_pages active inactive written_l Q;
          warm = {p \<in> P. accessed (flag_bits f p) \<and> \<not> dirty (flag_bits f p)};
          cold = {p \<in> P. \<not> accessed (flag_bits f p)};
          young = {p \<in> set (Q inactive). n p < 4} in
      set (Q' written_l) = {p \<in> P. accessed (flag_bits f p) \<and> dirty (flag_bits f p)} \<and>
      set (Q' active) = warm - young \<and> set (Q' inactive) = cold \<union> (warm \<inter> young))"

lemma three_scans:
  assumes l: "active \<noteq> inactive" "active \<noteq> written_l" "inactive \<noteq> written_l"
    and dis: "set (Q active) \<inter> set (Q inactive) = {}" "set (Q written_l) \<inter> set (Q inactive) = {}"
    and 1: "\<And>l. l \<in> {active, inactive, written_l} \<Longrightarrow> set (Q1 l) = (if l = written_l then {} else set (Q l)) \<union>
        {p \<in> set (Q written_l). sorted_to active inactive written_l f p = l}"
    and 2: "\<And>l. l \<in> {active, inactive, written_l} \<Longrightarrow> set (Q2 l) = (if l = active then {} else set (Q1 l)) \<union>
        {p \<in> set (Q1 active). sorted_to active inactive written_l f p = l}"
    and 3: "\<And>l. l \<in> {active, inactive, written_l} \<Longrightarrow> set (Q3 l) = (if l = inactive then {} else set (Q2 l)) \<union>
        {p \<in> set (Q2 inactive). warm_dest active inactive written_l f s p = l}"
    and n: "\<And>p. p \<in> set (Q inactive) \<Longrightarrow> naccesses s p = n p"
  shows "sorted_tier active inactive written_l f n Q Q3"
proof -
  let ?d = "sorted_to active inactive written_l f" and ?P = "tier_pages active inactive written_l Q"
  have w1: "set (Q1 written_l) = {p \<in> set (Q written_l). ?d p = written_l}"
    "set (Q1 active) = set (Q active) \<union> {p \<in> set (Q written_l). ?d p = active}"
    "set (Q1 inactive) = set (Q inactive) \<union> {p \<in> set (Q written_l). ?d p = inactive}"
    using 1 l by auto
  have w2: "set (Q2 written_l) = {p \<in> set (Q written_l) \<union> set (Q active). ?d p = written_l}"
    "set (Q2 active) = {p \<in> set (Q written_l) \<union> set (Q active). ?d p = active}"
    "set (Q2 inactive) = set (Q inactive) \<union> {p \<in> set (Q written_l) \<union> set (Q active). ?d p = inactive}"
    using 2 l by (auto simp: w1)
  have e1: "warm_dest active inactive written_l f s p = (if ?d p = active \<and> n p < 4 then inactive else ?d p)" if "p \<in> set (Q inactive)" for p
    using n [OF that] l by (auto simp: warm_dest_def sorted_to_def)
  have e2: "warm_dest active inactive written_l f s p = inactive" if "?d p = inactive" for p
    using that l by (auto simp: warm_dest_def sorted_to_def split: if_splits)
  have w3: "set (Q3 written_l) = {p \<in> ?P. ?d p = written_l}"
    using 3 [of written_l] l e1 e2 by (auto simp: w2 tier_pages_def split: if_splits)
  have a3: "set (Q3 active) = {p \<in> ?P. ?d p = active} - {p \<in> set (Q inactive). n p < 4}"
    using 3 [of active] l e1 e2 dis by (auto simp: w2 tier_pages_def split: if_splits)
  have i3: "set (Q3 inactive) = {p \<in> ?P. ?d p = inactive} \<union> ({p \<in> ?P. ?d p = active} \<inter> {p \<in> set (Q inactive). n p < 4})"
    using 3 [of inactive] l e1 e2 by (auto simp: w2 tier_pages_def split: if_splits)
  have "?d p = written_l \<longleftrightarrow> accessed (flag_bits f p) \<and> dirty (flag_bits f p)" "?d p = active \<longleftrightarrow> accessed (flag_bits f p) \<and> \<not> dirty (flag_bits f p)"
    "?d p = inactive \<longleftrightarrow> \<not> accessed (flag_bits f p)" for p using l by (auto simp: sorted_to_def)
  then show ?thesis unfolding sorted_tier_def Let_def w3 a3 i3 by simp
qed

text \<open>The bounds of the array of addresses.\<close>

lemma list_tier_length:
  assumes "dll_rep lk Q" "l \<in> {a, i, w}"
  shows "List.length (Q l) \<le> card (tier_pages a i w Q)"
proof -
  have "List.length (Q l) = card (set (Q l))" using dll_repD(1) [OF assms(1), of l] by (simp add: distinct_card)
  also have "\<dots> \<le> card (tier_pages a i w Q)" using assms(2) by (intro card_mono) (auto simp: tier_pages_def)
  finally show ?thesis .
qed

lemma clear_all_ok:
  assumes "\<And>v. v mod HUGEPAGE_SIZE = 0 \<Longrightarrow> k_clear_flag G v" "\<And>v. v \<in> set vs \<Longrightarrow> v mod HUGEPAGE_SIZE = 0"
  shows "clear_all (with_flags f G) vs s = Some s"
  using assms(2) by (induction vs) (simp_all add: arms_clear_bits_def with_flags_def assms(1))

text \<open>The state between two loops: at most \<open>c\<close> addresses noted, and the same pages in each tier.\<close>

definition scan_ok :: "addr set \<Rightarrow> addr set \<Rightarrow> nat \<Rightarrow> 'a lru_state_scheme \<Rightarrow> (lru_list \<Rightarrow> addr list) \<Rightarrow> bool" where
  "scan_ok F S c s Q \<longleftrightarrow> dll_rep (lru_links s) Q \<and> lists_aligned s Q \<and> List.length (vas s) \<le> c \<and>
     (\<forall>v\<in>set (vas s). v mod HUGEPAGE_SIZE = 0) \<and> fast_pages Q = F \<and> slow_pages Q = S"

lemma tier_step:
  assumes ok: "scan_ok F S c s Q"
    and t: "src \<in> {a, i, w}" "\<And>p. d p \<in> {a, i, w}"
      "(a, i, w, T) = (ACTIVE, INACTIVE, WRITTEN, F) \<or> (a, i, w, T) = (NVM_ACTIVE, NVM_INACTIVE, NVM_WRITTEN, S)"
    and room: "c + card T \<le> MAX_VAS"
    and run: "\<lbrakk>dll_rep (lru_links s) Q; lists_aligned s Q; List.length (vas s) + List.length (Q src) \<le> MAX_VAS\<rbrakk> \<Longrightarrow>
      \<exists>s' Q'. step s = Some s' \<and> dll_rep (lru_links s') Q' \<and> distributed src [] (Q src) d Q Q' \<and> scan_result (List.length (Q src)) (Q src) s s'"
  shows "\<exists>s' Q'. step s = Some s' \<and> scan_ok F S (c + card T) s' Q' \<and> distributed src [] (Q src) d Q Q' \<and>
    scan_result (List.length (Q src)) (Q src) s s' \<and> (\<forall>l. l \<notin> {a, i, w} \<longrightarrow> set (Q' l) = set (Q l))"
proof -
  have Q: "dll_rep (lru_links s) Q" "lists_aligned s Q" "List.length (vas s) \<le> c" "\<forall>v\<in>set (vas s). v mod HUGEPAGE_SIZE = 0"
    "fast_pages Q = F" "slow_pages Q = S"
    using ok by (simp_all add: scan_ok_def)
  have T: "tier_pages a i w Q = T" using t(3) Q(5,6) by (elim disjE) simp_all
  note L = list_tier_length [OF Q(1) t(1), unfolded T]
  then have "List.length (vas s) + List.length (Q src) \<le> MAX_VAS" using Q(3) room by linarith
  from run [OF Q(1,2) this] obtain s' Q' where r: "step s = Some s'" "dll_rep (lru_links s') Q'" "distributed src [] (Q src) d Q Q'"
    "scan_result (List.length (Q src)) (Q src) s s'" by blast
  note d = distributed_tier [OF r(3) t(1,2)]
  have "body s' = body s" using r(4) by (simp add: scan_result_def)
  then have al: "lists_aligned s' Q'" using distributed_aligned [OF r(3) Q(2)] by blast
  obtain vs where vs: "vas s' = vas s @ vs" "List.length vs \<le> List.length (Q src)" "set vs \<subseteq> va_of s ` set (Q src)"
    using r(4) unfolding scan_result_def by blast
  have "\<forall>v\<in>set (vas s'). v mod HUGEPAGE_SIZE = 0" using vs(1,3) Q(2,4) by (auto simp: lists_aligned_def)
  moreover have "List.length (vas s') \<le> c + card T" using vs(1,2) Q(3) L by simp
  moreover have "fast_pages Q' = F \<and> slow_pages Q' = S"
  proof -
    have "tier_pages a i w Q' = T" using d(1) T by simp
    then show ?thesis using t(3)
    proof (elim disjE)
      assume aiw: "(a, i, w, T) = (ACTIVE, INACTIVE, WRITTEN, F)"
      then have "slow_pages Q' = slow_pages Q" unfolding tier_pages_def using d(2) by simp
      then show ?thesis using \<open>tier_pages a i w Q' = T\<close> aiw Q(6) by simp
    next
      assume aiw: "(a, i, w, T) = (NVM_ACTIVE, NVM_INACTIVE, NVM_WRITTEN, S)"
      then have "fast_pages Q' = fast_pages Q" unfolding tier_pages_def using d(2) by simp
      then show ?thesis using \<open>tier_pages a i w Q' = T\<close> aiw Q(5) by simp
    qed
  qed
  ultimately have "scan_ok F S (c + card T) s' Q'" using r(2) al by (simp add: scan_ok_def)
  then show ?thesis using r d(2) by blast
qed

lemma loop_steps:
  assumes ok: "scan_ok F S c s Q" and room: "c + card T \<le> MAX_VAS"
    and t: "(a, i, w, T) = (ACTIVE, INACTIVE, WRITTEN, F) \<or> (a, i, w, T) = (NVM_ACTIVE, NVM_INACTIVE, NVM_WRITTEN, S)"
  shows "\<exists>s' Q'. check_writes (with_flags f G) a i w s = Some s' \<and> scan_ok F S (c + card T) s' Q' \<and>
      distributed w [] (Q w) (sorted_to a i w f) Q Q' \<and> scan_result (List.length (Q w)) (Q w) s s' \<and> (\<forall>l. l \<notin> {a, i, w} \<longrightarrow> set (Q' l) = set (Q l))"
    "\<exists>s' Q'. shrink_caches (with_flags f G) a i w s = Some s' \<and> scan_ok F S (c + card T) s' Q' \<and>
      distributed a [] (Q a) (sorted_to a i w f) Q Q' \<and> scan_result (List.length (Q a)) (Q a) s s' \<and> (\<forall>l. l \<notin> {a, i, w} \<longrightarrow> set (Q' l) = set (Q l))"
    "\<exists>s' Q'. expand_caches (with_flags f G) a i w s = Some s' \<and> scan_ok F S (c + card T) s' Q' \<and>
      distributed i [] (Q i) (warm_dest a i w f s) Q Q' \<and> scan_result (List.length (Q i)) (Q i) s s' \<and> (\<forall>l. l \<notin> {a, i, w} \<longrightarrow> set (Q' l) = set (Q l))"
  by (rule tier_step [OF ok _ dests(1) t room, where step = "check_writes (with_flags f G) a i w"], simp, erule (2) caches_spec(2))
    (rule tier_step [OF ok _ dests(1) t room, where step = "shrink_caches (with_flags f G) a i w"], simp, erule (2) caches_spec(1),
     rule tier_step [OF ok _ dests(2) t room, where step = "expand_caches (with_flags f G) a i w"], simp, erule (2) caches_spec(3))

text \<open>The six loops.\<close>

lemma six_loops:
  fixes s :: "'a lru_state_scheme" and f :: "addr \<Rightarrow> u64 \<times> u64" and G :: flag_kernel
  assumes ok: "scan_ok F S 0 s Q" and room: "3 * (card F + card S) \<le> MAX_VAS"
  defines "G' \<equiv> with_flags f G"
  shows "\<exists>s1 s2 s3 s4 s5 s6 Q6.
    check_writes G' ACTIVE INACTIVE WRITTEN s = Some s1 \<and> check_writes G' NVM_ACTIVE NVM_INACTIVE NVM_WRITTEN s1 = Some s2 \<and>
    shrink_caches G' ACTIVE INACTIVE WRITTEN s2 = Some s3 \<and> shrink_caches G' NVM_ACTIVE NVM_INACTIVE NVM_WRITTEN s3 = Some s4 \<and>
    expand_caches G' ACTIVE INACTIVE WRITTEN s4 = Some s5 \<and> expand_caches G' NVM_ACTIVE NVM_INACTIVE NVM_WRITTEN s5 = Some s6 \<and>
    scan_ok F S (3 * (card F + card S)) s6 Q6 \<and>
    sorted_tier ACTIVE INACTIVE WRITTEN f (naccesses s) Q Q6 \<and> sorted_tier NVM_ACTIVE NVM_INACTIVE NVM_WRITTEN f (naccesses s) Q Q6 \<and>
    (\<forall>l. l \<notin> {ACTIVE, INACTIVE, WRITTEN} \<union> {NVM_ACTIVE, NVM_INACTIVE, NVM_WRITTEN} \<longrightarrow> set (Q6 l) = set (Q l)) \<and>
    body s6 = body s \<and> dramsize s6 = dramsize s \<and> nvmsize s6 = nvmsize s \<and> vmap s6 = vmap s"
proof -
  let ?D = "{ACTIVE, INACTIVE, WRITTEN}" and ?N = "{NVM_ACTIVE, NVM_INACTIVE, NVM_WRITTEN}"
  have "\<exists>s1 Q1. check_writes G' ACTIVE INACTIVE WRITTEN s = Some s1 \<and> scan_ok F S (0 + card F) s1 Q1 \<and>
      distributed WRITTEN [] (Q WRITTEN) (sorted_to ACTIVE INACTIVE WRITTEN f) Q Q1 \<and> scan_result (List.length (Q WRITTEN)) (Q WRITTEN) s s1 \<and>
      (\<forall>l. l \<notin> ?D \<longrightarrow> set (Q1 l) = set (Q l))"
    unfolding G'_def by (rule loop_steps(1) [OF ok]) (use room in simp_all)
  then obtain s1 Q1 where 1: "check_writes G' ACTIVE INACTIVE WRITTEN s = Some s1" "scan_ok F S (0 + card F) s1 Q1"
      "distributed WRITTEN [] (Q WRITTEN) (sorted_to ACTIVE INACTIVE WRITTEN f) Q Q1" "scan_result (List.length (Q WRITTEN)) (Q WRITTEN) s s1"
      "\<And>l. l \<notin> ?D \<Longrightarrow> set (Q1 l) = set (Q l)" by blast
  have "\<exists>s2 Q2. check_writes G' NVM_ACTIVE NVM_INACTIVE NVM_WRITTEN s1 = Some s2 \<and> scan_ok F S (0 + card F + card S) s2 Q2 \<and>
      distributed NVM_WRITTEN [] (Q1 NVM_WRITTEN) (sorted_to NVM_ACTIVE NVM_INACTIVE NVM_WRITTEN f) Q1 Q2 \<and>
      scan_result (List.length (Q1 NVM_WRITTEN)) (Q1 NVM_WRITTEN) s1 s2 \<and> (\<forall>l. l \<notin> ?N \<longrightarrow> set (Q2 l) = set (Q1 l))"
    unfolding G'_def by (rule loop_steps(1) [OF 1(2)]) (use room in simp_all)
  then obtain s2 Q2 where 2: "check_writes G' NVM_ACTIVE NVM_INACTIVE NVM_WRITTEN s1 = Some s2" "scan_ok F S (0 + card F + card S) s2 Q2"
      "distributed NVM_WRITTEN [] (Q1 NVM_WRITTEN) (sorted_to NVM_ACTIVE NVM_INACTIVE NVM_WRITTEN f) Q1 Q2"
      "scan_result (List.length (Q1 NVM_WRITTEN)) (Q1 NVM_WRITTEN) s1 s2" "\<And>l. l \<notin> ?N \<Longrightarrow> set (Q2 l) = set (Q1 l)" by blast
  have "\<exists>s3 Q3. shrink_caches G' ACTIVE INACTIVE WRITTEN s2 = Some s3 \<and> scan_ok F S (0 + card F + card S + card F) s3 Q3 \<and>
      distributed ACTIVE [] (Q2 ACTIVE) (sorted_to ACTIVE INACTIVE WRITTEN f) Q2 Q3 \<and> scan_result (List.length (Q2 ACTIVE)) (Q2 ACTIVE) s2 s3 \<and>
      (\<forall>l. l \<notin> ?D \<longrightarrow> set (Q3 l) = set (Q2 l))"
    unfolding G'_def by (rule loop_steps(2) [OF 2(2)]) (use room in simp_all)
  then obtain s3 Q3 where 3: "shrink_caches G' ACTIVE INACTIVE WRITTEN s2 = Some s3" "scan_ok F S (0 + card F + card S + card F) s3 Q3"
      "distributed ACTIVE [] (Q2 ACTIVE) (sorted_to ACTIVE INACTIVE WRITTEN f) Q2 Q3" "scan_result (List.length (Q2 ACTIVE)) (Q2 ACTIVE) s2 s3"
      "\<And>l. l \<notin> ?D \<Longrightarrow> set (Q3 l) = set (Q2 l)" by blast
  have "\<exists>s4 Q4. shrink_caches G' NVM_ACTIVE NVM_INACTIVE NVM_WRITTEN s3 = Some s4 \<and>
      scan_ok F S (0 + card F + card S + card F + card S) s4 Q4 \<and>
      distributed NVM_ACTIVE [] (Q3 NVM_ACTIVE) (sorted_to NVM_ACTIVE NVM_INACTIVE NVM_WRITTEN f) Q3 Q4 \<and>
      scan_result (List.length (Q3 NVM_ACTIVE)) (Q3 NVM_ACTIVE) s3 s4 \<and> (\<forall>l. l \<notin> ?N \<longrightarrow> set (Q4 l) = set (Q3 l))"
    unfolding G'_def by (rule loop_steps(2) [OF 3(2)]) (use room in simp_all)
  then obtain s4 Q4 where 4: "shrink_caches G' NVM_ACTIVE NVM_INACTIVE NVM_WRITTEN s3 = Some s4"
      "scan_ok F S (0 + card F + card S + card F + card S) s4 Q4"
      "distributed NVM_ACTIVE [] (Q3 NVM_ACTIVE) (sorted_to NVM_ACTIVE NVM_INACTIVE NVM_WRITTEN f) Q3 Q4"
      "scan_result (List.length (Q3 NVM_ACTIVE)) (Q3 NVM_ACTIVE) s3 s4" "\<And>l. l \<notin> ?N \<Longrightarrow> set (Q4 l) = set (Q3 l)" by blast
  have "\<exists>s5 Q5. expand_caches G' ACTIVE INACTIVE WRITTEN s4 = Some s5 \<and>
      scan_ok F S (0 + card F + card S + card F + card S + card F) s5 Q5 \<and>
      distributed INACTIVE [] (Q4 INACTIVE) (warm_dest ACTIVE INACTIVE WRITTEN f s4) Q4 Q5 \<and>
      scan_result (List.length (Q4 INACTIVE)) (Q4 INACTIVE) s4 s5 \<and> (\<forall>l. l \<notin> ?D \<longrightarrow> set (Q5 l) = set (Q4 l))"
    unfolding G'_def by (rule loop_steps(3) [OF 4(2)]) (use room in simp_all)
  then obtain s5 Q5 where 5: "expand_caches G' ACTIVE INACTIVE WRITTEN s4 = Some s5"
      "scan_ok F S (0 + card F + card S + card F + card S + card F) s5 Q5"
      "distributed INACTIVE [] (Q4 INACTIVE) (warm_dest ACTIVE INACTIVE WRITTEN f s4) Q4 Q5"
      "scan_result (List.length (Q4 INACTIVE)) (Q4 INACTIVE) s4 s5" "\<And>l. l \<notin> ?D \<Longrightarrow> set (Q5 l) = set (Q4 l)" by blast
  have "\<exists>s6 Q6. expand_caches G' NVM_ACTIVE NVM_INACTIVE NVM_WRITTEN s5 = Some s6 \<and>
      scan_ok F S (0 + card F + card S + card F + card S + card F + card S) s6 Q6 \<and>
      distributed NVM_INACTIVE [] (Q5 NVM_INACTIVE) (warm_dest NVM_ACTIVE NVM_INACTIVE NVM_WRITTEN f s5) Q5 Q6 \<and>
      scan_result (List.length (Q5 NVM_INACTIVE)) (Q5 NVM_INACTIVE) s5 s6 \<and> (\<forall>l. l \<notin> ?N \<longrightarrow> set (Q6 l) = set (Q5 l))"
    unfolding G'_def by (rule loop_steps(3) [OF 5(2)]) (use room in simp_all)
  then obtain s6 Q6 where 6: "expand_caches G' NVM_ACTIVE NVM_INACTIVE NVM_WRITTEN s5 = Some s6"
      "scan_ok F S (0 + card F + card S + card F + card S + card F + card S) s6 Q6"
      "distributed NVM_INACTIVE [] (Q5 NVM_INACTIVE) (warm_dest NVM_ACTIVE NVM_INACTIVE NVM_WRITTEN f s5) Q5 Q6"
      "scan_result (List.length (Q5 NVM_INACTIVE)) (Q5 NVM_INACTIVE) s5 s6" "\<And>l. l \<notin> ?N \<Longrightarrow> set (Q6 l) = set (Q5 l)" by blast
  have rep: "dll_rep (lru_links s) Q" "fast_pages Q = F" "slow_pages Q = S" using ok by (simp_all add: scan_ok_def)
  note E = 1(3) [unfolded distributed_def, rule_format] 2(3) [unfolded distributed_def, rule_format]
    3(3) [unfolded distributed_def, rule_format] 4(3) [unfolded distributed_def, rule_format]
    5(3) [unfolded distributed_def, rule_format] 6(3) [unfolded distributed_def, rule_format]
  have dis: "set (Q k) \<inter> set (Q l) = {}" if "k \<noteq> l" for k l using dll_rep_disjoint [OF rep(1)] that by blast
  have fs: "F \<inter> S = {}" unfolding rep(2,3) [symmetric] tier_pages_def using dis by auto
  have in1: "set (Q2 ACTIVE) \<subseteq> set (Q ACTIVE) \<union> set (Q WRITTEN)" using 2(5) [of ACTIVE] E(1) [of ACTIVE] by auto
  have sl: "set (Q1 NVM_WRITTEN) \<subseteq> S" "set (Q3 NVM_ACTIVE) \<subseteq> S" "set (Q5 NVM_INACTIVE) \<subseteq> S"
    using 1(2) 3(2) 5(2) by (auto simp: scan_ok_def tier_pages_def)
  have in3: "set (Q3 NVM_ACTIVE) \<subseteq> set (Q NVM_ACTIVE) \<union> set (Q NVM_WRITTEN)" "set (Q1 NVM_WRITTEN) = set (Q NVM_WRITTEN)"
    using 3(5) [of NVM_ACTIVE] E(2) [of NVM_ACTIVE] 1(5) [of NVM_ACTIVE] 1(5) [of NVM_WRITTEN] by auto
  have fa: "set (Q WRITTEN) \<subseteq> F" "set (Q2 ACTIVE) \<subseteq> F" "set (Q4 INACTIVE) \<subseteq> F"
    using rep(2) 2(2) 4(2) by (auto simp: scan_ok_def tier_pages_def)
  have n: "naccesses t q = naccesses s' q" if "scan_result m ps s' t" "q \<notin> set ps" for m ps s' q and t :: "'a lru_state_scheme"
    using that by (simp add: scan_result_def)
  have nf: "naccesses s4 p = naccesses s p" if p: "p \<in> set (Q INACTIVE)" for p
  proof -
    have "p \<in> F" using p rep(2) by (auto simp: tier_pages_def)
    then have "p \<notin> set (Q3 NVM_ACTIVE)" "p \<notin> set (Q1 NVM_WRITTEN)" using sl fs by blast+
    moreover have "p \<notin> set (Q2 ACTIVE)" "p \<notin> set (Q WRITTEN)" using p in1 dis [of INACTIVE ACTIVE] dis [of INACTIVE WRITTEN] by auto
    ultimately show ?thesis using n [OF 1(4)] n [OF 2(4)] n [OF 3(4)] n [OF 4(4)] by simp
  qed
  have ns: "naccesses s5 p = naccesses s p" if p: "p \<in> set (Q NVM_INACTIVE)" for p
  proof -
    have "p \<in> S" using p rep(3) by (auto simp: tier_pages_def)
    then have "p \<notin> set (Q WRITTEN)" "p \<notin> set (Q2 ACTIVE)" "p \<notin> set (Q4 INACTIVE)" using fa fs by blast+
    moreover have "p \<notin> set (Q3 NVM_ACTIVE)" "p \<notin> set (Q1 NVM_WRITTEN)"
      using p in3 dis [of NVM_INACTIVE NVM_ACTIVE] dis [of NVM_INACTIVE NVM_WRITTEN] by auto
    ultimately show ?thesis using n [OF 1(4)] n [OF 2(4)] n [OF 3(4)] n [OF 4(4)] n [OF 5(4)] by simp
  qed
  have st1: "sorted_tier ACTIVE INACTIVE WRITTEN f (naccesses s) Q Q6"
  proof (rule three_scans [where ?Q1.0 = Q1 and ?Q2.0 = Q3 and s = s4])
    fix l assume l: "l \<in> ?D"
    then have o: "l \<notin> ?N" by auto
    show "set (Q1 l) = (if l = WRITTEN then {} else set (Q l)) \<union> {p \<in> set (Q WRITTEN). sorted_to ACTIVE INACTIVE WRITTEN f p = l}"
      using E(1) [of l] by simp
    show "set (Q3 l) = (if l = ACTIVE then {} else set (Q1 l)) \<union> {p \<in> set (Q1 ACTIVE). sorted_to ACTIVE INACTIVE WRITTEN f p = l}"
      using E(3) [of l] 2(5) [OF o] 2(5) [of ACTIVE] by simp
    show "set (Q6 l) = (if l = INACTIVE then {} else set (Q3 l)) \<union> {p \<in> set (Q3 INACTIVE). warm_dest ACTIVE INACTIVE WRITTEN f s4 p = l}"
      using E(5) [of l] 4(5) [OF o] 4(5) [of INACTIVE] 6(5) [OF o] by simp
  qed (use dis nf in simp_all)
  have st2: "sorted_tier NVM_ACTIVE NVM_INACTIVE NVM_WRITTEN f (naccesses s) Q Q6"
  proof (rule three_scans [where ?Q1.0 = Q2 and ?Q2.0 = Q4 and s = s5])
    fix l assume l: "l \<in> ?N"
    then have o: "l \<notin> ?D" by auto
    show "set (Q2 l) = (if l = NVM_WRITTEN then {} else set (Q l)) \<union> {p \<in> set (Q NVM_WRITTEN). sorted_to NVM_ACTIVE NVM_INACTIVE NVM_WRITTEN f p = l}"
      using E(2) [of l] 1(5) [OF o] 1(5) [of NVM_WRITTEN] by simp
    show "set (Q4 l) = (if l = NVM_ACTIVE then {} else set (Q2 l)) \<union> {p \<in> set (Q2 NVM_ACTIVE). sorted_to NVM_ACTIVE NVM_INACTIVE NVM_WRITTEN f p = l}"
      using E(4) [of l] 3(5) [OF o] 3(5) [of NVM_ACTIVE] by simp
    show "set (Q6 l) = (if l = NVM_INACTIVE then {} else set (Q4 l)) \<union> {p \<in> set (Q4 NVM_INACTIVE). warm_dest NVM_ACTIVE NVM_INACTIVE NVM_WRITTEN f s5 p = l}"
      using E(6) [of l] 5(5) [OF o] 5(5) [of NVM_INACTIVE] by simp
  qed (use dis ns in simp_all)
  have c6: "scan_ok F S (3 * (card F + card S)) s6 Q6" using 6(2) by (simp add: scan_ok_def)
  have free: "set (Q6 l) = set (Q l)" if "l \<notin> ?D \<union> ?N" for l
    using that 1(5) [of l] 2(5) [of l] 3(5) [of l] 4(5) [of l] 5(5) [of l] 6(5) [of l] by auto
  have fields: "body s6 = body s \<and> dramsize s6 = dramsize s \<and> nvmsize s6 = nvmsize s \<and> vmap s6 = vmap s"
    using 1(4) 2(4) 3(4) 4(4) 5(4) 6(4) by (simp add: scan_result_def)
  show ?thesis using 1(1) 2(1) 3(1) 4(1) 5(1) 6(1) c6 st1 st2 free fields by blast
qed

end
