(* ===== verification/Lru_Inv.thy ===== *)
theory Lru_Inv
  imports Lru_Scan
begin

text \<open>
  The invariant of the LRU policy: every page is in exactly one of the eight lists, the list says the
  tier of the page and whether it is in use, and no two pages have the same frame. The steps are
  those of faults, of the fault handler when it sets the address of a page, of removals, of the scan
  thread (one page at a time) and of the swap thread (one pass, under the global lock).
\<close>

section \<open>The invariant\<close>

fun fast_list :: "lru_list \<Rightarrow> bool" where
  "fast_list ACTIVE = True" | "fast_list INACTIVE = True" | "fast_list WRITTEN = True" | "fast_list LRU_DRAM_FREE = True"
| "fast_list _ = False"

fun free_lru :: "lru_list \<Rightarrow> bool" where
  "free_lru LRU_DRAM_FREE = True" | "free_lru LRU_NVM_FREE = True" | "free_lru _ = False"

definition page_fits_list :: "'a arms_state_scheme \<Rightarrow> addr \<Rightarrow> lru_list \<Rightarrow> bool" where
  "page_fits_list s p l \<longleftrightarrow> in_dram (body s p) = fast_list l \<and> present (body s p) = (\<not> free_lru l) \<and> va_of s p mod HUGEPAGE_SIZE = 0"

text \<open>The elements of the lists, and those that a thread holds: taken from a list and not yet put back.\<close>

definition shares :: "addr set \<Rightarrow> addr set \<Rightarrow> ('l \<Rightarrow> addr list) \<Rightarrow> bool" where
  "shares F H Q \<longleftrightarrow> F = (\<Union>l. set (Q l)) \<union> H \<and> (\<forall>l. set (Q l) \<inter> H = {})"

lemma shares_take:
  assumes sh: "shares F H Q" and rep: "dll_rep lk0 Q" and ne: "Q l \<noteq> []" and lk: "dll_rep lk (Q(l := butlast (Q l)))" "d_list lk (last (Q l)) = None"
  shows "shares F (insert (last (Q l)) H) (Q(l := butlast (Q l)))" "last (Q l) \<in> F" "last (Q l) \<notin> H"
    "x \<in> set ((Q(l := butlast (Q l))) k) \<Longrightarrow> x \<in> set (Q k)"
proof -
  let ?p = "last (Q l)" and ?Q = "Q(l := butlast (Q l))"
  have pl: "?p \<in> set (Q l)" using ne by simp
  show pH: "?p \<in> F" "?p \<notin> H" using sh pl unfolding shares_def by blast+
  have sub: "set (?Q k) \<subseteq> set (Q k)" for k by (auto dest: in_set_butlastD)
  then show "x \<in> set (?Q k) \<Longrightarrow> x \<in> set (Q k)" by blast
  have gone: "?p \<notin> set (?Q k)" for k using dll_repD(7) [OF lk(1), of ?p k] lk(2) by simp
  have un: "(\<Union>k. set (?Q k)) = (\<Union>k. set (Q k)) - {?p}"
  proof
    show "(\<Union>k. set (?Q k)) \<subseteq> (\<Union>k. set (Q k)) - {?p}" using sub gone by blast
    show "(\<Union>k. set (Q k)) - {?p} \<subseteq> (\<Union>k. set (?Q k))"
    proof
      fix x assume x: "x \<in> (\<Union>k. set (Q k)) - {?p}"
      then obtain k where k: "x \<in> set (Q k)" by blast
      show "x \<in> (\<Union>k. set (?Q k))"
      proof (cases "k = l")
        case True
        have "x \<in> set (?Q l)" unfolding dequeued_set [OF rep ne] using x k True by blast
        then show ?thesis by blast
      next
        case False
        then show ?thesis using k by (intro UN_I [of k]) auto
      qed
    qed
  qed
  have "F = (\<Union>k. set (?Q k)) \<union> insert ?p H" unfolding un using sh pl unfolding shares_def by blast
  moreover have "set (?Q k) \<inter> insert ?p H = {}" for k using gone [of k] sub [of k] sh unfolding shares_def by blast
  ultimately show "shares F (insert ?p H) ?Q" unfolding shares_def by blast
qed

lemma shares_put:
  assumes sh: "shares F H Q" and p: "p \<in> H"
  shows "shares F (H - {p}) (Q(l := p # Q l))" "x \<in> set ((Q(l := p # Q l)) k) \<longleftrightarrow> x \<in> set (Q k) \<or> (x = p \<and> k = l)"
proof -
  show mem: "x \<in> set ((Q(l := p # Q l)) k) \<longleftrightarrow> x \<in> set (Q k) \<or> (x = p \<and> k = l)" for x k by (cases "k = l") auto
  have un: "(\<Union>k. set ((Q(l := p # Q l)) k)) = insert p (\<Union>k. set (Q k))"
  proof (rule set_eqI)
    fix x
    show "x \<in> (\<Union>k. set ((Q(l := p # Q l)) k)) \<longleftrightarrow> x \<in> insert p (\<Union>k. set (Q k))"
      unfolding UN_iff mem insert_iff by blast
  qed
  have "set ((Q(l := p # Q l)) k) \<inter> (H - {p}) = {}" for k
    using sh unfolding shares_def disjoint_iff mem by blast
  then show "shares F (H - {p}) (Q(l := p # Q l))" unfolding shares_def un using sh p unfolding shares_def by blast
qed

lemma shares_del:
  assumes sh: "shares F H Q" and rep: "dll_rep lk Q" and p: "p \<in> set (Q l)"
  shows "shares F (insert p H) (Q(l := remove1 p (Q l)))" "x \<in> set ((Q(l := remove1 p (Q l))) k) \<longleftrightarrow> x \<in> set (Q k) \<and> x \<noteq> p"
proof -
  show mem: "x \<in> set ((Q(l := remove1 p (Q l))) k) \<longleftrightarrow> x \<in> set (Q k) \<and> x \<noteq> p" for x k
    using dll_repD(1) [OF rep, of l] dll_rep_disjoint [OF rep p, of k] by (cases "k = l") auto
  have "F = (\<Union>k. set ((Q(l := remove1 p (Q l))) k)) \<union> insert p H"
  proof (rule set_eqI)
    fix x
    show "x \<in> F \<longleftrightarrow> x \<in> (\<Union>k. set ((Q(l := remove1 p (Q l))) k)) \<union> insert p H"
      unfolding Un_iff UN_iff mem insert_iff using sh p unfolding shares_def by blast
  qed
  moreover have "set ((Q(l := remove1 p (Q l))) k) \<inter> insert p H = {}" for k
    using sh unfolding shares_def disjoint_iff mem by blast
  ultimately show "shares F (insert p H) (Q(l := remove1 p (Q l)))" unfolding shares_def by blast
qed

definition lru_inv :: "addr set \<Rightarrow> addr set \<Rightarrow> (lru_list \<Rightarrow> addr list) \<Rightarrow> 'a lru_state_scheme \<Rightarrow> bool" where
  "lru_inv F H Q s \<longleftrightarrow> dll_rep (lru_links s) Q \<and> frames_ok F s \<and> shares F H Q \<and>
     (\<forall>l. \<forall>p\<in>set (Q l). page_fits_list s p l)"

lemma lru_invD:
  assumes "lru_inv F H Q s"
  shows "dll_rep (lru_links s) Q" "frames_ok F s" "F = (\<Union>l. set (Q l)) \<union> H" "p \<in> H \<Longrightarrow> p \<notin> set (Q l)"
    "p \<in> set (Q l) \<Longrightarrow> page_fits_list s p l" "shares F H Q"
  using assms unfolding lru_inv_def shares_def by blast+

lemma page_fits_body: "body s' = body s \<Longrightarrow> page_fits_list s' p l = page_fits_list s p l"
  by (simp add: page_fits_list_def)

lemma lru_invI:
  assumes "dll_rep (lru_links s) Q" "frames_ok F s" "F = (\<Union>l. set (Q l)) \<union> H" "\<And>p l. p \<in> H \<Longrightarrow> p \<notin> set (Q l)"
    "\<And>p l. p \<in> set (Q l) \<Longrightarrow> page_fits_list s p l"
  shows "lru_inv F H Q s"
  using assms unfolding lru_inv_def shares_def by blast

lemma lru_invI':
  assumes "dll_rep (lru_links s) Q" "frames_ok F s" "shares F H Q" "\<And>p l. p \<in> set (Q l) \<Longrightarrow> page_fits_list s p l"
  shows "lru_inv F H Q s"
  using assms unfolding lru_inv_def by blast

lemma lru_inv_fields:
  assumes "lru_inv F H Q s" "lru_links s' = lru_links s" "body s' = body s" "dramsize s' = dramsize s" "nvmsize s' = nvmsize s"
  shows "lru_inv F H Q s'"
proof -
  note I = lru_invD [OF assms(1)]
  show ?thesis
    by (rule lru_invI) (use I assms(2) frames_ok_body [OF assms(3-5)] page_fits_body [OF assms(3)] in simp_all)
qed

text \<open>A page is taken out of a list, or put into one.\<close>

lemma lru_take:
  assumes inv: "lru_inv F H Q s" and ne: "Q l \<noteq> []"
  shows "\<exists>lk. dequeue_fifo (lru_links s) l = Some (last (Q l), lk) \<and> lru_inv F (insert (last (Q l)) H) (Q(l := butlast (Q l))) (s\<lparr>lru_links := lk\<rparr>) \<and>
    last (Q l) \<noteq> NULL \<and> page_fits_list s (last (Q l)) l \<and> last (Q l) \<in> F \<and> last (Q l) \<notin> H"
proof -
  note I = lru_invD [OF inv]
  obtain lk where lk: "dequeue_fifo (lru_links s) l = Some (last (Q l), lk)" "dll_rep lk (Q(l := butlast (Q l)))" "last (Q l) \<noteq> NULL"
    "d_list lk (last (Q l)) = None"
    using dequeued_links [OF I(1) ne] by blast
  let ?p = "last (Q l)" and ?Q = "Q(l := butlast (Q l))"
  note T = shares_take [OF I(6,1) ne lk(2,4)]
  have "frames_ok F (s\<lparr>lru_links := lk\<rparr>)" using I(2) frames_ok_body [of "s\<lparr>lru_links := lk\<rparr>" s F] by simp
  moreover have "page_fits_list (s\<lparr>lru_links := lk\<rparr>) x k" if "x \<in> set (?Q k)" for x k
    using I(5) [OF T(4) [OF that]] page_fits_body [of "s\<lparr>lru_links := lk\<rparr>" s x k] by simp
  ultimately have "lru_inv F (insert ?p H) ?Q (s\<lparr>lru_links := lk\<rparr>)" using lk(2) T(1) by (intro lru_invI') simp_all
  then show ?thesis using lk I(5) [of ?p l] T(2,3) ne by auto
qed

lemma lru_take_empty: "lru_inv F H Q s \<Longrightarrow> Q l = [] \<Longrightarrow> dequeue_fifo (lru_links s) l = Some (NULL, lru_links s)"
  by (rule dequeue_fifo_empty [OF lru_invD(1)])

lemma lru_insert:
  assumes inv: "lru_inv F H Q s" and p: "p \<in> H" "page_fits_list s p l"
    and s': "dll_rep (lru_links s') (Q(l := p # Q l))" "body s' = body s" "dramsize s' = dramsize s" "nvmsize s' = nvmsize s"
  shows "lru_inv F (H - {p}) (Q(l := p # Q l)) s'"
proof (rule lru_invI')
  note I = lru_invD [OF inv] and P = shares_put [OF lru_invD(6) [OF inv] p(1)]
  show "shares F (H - {p}) (Q(l := p # Q l))" by (rule P(1))
  show "frames_ok F s'" using I(2) frames_ok_body [OF s'(2-4)] by simp
  show "page_fits_list s' x k" if "x \<in> set ((Q(l := p # Q l)) k)" for x k
    using that [unfolded P(2)] I(5) [of x k] p(2) page_fits_body [OF s'(2)] by auto
qed (rule s'(1))

lemma lru_put_inv:
  assumes inv: "lru_inv F H Q s" and p: "p \<in> H" "page_fits_list s p l"
  shows "\<exists>s'. lru_put l p s = Some s' \<and> lru_inv F (H - {p}) (Q(l := p # Q l)) s' \<and> body s' = body s \<and> vmap s' = vmap s \<and>
    dramsize s' = dramsize s \<and> nvmsize s' = nvmsize s \<and> in_kscand s' = in_kscand s"
proof -
  note I = lru_invD [OF inv]
  have "p \<in> F" using I(3) p(1) by blast
  then have np: "p \<noteq> NULL" using I(2) by (auto simp: frames_ok_def)
  obtain lk where lk: "enqueue_fifo (lru_links s) l p = Some lk" "dll_rep lk (Q(l := p # Q l))"
    using pageq.enq_rep [OF I(1) np] I(4) [OF p(1)] by blast
  let ?s = "s\<lparr>lru_links := lk\<rparr>"
  have "lru_inv F (H - {p}) (Q(l := p # Q l)) ?s" by (rule lru_insert [OF inv p]) (simp_all add: lk(2))
  then show ?thesis using lk(1) by (simp add: lru_put_def)
qed

text \<open>The descriptor of a held page may change.\<close>

lemma lru_held_body:
  assumes inv: "lru_inv F H Q s" and b: "\<And>x. x \<notin> H \<Longrightarrow> body s' x = body s x" and s': "lru_links s' = lru_links s" "frames_ok F s'"
  shows "lru_inv F H Q s'"
proof (rule lru_invI)
  note I = lru_invD [OF inv]
  show "dll_rep (lru_links s') Q" "frames_ok F s'" "F = (\<Union>l. set (Q l)) \<union> H" using I(1) s' by (simp_all add: I(3) [symmetric])
  show "p \<in> H \<Longrightarrow> p \<notin> set (Q l)" for p l by (rule I(4))
  show "page_fits_list s' p l" if "p \<in> set (Q l)" for p l
  proof -
    have "p \<notin> H" using that I(4) by blast
    then show ?thesis using I(5) [OF that] b [of p] by (simp add: page_fits_list_def)
  qed
qed

lemma lru_upd_fields [simp]: "lru_links (upd_page p f s) = lru_links s" "in_kscand (upd_page p f s) = in_kscand s"
  by (simp_all add: upd_page_def)

lemma lru_upd_held:
  assumes inv: "lru_inv F H Q s" and p: "p \<in> H" and f: "\<And>x. frame_of (f x) = frame_of x \<and> pt (f x) = pt x"
  shows "lru_inv F H Q (upd_page p f s)"
proof (rule lru_held_body [OF inv])
  show "frames_ok F (upd_page p f s)" using frames_ok_upd [of F s f p] f lru_invD(2) [OF inv] by simp
qed (use p in \<open>auto simp: upd_page_def\<close>)

section \<open>A fault\<close>

lemma lru_hand_out_inv:
  assumes inv: "lru_inv F H Q s" and p: "p \<in> H" "\<not> present (body s p)" "in_dram (body s p) = fast_list l" "\<not> free_lru l"
    "va_of s p mod HUGEPAGE_SIZE = 0"
  shows "\<exists>s'. lru_hand_out l p s = Some (p, s') \<and> lru_inv F (H - {p}) (Q(l := p # Q l)) s' \<and>
    body s' = (body s)(p := (body s p)\<lparr>present := True\<rparr>)"
proof -
  let ?s = "upd_page p (\<lambda>x. x\<lparr>present := True\<rparr>) s"
  have 1: "lru_inv F H Q ?s" by (rule lru_upd_held [OF inv p(1)]) (simp add: frame_of_def)
  have "page_fits_list ?s p l" using p by (simp add: page_fits_list_def upd_page_def)
  from lru_put_inv [OF 1 p(1) this] obtain s' where s': "lru_put l p ?s = Some s'" "lru_inv F (H - {p}) (Q(l := p # Q l)) s'" "body s' = body ?s"
    by blast
  then show ?thesis using p(2) by (simp add: lru_hand_out_def upd_page_def)
qed

text \<open>A fault on the lists: the page that is handed out is the oldest free one, a fast one if there is any.\<close>

definition fault_lists :: "(lru_list \<Rightarrow> addr list) \<Rightarrow> (addr \<times> (lru_list \<Rightarrow> addr list)) option" where
  "fault_lists Q =
     (if Q LRU_DRAM_FREE \<noteq> [] then
        Some (last (Q LRU_DRAM_FREE), Q(LRU_DRAM_FREE := butlast (Q LRU_DRAM_FREE), ACTIVE := last (Q LRU_DRAM_FREE) # Q ACTIVE))
      else if Q LRU_NVM_FREE \<noteq> [] then
        Some (last (Q LRU_NVM_FREE), Q(LRU_NVM_FREE := butlast (Q LRU_NVM_FREE), NVM_ACTIVE := last (Q LRU_NVM_FREE) # Q NVM_ACTIVE))
      else None)"

lemma lru_fault_inv:
  assumes inv: "lru_inv F {} Q s"
  shows "case fault_lists Q of
      None \<Rightarrow> lru_pagefault s = None
    | Some (p, Q') \<Rightarrow> (\<exists>s'. lru_pagefault s = Some (p, s') \<and> lru_inv F {} Q' s' \<and> \<not> present (body s p) \<and>
        body s' = (body s)(p := (body s p)\<lparr>present := True\<rparr>))"
proof (cases "Q LRU_DRAM_FREE = []")
  case False
  let ?p = "last (Q LRU_DRAM_FREE)" and ?Q = "Q(LRU_DRAM_FREE := butlast (Q LRU_DRAM_FREE))"
  obtain lk where lk: "dequeue_fifo (lru_links s) LRU_DRAM_FREE = Some (?p, lk)"
    "lru_inv F {?p} ?Q (s\<lparr>lru_links := lk\<rparr>)" "?p \<noteq> NULL" "page_fits_list s ?p LRU_DRAM_FREE"
    using lru_take [OF inv False] by blast
  obtain s' where s': "lru_hand_out ACTIVE ?p (s\<lparr>lru_links := lk\<rparr>) = Some (?p, s')" "lru_inv F ({?p} - {?p}) (?Q(ACTIVE := ?p # ?Q ACTIVE)) s'"
    "body s' = (body s)(?p := (body s ?p)\<lparr>present := True\<rparr>)"
    using lru_hand_out_inv [OF lk(2), of ?p ACTIVE] lk(4) by (auto simp: page_fits_list_def)
  have "lru_pagefault s = Some (?p, s')"
    using lk(1,3,4) s'(1) by (simp add: lru_pagefault_def lru_allocate_page_def page_fits_list_def Let_def)
  then show ?thesis using False s'(2,3) lk(4) by (simp add: fault_lists_def page_fits_list_def)
next
  case True
  note d = lru_take_empty [OF inv True]
  show ?thesis
  proof (cases "Q LRU_NVM_FREE = []")
    case f: False
    let ?p = "last (Q LRU_NVM_FREE)" and ?Q = "Q(LRU_NVM_FREE := butlast (Q LRU_NVM_FREE))"
    obtain lk where lk: "dequeue_fifo (lru_links s) LRU_NVM_FREE = Some (?p, lk)"
      "lru_inv F {?p} ?Q (s\<lparr>lru_links := lk\<rparr>)" "?p \<noteq> NULL" "page_fits_list s ?p LRU_NVM_FREE"
      using lru_take [OF inv f] by blast
    obtain s' where s': "lru_hand_out NVM_ACTIVE ?p (s\<lparr>lru_links := lk\<rparr>) = Some (?p, s')"
      "lru_inv F ({?p} - {?p}) (?Q(NVM_ACTIVE := ?p # ?Q NVM_ACTIVE)) s'" "body s' = (body s)(?p := (body s ?p)\<lparr>present := True\<rparr>)"
      using lru_hand_out_inv [OF lk(2), of ?p NVM_ACTIVE] lk(4) by (auto simp: page_fits_list_def)
    have "lru_pagefault s = Some (?p, s')"
      using d lk(1,3,4) s'(1) by (simp add: lru_pagefault_def lru_allocate_page_def page_fits_list_def Let_def)
    then show ?thesis using True f s'(2,3) lk(4) by (simp add: fault_lists_def page_fits_list_def)
  next
    case t: True
    then show ?thesis using True d lru_take_empty [OF inv t] by (simp add: fault_lists_def lru_pagefault_def lru_allocate_page_def Let_def)
  qed
qed

section \<open>A removal\<close>

lemma lru_remove_inv:
  assumes inv: "lru_inv F {} Q s" and p: "p \<in> set (Q l)"
  shows "\<exists>s' Q'. lru_remove_page s p = Some s' \<and> lru_inv F {} Q' s' \<and> body s' = (body s)(p := (body s p)\<lparr>present := False\<rparr>)"
proof -
  note I = lru_invD [OF inv]
  obtain lk where lk: "page_list_remove_page (lru_links s) l p = Some lk" "dll_rep lk (Q(l := remove1 p (Q l)))"
    using page_list_remove_page_rep [OF I(1) p] by blast
  have own: "d_list (lru_links s) p = Some l" using dll_repD(7) [OF I(1), of p l] p by simp
  have pF: "p \<in> F" using I(3) p by blast
  then have np: "p \<noteq> NULL" using I(2) by (auto simp: frames_ok_def)
  let ?Q = "Q(l := remove1 p (Q l))" and ?s = "s\<lparr>lru_links := lk\<rparr>"
  note S = shares_del [OF I(6,1) p]
  have 1: "lru_inv F {p} ?Q ?s"
  proof (rule lru_invI')
    show "shares F {p} ?Q" by (rule S(1))
    show "page_fits_list ?s x k" if "x \<in> set (?Q k)" for x k
      using that [unfolded S(2)] I(5) [of x k] page_fits_body [of ?s s x k] by simp
    show "frames_ok F ?s" using I(2) frames_ok_body [of ?s s F] by simp
  qed (simp add: lk(2))
  let ?t = "upd_page p (\<lambda>x. x\<lparr>present := False\<rparr>) ?s" and ?l = "if in_dram (body s p) then LRU_DRAM_FREE else LRU_NVM_FREE"
  have 2: "lru_inv F {p} ?Q ?t" by (rule lru_upd_held [OF 1]) (simp_all add: frame_of_def)
  have "page_fits_list ?t p ?l" using I(5) [OF p] by (simp add: page_fits_list_def upd_page_def)
  from lru_put_inv [OF 2 _ this] obtain s' where s': "lru_put ?l p ?t = Some s'" "\<exists>Q'. lru_inv F ({p} - {p}) Q' s'" "body s' = body ?t"
    by blast
  have "lru_remove_page s p = Some s'"
    using own lk(1) np s'(1) by (auto simp: lru_remove_page_def Let_def upd_page_def split: if_splits)
  then show ?thesis using s'(2,3) by (auto simp: upd_page_def)
qed

section \<open>The scan\<close>

lemma lru_scan_inv:
  assumes inv: "lru_inv F {} Q s" and ne: "Q src \<noteq> []" and len: "List.length (vas s) < MAX_VAS"
    and tier: "(a, i, w) = (ACTIVE, INACTIVE, WRITTEN) \<or> (a, i, w) = (NVM_ACTIVE, NVM_INACTIVE, NVM_WRITTEN)" and src: "src \<in> {a, i, w}"
    and one: "one \<in> {shrink_one (with_flags f G) a i w, check_one (with_flags f G) a i w, expand_one (with_flags f G) a i w}"
    and run: "dequeue_fifo (lru_links s) src = Some (p, lk)" "one p (s\<lparr>lru_links := lk\<rparr>) = Some s'"
  shows "\<exists>Q'. lru_inv F {} Q' s' \<and> body s' = body s"
proof -
  let ?p = "last (Q src)" and ?s = "s\<lparr>lru_links := lk\<rparr>"
  have p: "p = ?p" "lru_inv F {p} (Q(src := butlast (Q src))) ?s" "p \<noteq> NULL" "page_fits_list s p src"
    using lru_take [OF inv ne] run(1) by auto
  note I = lru_invD [OF p(2)]
  have d: "d_list (lru_links ?s) p = None"
  proof -
    have "p \<notin> set ((Q(src := butlast (Q src))) k)" for k using I(4) by blast
    then show ?thesis using dll_repD(7) [OF I(1), of p] by (metis option.exhaust)
  qed
  have pre: "va_of ?s p mod HUGEPAGE_SIZE = 0" "List.length (vas ?s) < MAX_VAS" using p(4) len by (simp_all add: page_fits_list_def)
  obtain l where l: "l \<in> {a, i, w}" "scan_frame p ?s s'" "dll_rep (lru_links s') ((Q(src := butlast (Q src)))(l := p # (Q(src := butlast (Q src))) l))"
  proof -
    have s: "sorted_to a i w f p \<in> {a, i, w}" "warm_dest a i w f ?s p \<in> {a, i, w}" by (rule dests)+
    consider "one = shrink_one (with_flags f G) a i w" | "one = check_one (with_flags f G) a i w" | "one = expand_one (with_flags f G) a i w"
      using one by blast
    then show ?thesis
    proof cases
      case 1
      then show ?thesis using shrink_one_moves [OF I(1) p(3) d pre, of f G a i w] run(2) that [OF s(1)] by auto
    next
      case 2
      then show ?thesis using check_one_moves [OF I(1) p(3) d pre, of f G a i w] run(2) that [OF s(1)] by auto
    next
      case 3
      then show ?thesis using expand_one_moves [OF I(1) p(3) d pre, of f G a i w] run(2) that [OF s(2)] by auto
    qed
  qed
  have "fast_list l = fast_list src" "\<not> free_lru l" "\<not> free_lru src" using tier src l(1) by auto
  then have "page_fits_list ?s p l" using p(4) by (simp add: page_fits_list_def)
  from lru_insert [OF p(2) _ this l(3)] show ?thesis using l(2) by (auto simp: scan_frame_def)
qed

section \<open>The swap thread\<close>

definition lru_migrate :: "kernel \<Rightarrow> flag_kernel \<Rightarrow> bool \<Rightarrow> 'a lru_state_scheme \<Rightarrow> addr \<Rightarrow> u64 \<Rightarrow> 'a lru_state_scheme option" where
  "lru_migrate K G up = (if up then lru_migrate_up K G else lru_migrate_down K G)"

lemma lru_migrate_pebs:
  assumes "lru_migrate K G up s p off = Some s'"
  shows "(if up then pebs_migrate_up else pebs_migrate_down) K s p off = Some s'"
  using assms by (auto simp: lru_migrate_def lru_migrate_up_def lru_migrate_down_def pebs_migrate_up_def pebs_migrate_down_def
      arms_tlb_shootdown_def bind_Some_iff split: if_splits)

lemma pebs_migrate_lru:
  assumes "(if up then pebs_migrate_up else pebs_migrate_down) K s p off = Some s'" "\<And>v. k_tlbflush G v"
  shows "lru_migrate K G up s p off = Some s'"
  using assms by (auto simp: lru_migrate_def lru_migrate_up_def lru_migrate_down_def pebs_migrate_up_def pebs_migrate_down_def
      arms_tlb_shootdown_def bind_Some_iff split: if_splits)

lemma lru_more:
  fixes s s' :: "'a lru_state_scheme"
  assumes "arms_state.more s' = arms_state.more s"
  shows "lru_links s' = lru_links s" "in_kscand s' = in_kscand s"
  using assms by (cases s; cases s'; simp)+

lemma frames_ok_exchange:
  assumes fr: "frames_ok F s" and p: "p \<noteq> np" "p \<in> F" "np \<in> F"
    and f: "\<And>x. frame_of (body s' x) = frame_of (body s (if x = p then np else if x = np then p else x))"
      "\<And>x. x \<in> F \<Longrightarrow> pt (body s' x) = HUGEP" "dramsize s' = dramsize s" "nvmsize s' = nvmsize s"
  shows "frames_ok F s'"
proof -
  let ?r = "\<lambda>x. if x = p then np else if x = np then p else x"
  have "frame_fits s' (body s' x)" if "x \<in> F" for x
  proof -
    have "frame_fits s (body s (?r x))" using fr that p by (simp add: frames_ok_def)
    then show ?thesis using f(1) [of x] f(2) [OF that] f(3,4) unfolding frame_fits_def frame_of_eq
      by (cases "in_dram (body s (?r x))") simp_all
  qed
  moreover have "inj_on (\<lambda>x. frame_of (body s' x)) F"
    unfolding f(1)
  proof (rule inj_onI)
    have i: "inj_on (\<lambda>x. frame_of (body s x)) F" using fr by (simp add: frames_ok_def)
    fix x y assume "x \<in> F" "y \<in> F" "frame_of (body s (?r x)) = frame_of (body s (?r y))"
    moreover from this have "?r x \<in> F" "?r y \<in> F" using p(2,3) by simp_all
    ultimately have "?r x = ?r y" by (intro inj_onD [OF i])
    then show "x = y" using p(1) by (auto split: if_splits)
  qed
  ultimately show ?thesis using fr by (simp add: frames_ok_def)
qed

text \<open>A held page and a held free frame change places.\<close>

lemma exchange_inv:
  assumes inv: "lru_inv F H Q s" and h: "p \<in> H" "np \<in> H" "p \<noteq> np" and u: "in_dram (body s p) = (\<not> up)" "in_dram (body s np) = up"
    and run: "lru_migrate K G up s p (devdax_offset (body s np)) = Some s1" and K: "kernel_ok K"
  defines "s2 \<equiv> take_frame np (devdax_offset (body s p)) (\<not> up) s1"
  shows "lru_inv F H Q s2 \<and> lru_links s2 = lru_links s \<and> (\<forall>x. x \<notin> {p, np} \<longrightarrow> body s2 x = body s x) \<and>
    in_dram (body s2 p) = up \<and> present (body s2 p) = present (body s p) \<and> va_of s2 p = va_of s p \<and> pt (body s2 p) = pt (body s p) \<and>
    in_dram (body s2 np) = (\<not> up) \<and> \<not> present (body s2 np) \<and> va_of s2 np = va_of s np"
proof -
  note M = migrate_fields [OF lru_migrate_pebs [OF run] K]
  have b: "body s2 = (body s)(p := (body s p)\<lparr>devdax_offset := devdax_offset (body s np), in_dram := up, migrating := False\<rparr>,
      np := (body s np)\<lparr>devdax_offset := devdax_offset (body s p), in_dram := \<not> up, present := False\<rparr>)"
    using h(3) by (simp add: s2_def take_frame_def upd_page_def M(1))
  have l: "lru_links s2 = lru_links s" using lru_more(1) [OF M(5)] by (simp add: s2_def take_frame_def)
  have F: "p \<in> F" "np \<in> F" using lru_invD(3) [OF inv] h(1,2) by blast+
  note fr = lru_invD(2) [OF inv]
  have "frames_ok F s2"
  proof (rule frames_ok_exchange [OF fr h(3) F])
    show "frame_of (body s2 x) = frame_of (body s (if x = p then np else if x = np then p else x))" for x
      using u h(3) by (auto simp: b frame_of_def)
    show "pt (body s2 x) = HUGEP" if "x \<in> F" for x using fr that by (auto simp: b frames_ok_def frame_fits_def)
    show "dramsize s2 = dramsize s" "nvmsize s2 = nvmsize s" using M(3,4) by (simp_all add: s2_def take_frame_def)
  qed
  then have "lru_inv F H Q s2" using l h by (intro lru_held_body [OF inv]) (auto simp: b)
  then show ?thesis using l h(3) by (simp add: b)
qed

definition placed :: "addr set \<Rightarrow> 'a arms_state_scheme \<Rightarrow> bool" where
  "placed F s \<longleftrightarrow> (\<forall>x\<in>F. present (body s x) \<longrightarrow> va_of s x \<noteq> 0)"

definition same_pages :: "'a arms_state_scheme \<Rightarrow> 'a arms_state_scheme \<Rightarrow> bool" where
  "same_pages s s' \<longleftrightarrow> (\<forall>x. va_of s' x = va_of s x \<and> present (body s' x) = present (body s x))"

lemma same_pages_refl: "body s' = body s \<Longrightarrow> same_pages s s'" by (simp add: same_pages_def)
lemma same_pages_trans: "same_pages s t \<Longrightarrow> same_pages t u \<Longrightarrow> same_pages s u" by (simp add: same_pages_def)
lemma same_pages_placed: "same_pages s t \<Longrightarrow> placed F s \<Longrightarrow> placed F t" by (simp add: same_pages_def placed_def)

text \<open>Both are put into lists of their new tiers.\<close>

lemma exchange_put:
  assumes inv: "lru_inv F H Q s" and h: "p \<in> H" "np \<in> H" "p \<noteq> np"
    and p: "in_dram (body s p) = (\<not> up)" "present (body s p)" "va_of s p mod HUGEPAGE_SIZE = 0"
    and np: "in_dram (body s np) = up" "\<not> present (body s np)" "va_of s np mod HUGEPAGE_SIZE = 0"
    and run: "lru_migrate K G up s p (devdax_offset (body s np)) = Some s1" and K: "kernel_ok K"
    and l: "fast_list l1 = up" "\<not> free_lru l1" "fast_list l2 = (\<not> up)" "free_lru l2"
  shows "\<exists>s3 s4. lru_put l1 p (take_frame np (devdax_offset (body s p)) (\<not> up) s1) = Some s3 \<and> lru_put l2 np s3 = Some s4 \<and>
    lru_inv F (H - {p, np}) (Q(l1 := p # Q l1, l2 := np # Q l2)) s4 \<and> same_pages s s4 \<and> pt (body s4 p) = HUGEP \<and>
    in_dram (body s4 p) = up \<and> (\<forall>x. x \<notin> {p, np} \<longrightarrow> body s4 x = body s x)"
proof -
  let ?s2 = "take_frame np (devdax_offset (body s p)) (\<not> up) s1" and ?Q2 = "Q(l1 := p # Q l1)"
  have E: "lru_inv F H Q ?s2" "\<And>x. x \<notin> {p, np} \<Longrightarrow> body ?s2 x = body s x" "in_dram (body ?s2 p) = up"
      "present (body ?s2 p) = present (body s p)" "va_of ?s2 p = va_of s p" "pt (body ?s2 p) = pt (body s p)"
      "in_dram (body ?s2 np) = (\<not> up)" "\<not> present (body ?s2 np)" "va_of ?s2 np = va_of s np"
    using exchange_inv [OF inv h p(1) np(1) run K] by auto
  have "page_fits_list ?s2 p l1" using E p l by (simp add: page_fits_list_def)
  from lru_put_inv [OF E(1) h(1) this] obtain s3 where s3: "lru_put l1 p ?s2 = Some s3" "lru_inv F (H - {p}) ?Q2 s3" "body s3 = body ?s2"
    by blast
  have "page_fits_list s3 np l2" using E np l s3(3) by (simp add: page_fits_list_def)
  from lru_put_inv [OF s3(2) _ this] h obtain s4 where s4: "lru_put l2 np s3 = Some s4"
    "lru_inv F (H - {p} - {np}) (?Q2(l2 := np # ?Q2 l2)) s4" "body s4 = body s3" by blast
  have "?Q2(l2 := np # ?Q2 l2) = Q(l1 := p # Q l1, l2 := np # Q l2)" "H - {p} - {np} = H - {p, np}" using l by auto
  then have i: "lru_inv F (H - {p, np}) (Q(l1 := p # Q l1, l2 := np # Q l2)) s4" using s4(2) by simp
  have v: "va_of s4 x = va_of s x \<and> present (body s4 x) = present (body s x)" for x
    using E np(2) s3(3) s4(3) by (cases "x = p"; cases "x = np"; simp)
  have "p \<in> F" using lru_invD(3) [OF inv] h(1) by blast
  then have "pt (body s p) = HUGEP" using lru_invD(2) [OF inv] by (auto simp: frames_ok_def frame_fits_def)
  then show ?thesis using s3(1,3) s4(1,3) i v E(2,3,6) by (simp add: same_pages_def)
qed

lemma lru_migrate_total:
  assumes inv: "lru_inv F H Q s" and p: "p \<in> H" "in_dram (body s p) = (\<not> up)" "present (body s p)" "va_of s p mod HUGEPAGE_SIZE = 0"
    and np: "np \<in> H" "in_dram (body s np) = up" and pl: "placed F s" and K: "kernel_ok K" "kernel_live K" "\<And>v. k_tlbflush G v"
  shows "lru_migrate K G up s p (devdax_offset (body s np)) \<noteq> None"
proof -
  have F: "p \<in> F" "np \<in> F" using lru_invD(3) [OF inv] p(1) np(1) by blast+
  then have "va_of s p \<noteq> 0" using pl p(3) by (simp add: placed_def)
  from migrate_succeeds [OF lru_invD(2) [OF inv] F(1) p(2) this p(4) F(2) np(2) K(1,2)] obtain s' where
    "(if up then pebs_migrate_up else pebs_migrate_down) K s p (devdax_offset (body s np)) = Some s'" by blast
  from pebs_migrate_lru [OF this K(3)] show ?thesis by simp
qed

section \<open>What a pass does to the lists\<close>

text \<open>One hot page: whether the pass is over, the bytes moved up, the lists; \<open>None\<close> is the failed assertion.\<close>

definition swap_lists :: "bool \<Rightarrow> addr \<Rightarrow> (lru_list \<Rightarrow> addr list) \<Rightarrow> (bool \<times> u64 \<times> (lru_list \<Rightarrow> addr list)) option" where
  "swap_lists fw p Q =
     (if Q LRU_DRAM_FREE \<noteq> [] then
        Some (False, HUGEPAGE_SIZE, Q(LRU_DRAM_FREE := butlast (Q LRU_DRAM_FREE), ACTIVE := p # Q ACTIVE,
          LRU_NVM_FREE := last (Q LRU_DRAM_FREE) # Q LRU_NVM_FREE))
      else if Q INACTIVE = [] then
        Some (True, 0, if fw then Q(NVM_WRITTEN := p # Q NVM_WRITTEN) else Q(NVM_ACTIVE := p # Q NVM_ACTIVE))
      else if Q LRU_NVM_FREE = [] then None
      else Some (False, HUGEPAGE_SIZE, Q(INACTIVE := butlast (Q INACTIVE), NVM_INACTIVE := last (Q INACTIVE) # Q NVM_INACTIVE,
          ACTIVE := p # Q ACTIVE, LRU_NVM_FREE := last (Q LRU_NVM_FREE) # butlast (Q LRU_NVM_FREE))))"

text \<open>What is proved of a try: the result is that on the lists, and it comes when the kernel complies.\<close>

definition tries_spec :: "kernel \<Rightarrow> flag_kernel \<Rightarrow> addr set \<Rightarrow> (bool \<times> u64 \<times> 'a lru_state_scheme) option \<Rightarrow>
    'a lru_state_scheme \<Rightarrow> (bool \<times> u64 \<times> (lru_list \<Rightarrow> addr list)) option \<Rightarrow> bool" where
  "tries_spec K G F r s a \<longleftrightarrow>
     (\<forall>out b s'. r = Some (out, b, s') \<longrightarrow> (\<exists>Q'. a = Some (out, b, Q') \<and> lru_inv F {} Q' s' \<and> same_pages s s')) \<and>
     (placed F s \<longrightarrow> kernel_live K \<longrightarrow> (\<forall>v. k_tlbflush G v) \<longrightarrow> a \<noteq> None \<longrightarrow> r \<noteq> None)"

lemma tries_specI:
  assumes "r \<noteq> None \<Longrightarrow> \<exists>out b s' Q'. r = Some (out, b, s') \<and> a = Some (out, b, Q') \<and> lru_inv F {} Q' s' \<and> same_pages s s'"
    "placed F s \<Longrightarrow> kernel_live K \<Longrightarrow> (\<And>v. k_tlbflush G v) \<Longrightarrow> a \<noteq> None \<Longrightarrow> r \<noteq> None"
  shows "tries_spec K G F r s a"
  using assms unfolding tries_spec_def by (cases r) auto

lemma tries_spec_trans:
  assumes st: "same_pages s t" and r: "tries_spec K G F r t a"
  shows "tries_spec K G F r s a"
  unfolding tries_spec_def
proof (intro conjI allI impI)
  fix out b s' assume "r = Some (out, b, s')"
  then obtain Q' where "a = Some (out, b, Q')" "lru_inv F {} Q' s'" "same_pages t s'" using r unfolding tries_spec_def by blast
  then show "\<exists>Q'. a = Some (out, b, Q') \<and> lru_inv F {} Q' s' \<and> same_pages s s'" using same_pages_trans [OF st] by blast
next
  assume "placed F s" "kernel_live K" "\<forall>v. k_tlbflush G v" "a \<noteq> None"
  then show "r \<noteq> None" using r same_pages_placed [OF st] unfolding tries_spec_def by blast
qed

text \<open>A try with a free fast page.\<close>

lemma try_fast:
  assumes inv: "lru_inv F {p} Q s" and ne: "Q LRU_DRAM_FREE \<noteq> []"
    and p: "\<not> in_dram (body s p)" "present (body s p)" "va_of s p mod HUGEPAGE_SIZE = 0" and K: "kernel_ok K"
  shows "tries_spec K G F (swap_tries K G fw p (Suc n) s) s (swap_lists fw p Q)"
proof -
  let ?np = "last (Q LRU_DRAM_FREE)" and ?Q1 = "Q(LRU_DRAM_FREE := butlast (Q LRU_DRAM_FREE))"
  let ?off = "devdax_offset (body s ?np)"
  obtain lk where lk: "dequeue_fifo (lru_links s) LRU_DRAM_FREE = Some (?np, lk)" "lru_inv F (insert ?np {p}) ?Q1 (s\<lparr>lru_links := lk\<rparr>)"
    "?np \<noteq> NULL" "page_fits_list s ?np LRU_DRAM_FREE" "?np \<notin> {p}"
    using lru_take [OF inv ne] by blast
  let ?s = "s\<lparr>lru_links := lk\<rparr>"
  have npf: "in_dram (body ?s ?np) = True" "\<not> present (body ?s ?np)" "va_of ?s ?np mod HUGEPAGE_SIZE = 0"
    using lk(4) by (simp_all add: page_fits_list_def)
  have ps: "in_dram (body ?s p) = (\<not> True)" "present (body ?s p)" "va_of ?s p mod HUGEPAGE_SIZE = 0" using p by simp_all
  have e: "swap_tries K G fw p (Suc n) s = do {
      s1 \<leftarrow> lru_migrate K G True ?s p ?off;
      s3 \<leftarrow> lru_put ACTIVE p (take_frame ?np (devdax_offset (body s p)) False s1);
      s4 \<leftarrow> lru_put LRU_NVM_FREE ?np s3;
      Some (False, pt_to_pagesize (pt (body s4 p)), s4) }"
    using lk(1,3) npf(2) by (simp add: lru_migrate_def Let_def)
  show ?thesis
  proof (rule tries_specI)
    assume "swap_tries K G fw p (Suc n) s \<noteq> None"
    then obtain s1 where m: "lru_migrate K G True ?s p ?off = Some s1" unfolding e by (cases "lru_migrate K G True ?s p ?off") auto
    obtain s3 s4 where s4: "lru_put ACTIVE p (take_frame ?np (devdax_offset (body s p)) False s1) = Some s3" "lru_put LRU_NVM_FREE ?np s3 = Some s4"
      "lru_inv F ({?np, p} - {p, ?np}) (?Q1(ACTIVE := p # ?Q1 ACTIVE, LRU_NVM_FREE := ?np # ?Q1 LRU_NVM_FREE)) s4"
      "same_pages ?s s4" "pt (body s4 p) = HUGEP"
      using exchange_put [OF lk(2) _ _ _ ps npf _ K, of G s1 ACTIVE LRU_NVM_FREE] m lk(5) by auto
    have "same_pages s s4" using s4(4) by (simp add: same_pages_def)
    then show "\<exists>out b s' Q'. swap_tries K G fw p (Suc n) s = Some (out, b, s') \<and> swap_lists fw p Q = Some (out, b, Q') \<and>
        lru_inv F {} Q' s' \<and> same_pages s s'"
      using s4 m ne unfolding e by (intro exI [of _ False] exI [of _ HUGEPAGE_SIZE] exI [of _ s4]) (simp add: swap_lists_def insert_commute)
  next
    assume live: "placed F s" "kernel_live K" "\<And>v. k_tlbflush G v"
    have "placed F ?s" using live(1) by (simp add: placed_def)
    then obtain s1 where m: "lru_migrate K G True ?s p ?off = Some s1"
      using lru_migrate_total [OF lk(2) _ ps _ npf(1) _ K live(2,3)] by auto
    show "swap_tries K G fw p (Suc n) s \<noteq> None"
      using exchange_put [OF lk(2) _ _ _ ps npf _ K, of G s1 ACTIVE LRU_NVM_FREE] m lk(5) unfolding e by auto
  qed
qed

text \<open>A try with none: a cold page goes down first, and its frame is free for the second try.\<close>

lemma try_slow:
  assumes inv: "lru_inv F {p} Q s" and ne: "Q LRU_DRAM_FREE = []"
    and p: "\<not> in_dram (body s p)" "present (body s p)" "va_of s p mod HUGEPAGE_SIZE = 0" and K: "kernel_ok K"
  shows "tries_spec K G F (swap_tries K G fw p (Suc (Suc n)) s) s (swap_lists fw p Q)"
proof (cases "Q INACTIVE = []")
  case True
  let ?l = "if fw then NVM_WRITTEN else NVM_ACTIVE"
  have "page_fits_list s p ?l" using p by (simp add: page_fits_list_def)
  from lru_put_inv [OF inv _ this] obtain s' where s': "lru_put ?l p s = Some s'" "lru_inv F {} (Q(?l := p # Q ?l)) s'" "body s' = body s"
    by auto
  have "swap_tries K G fw p (Suc (Suc n)) s = Some (True, 0, s')"
    using lru_take_empty [OF inv ne] lru_take_empty [OF inv True] s'(1) by simp
  moreover have "swap_lists fw p Q = Some (True, 0, Q(?l := p # Q ?l))" using ne True by (simp add: swap_lists_def)
  ultimately show ?thesis using s'(2) same_pages_refl [OF s'(3)] by (simp add: tries_spec_def)
next
  case inact: False
  let ?cp = "last (Q INACTIVE)" and ?Q1 = "Q(INACTIVE := butlast (Q INACTIVE))"
  obtain lk where lk: "dequeue_fifo (lru_links s) INACTIVE = Some (?cp, lk)" "lru_inv F {?cp, p} ?Q1 (s\<lparr>lru_links := lk\<rparr>)"
    "?cp \<noteq> NULL" "page_fits_list s ?cp INACTIVE" "?cp \<notin> {p}"
    using lru_take [OF inv inact] by blast
  note d = lru_take_empty [OF inv ne]
  show ?thesis
  proof (cases "Q LRU_NVM_FREE = []")
    case True
    then have "dequeue_fifo lk LRU_NVM_FREE = Some (NULL, lk)" using lru_take_empty [OF lk(2), of LRU_NVM_FREE] by simp
    then have "swap_tries K G fw p (Suc (Suc n)) s = None" using d lk(1,3) by (simp add: Let_def)
    then show ?thesis using ne inact True by (simp add: tries_spec_def swap_lists_def)
  next
    case nvm: False
    let ?np = "last (Q LRU_NVM_FREE)" and ?Q2 = "?Q1(LRU_NVM_FREE := butlast (Q LRU_NVM_FREE))"
    have "?Q1 LRU_NVM_FREE = Q LRU_NVM_FREE" by simp
    from lru_take [OF lk(2), of LRU_NVM_FREE] nvm this obtain lk' where
      lk': "dequeue_fifo lk LRU_NVM_FREE = Some (?np, lk')" "lru_inv F {?np, ?cp, p} ?Q2 (s\<lparr>lru_links := lk'\<rparr>)"
        "?np \<noteq> NULL" "page_fits_list s ?np LRU_NVM_FREE" "?np \<notin> {?cp, p}"
      by (auto simp: page_fits_body [of "s\<lparr>lru_links := lk\<rparr>" s])
    let ?s = "s\<lparr>lru_links := lk'\<rparr>" and ?off = "devdax_offset (body s ?np)"
    have npf: "in_dram (body ?s ?np) = False" "\<not> present (body ?s ?np)" "va_of ?s ?np mod HUGEPAGE_SIZE = 0"
      using lk'(4) by (simp_all add: page_fits_list_def)
    have cpf: "in_dram (body ?s ?cp) = (\<not> False)" "present (body ?s ?cp)" "va_of ?s ?cp mod HUGEPAGE_SIZE = 0"
      using lk(4) by (simp_all add: page_fits_list_def)
    let ?Q4 = "?Q2(NVM_INACTIVE := ?cp # ?Q2 NVM_INACTIVE, LRU_DRAM_FREE := ?np # ?Q2 LRU_DRAM_FREE)"
    have e: "swap_tries K G fw p (Suc (Suc n)) s = do {
        s1 \<leftarrow> lru_migrate K G False ?s ?cp ?off;
        s3 \<leftarrow> lru_put NVM_INACTIVE ?cp (take_frame ?np (devdax_offset (body s ?cp)) True s1);
        s4 \<leftarrow> lru_put LRU_DRAM_FREE ?np s3;
        swap_tries K G fw p (Suc n) s4 }"
      using d lk(1,3) lk'(1,3) npf(2) by (simp add: lru_migrate_def Let_def del: swap_tries.simps(2) add: swap_tries.simps(2) [of _ _ _ _ "Suc n"])
    have a: "swap_lists fw p ?Q4 = swap_lists fw p Q" using ne inact nvm by (auto simp: swap_lists_def fun_eq_iff)
    have step: "\<exists>s4. swap_tries K G fw p (Suc (Suc n)) s = swap_tries K G fw p (Suc n) s4 \<and> same_pages s s4 \<and>
        tries_spec K G F (swap_tries K G fw p (Suc n) s4) s4 (swap_lists fw p Q)"
      if m: "lru_migrate K G False ?s ?cp ?off = Some s1" for s1
    proof -
      have h: "{?np, ?cp, p} - {?cp, ?np} = {p}" using lk(5) lk'(5) by auto
      obtain s3 s4 where s4: "lru_put NVM_INACTIVE ?cp (take_frame ?np (devdax_offset (body s ?cp)) True s1) = Some s3"
        "lru_put LRU_DRAM_FREE ?np s3 = Some s4" "lru_inv F {p} ?Q4 s4" "same_pages ?s s4" "\<And>x. x \<notin> {?cp, ?np} \<Longrightarrow> body s4 x = body s x"
        using exchange_put [OF lk'(2) _ _ _ cpf npf _ K, of G s1 NVM_INACTIVE LRU_DRAM_FREE] m lk'(5) unfolding h by auto
      have "p \<notin> {?cp, ?np}" using lk(5) lk'(5) by auto
      then have "\<not> in_dram (body s4 p)" "present (body s4 p)" "va_of s4 p mod HUGEPAGE_SIZE = 0" using s4(5) p by simp_all
      from try_fast [OF s4(3) _ this K, of G fw n] have "tries_spec K G F (swap_tries K G fw p (Suc n) s4) s4 (swap_lists fw p Q)"
        unfolding a by simp
      moreover have "same_pages s s4" using s4(4) by (simp add: same_pages_def)
      ultimately show ?thesis using m s4(1,2) unfolding e by (intro exI [of _ s4]) (simp del: swap_tries.simps)
    qed
    show ?thesis
    proof (cases "lru_migrate K G False ?s ?cp ?off")
      case None
      then have r: "swap_tries K G fw p (Suc (Suc n)) s = None" unfolding e by simp
      have "\<not> (placed F s \<and> kernel_live K \<and> (\<forall>v. k_tlbflush G v))"
        using lru_migrate_total [OF lk'(2) _ cpf _ npf(1) _ K, of G] None by (auto simp: placed_def)
      then show ?thesis unfolding tries_spec_def r by auto
    next
      case (Some s1)
      from step [OF this] obtain s4 where s4: "swap_tries K G fw p (Suc (Suc n)) s = swap_tries K G fw p (Suc n) s4" "same_pages s s4"
        "tries_spec K G F (swap_tries K G fw p (Suc n) s4) s4 (swap_lists fw p Q)" by blast
      show ?thesis unfolding s4(1) by (rule tries_spec_trans [OF s4(2,3)])
    qed
  qed
qed

lemma tries_ok:
  assumes "lru_inv F {p} Q s" "\<not> in_dram (body s p)" "present (body s p)" "va_of s p mod HUGEPAGE_SIZE = 0" "kernel_ok K"
  shows "tries_spec K G F (swap_tries K G fw p 2 s) s (swap_lists fw p Q)"
  using try_fast [OF assms(1) _ assms(2-5), of G fw 1] try_slow [OF assms(1) _ assms(2-5), of G fw 0]
  by (cases "Q LRU_DRAM_FREE = []") (simp_all add: numeral_2_eq_2)

section \<open>A pass\<close>

definition next_hot :: "(lru_list \<Rightarrow> addr list) \<Rightarrow> (bool \<times> addr \<times> (lru_list \<Rightarrow> addr list)) option" where
  "next_hot Q =
     (if Q NVM_WRITTEN \<noteq> [] then Some (True, last (Q NVM_WRITTEN), Q(NVM_WRITTEN := butlast (Q NVM_WRITTEN)))
      else if Q NVM_ACTIVE \<noteq> [] then Some (False, last (Q NVM_ACTIVE), Q(NVM_ACTIVE := butlast (Q NVM_ACTIVE)))
      else None)"

definition hot_slow :: "(lru_list \<Rightarrow> addr list) \<Rightarrow> nat" where
  "hot_slow Q = List.length (Q NVM_WRITTEN) + List.length (Q NVM_ACTIVE)"

lemma next_hot_less: "next_hot Q = Some (fw, p, Q1) \<Longrightarrow> hot_slow Q1 < hot_slow Q"
  by (auto simp: next_hot_def hot_slow_def split: if_splits)

lemma swap_lists_hot: "swap_lists fw p Q = Some (False, b, Q1) \<Longrightarrow> hot_slow Q1 = hot_slow Q"
  by (auto simp: swap_lists_def hot_slow_def split: if_splits)

text \<open>The whole pass on the lists.\<close>

function swap_pass :: "u64 \<Rightarrow> (lru_list \<Rightarrow> addr list) \<Rightarrow> (lru_list \<Rightarrow> addr list) option" where
  "swap_pass migrated_bytes Q =
     (if \<not> migrated_bytes < KSWAPD_MIGRATE_RATE then Some Q
      else case next_hot Q of
          None \<Rightarrow> Some Q
        | Some (fw, p, Q1) \<Rightarrow>
            (case swap_lists fw p Q1 of
                None \<Rightarrow> None
              | Some (out, bytes, Q2) \<Rightarrow> if out then Some Q2 else swap_pass (migrated_bytes + bytes) Q2))"
  by pat_completeness auto
termination
  by (relation "measure (\<lambda>(b, Q). hot_slow Q)") (auto, metis next_hot_less swap_lists_hot)

declare swap_pass.simps [simp del]

lemma next_hot_step:
  assumes inv: "lru_inv F {} Q s"
  shows "(next_hot Q = None \<longrightarrow> swap_loop K G mb s = Some s) \<and>
    (\<forall>fw p Q1. next_hot Q = Some (fw, p, Q1) \<longrightarrow> (\<exists>lk. lru_inv F {p} Q1 (s\<lparr>lru_links := lk\<rparr>) \<and> \<not> in_dram (body s p) \<and> present (body s p) \<and>
       va_of s p mod HUGEPAGE_SIZE = 0 \<and> (mb < KSWAPD_MIGRATE_RATE \<longrightarrow> swap_loop K G mb s = do {
         (out, bytes, s1) \<leftarrow> swap_tries K G fw p 2 (s\<lparr>lru_links := lk\<rparr>);
         (if out then Some s1 else swap_loop K G (mb + bytes) s1) })))"
proof (cases "Q NVM_WRITTEN = []")
  case False
  obtain lk where lk: "dequeue_fifo (lru_links s) NVM_WRITTEN = Some (last (Q NVM_WRITTEN), lk)"
    "lru_inv F {last (Q NVM_WRITTEN)} (Q(NVM_WRITTEN := butlast (Q NVM_WRITTEN))) (s\<lparr>lru_links := lk\<rparr>)" "last (Q NVM_WRITTEN) \<noteq> NULL"
    "page_fits_list s (last (Q NVM_WRITTEN)) NVM_WRITTEN"
    using lru_take [OF inv False] by blast
  have "swap_loop K G mb s = do {
         (out, bytes, s1) \<leftarrow> swap_tries K G True (last (Q NVM_WRITTEN)) 2 (s\<lparr>lru_links := lk\<rparr>);
         (if out then Some s1 else swap_loop K G (mb + bytes) s1) }" if "mb < KSWAPD_MIGRATE_RATE"
    by (subst swap_loop.simps) (use that lk(1,3) in \<open>simp add: Let_def del: swap_tries.simps\<close>)
  then show ?thesis using False lk(2,4) by (auto simp: next_hot_def page_fits_list_def simp del: swap_tries.simps)
next
  case w: True
  note d = lru_take_empty [OF inv w]
  show ?thesis
  proof (cases "Q NVM_ACTIVE = []")
    case True
    then have "swap_loop K G mb s = Some s"
      by (subst swap_loop.simps) (use d lru_take_empty [OF inv True] in \<open>simp add: Let_def\<close>)
    then show ?thesis using w True by (simp add: next_hot_def)
  next
    case False
    obtain lk where lk: "dequeue_fifo (lru_links s) NVM_ACTIVE = Some (last (Q NVM_ACTIVE), lk)"
      "lru_inv F {last (Q NVM_ACTIVE)} (Q(NVM_ACTIVE := butlast (Q NVM_ACTIVE))) (s\<lparr>lru_links := lk\<rparr>)" "last (Q NVM_ACTIVE) \<noteq> NULL"
      "page_fits_list s (last (Q NVM_ACTIVE)) NVM_ACTIVE"
      using lru_take [OF inv False] by blast
    have "swap_loop K G mb s = do {
           (out, bytes, s1) \<leftarrow> swap_tries K G False (last (Q NVM_ACTIVE)) 2 (s\<lparr>lru_links := lk\<rparr>);
           (if out then Some s1 else swap_loop K G (mb + bytes) s1) }" if "mb < KSWAPD_MIGRATE_RATE"
      by (subst swap_loop.simps) (use that d lk(1,3) in \<open>simp add: Let_def del: swap_tries.simps\<close>)
    then show ?thesis using w False lk(2,4) by (auto simp: next_hot_def page_fits_list_def simp del: swap_tries.simps)
  qed
qed

lemma swap_loop_ok:
  assumes "lru_inv F {} Q s" "kernel_ok K"
  shows "(\<forall>s'. swap_loop K G mb s = Some s' \<longrightarrow> (\<exists>Q'. swap_pass mb Q = Some Q' \<and> lru_inv F {} Q' s' \<and> same_pages s s')) \<and>
    (placed F s \<longrightarrow> kernel_live K \<longrightarrow> (\<forall>v. k_tlbflush G v) \<longrightarrow> swap_pass mb Q \<noteq> None \<longrightarrow> swap_loop K G mb s \<noteq> None)"
  using assms(1)
proof (induction mb Q arbitrary: s rule: swap_pass.induct)
  case (1 mb Q)
  note step = next_hot_step [OF 1(2), of K G mb]
  show ?case
  proof (cases "mb < KSWAPD_MIGRATE_RATE")
    case False
    then have "swap_loop K G mb s = Some s" by (subst swap_loop.simps) simp
    moreover have "swap_pass mb Q = Some Q" by (subst swap_pass.simps) (simp add: False)
    ultimately show ?thesis using 1(2) by (simp add: same_pages_refl)
  next
    case mb: True
    show ?thesis
    proof (cases "next_hot Q")
      case None
      have "swap_loop K G mb s = Some s" using step None by blast
      moreover have "swap_pass mb Q = Some Q" by (subst swap_pass.simps) (simp add: None)
      ultimately show ?thesis using 1(2) by (simp add: same_pages_refl )
    next
      case (Some h)
      then obtain fw p Q1 where h: "next_hot Q = Some (fw, p, Q1)" by (cases h) auto
      obtain lk where lk: "lru_inv F {p} Q1 (s\<lparr>lru_links := lk\<rparr>)" "\<not> in_dram (body s p)" "present (body s p)" "va_of s p mod HUGEPAGE_SIZE = 0"
        "swap_loop K G mb s = do {
           (out, bytes, s1) \<leftarrow> swap_tries K G fw p 2 (s\<lparr>lru_links := lk\<rparr>);
           (if out then Some s1 else swap_loop K G (mb + bytes) s1) }"
        using step h mb by blast
      have T: "tries_spec K G F (swap_tries K G fw p 2 (s\<lparr>lru_links := lk\<rparr>)) (s\<lparr>lru_links := lk\<rparr>) (swap_lists fw p Q1)"
        by (rule tries_ok [OF lk(1)]) (use lk assms(2) in simp_all)
      have T: "tries_spec K G F (swap_tries K G fw p 2 (s\<lparr>lru_links := lk\<rparr>)) s (swap_lists fw p Q1)"
        by (rule tries_spec_trans [OF _ T]) (simp add: same_pages_def)
      have pass: "swap_pass mb Q = (case swap_lists fw p Q1 of None \<Rightarrow> None
          | Some (out, bytes, Q2) \<Rightarrow> if out then Some Q2 else swap_pass (mb + bytes) Q2)"
        using h mb by (subst swap_pass.simps) simp
      show ?thesis
      proof (cases "swap_tries K G fw p 2 (s\<lparr>lru_links := lk\<rparr>)")
        case None
        then show ?thesis using T unfolding lk(5) pass tries_spec_def by (auto split: option.splits)
      next
        case (Some r)
        then obtain out b s1 where r: "swap_tries K G fw p 2 (s\<lparr>lru_links := lk\<rparr>) = Some (out, b, s1)" by (cases r) auto
        obtain Q2 where Q2: "swap_lists fw p Q1 = Some (out, b, Q2)" "lru_inv F {} Q2 s1" "same_pages s s1"
          using T r unfolding tries_spec_def by blast
        show ?thesis
        proof (cases out)
          case True
          then show ?thesis using Q2 r unfolding lk(5) pass by simp
        next
          case False
          have IH: "(\<forall>s'. swap_loop K G (mb + b) s1 = Some s' \<longrightarrow> (\<exists>Q'. swap_pass (mb + b) Q2 = Some Q' \<and> lru_inv F {} Q' s' \<and> same_pages s1 s')) \<and>
            (placed F s1 \<longrightarrow> kernel_live K \<longrightarrow> (\<forall>v. k_tlbflush G v) \<longrightarrow> swap_pass (mb + b) Q2 \<noteq> None \<longrightarrow> swap_loop K G (mb + b) s1 \<noteq> None)"
            using 1(1) [OF _ h HOL.refl HOL.refl Q2(1) HOL.refl HOL.refl False Q2(2)] mb by simp
          have e: "swap_loop K G mb s = swap_loop K G (mb + b) s1" "swap_pass mb Q = swap_pass (mb + b) Q2"
            using r Q2(1) False unfolding lk(5) pass by simp_all
          show ?thesis unfolding e using IH same_pages_trans [OF Q2(3)] same_pages_placed [OF Q2(3)] by blast
        qed
      qed
    qed
  qed
qed

end
