(* ===== verification/Lru_System.thy ===== *)
theory Lru_System
  imports Lru_Inv
begin

text \<open>
  The LRU policy as a whole: what a pass of each of its two threads does, and the invariant in every
  state that faults, removals and the threads reach from the initial state.
\<close>

section \<open>The initial state\<close>

lemma new_page_frame: "new_page True j = new_frame DRAM_FREE j" "new_page False j = new_frame NVM_FREE j"
  by (simp_all add: new_page_def new_frame_def)

definition no_lists :: "lru_list \<Rightarrow> addr list" where "no_lists = (\<lambda>_. [])"

lemma lru_init_inv:
  fixes s :: "'a lru_state_scheme"
  assumes al: "allocs_ok d (frame_count (dramsize s)) n (frame_count (nvmsize s))"
  defines "Q \<equiv> no_lists(LRU_DRAM_FREE := rev (map d [0..<frame_count (dramsize s)]), LRU_NVM_FREE := rev (map n [0..<frame_count (nvmsize s)]))"
  shows "\<exists>s0. lru_init d n s = Some s0 \<and> lru_inv (d ` {..<frame_count (dramsize s)} \<union> n ` {..<frame_count (nvmsize s)}) {} Q s0 \<and>
    (\<forall>p\<in>d ` {..<frame_count (dramsize s)} \<union> n ` {..<frame_count (nvmsize s)}. \<not> present (body s0 p)) \<and> dramsize s0 = dramsize s \<and> nvmsize s0 = nvmsize s"
proof -
  let ?nd = "frame_count (dramsize s)" and ?nn = "frame_count (nvmsize s)"
  have neq: "LRU_DRAM_FREE \<noteq> LRU_NVM_FREE" by simp
  obtain b1 lk1 b2 lk2 where 1: "place_frames d True LRU_DRAM_FREE 0 ?nd (body s, dll_empty) = Some (b1, lk1)"
    "place_frames n False LRU_NVM_FREE 0 ?nn (b1, lk1) = Some (b2, lk2)" "dll_rep lk2 Q"
    "\<forall>j<?nd. b2 (d j) = new_page True j" "\<forall>j<?nn. b2 (n j) = new_page False j"
    using place_both [OF al neq, of "body s"] unfolding Q_def no_lists_def by blast
  let ?s = "s\<lparr>body := b2, lru_links := lk2\<rparr>" and ?F = "d ` {..<?nd} \<union> n ` {..<?nn}"
  have fr: "frames_ok ?F ?s" using frames_ok_start [of d ?s n] al 1(4,5) by (simp add: new_page_frame)
  have "lru_inv ?F {} Q ?s"
  proof (rule lru_invI)
    have "(\<Union>l. set (Q l)) = set (Q LRU_DRAM_FREE) \<union> set (Q LRU_NVM_FREE)"
      by (auto simp: Q_def no_lists_def split: if_splits)
    then show "?F = (\<Union>l. set (Q l)) \<union> {}" by (auto simp: Q_def)
    show "page_fits_list ?s p l" if "p \<in> set (Q l)" for p l
      using that 1(4,5) by (auto simp: Q_def no_lists_def page_fits_list_def new_page_def zero_page_def split: if_splits)
  qed (use 1(3) fr in simp_all)
  moreover have "lru_init d n s = Some ?s" using 1(1,2) by (simp add: lru_init_def frame_count_def)
  moreover have "\<forall>p\<in>?F. \<not> present (body ?s p)" using 1(4,5) by (auto simp: new_page_def)
  ultimately show ?thesis by simp
qed

section \<open>The scan pass\<close>

lemma ex_lru_list:
  "(\<exists>l. P l) \<longleftrightarrow> P ACTIVE \<or> P INACTIVE \<or> P WRITTEN \<or> P NVM_ACTIVE \<or> P NVM_INACTIVE \<or> P NVM_WRITTEN \<or> P LRU_DRAM_FREE \<or> P LRU_NVM_FREE"
proof
  assume "\<exists>l. P l"
  then obtain l where "P l" by blast
  then show "P ACTIVE \<or> P INACTIVE \<or> P WRITTEN \<or> P NVM_ACTIVE \<or> P NVM_INACTIVE \<or> P NVM_WRITTEN \<or> P LRU_DRAM_FREE \<or> P LRU_NVM_FREE"
    by (cases l) simp_all
qed blast

lemma all_lists: "(\<Union>l. set (P l)) = fast_pages P \<union> slow_pages P \<union> set (P LRU_DRAM_FREE) \<union> set (P LRU_NVM_FREE)"
  by (rule set_eqI) (simp add: ex_lru_list tier_pages_def disj_ac)

lemma kscand_spec:
  fixes s :: "'a lru_state_scheme"
  assumes inv: "lru_inv F {} Q s" and room: "3 * (card (fast_pages Q) + card (slow_pages Q)) \<le> MAX_VAS"
    and G: "\<And>v. v mod HUGEPAGE_SIZE = 0 \<Longrightarrow> k_clear_flag G v" "k_tlbflush G 0"
  shows "\<exists>s' Q'. lru_kscand (with_flags f G) s = Some s' \<and> lru_inv F {} Q' s' \<and> body s' = body s \<and> vmap s' = vmap s \<and> \<not> in_kscand s' \<and>
    sorted_tier ACTIVE INACTIVE WRITTEN f (naccesses s) Q Q' \<and> sorted_tier NVM_ACTIVE NVM_INACTIVE NVM_WRITTEN f (naccesses s) Q Q' \<and>
    (\<forall>l\<in>{LRU_DRAM_FREE, LRU_NVM_FREE}. set (Q' l) = set (Q l))"
proof -
  note I = lru_invD [OF inv]
  let ?s = "s\<lparr>in_kscand := True, vas := []\<rparr>" and ?G = "with_flags f G"
  have "scan_ok (fast_pages Q) (slow_pages Q) 0 ?s Q"
    using I(1) I(5) by (auto simp: scan_ok_def lists_aligned_def page_fits_list_def)
  from six_loops [OF this room, of f G] obtain s1 s2 s3 s4 s5 s6 Q6 where six:
    "check_writes ?G ACTIVE INACTIVE WRITTEN ?s = Some s1 \<and> check_writes ?G NVM_ACTIVE NVM_INACTIVE NVM_WRITTEN s1 = Some s2 \<and>
    shrink_caches ?G ACTIVE INACTIVE WRITTEN s2 = Some s3 \<and> shrink_caches ?G NVM_ACTIVE NVM_INACTIVE NVM_WRITTEN s3 = Some s4 \<and>
    expand_caches ?G ACTIVE INACTIVE WRITTEN s4 = Some s5 \<and> expand_caches ?G NVM_ACTIVE NVM_INACTIVE NVM_WRITTEN s5 = Some s6 \<and>
    scan_ok (fast_pages Q) (slow_pages Q) (3 * (card (fast_pages Q) + card (slow_pages Q))) s6 Q6 \<and>
    sorted_tier ACTIVE INACTIVE WRITTEN f (naccesses ?s) Q Q6 \<and> sorted_tier NVM_ACTIVE NVM_INACTIVE NVM_WRITTEN f (naccesses ?s) Q Q6 \<and>
    (\<forall>l. l \<notin> {ACTIVE, INACTIVE, WRITTEN} \<union> {NVM_ACTIVE, NVM_INACTIVE, NVM_WRITTEN} \<longrightarrow> set (Q6 l) = set (Q l)) \<and>
    body s6 = body ?s \<and> dramsize s6 = dramsize ?s \<and> nvmsize s6 = nvmsize ?s \<and> vmap s6 = vmap ?s"
    by (elim exE) (rule that)
  from six have L: "check_writes ?G ACTIVE INACTIVE WRITTEN ?s = Some s1" "check_writes ?G NVM_ACTIVE NVM_INACTIVE NVM_WRITTEN s1 = Some s2"
    "shrink_caches ?G ACTIVE INACTIVE WRITTEN s2 = Some s3" "shrink_caches ?G NVM_ACTIVE NVM_INACTIVE NVM_WRITTEN s3 = Some s4"
    "expand_caches ?G ACTIVE INACTIVE WRITTEN s4 = Some s5" "expand_caches ?G NVM_ACTIVE NVM_INACTIVE NVM_WRITTEN s5 = Some s6"
    by - (elim conjE, assumption)+
  from six have st: "sorted_tier ACTIVE INACTIVE WRITTEN f (naccesses ?s) Q Q6" "sorted_tier NVM_ACTIVE NVM_INACTIVE NVM_WRITTEN f (naccesses ?s) Q Q6"
    by - (elim conjE, assumption)+
  from six have fr: "set (Q6 l) = set (Q l)" if "l \<notin> {ACTIVE, INACTIVE, WRITTEN} \<union> {NVM_ACTIVE, NVM_INACTIVE, NVM_WRITTEN}" for l
    using that by blast
  from six have b: "body s6 = body ?s" "dramsize s6 = dramsize ?s" "nvmsize s6 = nvmsize ?s" "vmap s6 = vmap ?s" 
    by - (elim conjE, assumption)+
  from six have ok: "scan_ok (fast_pages Q) (slow_pages Q) (3 * (card (fast_pages Q) + card (slow_pages Q))) s6 Q6"
    by - (elim conjE, assumption)
  have al: "\<forall>v\<in>set (vas s6). v mod HUGEPAGE_SIZE = 0" and rep: "dll_rep (lru_links s6) Q6"
    and tp: "fast_pages Q6 = fast_pages Q" "slow_pages Q6 = slow_pages Q"
    using ok by (simp_all add: scan_ok_def)
  have clear: "clear_all ?G (vas s6) s6 = Some s6" using clear_all_ok [OF G(1)] al by blast
  have tlb: "arms_tlb_shootdown ?G 0 s6 = Some s6" using G(2) by (simp add: arms_tlb_shootdown_def with_flags_def)
  have run: "lru_kscand ?G s = Some (s6\<lparr>in_kscand := False\<rparr>)" by (simp add: lru_kscand_def L clear tlb)
  note union = all_lists
  have fits: "page_fits_list s p l" if p: "p \<in> set (Q6 l)" for p l
  proof (cases "l \<in> {LRU_DRAM_FREE, LRU_NVM_FREE}")
    case True
    then show ?thesis using p fr [of l] I(5) [of p l] by auto
  next
    case False
    then have "p \<in> (if fast_list l then fast_pages Q else slow_pages Q) \<and> \<not> free_lru l"
      using p tp [symmetric] by (cases l) (simp_all add: tier_pages_def)
    then obtain k where "p \<in> set (Q k)" "fast_list k = fast_list l" "\<not> free_lru k" "\<not> free_lru l"
      unfolding tier_pages_def by (auto split: if_splits)
    then show ?thesis using I(5) by (simp add: page_fits_list_def)
  qed
  have "lru_inv F {} Q6 (s6\<lparr>in_kscand := False\<rparr>)"
  proof (rule lru_invI)
    show "F = (\<Union>l. set (Q6 l)) \<union> {}"
      unfolding union using I(3) fr [of LRU_DRAM_FREE] fr [of LRU_NVM_FREE] tp unfolding union by simp
    show "frames_ok F (s6\<lparr>in_kscand := False\<rparr>)" using I(2) frames_ok_body [of "s6\<lparr>in_kscand := False\<rparr>" s F] b by simp
    show "page_fits_list (s6\<lparr>in_kscand := False\<rparr>) p l" if "p \<in> set (Q6 l)" for p l
      using fits [OF that] b(1) by (simp add: page_fits_list_def)
  qed (simp_all add: rep)
  moreover have "\<forall>l\<in>{LRU_DRAM_FREE, LRU_NVM_FREE}. set (Q6 l) = set (Q l)" using fr by simp
  ultimately show ?thesis using run st b by auto
qed

section \<open>The swap pass\<close>

lemma kswapd_lists:
  assumes inv: "lru_inv F {} Q s" and K: "kernel_ok K" "kernel_live K" "\<And>v. k_tlbflush G v" and pl: "placed F s"
  shows "case swap_pass 0 Q of None \<Rightarrow> lru_kswapd K G s = None
    | Some Q' \<Rightarrow> (\<exists>s'. lru_kswapd K G s = Some s' \<and> lru_inv F {} Q' s' \<and> same_pages s s')"
proof (cases "swap_loop K G 0 s")
  case None
  then have "swap_pass 0 Q = None" using swap_loop_ok [OF inv K(1), of G 0] pl K(2,3) by blast
  then show ?thesis using None by (simp add: lru_kswapd_def)
next
  case (Some s')
  then obtain Q' where Q': "swap_pass 0 Q = Some Q'" "lru_inv F {} Q' s'" "same_pages s s'"
    using swap_loop_ok [OF inv K(1), of G 0] by blast
  have "lru_inv F {} Q' (s'\<lparr>lru_runs := lru_runs s' + 1\<rparr>)" by (rule lru_inv_fields [OF Q'(2)]) simp_all
  moreover have "same_pages s (s'\<lparr>lru_runs := lru_runs s' + 1\<rparr>)" using Q'(3) by (simp add: same_pages_def)
  ultimately show ?thesis using Q'(1) Some by (simp add: lru_kswapd_def)
qed

section \<open>Runs\<close>

text \<open>
  A fault, the address that the fault handler sets after it, a removal, the steps of the scan thread
  (start, one page, end) and a pass of the swap thread. A removal waits for the end of a scan.
\<close>

inductive lru_step :: "kernel \<Rightarrow> flag_kernel \<Rightarrow> 'a lru_state_scheme \<Rightarrow> 'a lru_state_scheme \<Rightarrow> bool" for K G where
  fault: "lru_pagefault s = Some (p, s') \<Longrightarrow> lru_step K G s s'"
| placed: "present (body s p) \<Longrightarrow> v mod HUGEPAGE_SIZE = 0 \<Longrightarrow> lru_step K G s (upd_page p (\<lambda>x. x\<lparr>va := v\<rparr>) s)"
| remove: "\<not> in_kscand s \<Longrightarrow> d_list (lru_links s) p = Some l \<Longrightarrow> lru_remove_page s p = Some s' \<Longrightarrow> lru_step K G s s'"
| scan_start: "lru_step K G s (s\<lparr>in_kscand := True, vas := []\<rparr>)"
| scan_page: "\<lbrakk>(a, i, w) = (ACTIVE, INACTIVE, WRITTEN) \<or> (a, i, w) = (NVM_ACTIVE, NVM_INACTIVE, NVM_WRITTEN);
    (src, one) \<in> {(w, check_one (with_flags f G) a i w), (a, shrink_one (with_flags f G) a i w), (i, expand_one (with_flags f G) a i w)};
    List.length (vas s) < MAX_VAS; dequeue_fifo (lru_links s) src = Some (p, lk); p \<noteq> NULL; one p (s\<lparr>lru_links := lk\<rparr>) = Some s'\<rbrakk> \<Longrightarrow>
    lru_step K G s s'"
| scan_end: "lru_step K G s (s\<lparr>in_kscand := False\<rparr>)"
| swap: "lru_kswapd K G s = Some s' \<Longrightarrow> lru_step K G s s'"

lemma lru_upd_va:
  assumes inv: "lru_inv F {} Q s" and v: "v mod HUGEPAGE_SIZE = 0"
  shows "lru_inv F {} Q (upd_page p (\<lambda>x. x\<lparr>va := v\<rparr>) s)"
proof (rule lru_invI)
  note I = lru_invD [OF inv]
  show "frames_ok F (upd_page p (\<lambda>x. x\<lparr>va := v\<rparr>) s)" using frames_ok_upd [of F s _ p] I(2) by (simp add: frame_of_def)
  show "page_fits_list (upd_page p (\<lambda>x. x\<lparr>va := v\<rparr>) s) q l" if "q \<in> set (Q l)" for q l
    using I(5) [OF that] v by (cases "q = p") (simp_all add: page_fits_list_def upd_page_def)
qed (use lru_invD [OF inv] in simp_all)

lemma lru_step_inv:
  assumes st: "lru_step K G s s'" and inv: "lru_inv F {} Q s" and K: "kernel_ok K"
  shows "\<exists>Q'. lru_inv F {} Q' s'"
  using st
proof cases
  case (fault p)
  then show ?thesis using lru_fault_inv [OF inv] by (auto split: option.splits)
next
  case (placed p v)
  then show ?thesis using lru_upd_va [OF inv placed(3), of p] by auto
next
  case (remove p l)
  then have "p \<in> set (Q l)" using dll_repD(7) [OF lru_invD(1) [OF inv]] by blast
  then show ?thesis using lru_remove_inv [OF inv] remove by fastforce
next
  case scan_start
  have "lru_inv F {} Q s'" unfolding scan_start by (rule lru_inv_fields [OF inv]) simp_all
  then show ?thesis by blast
next
  case (scan_page a i w src one f p lk)
  have "Q src \<noteq> []" using scan_page(4,5) lru_take_empty [OF inv, of src] by auto
  moreover have "src \<in> {a, i, w}" "one \<in> {shrink_one (with_flags f G) a i w, check_one (with_flags f G) a i w, expand_one (with_flags f G) a i w}"
    using scan_page(2) by auto
  ultimately have "\<exists>Q'. lru_inv F {} Q' s' \<and> body s' = body s"
    by (intro lru_scan_inv [where src = src and one = one and a = a and i = i and w = w and f = f and G = G and p = p and lk = lk, OF inv])
      (use scan_page in blast)+
  then show ?thesis by blast
next
  case scan_end
  have "lru_inv F {} Q s'" unfolding scan_end by (rule lru_inv_fields [OF inv]) simp_all
  then show ?thesis by blast
next
  case swap
  then obtain s1 where s1: "swap_loop K G 0 s = Some s1" "s' = s1\<lparr>lru_runs := lru_runs s1 + 1\<rparr>"
    by (auto simp: lru_kswapd_def bind_Some_iff)
  then obtain Q' where "lru_inv F {} Q' s1" using swap_loop_ok [OF inv K, of G 0] by blast
  then have "lru_inv F {} Q' s'" unfolding s1(2) by (rule lru_inv_fields) simp_all
  then show ?thesis by blast
qed

lemma lru_run_inv:
  assumes "rtranclp (lru_step K G) s s'" "lru_inv F {} Q s" "kernel_ok K"
  shows "\<exists>Q'. lru_inv F {} Q' s'"
  using assms by (induction rule: rtranclp_induct) (blast, metis lru_step_inv)

section \<open>Small machines\<close>

definition lru_start :: "u64 \<Rightarrow> u64 \<Rightarrow> lru_state" where
  "lru_start ds ns = arms_state.extend (arms_start\<lparr>dramsize := ds, nvmsize := ns\<rparr>)
     (lru_state.fields dll_empty (\<lambda>_. False) (\<lambda>_. 0) [] 0 False)"

lemma lru_start_simps [simp]: "dramsize (lru_start ds ns) = ds" "nvmsize (lru_start ds ns) = ns"
  by (simp_all add: lru_start_def arms_state.defs arms_start_def)

definition quiet_flags :: flag_kernel where
  "quiet_flags = \<lparr>k_get_flag = (\<lambda>_. Some (0, 0)), k_clear_flag = (\<lambda>_. True), k_tlbflush = (\<lambda>_. True)\<rparr>"

lemma quiet_flags_simps [simp]: "k_clear_flag quiet_flags v" "k_tlbflush quiet_flags v"
  by (simp_all add: quiet_flags_def)

text \<open>One fast frame, and one slow frame or two; two faults take a page of each tier.\<close>

lemma demo_sizes: "frame_count 0x200000 = 1" "frame_count 0x400000 = 2"
  by (simp_all add: frame_count_def page_size_defs unat_div_distrib)

lemma demo_allocs_sub:
  assumes "nd \<le> 2" "nn \<le> 2"
  shows "allocs_ok demo_dram nd demo_nvm nn"
proof -
  have sub: "{..<nd} \<subseteq> {..<2}" "{..<nn} \<subseteq> {..<2}" using assms by auto
  have A: "inj_on demo_dram {..<2}" "inj_on demo_nvm {..<2}" "demo_dram ` {..<2} \<inter> demo_nvm ` {..<2} = {}"
    "NULL \<notin> demo_dram ` {..<2} \<union> demo_nvm ` {..<2}" using demo_allocs unfolding allocs_ok_def demo_sizes by simp_all
  have "inj_on demo_dram {..<nd}" "inj_on demo_nvm {..<nn}" by (rule inj_on_subset [OF A(1) sub(1)], rule inj_on_subset [OF A(2) sub(2)])
  moreover have "demo_dram ` {..<nd} \<inter> demo_nvm ` {..<nn} = {}"
    using Int_mono [OF image_mono [OF sub(1), of demo_dram] image_mono [OF sub(2), of demo_nvm]] unfolding A(3) by simp
  moreover have "NULL \<notin> demo_dram ` {..<nd} \<union> demo_nvm ` {..<nn}"
    by (rule contra_subsetD [OF Un_mono [OF image_mono [OF sub(1)] image_mono [OF sub(2)]] A(4)])
  moreover have "nd + nn < 2 ^ 30" using assms by simp
  ultimately show ?thesis unfolding allocs_ok_def by blast
qed

definition two_used :: "nat \<Rightarrow> lru_list \<Rightarrow> addr list" where
  "two_used k = no_lists(ACTIVE := [demo_dram 0], NVM_ACTIVE := [demo_nvm 0], LRU_NVM_FREE := rev (map demo_nvm [1..<k]))"

lemma lru_demo:
  assumes "ns = 0x200000 \<or> ns = 0x400000"
  shows "\<exists>s0 s1 s2. lru_init demo_dram demo_nvm (lru_start 0x200000 ns) = Some s0 \<and> lru_pagefault s0 = Some (demo_dram 0, s1) \<and>
    lru_pagefault s1 = Some (demo_nvm 0, s2) \<and> lru_inv (demo_dram ` {..<1} \<union> demo_nvm ` {..<frame_count ns}) {} (two_used (frame_count ns)) s2 \<and>
    (\<forall>p\<in>demo_dram ` {..<1} \<union> demo_nvm ` {..<frame_count ns}. present (body s2 p) \<longrightarrow> p \<in> {demo_dram 0, demo_nvm 0})"
proof -
  let ?F = "demo_dram ` {..<1} \<union> demo_nvm ` {..<frame_count ns}" and ?k = "frame_count ns"
  let ?Q = "no_lists(LRU_DRAM_FREE := rev (map demo_dram [0..<1]), LRU_NVM_FREE := rev (map demo_nvm [0..<?k]))"
  have k: "?k = 1 \<or> ?k = 2" using assms demo_sizes by auto
  obtain s0 where s0: "lru_init demo_dram demo_nvm (lru_start 0x200000 ns) = Some s0" "lru_inv ?F {} ?Q s0" "\<forall>p\<in>?F. \<not> present (body s0 p)"
    using lru_init_inv [of demo_dram "lru_start 0x200000 ns" demo_nvm] demo_allocs_sub [of 1 ?k] k by (auto simp: demo_sizes)
  let ?Q1 = "?Q(LRU_DRAM_FREE := [], ACTIVE := [demo_dram 0])"
  have "fault_lists ?Q = Some (demo_dram 0, ?Q1)" by (simp add: fault_lists_def no_lists_def)
  then obtain s1 where s1: "lru_pagefault s0 = Some (demo_dram 0, s1)" "lru_inv ?F {} ?Q1 s1"
    "body s1 = (body s0)(demo_dram 0 := (body s0 (demo_dram 0))\<lparr>present := True\<rparr>)"
    using lru_fault_inv [OF s0(2)] by auto
  have up: "[0..<?k] = 0 # [1..<?k]" using k by (subst upt_conv_Cons) auto
  have "fault_lists ?Q1 = Some (demo_nvm 0, two_used ?k)"
    unfolding up by (auto simp: fault_lists_def no_lists_def two_used_def fun_eq_iff)
  then obtain s2 where s2: "lru_pagefault s1 = Some (demo_nvm 0, s2)" "lru_inv ?F {} (two_used ?k) s2"
    "body s2 = (body s1)(demo_nvm 0 := (body s1 (demo_nvm 0))\<lparr>present := True\<rparr>)"
    using lru_fault_inv [OF s1(2)] by auto
  have "\<forall>p\<in>?F. present (body s2 p) \<longrightarrow> p \<in> {demo_dram 0, demo_nvm 0}" using s0(3) s1(3) s2(3) by auto
  then show ?thesis using s0(1) s1(1) s2(1,2) by blast
qed

text \<open>The scan that finds the fast page untouched and the slow page read.\<close>

definition one_cold :: "addr \<Rightarrow> u64 \<times> u64" where
  "one_cold p = (if p = demo_nvm 0 then (ARMS_ACCESSED_FLAG, 0) else (0, 0))"

lemma one_cold_bits: "accessed (flag_bits one_cold p) \<longleftrightarrow> p = demo_nvm 0" "\<not> dirty (flag_bits one_cold p)"
  by (simp_all add: one_cold_def flag_bits_def accessed_def dirty_def ARMS_ACCESSED_FLAG_def ARMS_DIRTY_FLAG_def)

lemma demo_distinct: "demo_dram 0 \<noteq> demo_nvm 0" "demo_nvm 0 \<noteq> demo_nvm 1"
  by (simp_all add: demo_dram_def demo_nvm_def)

lemma single_list: "distinct xs \<Longrightarrow> set xs = {x} \<Longrightarrow> xs = [x]"
  by (cases xs; cases "tl xs") auto

lemma demo_scanned:
  assumes s: "sorted_tier ACTIVE INACTIVE WRITTEN one_cold n (two_used k) Q'" "sorted_tier NVM_ACTIVE NVM_INACTIVE NVM_WRITTEN one_cold n (two_used k) Q'"
    and inv: "lru_inv F {} Q' s'"
  shows "Q' ACTIVE = []" "Q' INACTIVE = [demo_dram 0]" "Q' NVM_ACTIVE = [demo_nvm 0]" "Q' NVM_WRITTEN = []"
proof -
  have d: "distinct (Q' l)" for l by (rule dll_repD(1) [OF lru_invD(1) [OF inv]])
  have 1: "set (Q' ACTIVE) = {}" "set (Q' INACTIVE) = {demo_dram 0}"
    using s(1) demo_distinct by (auto simp: sorted_tier_def one_cold_bits tier_pages_def two_used_def no_lists_def)
  have 2: "set (Q' NVM_ACTIVE) = {demo_nvm 0}" "set (Q' NVM_WRITTEN) = {}"
    using s(2) by (auto simp: sorted_tier_def one_cold_bits tier_pages_def two_used_def no_lists_def)
  show "Q' ACTIVE = []" "Q' INACTIVE = [demo_dram 0]" "Q' NVM_ACTIVE = [demo_nvm 0]" "Q' NVM_WRITTEN = []"
    using 1 2 single_list [OF d] by simp_all
qed

lemma demo_scan:
  assumes inv: "lru_inv F {} (two_used k) s"
  shows "3 * (card (fast_pages (two_used k)) + card (slow_pages (two_used k))) \<le> MAX_VAS"
  by (simp add: tier_pages_def two_used_def no_lists_def MAX_VAS_def)

lemma demo_ready:
  assumes ns: "ns = 0x200000 \<or> ns = 0x400000"
  defines "F \<equiv> demo_dram ` {..<1} \<union> demo_nvm ` {..<frame_count ns}"
  shows "\<exists>(s :: lru_state) Q. lru_inv F {} Q s \<and> placed F s \<and> Q INACTIVE = [demo_dram 0] \<and> Q NVM_ACTIVE = [demo_nvm 0] \<and>
    Q NVM_WRITTEN = [] \<and> Q LRU_DRAM_FREE = [] \<and> set (Q LRU_NVM_FREE) = demo_nvm ` {1..<frame_count ns}"
proof -
  let ?k = "frame_count ns"
  obtain s2 :: lru_state where s2: "lru_inv F {} (two_used ?k) s2" "\<forall>p\<in>F. present (body s2 p) \<longrightarrow> p \<in> {demo_dram 0, demo_nvm 0}"
    unfolding F_def using lru_demo [OF ns] by blast
  obtain s3 :: lru_state where s3: "lru_inv F {} (two_used ?k) s3" and pl: "placed F s3"
  proof
    let ?s3 = "upd_page (demo_nvm 0) (\<lambda>x. x\<lparr>va := 0x400000\<rparr>) (upd_page (demo_dram 0) (\<lambda>x. x\<lparr>va := 0x200000\<rparr>) s2)"
    show "lru_inv F {} (two_used ?k) ?s3" by (intro lru_upd_va s2(1)) (simp_all add: HUGEPAGE_SIZE_def)
    show "placed F ?s3" using s2(2) demo_distinct by (auto simp: placed_def upd_page_def)
  qed
  have "\<exists>s' Q'. lru_kscand (with_flags one_cold quiet_flags) s3 = Some s' \<and> lru_inv F {} Q' s' \<and> body s' = body s3 \<and> vmap s' = vmap s3 \<and> \<not> in_kscand s' \<and>
    sorted_tier ACTIVE INACTIVE WRITTEN one_cold (naccesses s3) (two_used ?k) Q' \<and>
    sorted_tier NVM_ACTIVE NVM_INACTIVE NVM_WRITTEN one_cold (naccesses s3) (two_used ?k) Q' \<and>
    (\<forall>l\<in>{LRU_DRAM_FREE, LRU_NVM_FREE}. set (Q' l) = set (two_used ?k l))"
    by (rule kscand_spec [OF s3 demo_scan [OF s3]]) simp_all
  then obtain s4 :: lru_state and Q' where b: "body s4 = body s3" and i: "lru_inv F {} Q' s4" and fr: "\<forall>l\<in>{LRU_DRAM_FREE, LRU_NVM_FREE}. set (Q' l) = set (two_used ?k l)"
    and st: "sorted_tier ACTIVE INACTIVE WRITTEN one_cold (naccesses s3) (two_used ?k) Q'"
      "sorted_tier NVM_ACTIVE NVM_INACTIVE NVM_WRITTEN one_cold (naccesses s3) (two_used ?k) Q'"
    by (elim exE conjE) (rule that; assumption)
  have "placed F s4" using pl b by (simp add: placed_def)
  moreover have "set (two_used ?k LRU_DRAM_FREE) = {}" "set (two_used ?k LRU_NVM_FREE) = demo_nvm ` {1..<?k}"
    by (simp_all add: two_used_def no_lists_def)
  ultimately show ?thesis using demo_scanned [OF st i] i fr by (intro exI [of _ s4] exI [of _ Q']) simp
qed

section \<open>Properties\<close>

text \<open>
  C26: The LRU policy never loses, duplicates or misfiles a page: after any sequence of faults,
  address updates, removals, scan steps and swap passes every page descriptor is in exactly one
  of the eight lists, its tier and its present flag are those of the list, and no two
  descriptors have the same frame.
\<close>

lemma lru_pages_kept:
  assumes "allocs_ok d (frame_count (dramsize s)) n (frame_count (nvmsize s))" "lru_init d n s = Some s0" "kernel_ok K"
    "rtranclp (lru_step K G) s0 s'"
  shows "\<exists>Q. dll_rep (lru_links s') Q \<and>
    (\<Union>l. set (Q l)) = d ` {..<frame_count (dramsize s)} \<union> n ` {..<frame_count (nvmsize s)} \<and>
    (\<forall>k l. k \<noteq> l \<longrightarrow> set (Q k) \<inter> set (Q l) = {}) \<and>
    (\<forall>l. \<forall>p\<in>set (Q l). in_dram (body s' p) = fast_list l \<and> present (body s' p) = (\<not> free_lru l)) \<and>
    inj_on (\<lambda>p. frame_of (body s' p)) (\<Union>l. set (Q l))"
proof -
  let ?F = "d ` {..<frame_count (dramsize s)} \<union> n ` {..<frame_count (nvmsize s)}"
  obtain Q0 where "lru_inv ?F {} Q0 s0" using lru_init_inv [OF assms(1)] assms(2) by auto
  from lru_run_inv [OF assms(4) this assms(3)] obtain Q where "lru_inv ?F {} Q s'" by blast
  note I = lru_invD [OF this]
  have F: "(\<Union>l. set (Q l)) = ?F" using I(3) by simp
  have "set (Q k) \<inter> set (Q l) = {}" if "k \<noteq> l" for k l using dll_rep_disjoint [OF I(1)] that by blast
  moreover have "inj_on (\<lambda>p. frame_of (body s' p)) (\<Union>l. set (Q l))" unfolding F using I(2) by (simp add: frames_ok_def)
  ultimately show ?thesis using I(1) F I(5) by (intro exI [of _ Q]) (simp add: page_fits_list_def)
qed

lemma lru_pages_kept_witness:
  "\<exists>s0 s2 Q. lru_init demo_dram demo_nvm (lru_start 0x200000 0x400000) = Some s0 \<and>
     rtranclp (lru_step host_kernel quiet_flags) s0 s2 \<and> dll_rep (lru_links s2) Q \<and>
     (\<Union>l. set (Q l)) = demo_dram ` {..<1} \<union> demo_nvm ` {..<2}"
proof -
  obtain s0 s1 s2 where s: "lru_init demo_dram demo_nvm (lru_start 0x200000 0x400000) = Some s0" "lru_pagefault s0 = Some (demo_dram 0, s1)"
    "lru_pagefault s1 = Some (demo_nvm 0, s2)" using lru_demo [of "0x400000"] by blast
  have r: "rtranclp (lru_step host_kernel quiet_flags) s0 s2"
    using s(2,3) by (meson lru_step.fault r_into_rtranclp rtranclp.rtrancl_into_rtrancl)
  from lru_pages_kept [OF _ s(1) host_kernel_ok r] show ?thesis using s(1) r demo_allocs_sub [of 1 2] by (auto simp: demo_sizes)
qed

text \<open>
  C27: A pass of the scan thread returns, and sorts the pages of each tier by the flags: the
  written pages are those accessed and dirty, the inactive ones those not accessed or accessed
  as an inactive page with less than four earlier accesses, and the active ones the rest. The
  free pages and the descriptors stay as they are. This is for a pass that no other thread
  interrupts, over at most a third of MAX_VAS pages, with flags that do not change while it runs
  and with ioctls that succeed.
\<close>

lemma lru_scan_sorts:
  fixes s :: "'a lru_state_scheme"
  assumes "lru_inv F {} Q s" "3 * (card (fast_pages Q) + card (slow_pages Q)) \<le> MAX_VAS"
    "\<And>v. v mod HUGEPAGE_SIZE = 0 \<Longrightarrow> k_clear_flag G v" "k_tlbflush G 0"
  shows "\<exists>s' Q'. lru_kscand (with_flags f G) s = Some s' \<and> lru_inv F {} Q' s' \<and> body s' = body s \<and> vmap s' = vmap s \<and>
    \<not> in_kscand s' \<and> sorted_tier ACTIVE INACTIVE WRITTEN f (naccesses s) Q Q' \<and>
    sorted_tier NVM_ACTIVE NVM_INACTIVE NVM_WRITTEN f (naccesses s) Q Q' \<and>
    (\<forall>l\<in>{LRU_DRAM_FREE, LRU_NVM_FREE}. set (Q' l) = set (Q l))"
  by (rule kscand_spec [OF assms])

lemma lru_scan_sorts_witness:
  "\<exists>s2 s3 Q'. lru_kscand (with_flags one_cold quiet_flags) (s2 :: lru_state) = Some s3 \<and>
     lru_inv (demo_dram ` {..<1} \<union> demo_nvm ` {..<2}) {} Q' s3 \<and> Q' INACTIVE = [demo_dram 0] \<and> Q' NVM_ACTIVE = [demo_nvm 0]"
proof -
  obtain s2 :: lru_state where s2: "lru_inv (demo_dram ` {..<1} \<union> demo_nvm ` {..<frame_count 0x400000}) {} (two_used (frame_count 0x400000)) s2"
    using lru_demo [of "0x400000"] by blast
  let ?F = "demo_dram ` {..<1} \<union> demo_nvm ` {..<frame_count 0x400000}" and ?Q = "two_used (frame_count 0x400000)"
  have "\<exists>s' Q'. lru_kscand (with_flags one_cold quiet_flags) s2 = Some s' \<and> lru_inv ?F {} Q' s' \<and> body s' = body s2 \<and> vmap s' = vmap s2 \<and> \<not> in_kscand s' \<and>
    sorted_tier ACTIVE INACTIVE WRITTEN one_cold (naccesses s2) ?Q Q' \<and> sorted_tier NVM_ACTIVE NVM_INACTIVE NVM_WRITTEN one_cold (naccesses s2) ?Q Q' \<and>
    (\<forall>l\<in>{LRU_DRAM_FREE, LRU_NVM_FREE}. set (Q' l) = set (?Q l))"
    by (rule lru_scan_sorts [OF s2 demo_scan [OF s2]]) simp_all
  then obtain s3 Q' where k: "lru_kscand (with_flags one_cold quiet_flags) s2 = Some s3" and i: "lru_inv ?F {} Q' s3"
    and st: "sorted_tier ACTIVE INACTIVE WRITTEN one_cold (naccesses s2) ?Q Q'" "sorted_tier NVM_ACTIVE NVM_INACTIVE NVM_WRITTEN one_cold (naccesses s2) ?Q Q'"
    by blast
  show ?thesis using demo_scanned [OF st i] k i unfolding demo_sizes by blast
qed

text \<open>
  C28: A pass of the swap thread that no other thread interrupts does to the lists what the
  short list program swap_pass does: each hot slow page takes the place of a free fast page or
  of the oldest inactive one, until there is no hot slow page, no inactive fast page, or the
  limit of bytes is reached. When swap_pass has a result the pass ends with it, and addresses
  and present flags do not change; when swap_pass needs a free slow page and finds none, the
  pass has no result (a failed assertion; the partial function would also have none if it did
  not end). The kernel serves all requests, the flush of the TLB succeeds, and no present page
  lies at address 0, so the state of the finding on lru.c:381 is outside.
\<close>

lemma lru_swap_refines:
  assumes "lru_inv F {} Q s" "kernel_ok K" "kernel_live K" "\<And>v. k_tlbflush G v" "placed F s"
  shows "case swap_pass 0 Q of None \<Rightarrow> lru_kswapd K G s = None
    | Some Q' \<Rightarrow> (\<exists>s'. lru_kswapd K G s = Some s' \<and> lru_inv F {} Q' s' \<and> same_pages s s')"
  by (rule kswapd_lists [OF assms])

lemma lru_swap_refines_witness:
  "\<exists>(s :: lru_state) s'. in_dram (body s (demo_dram 0)) \<and> \<not> in_dram (body s (demo_nvm 0)) \<and> lru_kswapd host_kernel quiet_flags s = Some s' \<and>
     \<not> in_dram (body s' (demo_dram 0)) \<and> in_dram (body s' (demo_nvm 0))"
proof -
  let ?F = "demo_dram ` {..<1} \<union> demo_nvm ` {..<frame_count 0x400000}"
  have n: "demo_nvm ` {1..<frame_count 0x400000} = {demo_nvm 1}"
  proof -
    have "{1..<2} = {1 :: nat}" by auto
    then show ?thesis by (simp add: demo_sizes)
  qed
  obtain s :: lru_state and Q where s: "lru_inv ?F {} Q s" "placed ?F s" "Q INACTIVE = [demo_dram 0]" "Q NVM_ACTIVE = [demo_nvm 0]"
    "Q NVM_WRITTEN = []" "Q LRU_DRAM_FREE = []" "set (Q LRU_NVM_FREE) = {demo_nvm 1}" using demo_ready [of "0x400000"] unfolding n by blast
  have f: "Q LRU_NVM_FREE = [demo_nvm 1]" by (rule single_list [OF dll_repD(1) [OF lru_invD(1) [OF s(1)]] s(7)])
  let ?Q = "Q(NVM_ACTIVE := [], INACTIVE := [], NVM_INACTIVE := demo_dram 0 # Q NVM_INACTIVE, ACTIVE := demo_nvm 0 # Q ACTIVE,
      LRU_NVM_FREE := [demo_nvm 1])"
  have mb: "(0 :: u64) < KSWAPD_MIGRATE_RATE" by (simp add: KSWAPD_MIGRATE_RATE_def)
  have h: "next_hot Q = Some (False, demo_nvm 0, Q(NVM_ACTIVE := []))" "next_hot ?Q = None" using s(4,5) by (simp_all add: next_hot_def)
  have "swap_lists False (demo_nvm 0) (Q(NVM_ACTIVE := [])) = Some (False, HUGEPAGE_SIZE, ?Q)" using s f by (simp add: swap_lists_def)
  then have "swap_pass 0 Q = swap_pass HUGEPAGE_SIZE ?Q" by (subst swap_pass.simps) (simp add: mb h)
  also have "\<dots> = Some ?Q" by (subst swap_pass.simps) (simp add: h del: One_nat_def)
  finally have "swap_pass 0 Q = Some ?Q" .
  with lru_swap_refines [OF s(1) host_kernel_ok host_kernel_live _ s(2), of quiet_flags] obtain s' where
    s': "lru_kswapd host_kernel quiet_flags s = Some s'" "lru_inv ?F {} ?Q s'" by auto
  then show ?thesis using lru_invD(5) [OF s(1), of "demo_dram 0" INACTIVE] lru_invD(5) [OF s(1), of "demo_nvm 0" NVM_ACTIVE]
      lru_invD(5) [OF s'(2), of "demo_dram 0" NVM_INACTIVE] lru_invD(5) [OF s'(2), of "demo_nvm 0" ACTIVE] s
    by (auto simp: page_fits_list_def)
qed

text \<open>
  C29: With a full machine the swap thread fails: no free page in either tier, an inactive fast
  page and a hot slow page make the pass of the thread end without a result, at assert(np !=
  NULL), whatever the kernel answers, so a full machine cannot exchange pages.
\<close>

lemma lru_swap_aborts:
  assumes "lru_inv F {} Q s" "kernel_ok K" "Q LRU_DRAM_FREE = []" "Q LRU_NVM_FREE = []" "Q INACTIVE \<noteq> []"
    "Q NVM_WRITTEN \<noteq> [] \<or> Q NVM_ACTIVE \<noteq> []"
  shows "lru_kswapd K G s = None"
proof -
  have "(0 :: u64) < KSWAPD_MIGRATE_RATE" by (simp add: KSWAPD_MIGRATE_RATE_def)
  then have "swap_pass 0 Q = None"
    by (subst swap_pass.simps) (use assms(3-6) in \<open>auto simp: next_hot_def swap_lists_def\<close>)
  then show ?thesis using swap_loop_ok [OF assms(1,2), of G 0] by (cases "swap_loop K G 0 s") (auto simp: lru_kswapd_def)
qed

lemma lru_swap_aborts_witness:
  "\<exists>(s :: lru_state) Q. lru_inv (demo_dram ` {..<1} \<union> demo_nvm ` {..<frame_count 0x200000}) {} Q s \<and> lru_kswapd host_kernel quiet_flags s = None"
proof -
  let ?F = "demo_dram ` {..<1} \<union> demo_nvm ` {..<frame_count 0x200000}"
  have n: "demo_nvm ` {1..<frame_count 0x200000} = {}" by (simp add: demo_sizes)
  obtain s :: lru_state and Q where s: "lru_inv ?F {} Q s" "Q INACTIVE = [demo_dram 0]" "Q NVM_ACTIVE = [demo_nvm 0]"
    "Q LRU_DRAM_FREE = []" "Q LRU_NVM_FREE = []" using demo_ready [of "0x200000"] unfolding n by auto
  have "lru_kswapd host_kernel quiet_flags s = None" by (rule lru_swap_aborts [OF s(1) host_kernel_ok s(4,5)]) (simp_all add: s(2,3))
  then show ?thesis using s(1) by blast
qed

end
