(* ===== verification/Mmgr.thy ===== *)
theory Mmgr
  imports Lru_System
begin

text \<open>
  The memory manager with cooling and thawing, \<open>src/policies/hemem-mmgr.c\<close>. A node stands for a frame
  and points to the page that has it; when a page moves, the page descriptors of two nodes are
  exchanged. The nodes of a tier are free, active or inactive; \<open>cool\<close> and \<open>thaw\<close> move nodes between
  the active and the inactive list by the accessed bit, \<open>move_hot\<close> and \<open>move_cold\<close> move pages between
  the tiers by way of a local list. Node and page addresses are kept apart: the fields of a node and
  the field \<open>management\<close> of a page are maps of their own.
\<close>

section \<open>The lists of nodes\<close>

definition mmgr_list_add :: "'l dll \<Rightarrow> 'l \<Rightarrow> addr \<Rightarrow> 'l dll option" where
  "mmgr_list_add s list node = do {
     assert_that (node \<noteq> NULL);
     assert_that (d_prev s node = NULL);
     let s = s\<lparr>d_next := (d_next s)(node := l_first s list)\<rparr>;
     s \<leftarrow> (if l_first s list \<noteq> NULL then do {
             assert_that (d_prev s (l_first s list) = NULL);
             Some (s\<lparr>d_prev := (d_prev s)(l_first s list := node)\<rparr>)
           } else do {
             assert_that (l_last s list = NULL);
             assert_that (l_num s list = 0);
             Some (s\<lparr>l_last := (l_last s)(list := node)\<rparr>)
           });
     let s = s\<lparr>l_first := (l_first s)(list := node)\<rparr>;
     let s = s\<lparr>d_list := (d_list s)(node := Some list)\<rparr>;
     Some (s\<lparr>l_num := (l_num s)(list := l_num s list + 1)\<rparr>)
   }"

definition mmgr_list_remove :: "'l dll \<Rightarrow> 'l \<Rightarrow> (addr \<times> 'l dll) option" where
  "mmgr_list_remove s list = (
     let ret = l_last s list in
     if ret = NULL then do {
       assert_that (l_num s list = 0);
       Some (ret, s)
     } else do {
       let s = s\<lparr>l_last := (l_last s)(list := d_prev s ret)\<rparr>;
       let s = (if l_last s list \<noteq> NULL
                then s\<lparr>d_next := (d_next s)(l_last s list := NULL)\<rparr>
                else s\<lparr>l_first := (l_first s)(list := NULL)\<rparr>);
       let s = s\<lparr>d_prev := (d_prev s)(ret := NULL), d_next := (d_next s)(ret := NULL)\<rparr>;
       let s = s\<lparr>d_list := (d_list s)(ret := None)\<rparr>;
       assert_that (l_num s list > 0);
       Some (ret, s\<lparr>l_num := (l_num s)(list := l_num s list - 1)\<rparr>)
     })"

definition mmgr_list_peek :: "'l dll \<Rightarrow> 'l \<Rightarrow> addr" where
  "mmgr_list_peek s list = l_last s list"

definition mmgr_list_remove_node :: "'l dll \<Rightarrow> 'l \<Rightarrow> addr \<Rightarrow> 'l dll option" where
  "mmgr_list_remove_node s list node =
     (if l_first s list = NULL then do {
        assert_that (l_last s list = NULL);
        assert_that (l_num s list = 0);
        Some s
      } else do {
        let s = (if l_first s list = node then s\<lparr>l_first := (l_first s)(list := d_next s node)\<rparr> else s);
        let s = (if l_last s list = node then s\<lparr>l_last := (l_last s)(list := d_prev s node)\<rparr> else s);
        let s = (if d_next s node \<noteq> NULL
                 then s\<lparr>d_prev := (d_prev s)(d_next s node := d_prev s node)\<rparr> else s);
        let s = (if d_prev s node \<noteq> NULL
                 then s\<lparr>d_next := (d_next s)(d_prev s node := d_next s node)\<rparr> else s);
        let s = s\<lparr>l_num := (l_num s)(list := l_num s list - 1)\<rparr>;
        let s = s\<lparr>d_next := (d_next s)(node := NULL)\<rparr>;
        let s = s\<lparr>d_prev := (d_prev s)(node := NULL)\<rparr>;
        Some (s\<lparr>d_list := (d_list s)(node := None)\<rparr>)
      })"

text \<open>They keep the contract of the queues.\<close>

lemma mmgr_list_add_eq: "mmgr_list_add = enqueue_fifo"
  by (intro ext) (simp add: mmgr_list_add_def enqueue_fifo_def)

lemma mmgr_list_remove_eq: "dll_rep s Q \<Longrightarrow> mmgr_list_remove s l = dequeue_fifo s l"
  using dll_rep_last_neq_NULL [of s Q l]
  by (auto simp: mmgr_list_remove_def dequeue_fifo_def Let_def dll_repD(5,6) abort_simps)

lemma mmgr_list_remove_node_eq:
  assumes "dll_rep s Q" "x \<in> set (Q l)"
  shows "mmgr_list_remove_node s l x = page_list_remove_page s l x"
proof -
  have "Q l \<noteq> []" "x \<noteq> NULL" using assms dll_repD(2) [OF assms(1), of l] by auto
  then show ?thesis using dll_rep_num_pos [OF assms(1)]
    by (simp add: mmgr_list_remove_node_def page_list_remove_page_def Let_def abort_simps)
qed

interpretation mmgrq: fifo_store dll_rep mmgr_list_add mmgr_list_remove mmgr_list_remove_node
proof unfold_locales
  show "\<exists>s'. mmgr_list_add s l x = Some s' \<and> dll_rep s' (Q(l := x # Q l))"
    if "dll_rep s Q" "x \<noteq> NULL" "\<And>k. x \<notin> set (Q k)" for s :: "'l dll" and Q x and l :: 'l
    unfolding mmgr_list_add_eq by (rule pageq.enq_rep [OF that])
  show "mmgr_list_remove s l = Some (NULL, s)" if "dll_rep s Q" "Q l = []" for s :: "'l dll" and Q and l :: 'l
    unfolding mmgr_list_remove_eq [OF that(1)] by (rule pageq.deq_empty [OF that])
  show "\<exists>s'. mmgr_list_remove s l = Some (last (Q l), s') \<and> dll_rep s' (Q(l := butlast (Q l)))"
    if "dll_rep s Q" "Q l \<noteq> []" for s :: "'l dll" and Q and l :: 'l
    unfolding mmgr_list_remove_eq [OF that(1)] by (rule pageq.deq_rep [OF that])
  show "\<exists>s'. mmgr_list_remove_node s l x = Some s' \<and> dll_rep s' (Q(l := remove1 x (Q l)))"
    if "dll_rep s Q" "x \<in> set (Q l)" for s :: "'l dll" and Q x and l :: 'l
    unfolding mmgr_list_remove_node_eq [OF that] by (rule pageq.del_rep [OF that])
qed (auto intro: pageq.rep_disjoint pageq.rep_distinct dest: pageq.rep_nonnull)

section \<open>The state\<close>

datatype mmgr_list = MEM_FREE memtypes pagetypes | MEM_ACTIVE memtypes pagetypes | MEM_INACTIVE memtypes pagetypes | TRANSITION pagetypes

record mmgr_state = arms_state +
  m_links :: "mmgr_list dll"
  n_page :: "addr \<Rightarrow> addr"
  n_offset :: "addr \<Rightarrow> u64"
  n_accesses :: "addr \<Rightarrow> u64"
  n_tot_accesses :: "addr \<Rightarrow> u64"
  management :: "addr \<Rightarrow> addr"
  fastmem_freebytes :: u64
  slowmem_freebytes :: u64

definition ARMS_FASTFREE :: "'a arms_state_scheme \<Rightarrow> u64" where "ARMS_FASTFREE s = dramsize s div 10"
definition ARMS_COOL_RATE :: u64 where "ARMS_COOL_RATE = 10 * 1024 * 1024 * 1024"
definition ARMS_THAW_RATE :: "'a arms_state_scheme \<Rightarrow> u64" where "ARMS_THAW_RATE s = nvmsize s + dramsize s"

definition node_add :: "mmgr_list \<Rightarrow> addr \<Rightarrow> 'a mmgr_state_scheme \<Rightarrow> 'a mmgr_state_scheme option" where
  "node_add l n s = do {
     lk \<leftarrow> mmgr_list_add (m_links s) l n;
     Some (s\<lparr>m_links := lk\<rparr>)
   }"

definition node_remove :: "mmgr_list \<Rightarrow> 'a mmgr_state_scheme \<Rightarrow> (addr \<times> 'a mmgr_state_scheme) option" where
  "node_remove l s = do {
     (n, lk) \<leftarrow> mmgr_list_remove (m_links s) l;
     Some (n, s\<lparr>m_links := lk\<rparr>)
   }"

text \<open>The local array \<open>transition\<close> is set to zero at the start of a pass.\<close>

definition clear_transition :: "'a mmgr_state_scheme \<Rightarrow> 'a mmgr_state_scheme" where
  "clear_transition s = s\<lparr>m_links := (m_links s)\<lparr>
     l_first := (\<lambda>l. case l of TRANSITION _ \<Rightarrow> NULL | _ \<Rightarrow> l_first (m_links s) l),
     l_last := (\<lambda>l. case l of TRANSITION _ \<Rightarrow> NULL | _ \<Rightarrow> l_last (m_links s) l),
     l_num := (\<lambda>l. case l of TRANSITION _ \<Rightarrow> 0 | _ \<Rightarrow> l_num (m_links s) l)\<rparr>\<rparr>"

section \<open>Moving pages\<close>

text \<open>A node is put on the local list, and its page is marked and protected.\<close>

definition start_move :: "kernel \<Rightarrow> addr \<Rightarrow> 'a mmgr_state_scheme \<Rightarrow> 'a mmgr_state_scheme option" where
  "start_move K n s = do {
     s \<leftarrow> node_add (TRANSITION HUGEP) n s;
     let s = upd_page (n_page s n) (\<lambda>x. x\<lparr>migrating := True\<rparr>) s;
     arms_wp_page K s (n_page s n) True
   }"

text \<open>The page of the node \<open>n\<close> gets the frame of the node \<open>nn\<close>: the two nodes exchange their pages.\<close>

definition swap_nodes :: "addr \<Rightarrow> addr \<Rightarrow> bool \<Rightarrow> 'a mmgr_state_scheme \<Rightarrow> 'a mmgr_state_scheme option" where
  "swap_nodes n nn dram s = do {
     let tmp = n_page s nn;
     let s = s\<lparr>n_page := (n_page s)(nn := n_page s n)\<rparr>;
     let s = s\<lparr>management := (management s)(n_page s nn := nn)\<rparr>;
     let s = s\<lparr>n_page := (n_page s)(n := tmp)\<rparr>;
     let s = s\<lparr>management := (management s)(n_page s n := n)\<rparr>;
     let s = upd_page (n_page s n) (\<lambda>x. x\<lparr>present := False, in_dram := dram, devdax_offset := n_offset s n\<rparr>) s;
     assert_that (devdax_offset (body s (n_page s n)) = n_offset s n);
     assert_that (devdax_offset (body s (n_page s nn)) = n_offset s nn);
     Some (upd_page (n_page s nn) (\<lambda>x. x\<lparr>migrating := False\<rparr>) s)
   }"

partial_function (option) hot_collect :: "kernel \<Rightarrow> u64 \<Rightarrow> 'a mmgr_state_scheme \<Rightarrow> (u64 \<times> 'a mmgr_state_scheme) option" where
  "hot_collect K transition_bytes s =
     (if \<not> transition_bytes + pt_to_pagesize HUGEP < fastmem_freebytes s then Some (transition_bytes, s)
      else do {
        (n, s) \<leftarrow> node_remove (MEM_ACTIVE SLOWMEM HUGEP) s;
        (if n = NULL then Some (transition_bytes, s)
         else do {
           s \<leftarrow> start_move K n s;
           hot_collect K (transition_bytes + pt_to_pagesize HUGEP) s
         })
      })"

definition hot_one :: "kernel \<Rightarrow> addr \<Rightarrow> 'a mmgr_state_scheme \<Rightarrow> 'a mmgr_state_scheme option" where
  "hot_one K n s = do {
     (nn, s) \<leftarrow> node_remove (MEM_FREE FASTMEM HUGEP) s;
     let s = s\<lparr>fastmem_freebytes := fastmem_freebytes s - pt_to_pagesize HUGEP\<rparr>;
     let s = s\<lparr>slowmem_freebytes := slowmem_freebytes s + pt_to_pagesize HUGEP\<rparr>;
     assert_that (nn \<noteq> NULL);
     s \<leftarrow> arms_migrate_up K s (n_page s n) (n_offset s nn);
     s \<leftarrow> node_add (MEM_ACTIVE FASTMEM HUGEP) nn s;
     s \<leftarrow> node_add (MEM_FREE SLOWMEM HUGEP) n s;
     swap_nodes n nn False s
   }"

partial_function (option) hot_move :: "kernel \<Rightarrow> 'a mmgr_state_scheme \<Rightarrow> 'a mmgr_state_scheme option" where
  "hot_move K s = do {
     (n, s) \<leftarrow> node_remove (TRANSITION HUGEP) s;
     (if n = NULL then Some s
      else do {
        s \<leftarrow> hot_one K n s;
        hot_move K s
      })
   }"

definition move_hot :: "kernel \<Rightarrow> flag_kernel \<Rightarrow> 'a mmgr_state_scheme \<Rightarrow> 'a mmgr_state_scheme option" where
  "move_hot K G s = do {
     let s = clear_transition s;
     (transition_bytes, s) \<leftarrow> hot_collect K 0 s;
     (if transition_bytes = 0 then Some s
      else do {
        s \<leftarrow> arms_tlb_shootdown G 0 s;
        hot_move K s
      })
   }"

text \<open>The result is the number of bytes, and whether enough of them were found.\<close>

partial_function (option) cold_collect :: "kernel \<Rightarrow> mmgr_list \<Rightarrow> u64 \<Rightarrow> 'a mmgr_state_scheme \<Rightarrow> (u64 \<times> 'a mmgr_state_scheme) option" where
  "cold_collect K l transition_bytes s = do {
     (n, s) \<leftarrow> node_remove l s;
     (if n = NULL then Some (transition_bytes, s)
      else do {
        s \<leftarrow> start_move K n s;
        let transition_bytes = transition_bytes + pt_to_pagesize HUGEP;
        (if fastmem_freebytes s + transition_bytes \<ge> ARMS_FASTFREE s then Some (transition_bytes, s)
         else cold_collect K l transition_bytes s)
      })
   }"

definition cold_one :: "kernel \<Rightarrow> addr \<Rightarrow> 'a mmgr_state_scheme \<Rightarrow> 'a mmgr_state_scheme option" where
  "cold_one K n s = do {
     (nn, s) \<leftarrow> node_remove (MEM_FREE SLOWMEM HUGEP) s;
     assert_that (nn \<noteq> NULL);
     assert_that (\<not> present (body s (n_page s nn)));
     let s = s\<lparr>slowmem_freebytes := slowmem_freebytes s - pt_to_pagesize HUGEP\<rparr>;
     let s = s\<lparr>fastmem_freebytes := fastmem_freebytes s + pt_to_pagesize HUGEP\<rparr>;
     s \<leftarrow> arms_migrate_down K s (n_page s n) (n_offset s nn);
     s \<leftarrow> node_add (MEM_INACTIVE SLOWMEM HUGEP) nn s;
     s \<leftarrow> node_add (MEM_FREE FASTMEM HUGEP) n s;
     swap_nodes n nn True s
   }"

partial_function (option) cold_move :: "kernel \<Rightarrow> 'a mmgr_state_scheme \<Rightarrow> 'a mmgr_state_scheme option" where
  "cold_move K s = do {
     (n, s) \<leftarrow> node_remove (TRANSITION HUGEP) s;
     (if n = NULL then Some s
      else do {
        s \<leftarrow> cold_one K n s;
        cold_move K s
      })
   }"

definition move_cold :: "kernel \<Rightarrow> flag_kernel \<Rightarrow> 'a mmgr_state_scheme \<Rightarrow> 'a mmgr_state_scheme option" where
  "move_cold K G s = do {
     let s = clear_transition s;
     (transition_bytes, s) \<leftarrow> cold_collect K (MEM_INACTIVE FASTMEM HUGEP) 0 s;
     (if transition_bytes = 0 \<and> \<not> fastmem_freebytes s \<le> ARMS_FASTFREE s then Some s
      else do {
        (transition_bytes, s) \<leftarrow> (if transition_bytes = 0
           then cold_collect K (MEM_ACTIVE FASTMEM HUGEP) transition_bytes s
           else Some (transition_bytes, s));
        s \<leftarrow> arms_tlb_shootdown G 0 s;
        cold_move K s
      })
   }"

section \<open>Cooling and thawing\<close>

text \<open>
  One visit of a list: its oldest node is looked at, unless it is the first node that was put back in this
  sweep. The bookmarks are the first nodes put back, per tier; \<open>sweeped\<close> counts the bytes.
\<close>

definition set_bookmark :: "memtypes \<Rightarrow> addr \<Rightarrow> (memtypes \<Rightarrow> addr) \<Rightarrow> memtypes \<Rightarrow> addr" where
  "set_bookmark mt n bookmark = (if bookmark mt = NULL then bookmark(mt := n) else bookmark)"

definition cool_visit :: "flag_kernel \<Rightarrow> memtypes \<Rightarrow> (memtypes \<Rightarrow> addr) \<Rightarrow> u64 \<Rightarrow> 'a mmgr_state_scheme \<Rightarrow>
    ((memtypes \<Rightarrow> addr) \<times> u64 \<times> 'a mmgr_state_scheme) option" where
  "cool_visit G mt bookmark sweeped s =
     (let n = mmgr_list_peek (m_links s) (MEM_ACTIVE mt HUGEP) in
      if n = NULL \<or> bookmark mt = n then Some (bookmark, sweeped, s)
      else do {
        (n, s) \<leftarrow> node_remove (MEM_ACTIVE mt HUGEP) s;
        bits \<leftarrow> arms_get_bits G s (n_page s n);
        (bookmark, s) \<leftarrow> (if bits = ARMS_ACCESSED_FLAG then do {
             s \<leftarrow> arms_clear_bits G (va (body s (n_page s n))) s;
             s \<leftarrow> node_add (MEM_ACTIVE mt HUGEP) n s;
             Some (set_bookmark mt n bookmark, s)
           } else do {
             s \<leftarrow> node_add (MEM_INACTIVE mt HUGEP) n s;
             Some (bookmark, s)
           });
        Some (bookmark, sweeped + pt_to_pagesize HUGEP, s)
      })"

definition thaw_visit :: "flag_kernel \<Rightarrow> memtypes \<Rightarrow> (memtypes \<Rightarrow> addr) \<Rightarrow> u64 \<Rightarrow> 'a mmgr_state_scheme \<Rightarrow>
    ((memtypes \<Rightarrow> addr) \<times> u64 \<times> 'a mmgr_state_scheme) option" where
  "thaw_visit G mt bookmark sweeped s =
     (let n = mmgr_list_peek (m_links s) (MEM_INACTIVE mt HUGEP) in
      if n = NULL \<or> bookmark mt = n then Some (bookmark, sweeped, s)
      else do {
        (n, s) \<leftarrow> node_remove (MEM_INACTIVE mt HUGEP) s;
        bits \<leftarrow> arms_get_bits G s (n_page s n);
        (recirculated, s) \<leftarrow> (if bits = ARMS_ACCESSED_FLAG then do {
             let s = s\<lparr>n_tot_accesses := (n_tot_accesses s)(n := n_tot_accesses s n + 1)\<rparr>;
             (if n_accesses s n \<ge> 2 then do {
                let s = s\<lparr>n_accesses := (n_accesses s)(n := 0)\<rparr>;
                s \<leftarrow> arms_clear_bits G (va (body s (n_page s n))) s;
                s \<leftarrow> node_add (MEM_ACTIVE mt HUGEP) n s;
                Some (False, s)
              } else do {
                let s = s\<lparr>n_accesses := (n_accesses s)(n := n_accesses s n + 1)\<rparr>;
                s \<leftarrow> arms_clear_bits G (va (body s (n_page s n))) s;
                s \<leftarrow> node_add (MEM_INACTIVE mt HUGEP) n s;
                Some (True, s)
              })
           } else do {
             s \<leftarrow> node_add (MEM_INACTIVE mt HUGEP) n s;
             Some (True, s)
           });
        let bookmark = (if recirculated then set_bookmark mt n bookmark else bookmark);
        Some (bookmark, sweeped + pt_to_pagesize HUGEP, s)
      })"

text \<open>The sweep alternates between the tiers until its rate is reached or a round makes no progress.\<close>

partial_function (option) sweep :: "(memtypes \<Rightarrow> (memtypes \<Rightarrow> addr) \<Rightarrow> u64 \<Rightarrow> 'a mmgr_state_scheme \<Rightarrow>
      ((memtypes \<Rightarrow> addr) \<times> u64 \<times> 'a mmgr_state_scheme) option) \<Rightarrow>
    u64 \<Rightarrow> (memtypes \<Rightarrow> addr) \<Rightarrow> u64 \<Rightarrow> 'a mmgr_state_scheme \<Rightarrow> 'a mmgr_state_scheme option" where
  "sweep visit rate bookmark sweeped s =
     (if \<not> sweeped < rate then Some s
      else do {
        let oldsweeped = sweeped;
        (bookmark, sweeped, s) \<leftarrow> visit FASTMEM bookmark sweeped s;
        (bookmark, sweeped, s) \<leftarrow> visit SLOWMEM bookmark sweeped s;
        (if sweeped = oldsweeped then Some s else sweep visit rate bookmark sweeped s)
      })"

definition cool :: "flag_kernel \<Rightarrow> 'a mmgr_state_scheme \<Rightarrow> 'a mmgr_state_scheme option" where
  "cool G s = sweep (cool_visit G) ARMS_COOL_RATE (\<lambda>_. NULL) 0 s"

definition thaw :: "flag_kernel \<Rightarrow> 'a mmgr_state_scheme \<Rightarrow> 'a mmgr_state_scheme option" where
  "thaw G s = sweep (thaw_visit G) (ARMS_THAW_RATE s) (\<lambda>_. NULL) 0 s"

text \<open>One turn of the thread, under the global lock.\<close>

definition mmgr_thread :: "kernel \<Rightarrow> flag_kernel \<Rightarrow> 'a mmgr_state_scheme \<Rightarrow> 'a mmgr_state_scheme option" where
  "mmgr_thread K G s = do {
     s \<leftarrow> cool G s;
     s \<leftarrow> thaw G s;
     s \<leftarrow> arms_tlb_shootdown G 0 s;
     s \<leftarrow> (if fastmem_freebytes s < ARMS_FASTFREE s then move_cold K G s else Some s);
     s \<leftarrow> (if fastmem_freebytes s > 0 then move_hot K G s else Some s);
     arms_tlb_shootdown G 0 s
   }"

section \<open>Faults, removals, initialisation\<close>

text \<open>The tail that both tiers share: the page is handed out as an active one.\<close>

definition mmgr_hand_out :: "memtypes \<Rightarrow> addr \<Rightarrow> 'a mmgr_state_scheme \<Rightarrow> (addr \<times> 'a mmgr_state_scheme) option" where
  "mmgr_hand_out mt node s = do {
     assert_that (in_dram (body s (n_page s node)) = (mt = FASTMEM));
     assert_that (\<not> present (body s (n_page s node)));
     assert_that (pt (body s (n_page s node)) = HUGEP);
     let s = upd_page (n_page s node) (\<lambda>x. x\<lparr>present := True\<rparr>) s;
     s \<leftarrow> node_add (MEM_ACTIVE mt HUGEP) node s;
     let s = (if mt = FASTMEM then s\<lparr>fastmem_freebytes := fastmem_freebytes s - pt_to_pagesize HUGEP\<rparr>
              else s\<lparr>slowmem_freebytes := slowmem_freebytes s - pt_to_pagesize HUGEP\<rparr>);
     Some (n_page s node, s\<lparr>management := (management s)(n_page s node := node)\<rparr>)
   }"

definition mmgr_allocate_page :: "'a mmgr_state_scheme \<Rightarrow> (addr \<times> 'a mmgr_state_scheme) option" where
  "mmgr_allocate_page s = do {
     (node, s) \<leftarrow> node_remove (MEM_FREE FASTMEM HUGEP) s;
     (if node \<noteq> NULL then mmgr_hand_out FASTMEM node s
      else do {
        (node, s) \<leftarrow> node_remove (MEM_FREE SLOWMEM HUGEP) s;
        assert_that (node \<noteq> NULL);
        mmgr_hand_out SLOWMEM node s
      })
   }"

definition arms_mmgr_pagefault :: "'a mmgr_state_scheme \<Rightarrow> (addr \<times> 'a mmgr_state_scheme) option" where
  "arms_mmgr_pagefault s = do {
     (page, s) \<leftarrow> mmgr_allocate_page s;
     assert_that (page \<noteq> NULL);
     Some (page, s)
   }"

definition arms_mmgr_pagefault_unlocked :: "'a mmgr_state_scheme \<Rightarrow> (addr \<times> 'a mmgr_state_scheme) option" where
  "arms_mmgr_pagefault_unlocked s = do {
     (page, s) \<leftarrow> mmgr_allocate_page s;
     assert_that (page \<noteq> NULL);
     Some (page, s)
   }"

definition arms_mmgr_remove_page :: "'a mmgr_state_scheme \<Rightarrow> addr \<Rightarrow> 'a mmgr_state_scheme option" where
  "arms_mmgr_remove_page s page = do {
     assert_that (page \<noteq> NULL);
     let node = management s page;
     assert_that (node \<noteq> NULL);
     list \<leftarrow> d_list (m_links s) node;
     lk \<leftarrow> mmgr_list_remove_node (m_links s) list node;
     let s = upd_page page (\<lambda>x. x\<lparr>present := False\<rparr>) (s\<lparr>m_links := lk\<rparr>);
     (if in_dram (body s page) then node_add (MEM_FREE FASTMEM (pt (body s page))) node s
      else node_add (MEM_FREE SLOWMEM (pt (body s page))) node s)
   }"

text \<open>\<open>node_alloc\<close> and \<open>page_alloc\<close> (and \<open>dn\<close>, \<open>dp\<close>, \<open>nn\<close>, \<open>np\<close>) are the addresses that \<open>calloc\<close> returns.\<close>

fun init_nodes :: "(nat \<Rightarrow> addr) \<Rightarrow> (nat \<Rightarrow> addr) \<Rightarrow> memtypes \<Rightarrow> nat \<Rightarrow> nat \<Rightarrow> 'a mmgr_state_scheme \<Rightarrow> 'a mmgr_state_scheme option" where
  "init_nodes node_alloc page_alloc mt i 0 s = Some s"
| "init_nodes node_alloc page_alloc mt i (Suc k) s = do {
     let n = node_alloc i;
     let p = page_alloc i;
     let s = s\<lparr>n_accesses := (n_accesses s)(n := 0), n_tot_accesses := (n_tot_accesses s)(n := 0)\<rparr>;
     let s = s\<lparr>n_offset := (n_offset s)(n := of_nat i * HUGEPAGE_SIZE)\<rparr>;
     t \<leftarrow> pagesize_to_pt HUGEPAGE_SIZE;
     let s = upd_page p (\<lambda>_. zero_page\<lparr>devdax_offset := of_nat i * HUGEPAGE_SIZE, present := False,
                               in_dram := (mt = FASTMEM), pt := t\<rparr>) s;
     let s = s\<lparr>n_page := (n_page s)(n := p)\<rparr>;
     let s = s\<lparr>management := (management s)(p := n)\<rparr>;
     s \<leftarrow> node_add (MEM_FREE mt HUGEP) n s;
     init_nodes node_alloc page_alloc mt (Suc i) k s
   }"

definition arms_mmgr_init :: "(nat \<Rightarrow> addr) \<Rightarrow> (nat \<Rightarrow> addr) \<Rightarrow> (nat \<Rightarrow> addr) \<Rightarrow> (nat \<Rightarrow> addr) \<Rightarrow>
    'a mmgr_state_scheme \<Rightarrow> 'a mmgr_state_scheme option" where
  "arms_mmgr_init dn dp nn np s = do {
     let s = s\<lparr>fastmem_freebytes := dramsize s, slowmem_freebytes := nvmsize s, m_links := dll_empty\<rparr>;
     s \<leftarrow> init_nodes dn dp FASTMEM 0 (unat (dramsize s div HUGEPAGE_SIZE)) s;
     init_nodes nn np SLOWMEM 0 (unat (nvmsize s div HUGEPAGE_SIZE)) s
   }"

end
