(* ===== verification/Mmgr_Inv.thy ===== *)
theory Mmgr_Inv
  imports Mmgr
begin

text \<open>
  The invariant of the memory manager: the nodes are shared out to the lists, node and page point to each
  other, the page of a node has the frame of the node, and the list of a node says the tier of the frame and
  whether it is in use.
\<close>

section \<open>The invariant\<close>

abbreviation npage :: "'a mmgr_state_scheme \<Rightarrow> addr \<Rightarrow> arms_page" where
  "npage s n \<equiv> body s (n_page s n)"

fun fits_list :: "mmgr_list \<Rightarrow> arms_page \<Rightarrow> bool" where
  "fits_list (MEM_FREE mt HUGEP) x = (in_dram x = (mt = FASTMEM) \<and> \<not> present x)"
| "fits_list (MEM_ACTIVE mt HUGEP) x = (in_dram x = (mt = FASTMEM) \<and> present x)"
| "fits_list (MEM_INACTIVE mt HUGEP) x = (in_dram x = (mt = FASTMEM) \<and> present x)"
| "fits_list (TRANSITION HUGEP) x = present x"
| "fits_list _ x = False"

definition nodes_ok :: "addr set \<Rightarrow> 'a mmgr_state_scheme \<Rightarrow> bool" where
  "nodes_ok F s \<longleftrightarrow> frames_ok (n_page s ` F) s \<and> inj_on (n_page s) F \<and>
     (\<forall>n\<in>F. management s (n_page s n) = n \<and> devdax_offset (npage s n) = n_offset s n \<and> va (npage s n) mod HUGEPAGE_SIZE = 0)"

definition mm_inv :: "addr set \<Rightarrow> addr set \<Rightarrow> (mmgr_list \<Rightarrow> addr list) \<Rightarrow> 'a mmgr_state_scheme \<Rightarrow> bool" where
  "mm_inv F H Q s \<longleftrightarrow> dll_rep (m_links s) Q \<and> nodes_ok F s \<and> shares F H Q \<and> (\<forall>l. \<forall>n\<in>set (Q l). fits_list l (npage s n))"

lemma mm_invD:
  assumes "mm_inv F H Q s"
  shows "dll_rep (m_links s) Q" "nodes_ok F s" "shares F H Q" "n \<in> set (Q l) \<Longrightarrow> fits_list l (npage s n)"
    "n \<in> set (Q l) \<Longrightarrow> n \<in> F" "n \<in> H \<Longrightarrow> n \<in> F" "n \<in> H \<Longrightarrow> n \<notin> set (Q l)"
  using assms unfolding mm_inv_def shares_def by blast+

lemma nodes_okD:
  assumes "nodes_ok F s"
  shows "frames_ok (n_page s ` F) s" "inj_on (n_page s) F"
    "n \<in> F \<Longrightarrow> management s (n_page s n) = n" "n \<in> F \<Longrightarrow> devdax_offset (npage s n) = n_offset s n"
    "n \<in> F \<Longrightarrow> va (npage s n) mod HUGEPAGE_SIZE = 0" "n \<in> F \<Longrightarrow> n_page s n \<noteq> NULL" "n \<in> F \<Longrightarrow> pt (npage s n) = HUGEP"
  using assms by (auto simp: nodes_ok_def frames_ok_def frame_fits_def)

text \<open>What does not count for the invariant.\<close>

definition same_nodes :: "'a mmgr_state_scheme \<Rightarrow> 'a mmgr_state_scheme \<Rightarrow> bool" where
  "same_nodes s s' \<longleftrightarrow> body s' = body s \<and> n_page s' = n_page s \<and> n_offset s' = n_offset s \<and> management s' = management s \<and>
     dramsize s' = dramsize s \<and> nvmsize s' = nvmsize s"

lemma same_nodes_refl [simp]: "same_nodes s s" by (simp add: same_nodes_def)
lemma same_nodes_trans: "same_nodes s t \<Longrightarrow> same_nodes t u \<Longrightarrow> same_nodes s u" by (simp add: same_nodes_def)

lemma nodes_ok_same: "same_nodes s s' \<Longrightarrow> nodes_ok F s' = nodes_ok F s"
  using frames_ok_body [of s' s "n_page s ` F"] by (simp add: nodes_ok_def same_nodes_def)

lemma mm_inv_same:
  assumes "mm_inv F H Q s" "same_nodes s s'" "m_links s' = m_links s"
  shows "mm_inv F H Q s'"
  using assms nodes_ok_same [OF assms(2), of F] by (simp add: mm_inv_def same_nodes_def)

section \<open>Nodes are taken and put\<close>

lemma mm_take:
  assumes inv: "mm_inv F H Q s" and ne: "Q l \<noteq> []"
  shows "\<exists>lk. node_remove l s = Some (last (Q l), s\<lparr>m_links := lk\<rparr>) \<and>
    mm_inv F (insert (last (Q l)) H) (Q(l := butlast (Q l))) (s\<lparr>m_links := lk\<rparr>) \<and>
    last (Q l) \<noteq> NULL \<and> fits_list l (npage s (last (Q l))) \<and> last (Q l) \<in> F \<and> last (Q l) \<notin> H"
proof -
  note I = mm_invD [OF inv]
  obtain lk where lk: "dequeue_fifo (m_links s) l = Some (last (Q l), lk)" "dll_rep lk (Q(l := butlast (Q l)))" "last (Q l) \<noteq> NULL"
    "d_list lk (last (Q l)) = None"
    using dequeued_links [OF I(1) ne] by blast
  let ?s = "s\<lparr>m_links := lk\<rparr>"
  note T = shares_take [OF I(3,1) ne lk(2,4)]
  have "nodes_ok F ?s" using I(2) nodes_ok_same [of s ?s F] by (simp add: same_nodes_def)
  moreover have "fits_list k (npage ?s x)" if "x \<in> set ((Q(l := butlast (Q l))) k)" for x k using I(4) [OF T(4) [OF that]] by simp
  ultimately have "mm_inv F (insert (last (Q l)) H) (Q(l := butlast (Q l))) ?s" using lk(2) T(1) by (simp add: mm_inv_def)
  moreover have "node_remove l s = Some (last (Q l), ?s)" using lk(1) by (simp add: node_remove_def mmgr_list_remove_eq [OF I(1)])
  ultimately show ?thesis using lk(3) I(4) [of "last (Q l)" l] T(2,3) ne by auto
qed

lemma mm_take_empty: "mm_inv F H Q s \<Longrightarrow> Q l = [] \<Longrightarrow> node_remove l s = Some (NULL, s)"
  by (simp add: node_remove_def mmgrq.deq_empty [OF mm_invD(1)])

lemma mm_links_put:
  assumes rep: "dll_rep (m_links s) Q" and p: "p \<noteq> NULL" "\<And>k. p \<notin> set (Q k)"
  shows "\<exists>lk. node_add l p s = Some (s\<lparr>m_links := lk\<rparr>) \<and> dll_rep lk (Q(l := p # Q l))"
  using mmgrq.enq_rep [OF rep p, of l] by (auto simp: node_add_def)

lemma mm_put:
  assumes inv: "mm_inv F H Q s" and p: "p \<in> H" "p \<noteq> NULL" "fits_list l (npage s p)"
  shows "\<exists>lk. node_add l p s = Some (s\<lparr>m_links := lk\<rparr>) \<and> mm_inv F (H - {p}) (Q(l := p # Q l)) (s\<lparr>m_links := lk\<rparr>)"
proof -
  note I = mm_invD [OF inv] and P = shares_put [OF mm_invD(3) [OF inv] p(1)]
  obtain lk where lk: "node_add l p s = Some (s\<lparr>m_links := lk\<rparr>)" "dll_rep lk (Q(l := p # Q l))"
    using mm_links_put [OF I(1) p(2)] I(7) [OF p(1)] by blast
  let ?s = "s\<lparr>m_links := lk\<rparr>"
  have "nodes_ok F ?s" using I(2) nodes_ok_same [of s ?s F] by (simp add: same_nodes_def)
  moreover have "fits_list k (npage ?s x)" if "x \<in> set ((Q(l := p # Q l)) k)" for x k using that [unfolded P(2)] I(4) [of x k] p(3) by auto
  ultimately have "mm_inv F (H - {p}) (Q(l := p # Q l)) ?s" using lk(2) P(1) by (simp add: mm_inv_def)
  then show ?thesis using lk(1) by blast
qed

text \<open>The page of a held node may change, but not its frame.\<close>

lemma mm_held_page:
  assumes inv: "mm_inv F H Q s" and n: "n \<in> H"
    and f: "frame_of (f (npage s n)) = frame_of (npage s n)" "pt (f (npage s n)) = pt (npage s n)" "va (f (npage s n)) mod HUGEPAGE_SIZE = 0"
  shows "mm_inv F H Q (upd_page (n_page s n) f s)"
proof -
  note I = mm_invD [OF inv] and N = nodes_okD [OF mm_invD(2) [OF inv]]
  let ?s = "upd_page (n_page s n) f s"
  have nF: "n \<in> F" by (rule I(6) [OF n])
  have fl: "n_page ?s = n_page s" "management ?s = management s" "n_offset ?s = n_offset s" "m_links ?s = m_links s" by (simp_all add: upd_page_def)
  have np: "n_page s m = n_page s n \<longleftrightarrow> m = n" if "m \<in> F" for m using N(2) nF that by (auto dest: inj_onD)
  have b: "npage ?s m = (if m = n then f (npage s n) else npage s m)" if "m \<in> F" for m
    using np [OF that] by (simp add: fl)
  have "nodes_ok F ?s"
    unfolding nodes_ok_def
  proof (intro conjI ballI)
    show "frames_ok (n_page ?s ` F) ?s" unfolding fl using frames_ok_upd [of _ s f "n_page s n"] N(1) f(1,2) by simp
    show "inj_on (n_page ?s) F" unfolding fl by (rule N(2))
    fix m assume m: "m \<in> F"
    show "management ?s (n_page ?s m) = m" unfolding fl by (rule N(3) [OF m])
    have "devdax_offset (f (npage s n)) = n_offset s n" using f(1) N(4) [OF nF] by (simp add: frame_of_eq)
    then show "devdax_offset (npage ?s m) = n_offset ?s m" using N(4) [OF m] np [OF m] by (auto simp: fl)
    show "va (npage ?s m) mod HUGEPAGE_SIZE = 0" unfolding b [OF m] using N(5) [OF m] f(3) by simp
  qed
  moreover have "fits_list l (npage ?s m)" if m: "m \<in> set (Q l)" for m l
  proof -
    have "m \<noteq> n" using I(7) [OF n] m by blast
    then show ?thesis using b [OF I(5) [OF m]] I(4) [OF m] by simp
  qed
  ultimately show ?thesis using I(1,3) by (simp add: mm_inv_def fl)
qed

section \<open>Two nodes exchange their pages\<close>

lemma arms_migrate_fields:
  assumes run: "(if up then arms_migrate_up else arms_migrate_down) K s p off = Some s'" and K: "kernel_ok K"
  shows "body s' = (body s)(p := (body s p)\<lparr>devdax_offset := off, in_dram := up\<rparr>)" "dramsize s' = dramsize s" "nvmsize s' = nvmsize s"
    "arms_state.more s' = arms_state.more s"
  using run
  by (auto simp: arms_migrate_up_def arms_migrate_down_def migrate_up_copy_def migrate_down_copy_def migrate_up_remap_def migrate_down_remap_def
      bind_Some_iff Let_def fun_eq_iff dest!: kernel_ok_mmap [OF K] split: if_splits)

lemma mmgr_more:
  fixes s s' :: "'a mmgr_state_scheme"
  assumes "arms_state.more s' = arms_state.more s"
  shows "m_links s' = m_links s" "n_page s' = n_page s" "n_offset s' = n_offset s" "management s' = management s"
    "fastmem_freebytes s' = fastmem_freebytes s" "slowmem_freebytes s' = slowmem_freebytes s" "n_accesses s' = n_accesses s"
    "n_tot_accesses s' = n_tot_accesses s"
  using assms by (cases s; cases s'; simp)+

text \<open>The descriptor that the moved page gets, and the one of the page that takes the old frame.\<close>

definition moved_page :: "bool \<Rightarrow> u64 \<Rightarrow> arms_page \<Rightarrow> arms_page" where
  "moved_page up off x = x\<lparr>devdax_offset := off, in_dram := up, migrating := False\<rparr>"

definition left_page :: "bool \<Rightarrow> u64 \<Rightarrow> arms_page \<Rightarrow> arms_page" where
  "left_page up off x = x\<lparr>present := False, in_dram := \<not> up, devdax_offset := off\<rparr>"

lemma swap_nodes_run:
  assumes n: "n_page s n \<noteq> n_page s nn" "n \<noteq> nn"
    and s1: "body s1 = (body s)(n_page s n := (npage s n)\<lparr>devdax_offset := n_offset s nn, in_dram := up\<rparr>)"
      "n_page s1 = n_page s" "n_offset s1 = n_offset s" "management s1 = management s"
  shows "\<exists>s'. swap_nodes n nn (\<not> up) s1 = Some s' \<and>
    n_page s' = (n_page s)(nn := n_page s n, n := n_page s nn) \<and> n_offset s' = n_offset s \<and>
    management s' = (management s)(n_page s n := nn, n_page s nn := n) \<and>
    body s' = (body s)(n_page s nn := left_page up (n_offset s n) (npage s nn), n_page s n := moved_page up (n_offset s nn) (npage s n)) \<and>
    m_links s' = m_links s1 \<and> dramsize s' = dramsize s1 \<and> nvmsize s' = nvmsize s1 \<and>
    fastmem_freebytes s' = fastmem_freebytes s1 \<and> slowmem_freebytes s' = slowmem_freebytes s1 \<and> n_accesses s' = n_accesses s1"
  using n s1 by (auto simp: swap_nodes_def Let_def upd_page_def moved_page_def left_page_def fun_eq_iff)

lemma nodes_ok_swap:
  assumes ok: "nodes_ok F s" and n: "n \<in> F" "nn \<in> F" "n \<noteq> nn" "in_dram (npage s n) = (\<not> up)" "in_dram (npage s nn) = up"
    and s': "n_page s' = (n_page s)(nn := n_page s n, n := n_page s nn)" "n_offset s' = n_offset s"
      "management s' = (management s)(n_page s n := nn, n_page s nn := n)"
      "body s' = (body s)(n_page s nn := left_page up (n_offset s n) (npage s nn), n_page s n := moved_page up (n_offset s nn) (npage s n))"
      "dramsize s' = dramsize s" "nvmsize s' = nvmsize s"
  shows "nodes_ok F s'" "m \<in> F \<Longrightarrow> m \<notin> {n, nn} \<Longrightarrow> npage s' m = npage s m"
    "npage s' n = left_page up (n_offset s n) (npage s nn)" "npage s' nn = moved_page up (n_offset s nn) (npage s n)"
proof -
  note N = nodes_okD [OF ok]
  have ne: "n_page s n \<noteq> n_page s nn" using N(2) n(1-3) by (auto dest: inj_onD)
  have other: "n_page s m \<noteq> n_page s n" "n_page s m \<noteq> n_page s nn" if "m \<in> F" "m \<notin> {n, nn}" for m
    using N(2) n(1,2) that by (auto dest: inj_onD)
  show keep: "npage s' m = npage s m" if "m \<in> F" "m \<notin> {n, nn}" for m using other [OF that] that by (simp add: s'(1,4))
  show pn: "npage s' n = left_page up (n_offset s n) (npage s nn)" "npage s' nn = moved_page up (n_offset s nn) (npage s n)"
    using ne n(3) by (auto simp: s'(1,4))
  have im: "n_page s' ` F = n_page s ` F"
  proof -
    have "F = insert n (insert nn (F - {n, nn}))" using n(1,2) by blast
    then have "n_page s ` F = insert (n_page s n) (insert (n_page s nn) (n_page s ` (F - {n, nn})))"
      "n_page s' ` F = insert (n_page s' n) (insert (n_page s' nn) (n_page s' ` (F - {n, nn})))" by (metis image_insert)+
    moreover have "n_page s' ` (F - {n, nn}) = n_page s ` (F - {n, nn})" by (rule image_cong) (auto simp: s'(1))
    ultimately show ?thesis using n(3) by (simp add: s'(1) insert_commute)
  qed
  have fr: "frames_ok (n_page s ` F) s'"
  proof (rule frames_ok_exchange [OF N(1) ne])
    show "n_page s n \<in> n_page s ` F" "n_page s nn \<in> n_page s ` F" using n(1,2) by blast+
    show "frame_of (body s' x) = frame_of (body s (if x = n_page s n then n_page s nn else if x = n_page s nn then n_page s n else x))" for x
      using n(4,5) N(4) [OF n(1)] N(4) [OF n(2)] ne by (auto simp: s'(4) frame_of_eq left_page_def moved_page_def)
    show "pt (body s' x) = HUGEP" if "x \<in> n_page s ` F" for x
      using that N(7) n(1,2) by (auto simp: s'(4) left_page_def moved_page_def)
  qed (simp_all add: s'(5,6))
  show "nodes_ok F s'"
    unfolding nodes_ok_def
  proof (intro conjI ballI)
    show "frames_ok (n_page s' ` F) s'" unfolding im by (rule fr)
    show "inj_on (n_page s') F"
    proof (rule inj_onI)
      fix x y assume xy: "x \<in> F" "y \<in> F" "n_page s' x = n_page s' y"
      let ?r = "\<lambda>m. if m = n then nn else if m = nn then n else m"
      have "n_page s' m = n_page s (?r m)" for m using n(3) by (auto simp: s'(1))
      then have "n_page s (?r x) = n_page s (?r y)" using xy(3) by simp
      moreover have "?r x \<in> F" "?r y \<in> F" using xy(1,2) n(1,2) by simp_all
      ultimately have "?r x = ?r y" by (rule inj_onD [OF N(2)])
      then show "x = y" using n(3) by (auto split: if_splits)
    qed
    fix m assume m: "m \<in> F"
    show "management s' (n_page s' m) = m" using other [OF m] N(3) [OF m] ne n(3) by (cases "m = n"; cases "m = nn") (auto simp: s'(1,3))
    show "devdax_offset (npage s' m) = n_offset s' m"
      using keep [OF m] pn N(4) [OF m] by (cases "m = n"; cases "m = nn") (auto simp: s'(2) left_page_def moved_page_def)
    show "va (npage s' m) mod HUGEPAGE_SIZE = 0"
      using keep [OF m] pn N(5) [OF m] N(5) [OF n(1)] N(5) [OF n(2)] by (cases "m = n"; cases "m = nn") (auto simp: left_page_def moved_page_def)
  qed
qed

section \<open>One page moves\<close>

definition dst_list :: "bool \<Rightarrow> mmgr_list" where
  "dst_list up = (if up then MEM_ACTIVE FASTMEM HUGEP else MEM_INACTIVE SLOWMEM HUGEP)"

definition free_nodes :: "bool \<Rightarrow> mmgr_list" where
  "free_nodes dram = MEM_FREE (if dram then FASTMEM else SLOWMEM) HUGEP"

lemma dst_list_simps [simp]: "dst_list up \<noteq> free_nodes b" "dst_list up \<noteq> TRANSITION t" "free_nodes b \<noteq> TRANSITION t"
  "free_nodes b = free_nodes c \<longleftrightarrow> b = c" "free_nodes b \<noteq> dst_list up" "TRANSITION t \<noteq> free_nodes b" "TRANSITION t \<noteq> dst_list up"
  by (simp_all add: dst_list_def free_nodes_def)

definition move_tail :: "kernel \<Rightarrow> bool \<Rightarrow> addr \<Rightarrow> addr \<Rightarrow> 'a mmgr_state_scheme \<Rightarrow> 'a mmgr_state_scheme option" where
  "move_tail K up n nn s = do {
     s \<leftarrow> (if up then arms_migrate_up else arms_migrate_down) K s (n_page s n) (n_offset s nn);
     s \<leftarrow> node_add (dst_list up) nn s;
     s \<leftarrow> node_add (free_nodes (\<not> up)) n s;
     swap_nodes n nn (\<not> up) s
   }"

definition same_bytes :: "'a mmgr_state_scheme \<Rightarrow> 'a mmgr_state_scheme \<Rightarrow> bool" where
  "same_bytes s s' \<longleftrightarrow> fastmem_freebytes s' = fastmem_freebytes s \<and> slowmem_freebytes s' = slowmem_freebytes s \<and>
     dramsize s' = dramsize s \<and> nvmsize s' = nvmsize s"

text \<open>The pages keep their addresses and present flags: a page is looked up by its descriptor.\<close>

lemma move_tail_inv:
  assumes inv: "mm_inv F {n, nn} Q s" and ne: "n \<noteq> nn" "n \<noteq> NULL" "nn \<noteq> NULL"
    and n: "in_dram (npage s n) = (\<not> up)" "present (npage s n)" and nn: "in_dram (npage s nn) = up" "\<not> present (npage s nn)"
    and run: "(if up then arms_migrate_up else arms_migrate_down) K s (n_page s n) (n_offset s nn) = Some s1" and K: "kernel_ok K"
  defines "Q' \<equiv> Q(dst_list up := nn # Q (dst_list up), free_nodes (\<not> up) := n # Q (free_nodes (\<not> up)))"
  shows "\<exists>s'. move_tail K up n nn s = Some s' \<and> mm_inv F {} Q' s' \<and> same_bytes s s' \<and> same_pages s s' \<and>
    (\<forall>m\<in>F. m \<notin> {n, nn} \<longrightarrow> npage s' m = npage s m)"
proof -
  note I = mm_invD [OF inv] and M = arms_migrate_fields [OF run K]
  have F: "n \<in> F" "nn \<in> F" using I(6) by simp_all
  have pne: "n_page s n \<noteq> n_page s nn" using nodes_okD(2) [OF I(2)] F ne(1) by (auto dest: inj_onD)
  note mm = mmgr_more [OF M(4)]
  let ?Q1 = "Q(dst_list up := nn # Q (dst_list up))"
  have rep: "dll_rep (m_links s1) Q" using I(1) by (simp add: mm)
  have out: "nn \<notin> set (Q k)" "n \<notin> set (Q k)" for k using I(7) by auto
  obtain lk1 where 1: "node_add (dst_list up) nn s1 = Some (s1\<lparr>m_links := lk1\<rparr>)" "dll_rep lk1 ?Q1"
    using mm_links_put [OF rep ne(3) out(1)] by blast
  let ?s2 = "s1\<lparr>m_links := lk1\<rparr>"
  have rep1: "dll_rep (m_links ?s2) ?Q1" using 1(2) by simp
  have out1: "n \<notin> set (?Q1 k)" for k using out ne(1) by simp
  obtain lk2 where 2: "node_add (free_nodes (\<not> up)) n ?s2 = Some (?s2\<lparr>m_links := lk2\<rparr>)" "dll_rep lk2 (?Q1(free_nodes (\<not> up) := n # ?Q1 (free_nodes (\<not> up))))"
    using mm_links_put [OF rep1 ne(2) out1] by blast
  let ?s3 = "?s2\<lparr>m_links := lk2\<rparr>"
  obtain s' where s': "swap_nodes n nn (\<not> up) ?s3 = Some s'"
    "n_page s' = (n_page s)(nn := n_page s n, n := n_page s nn)" "n_offset s' = n_offset s"
    "management s' = (management s)(n_page s n := nn, n_page s nn := n)"
    "body s' = (body s)(n_page s nn := left_page up (n_offset s n) (npage s nn), n_page s n := moved_page up (n_offset s nn) (npage s n))"
    "m_links s' = m_links ?s3" "dramsize s' = dramsize ?s3" "nvmsize s' = nvmsize ?s3"
    "fastmem_freebytes s' = fastmem_freebytes ?s3" "slowmem_freebytes s' = slowmem_freebytes ?s3"
    using swap_nodes_run [OF pne ne(1), of ?s3 up] M(1) mm by auto
  have sz: "dramsize s' = dramsize s" "nvmsize s' = nvmsize s" using s'(7,8) M(2,3) by simp_all
  note W = nodes_ok_swap [OF I(2) F ne(1) n(1) nn(1) s'(2-5) sz]
  have Q': "?Q1(free_nodes (\<not> up) := n # ?Q1 (free_nodes (\<not> up))) = Q'" by (simp add: Q'_def)
  have h: "{n, nn} - {nn} = {n}" using ne(1) by blast
  note P1 = shares_put [OF I(3), where p = nn and l = "dst_list up", unfolded h]
  note P2 = shares_put [OF P1(1), where p = n and l = "free_nodes (\<not> up)", unfolded Q', simplified]
  have fits: "fits_list k (npage s' m)" if m: "m \<in> set (Q' k)" for m k
  proof -
    have k: "m \<in> set (Q k) \<or> m = nn \<and> k = dst_list up \<or> m = n \<and> k = free_nodes (\<not> up)"
      using m P2(2) [of m k] P1(2) [of m k] by auto
    then show ?thesis
    proof (elim disjE conjE)
      assume q: "m \<in> set (Q k)"
      then have "m \<notin> {n, nn}" using out by blast
      then show ?thesis using W(2) [OF I(5) [OF q]] I(4) [OF q] by simp
    next
      assume "m = nn" "k = dst_list up"
      then show ?thesis using W(4) n(2) by (simp add: moved_page_def dst_list_def)
    next
      assume "m = n" "k = free_nodes (\<not> up)"
      then show ?thesis using W(3) by (simp add: left_page_def free_nodes_def)
    qed
  qed
  have "mm_inv F {} Q' s'" using 2(2) W(1) P2(1) fits s'(6) unfolding mm_inv_def Q' by simp
  moreover have "same_bytes s s'" using s'(9,10) sz mm by (simp add: same_bytes_def)
  moreover have "same_pages s s'" using n(2) nn(2) pne by (auto simp: same_pages_def s'(5) left_page_def moved_page_def)
  moreover have "move_tail K up n nn s = Some s'" using run 1(1) 2(1) s'(1) by (simp add: move_tail_def)
  ultimately show ?thesis using W(2) by blast
qed

lemma move_tail_None:
  "(if up then arms_migrate_up else arms_migrate_down) K s (n_page s n) (n_offset s nn) = None \<Longrightarrow> move_tail K up n nn s = None"
  by (auto simp: move_tail_def split: if_splits)

lemma migrate_node:
  assumes inv: "mm_inv F H Q s" and h: "n \<in> H" "nn \<in> H" "in_dram (npage s n) = (\<not> up)" "in_dram (npage s nn) = up"
    and K: "kernel_ok K" "kernel_live K"
  shows "\<exists>s1. (if up then arms_migrate_up else arms_migrate_down) K s (n_page s n) (n_offset s nn) = Some s1"
proof -
  note I = mm_invD [OF inv] and N = nodes_okD [OF mm_invD(2) [OF inv]]
  have F: "n \<in> F" "nn \<in> F" using I(6) h(1,2) by blast+
  then have p: "n_page s n \<in> n_page s ` F" "n_page s nn \<in> n_page s ` F" by blast+
  show ?thesis
    using arms_migrate_succeeds [OF N(1) p(1) h(3) N(5) [OF F(1)] p(2) h(4) K] unfolding N(4) [OF F(2)] .
qed

text \<open>Both directions.\<close>

definition count_move :: "bool \<Rightarrow> 'a mmgr_state_scheme \<Rightarrow> 'a mmgr_state_scheme" where
  "count_move up s = (if up
     then s\<lparr>fastmem_freebytes := fastmem_freebytes s - HUGEPAGE_SIZE, slowmem_freebytes := slowmem_freebytes s + HUGEPAGE_SIZE\<rparr>
     else s\<lparr>slowmem_freebytes := slowmem_freebytes s - HUGEPAGE_SIZE, fastmem_freebytes := fastmem_freebytes s + HUGEPAGE_SIZE\<rparr>)"

definition move_one :: "kernel \<Rightarrow> bool \<Rightarrow> addr \<Rightarrow> 'a mmgr_state_scheme \<Rightarrow> 'a mmgr_state_scheme option" where
  "move_one K up = (if up then hot_one K else cold_one K)"

definition moved_lists :: "bool \<Rightarrow> addr \<Rightarrow> (mmgr_list \<Rightarrow> addr list) \<Rightarrow> mmgr_list \<Rightarrow> addr list" where
  "moved_lists up n Q = Q(free_nodes up := butlast (Q (free_nodes up)), dst_list up := last (Q (free_nodes up)) # Q (dst_list up),
     free_nodes (\<not> up) := n # Q (free_nodes (\<not> up)))"

lemma count_move_same: "same_nodes s (count_move up s)" "m_links (count_move up s) = m_links s"
  by (simp_all add: count_move_def same_nodes_def)

lemma move_one_tail:
  assumes inv: "mm_inv F {n} Q s" and n: "n \<noteq> NULL" "in_dram (npage s n) = (\<not> up)" "present (npage s n)"
  shows "Q (free_nodes up) = [] \<Longrightarrow> move_one K up n s = None"
    and "Q (free_nodes up) \<noteq> [] \<Longrightarrow> \<exists>s1. move_one K up n s = move_tail K up n (last (Q (free_nodes up))) s1 \<and>
      mm_inv F {n, last (Q (free_nodes up))} (Q(free_nodes up := butlast (Q (free_nodes up)))) s1 \<and> n \<noteq> last (Q (free_nodes up)) \<and>
      last (Q (free_nodes up)) \<noteq> NULL \<and> in_dram (npage s1 (last (Q (free_nodes up)))) = up \<and> \<not> present (npage s1 (last (Q (free_nodes up)))) \<and>
      same_nodes s s1 \<and> same_bytes (count_move up s) s1"
proof -
  assume e: "Q (free_nodes up) = []"
  show "move_one K up n s = None"
    using mm_take_empty [OF inv e] by (cases up) (simp_all add: move_one_def hot_one_def cold_one_def free_nodes_def Let_def)
next
  let ?nn = "last (Q (free_nodes up))"
  assume ne: "Q (free_nodes up) \<noteq> []"
  obtain lk where lk: "node_remove (free_nodes up) s = Some (?nn, s\<lparr>m_links := lk\<rparr>)"
    "mm_inv F {?nn, n} (Q(free_nodes up := butlast (Q (free_nodes up)))) (s\<lparr>m_links := lk\<rparr>)" "?nn \<noteq> NULL"
    "fits_list (free_nodes up) (npage s ?nn)" "?nn \<notin> {n}" using mm_take [OF inv ne] by blast
  let ?s1 = "count_move up (s\<lparr>m_links := lk\<rparr>)"
  have f: "in_dram (npage s ?nn) = up" "\<not> present (npage s ?nn)" using lk(4) by (cases up; simp add: free_nodes_def)+
  have "move_one K up n s = move_tail K up n ?nn ?s1"
    using lk(1,3) f by (cases up) (simp_all add: move_one_def hot_one_def cold_one_def move_tail_def count_move_def free_nodes_def dst_list_def Let_def)
  moreover have "mm_inv F {n, ?nn} (Q(free_nodes up := butlast (Q (free_nodes up)))) ?s1"
    using mm_inv_same [OF lk(2) count_move_same] by (simp add: insert_commute)
  moreover have "npage ?s1 ?nn = npage s ?nn" "same_nodes s ?s1" "same_bytes (count_move up s) ?s1"
    by (simp_all add: count_move_def same_nodes_def same_bytes_def)
  ultimately show "\<exists>s1. move_one K up n s = move_tail K up n ?nn s1 \<and>
      mm_inv F {n, ?nn} (Q(free_nodes up := butlast (Q (free_nodes up)))) s1 \<and> n \<noteq> ?nn \<and>
      ?nn \<noteq> NULL \<and> in_dram (npage s1 ?nn) = up \<and> \<not> present (npage s1 ?nn) \<and> same_nodes s s1 \<and> same_bytes (count_move up s) s1"
    using lk(3,5) f by (intro exI [of _ ?s1]) auto
qed

end
