(* ===== verification/Mmgr_Moves.thy ===== *)
theory Mmgr_Moves
  imports Mmgr_Inv
begin

text \<open>
  The passes that move pages between the tiers: what \<open>move_hot\<close> and \<open>move_cold\<close> keep, that the counters of
  free bytes follow the free lists, and when the passes return.
\<close>

section \<open>The counters\<close>

text \<open>\<open>r\<close> and \<open>r'\<close> are what a tier has beyond whole pages.\<close>

definition accounted :: "nat \<Rightarrow> nat \<Rightarrow> (mmgr_list \<Rightarrow> addr list) \<Rightarrow> 'a mmgr_state_scheme \<Rightarrow> bool" where
  "accounted r r' Q s \<longleftrightarrow> r < 2 ^ 21 \<and> r' < 2 ^ 21 \<and>
     unat (fastmem_freebytes s) = r + List.length (Q (free_nodes True)) * 2 ^ 21 \<and>
     unat (slowmem_freebytes s) = r' + List.length (Q (free_nodes False)) * 2 ^ 21"

lemma unat_HUGEPAGE: "unat HUGEPAGE_SIZE = 2 ^ 21"
  by (simp add: HUGEPAGE_SIZE_def)

lemma list_bound:
  assumes "mm_inv F H Q s"
  shows "List.length (Q l) < 2 ^ 30"
proof -
  note I = mm_invD [OF assms] and N = nodes_okD [OF mm_invD(2) [OF assms]]
  have fin: "finite (n_page s ` F)" "card (n_page s ` F) < 2 ^ 30" using N(1) by (simp_all add: frames_ok_def)
  then have F: "finite F" "card F < 2 ^ 30" using N(2) finite_imageD [OF fin(1) N(2)] by (simp_all add: card_image)
  have "set (Q l) \<subseteq> F" using I(5) by blast
  then have "card (set (Q l)) \<le> card F" using F(1) by (rule card_mono [rotated])
  then show ?thesis using F(2) distinct_card [OF dll_repD(1) [OF I(1), of l]] by simp
qed

lemma unat_add_page: "unat x + 2 ^ 21 < 2 ^ 64 \<Longrightarrow> unat (x + HUGEPAGE_SIZE) = unat x + 2 ^ 21"
  by (simp add: unat_HUGEPAGE unat_add_lem [THEN iffD1])

lemma unat_sub_page: "2 ^ 21 \<le> unat x \<Longrightarrow> unat (x - HUGEPAGE_SIZE) = unat x - 2 ^ 21"
  by (simp add: unat_HUGEPAGE unat_sub word_le_nat_alt)

lemma accounted_move:
  assumes acc: "accounted r r' Q s" and ne: "Q (free_nodes up) \<noteq> []" and b: "List.length (Q (free_nodes (\<not> up))) < 2 ^ 30"
    and s': "same_bytes (count_move up s) s'"
  shows "accounted r r' (moved_lists up n Q) s'"
proof -
  have len: "List.length (Q (free_nodes up)) = Suc (List.length (butlast (Q (free_nodes up))))"
    using ne by (cases "Q (free_nodes up)" rule: rev_cases) simp_all
  have L: "List.length (moved_lists up n Q (free_nodes up)) = List.length (butlast (Q (free_nodes up)))"
    "List.length (moved_lists up n Q (free_nodes (\<not> up))) = Suc (List.length (Q (free_nodes (\<not> up))))"
    by (simp_all add: moved_lists_def)
  show ?thesis
  proof (cases up)
    case True
    have "unat (fastmem_freebytes s - HUGEPAGE_SIZE) = unat (fastmem_freebytes s) - 2 ^ 21" "unat (slowmem_freebytes s + HUGEPAGE_SIZE) = unat (slowmem_freebytes s) + 2 ^ 21"
      using acc len b True unat_sub_page [of "fastmem_freebytes s"] unat_add_page [of "slowmem_freebytes s"] by (auto simp: accounted_def)
    then show ?thesis using acc s' L len True by (simp add: accounted_def same_bytes_def count_move_def)
  next
    case False
    have "unat (slowmem_freebytes s - HUGEPAGE_SIZE) = unat (slowmem_freebytes s) - 2 ^ 21" "unat (fastmem_freebytes s + HUGEPAGE_SIZE) = unat (fastmem_freebytes s) + 2 ^ 21"
      using acc len b False unat_sub_page [of "slowmem_freebytes s"] unat_add_page [of "fastmem_freebytes s"] by (auto simp: accounted_def)
    then show ?thesis using acc s' L len False by (simp add: accounted_def same_bytes_def count_move_def)
  qed
qed

section \<open>The pages of the local list move\<close>

lemma move_one_ok:
  assumes inv: "mm_inv F {n} Q s" and n: "n \<noteq> NULL" "in_dram (npage s n) = (\<not> up)" "present (npage s n)" and K: "kernel_ok K"
  shows "\<And>s'. move_one K up n s = Some s' \<Longrightarrow> Q (free_nodes up) \<noteq> [] \<and> mm_inv F {} (moved_lists up n Q) s' \<and> same_pages s s' \<and>
      same_bytes (count_move up s) s' \<and> (\<forall>m\<in>F. m \<notin> {n, last (Q (free_nodes up))} \<longrightarrow> npage s' m = npage s m)"
    and "kernel_live K \<Longrightarrow> Q (free_nodes up) \<noteq> [] \<Longrightarrow> move_one K up n s \<noteq> None"
proof -
  let ?nn = "last (Q (free_nodes up))"
  note T = move_one_tail [OF inv n]
  have step: "\<exists>s'. move_one K up n s = Some s' \<and> mm_inv F {} (moved_lists up n Q) s' \<and> same_pages s s' \<and> same_bytes (count_move up s) s' \<and>
      (\<forall>m\<in>F. m \<notin> {n, ?nn} \<longrightarrow> npage s' m = npage s m)"
    if ne: "Q (free_nodes up) \<noteq> []" and s1: "move_one K up n s = move_tail K up n ?nn s1"
      "mm_inv F {n, ?nn} (Q(free_nodes up := butlast (Q (free_nodes up)))) s1" "n \<noteq> ?nn" "?nn \<noteq> NULL"
      "in_dram (npage s1 ?nn) = up" "\<not> present (npage s1 ?nn)" "same_nodes s s1" "same_bytes (count_move up s) s1"
      and m: "(if up then arms_migrate_up else arms_migrate_down) K s1 (n_page s1 n) (n_offset s1 ?nn) = Some s2" for s1 s2
  proof -
    have n1: "in_dram (npage s1 n) = (\<not> up)" "present (npage s1 n)" using n s1(7) by (simp_all add: same_nodes_def)
    obtain s' where s': "move_tail K up n ?nn s1 = Some s'"
      "mm_inv F {} ((Q(free_nodes up := butlast (Q (free_nodes up))))(dst_list up := ?nn # (Q(free_nodes up := butlast (Q (free_nodes up)))) (dst_list up),
         free_nodes (\<not> up) := n # (Q(free_nodes up := butlast (Q (free_nodes up)))) (free_nodes (\<not> up)))) s'"
      "same_bytes s1 s'" "same_pages s1 s'" "\<forall>m\<in>F. m \<notin> {n, ?nn} \<longrightarrow> npage s' m = npage s1 m"
      using move_tail_inv [OF s1(2,3) n(1) s1(4) n1 s1(5,6) m K] by blast
    have "same_pages s s'" using s'(4) s1(7) by (simp add: same_pages_def same_nodes_def)
    moreover have "same_bytes (count_move up s) s'" using s'(3) s1(8) by (simp add: same_bytes_def)
    moreover have "\<forall>m\<in>F. m \<notin> {n, ?nn} \<longrightarrow> npage s' m = npage s m" using s'(5) s1(7) by (simp add: same_nodes_def)
    ultimately show ?thesis using s'(1,2) s1(1) by (simp add: moved_lists_def)
  qed
  show "Q (free_nodes up) \<noteq> [] \<and> mm_inv F {} (moved_lists up n Q) s' \<and> same_pages s s' \<and> same_bytes (count_move up s) s' \<and>
      (\<forall>m\<in>F. m \<notin> {n, ?nn} \<longrightarrow> npage s' m = npage s m)"
    if run: "move_one K up n s = Some s'" for s'
  proof -
    have ne: "Q (free_nodes up) \<noteq> []" using T(1) run by auto
    obtain s1 where s1: "move_one K up n s = move_tail K up n ?nn s1"
      "mm_inv F {n, ?nn} (Q(free_nodes up := butlast (Q (free_nodes up)))) s1" "n \<noteq> ?nn" "?nn \<noteq> NULL"
      "in_dram (npage s1 ?nn) = up" "\<not> present (npage s1 ?nn)" "same_nodes s s1" "same_bytes (count_move up s) s1" using T(2) [OF ne] by blast
    obtain s2 where "(if up then arms_migrate_up else arms_migrate_down) K s1 (n_page s1 n) (n_offset s1 ?nn) = Some s2"
      using move_tail_None run s1(1) by fastforce
    from step [OF ne s1 this] run ne show ?thesis by auto
  qed
  show "move_one K up n s \<noteq> None" if live: "kernel_live K" and ne: "Q (free_nodes up) \<noteq> []"
  proof -
    obtain s1 where s1: "move_one K up n s = move_tail K up n ?nn s1"
      "mm_inv F {n, ?nn} (Q(free_nodes up := butlast (Q (free_nodes up)))) s1" "n \<noteq> ?nn" "?nn \<noteq> NULL"
      "in_dram (npage s1 ?nn) = up" "\<not> present (npage s1 ?nn)" "same_nodes s s1" "same_bytes (count_move up s) s1" using T(2) [OF ne] by blast
    have "in_dram (npage s1 n) = (\<not> up)" using n s1(7) by (simp add: same_nodes_def)
    then obtain s2 where "(if up then arms_migrate_up else arms_migrate_down) K s1 (n_page s1 n) (n_offset s1 ?nn) = Some s2"
      using migrate_node [OF s1(2) _ _ _ s1(5) K live, of n] by auto
    from step [OF ne s1 this] show ?thesis by auto
  qed
qed

definition move_all :: "kernel \<Rightarrow> bool \<Rightarrow> 'a mmgr_state_scheme \<Rightarrow> 'a mmgr_state_scheme option" where
  "move_all K up = (if up then hot_move K else cold_move K)"

lemma move_all_step:
  "move_all K up s = do {
     (n, s) \<leftarrow> node_remove (TRANSITION HUGEP) s;
     (if n = NULL then Some s else do { s \<leftarrow> move_one K up n s; move_all K up s }) }"
  by (cases up) (simp_all add: move_all_def move_one_def hot_move.simps [of K s] cold_move.simps [of K s] cong del: if_weak_cong)

definition in_tier :: "bool \<Rightarrow> (mmgr_list \<Rightarrow> addr list) \<Rightarrow> 'a mmgr_state_scheme \<Rightarrow> bool" where
  "in_tier dram Q s \<longleftrightarrow> (\<forall>n\<in>set (Q (TRANSITION HUGEP)). in_dram (npage s n) = dram)"

text \<open>The loop, for the partial and the total statement at once.\<close>

lemma move_all_ok:
  assumes "mm_inv F {} Q s" "in_tier (\<not> up) Q s" "kernel_ok K"
  shows "(\<forall>s'. move_all K up s = Some s' \<longrightarrow> (\<exists>Q'. mm_inv F {} Q' s' \<and> Q' (TRANSITION HUGEP) = [] \<and> same_pages s s' \<and>
        dramsize s' = dramsize s \<and> nvmsize s' = nvmsize s \<and> (\<forall>r r'. accounted r r' Q s \<longrightarrow> accounted r r' Q' s'))) \<and>
    (kernel_live K \<longrightarrow> List.length (Q (TRANSITION HUGEP)) \<le> List.length (Q (free_nodes up)) \<longrightarrow> move_all K up s \<noteq> None)"
  using assms
proof (induction "List.length (Q (TRANSITION HUGEP))" arbitrary: Q s)
  case 0
  then have e: "Q (TRANSITION HUGEP) = []" by simp
  have "move_all K up s = Some s" by (subst move_all_step) (simp add: mm_take_empty [OF 0(2) e])
  then show ?case using 0(2) e by (auto simp: same_pages_def)
next
  case (Suc k)
  let ?T = "TRANSITION HUGEP" and ?n = "last (Q (TRANSITION HUGEP))"
  have ne: "Q ?T \<noteq> []" using Suc(2) by auto
  obtain lk where lk: "node_remove ?T s = Some (?n, s\<lparr>m_links := lk\<rparr>)" "mm_inv F {?n} (Q(?T := butlast (Q ?T))) (s\<lparr>m_links := lk\<rparr>)" "?n \<noteq> NULL"
    "fits_list ?T (npage s ?n)" using mm_take [OF Suc(3) ne] by blast
  let ?s = "s\<lparr>m_links := lk\<rparr>" and ?Q = "Q(?T := butlast (Q ?T))"
  have tier: "in_dram (npage s ?n) = (\<not> up)" using Suc(4) ne by (simp add: in_tier_def)
  have n: "in_dram (npage ?s ?n) = (\<not> up)" "present (npage ?s ?n)" using tier lk(4) by simp_all
  note M = move_one_ok [OF lk(2,3) n Suc(5)]
  have run: "move_all K up s = do { s \<leftarrow> move_one K up ?n ?s; move_all K up s }"
    by (subst move_all_step) (simp add: lk(1,3))
  have fr: "?Q (free_nodes up) = Q (free_nodes up)" by simp
  show ?case
  proof (cases "move_one K up ?n ?s")
    case None
    then have "move_all K up s = None" by (simp add: run)
    moreover have "\<not> (kernel_live K \<and> List.length (Q ?T) \<le> List.length (Q (free_nodes up)))"
      using M(2) None ne unfolding fr by (cases "Q (free_nodes up)") auto
    ultimately show ?thesis by auto
  next
    case (Some s1)
    from M(1) [OF this] have m: "Q (free_nodes up) \<noteq> []" "mm_inv F {} (moved_lists up ?n ?Q) s1" "same_pages s s1" "same_bytes (count_move up ?s) s1"
      "\<And>m. m \<in> F \<Longrightarrow> m \<notin> {?n, last (Q (free_nodes up))} \<Longrightarrow> npage s1 m = npage s m"
      by (auto simp: same_pages_def)
    let ?Q1 = "moved_lists up ?n ?Q"
    have T1: "?Q1 ?T = butlast (Q ?T)" "List.length (?Q1 (free_nodes up)) = List.length (Q (free_nodes up)) - 1"
      by (simp_all add: moved_lists_def)
    have acc: "accounted r r' ?Q1 s1" if "accounted r r' Q s" for r r'
    proof (rule accounted_move [OF _ _ _ m(4)])
      show "accounted r r' ?Q ?s" using that by (simp add: accounted_def)
      show "?Q (free_nodes up) \<noteq> []" using m(1) by simp
      show "List.length (?Q (free_nodes (\<not> up))) < 2 ^ 30" by (rule list_bound [OF lk(2)])
    qed
    have dm: "dramsize s1 = dramsize s \<and> nvmsize s1 = nvmsize s" using m(4) by (simp add: same_bytes_def count_move_def split: if_splits)
    have IH: "(\<forall>s'. move_all K up s1 = Some s' \<longrightarrow> (\<exists>Q'. mm_inv F {} Q' s' \<and> Q' ?T = [] \<and> same_pages s1 s' \<and>
        dramsize s' = dramsize s1 \<and> nvmsize s' = nvmsize s1 \<and> (\<forall>r r'. accounted r r' ?Q1 s1 \<longrightarrow> accounted r r' Q' s'))) \<and>
      (kernel_live K \<longrightarrow> List.length (?Q1 ?T) \<le> List.length (?Q1 (free_nodes up)) \<longrightarrow> move_all K up s1 \<noteq> None)"
    proof (rule Suc(1) [OF _ m(2) _ Suc(5)])
      show "k = List.length (?Q1 ?T)" using Suc(2) by (simp add: T1)
      show "in_tier (\<not> up) ?Q1 s1"
        unfolding in_tier_def T1
      proof
        fix x assume x: "x \<in> set (butlast (Q ?T))"
        have "x \<in> set (?Q ?T)" using x by simp
        then have xF: "x \<in> F" "x \<noteq> ?n" using mm_invD(5,7) [OF lk(2)] by blast+
        have xT: "x \<in> set (Q ?T)" using x by (rule in_set_butlastD)
        have "x \<noteq> last (Q (free_nodes up))"
          using dll_rep_disjoint [OF mm_invD(1) [OF Suc(3)] xT, of "free_nodes up"] last_in_set [OF m(1)] by auto
        then show "in_dram (npage s1 x) = (\<not> up)" using m(5) xF Suc(4) xT by (simp add: in_tier_def)
      qed
    qed
    have e: "move_all K up s = move_all K up s1" by (simp add: run Some)
    show ?thesis unfolding e using IH acc dm same_pages_trans [OF m(3)] T1 Suc(2) by fastforce
  qed
qed

section \<open>The pages are collected\<close>

lemma node_addD: "node_add l n s = Some t \<Longrightarrow> mmgr_list_add (m_links s) l n = Some (m_links t)"
  by (auto simp: node_add_def bind_Some_iff)

lemma start_move_ok:
  assumes inv: "mm_inv F {n} Q s" and n: "n \<noteq> NULL" "present (npage s n)" and K: "kernel_ok K"
  shows "start_move K n s = Some s' \<Longrightarrow>
      mm_inv F {} (Q(TRANSITION HUGEP := n # Q (TRANSITION HUGEP))) s' \<and> same_pages s s' \<and> same_bytes s s' \<and>
      (\<forall>m. in_dram (npage s' m) = in_dram (npage s m))"
    and "kernel_live K \<Longrightarrow> va (npage s n) \<noteq> 0 \<Longrightarrow> start_move K n s \<noteq> None"
proof -
  let ?T = "TRANSITION HUGEP" and ?f = "\<lambda>x. x\<lparr>migrating := True\<rparr>"
  note I = mm_invD [OF inv] and N = nodes_okD [OF mm_invD(2) [OF inv]]
  have F: "n \<in> F" using I(6) by simp
  let ?u = "upd_page (n_page s n) ?f s"
  have u: "mm_inv F {n} Q ?u" by (rule mm_held_page [OF inv]) (simp_all add: frame_of_def N(5) [OF F])
  obtain lk where lk: "node_add ?T n s = Some (s\<lparr>m_links := lk\<rparr>)" "dll_rep lk (Q(?T := n # Q ?T))"
    using mm_links_put [OF I(1) n(1), of ?T] I(7) by blast
  have up: "upd_page (n_page s n) ?f (s\<lparr>m_links := lk\<rparr>) = ?u\<lparr>m_links := lk\<rparr>" by (simp add: upd_page_def)
  let ?s = "?u\<lparr>m_links := lk\<rparr>"
  have fu: "n_page ?u = n_page s" "m_links ?u = m_links s" by (simp_all add: upd_page_def)
  have "fits_list ?T (npage ?u n)" using n(2) by (simp add: upd_page_def)
  from mm_put [OF u _ n(1) this] obtain lk' where lk': "node_add ?T n ?u = Some (?u\<lparr>m_links := lk'\<rparr>)"
    "mm_inv F ({n} - {n}) (Q(?T := n # Q ?T)) (?u\<lparr>m_links := lk'\<rparr>)" by blast
  have "lk' = lk" using node_addD [OF lk(1)] node_addD [OF lk'(1)] by (simp add: fu)
  then have inv': "mm_inv F {} (Q(?T := n # Q ?T)) ?s" using lk'(2) by simp
  have sp: "same_pages s ?s" "\<And>m. in_dram (npage ?s m) = in_dram (npage s m)" by (auto simp: same_pages_def upd_page_def)
  show "mm_inv F {} (Q(?T := n # Q ?T)) s' \<and> same_pages s s' \<and> same_bytes s s' \<and> (\<forall>m. in_dram (npage s' m) = in_dram (npage s m))"
    if run: "start_move K n s = Some s'"
  proof -
    have r: "arms_wp_page K ?s (n_page s n) True = Some s'" using run lk(1) by (simp add: start_move_def up fu Let_def)
    have "same_nodes ?s s'" "m_links s' = m_links ?s" "same_bytes ?s s'"
      using r by (auto simp: arms_wp_page_def bind_Some_iff same_nodes_def same_bytes_def Let_def)
    moreover from this have "mm_inv F {} (Q(?T := n # Q ?T)) s'" using mm_inv_same [OF inv'] by blast
    moreover have "same_bytes s ?s" by (simp add: same_bytes_def upd_page_def)
    ultimately show ?thesis using sp by (simp add: same_pages_def same_nodes_def same_bytes_def)
  qed
  show "start_move K n s \<noteq> None" if "kernel_live K" "va (npage s n) \<noteq> 0"
    using that lk(1) N(5,6) [OF F] by (simp add: start_move_def up fu arms_wp_page_def kernel_live_def Let_def)
qed

text \<open>What the two loops of the collection have in common: a list, and a test after which they stop.\<close>

definition collected :: "addr set \<Rightarrow> bool \<Rightarrow> mmgr_list \<Rightarrow> (mmgr_list \<Rightarrow> addr list) \<Rightarrow> 'a mmgr_state_scheme \<Rightarrow> (mmgr_list \<Rightarrow> addr list) \<Rightarrow>
    'a mmgr_state_scheme \<Rightarrow> bool" where
  "collected F dram l Q s Q' s' \<longleftrightarrow> mm_inv F {} Q' s' \<and> in_tier dram Q' s' \<and> same_pages s s' \<and> same_bytes s s' \<and>
     (\<forall>k. k \<notin> {l, TRANSITION HUGEP} \<longrightarrow> Q' k = Q k) \<and>
     List.length (Q' (TRANSITION HUGEP)) + List.length (Q' l) = List.length (Q (TRANSITION HUGEP)) + List.length (Q l)"

lemma collected_refl: "mm_inv F {} Q s \<Longrightarrow> in_tier dram Q s \<Longrightarrow> collected F dram l Q s Q s"
  by (simp add: collected_def same_pages_def same_bytes_def)

lemma collected_trans:
  "collected F dram l Q s Q1 s1 \<Longrightarrow> collected F dram l Q1 s1 Q2 s2 \<Longrightarrow> collected F dram l Q s Q2 s2"
  by (auto simp: collected_def same_bytes_def intro: same_pages_trans)

text \<open>One node of the list \<open>l\<close>.\<close>

lemma collect_step:
  assumes inv: "mm_inv F {} Q s" and t: "in_tier dram Q s" and ne: "Q l \<noteq> []" and K: "kernel_ok K"
    and l: "l \<noteq> TRANSITION HUGEP" "\<And>x. fits_list l x \<Longrightarrow> in_dram x = dram \<and> present x"
  defines "Q1 \<equiv> (Q(l := butlast (Q l)))(TRANSITION HUGEP := last (Q l) # Q (TRANSITION HUGEP))"
  shows "\<exists>n t. node_remove l s = Some (n, t) \<and> n \<noteq> NULL \<and>
    (\<forall>s1. start_move K n t = Some s1 \<longrightarrow> collected F dram l Q s Q1 s1) \<and>
    (kernel_live K \<longrightarrow> placed UNIV s \<longrightarrow> start_move K n t \<noteq> None)"
proof -
  let ?n = "last (Q l)" and ?T = "TRANSITION HUGEP"
  obtain lk where lk: "node_remove l s = Some (?n, s\<lparr>m_links := lk\<rparr>)" "mm_inv F {?n} (Q(l := butlast (Q l))) (s\<lparr>m_links := lk\<rparr>)" "?n \<noteq> NULL"
    "fits_list l (npage s ?n)" using mm_take [OF inv ne] by blast
  let ?t = "s\<lparr>m_links := lk\<rparr>"
  have n: "in_dram (npage s ?n) = dram" "present (npage s ?n)" using l(2) [OF lk(4)] by simp_all
  have p: "present (npage ?t ?n)" using n by simp
  note S = start_move_ok [OF lk(2,3) p K]
  have Q1: "(Q(l := butlast (Q l)))(?T := ?n # (Q(l := butlast (Q l))) ?T) = Q1" using l(1) by (simp add: Q1_def)
  have "collected F dram l Q s Q1 s1" if r: "start_move K ?n ?t = Some s1" for s1
  proof -
    note R = S(1) [OF r, unfolded Q1]
    have "in_tier dram Q1 s1" using R t n(1) by (auto simp: in_tier_def Q1_def)
    moreover have "List.length (butlast (Q l)) + 1 = List.length (Q l)" using ne by (cases "Q l" rule: rev_cases) simp_all
    ultimately show ?thesis using R l(1) by (auto simp: collected_def Q1_def same_pages_def same_bytes_def)
  qed
  moreover have "start_move K ?n ?t \<noteq> None" if "kernel_live K" "placed UNIV s"
    using S(2) that n(2) by (simp add: placed_def)
  ultimately show ?thesis using lk(1,3) by blast
qed

abbreviation hot_src :: mmgr_list where "hot_src \<equiv> MEM_ACTIVE SLOWMEM HUGEP"

lemma collected_len: "collected F dram l Q s Q' s' \<Longrightarrow> mm_inv F {} Q' s'" by (simp add: collected_def)

lemma hot_collect_ok:
  assumes "mm_inv F {} Q s" "in_tier False Q s" "unat tb = List.length (Q (TRANSITION HUGEP)) * 2 ^ 21" "kernel_ok K"
  shows "(\<forall>tb' s'. hot_collect K tb s = Some (tb', s') \<longrightarrow> (\<exists>Q'. collected F False hot_src Q s Q' s' \<and>
        unat tb' = List.length (Q' (TRANSITION HUGEP)) * 2 ^ 21 \<and> (tb' = tb \<or> unat tb' < unat (fastmem_freebytes s)))) \<and>
    (kernel_live K \<longrightarrow> placed UNIV s \<longrightarrow> hot_collect K tb s \<noteq> None)"
  using assms
proof (induction "List.length (Q hot_src)" arbitrary: Q s tb rule: less_induct)
  case less
  let ?T = "TRANSITION HUGEP"
  have lt: "List.length (Q ?T) < 2 ^ 30" by (rule list_bound [OF less(2)])
  then have tb: "unat (tb + HUGEPAGE_SIZE) = unat tb + 2 ^ 21" using less(4) by (intro unat_add_page) simp
  show ?case
  proof (cases "tb + HUGEPAGE_SIZE < fastmem_freebytes s")
    case False
    then have "hot_collect K tb s = Some (tb, s)" by (subst hot_collect.simps) simp
    then show ?thesis using collected_refl [OF less(2,3)] less(4) by auto
  next
    case go: True
    show ?thesis
    proof (cases "Q hot_src = []")
      case True
      then have "hot_collect K tb s = Some (tb, s)" by (subst hot_collect.simps) (simp add: go mm_take_empty [OF less(2) True])
      then show ?thesis using collected_refl [OF less(2,3)] less(4) by auto
    next
      case ne: False
      let ?Q1 = "(Q(hot_src := butlast (Q hot_src)))(?T := last (Q hot_src) # Q ?T)"
      obtain n t where nt: "node_remove hot_src s = Some (n, t)" "n \<noteq> NULL" "\<And>s1. start_move K n t = Some s1 \<Longrightarrow> collected F False hot_src Q s ?Q1 s1"
        "kernel_live K \<Longrightarrow> placed UNIV s \<Longrightarrow> start_move K n t \<noteq> None"
        using collect_step [OF less(2,3) ne less(5)] by auto
      have run: "hot_collect K tb s = do { s1 \<leftarrow> start_move K n t; hot_collect K (tb + HUGEPAGE_SIZE) s1 }"
        by (subst hot_collect.simps) (simp add: go nt(1,2))
      show ?thesis
      proof (cases "start_move K n t")
        case None
        then show ?thesis using nt(4) by (auto simp: run)
      next
        case (Some s1)
        note C = nt(3) [OF Some]
        have "List.length (?Q1 hot_src) < List.length (Q hot_src)" using ne by simp
        moreover have "mm_inv F {} ?Q1 s1" "in_tier False ?Q1 s1" "same_pages s s1" "same_bytes s s1" using C by (simp_all add: collected_def)
        moreover have "unat (tb + HUGEPAGE_SIZE) = List.length (?Q1 ?T) * 2 ^ 21" using tb less(4) by simp
        ultimately have IH: "(\<forall>tb' s'. hot_collect K (tb + HUGEPAGE_SIZE) s1 = Some (tb', s') \<longrightarrow> (\<exists>Q'. collected F False hot_src ?Q1 s1 Q' s' \<and>
            unat tb' = List.length (Q' ?T) * 2 ^ 21 \<and> (tb' = tb + HUGEPAGE_SIZE \<or> unat tb' < unat (fastmem_freebytes s1)))) \<and>
          (kernel_live K \<longrightarrow> placed UNIV s1 \<longrightarrow> hot_collect K (tb + HUGEPAGE_SIZE) s1 \<noteq> None)"
          using less(1) less(5) by blast
        have fb: "fastmem_freebytes s1 = fastmem_freebytes s" "placed UNIV s \<Longrightarrow> placed UNIV s1"
          using \<open>same_bytes s s1\<close> same_pages_placed [OF \<open>same_pages s s1\<close>] by (simp_all add: same_bytes_def)
        have e: "hot_collect K tb s = hot_collect K (tb + HUGEPAGE_SIZE) s1" by (simp add: run Some)
        show ?thesis unfolding e
        proof (intro conjI allI impI)
          fix tb' s' assume r: "hot_collect K (tb + HUGEPAGE_SIZE) s1 = Some (tb', s')"
          then obtain Q' where Q': "collected F False hot_src ?Q1 s1 Q' s'" "unat tb' = List.length (Q' ?T) * 2 ^ 21"
            "tb' = tb + HUGEPAGE_SIZE \<or> unat tb' < unat (fastmem_freebytes s1)" using IH by blast
          have "unat tb' < unat (fastmem_freebytes s)" using Q'(3) go unfolding fb(1) by (auto simp: word_less_nat_alt)
          then show "\<exists>Q'. collected F False hot_src Q s Q' s' \<and> unat tb' = List.length (Q' ?T) * 2 ^ 21 \<and>
              (tb' = tb \<or> unat tb' < unat (fastmem_freebytes s))" using collected_trans [OF C Q'(1)] Q'(2) by blast
        next
          assume "kernel_live K" "placed UNIV s"
          then show "hot_collect K (tb + HUGEPAGE_SIZE) s1 \<noteq> None" using IH fb(2) by blast
        qed
      qed
    qed
  qed
qed

text \<open>The collection of cold pages goes on while the free bytes would not reach the limit.\<close>

lemma cold_collect_ok:
  assumes "mm_inv F {} Q s" "in_tier True Q s" "unat tb = List.length (Q (TRANSITION HUGEP)) * 2 ^ 21" "kernel_ok K"
    and l: "l = MEM_INACTIVE FASTMEM HUGEP \<or> l = MEM_ACTIVE FASTMEM HUGEP"
  shows "(\<forall>tb' s'. cold_collect K l tb s = Some (tb', s') \<longrightarrow> (\<exists>Q'. collected F True l Q s Q' s' \<and>
        unat tb' = List.length (Q' (TRANSITION HUGEP)) * 2 ^ 21 \<and>
        (unat (fastmem_freebytes s) < 2 ^ 63 \<longrightarrow> List.length (Q' (TRANSITION HUGEP)) \<le> List.length (Q (TRANSITION HUGEP)) + 1 \<or>
           unat (fastmem_freebytes s) + unat tb' < unat (ARMS_FASTFREE s) + 2 ^ 21))) \<and>
    (kernel_live K \<longrightarrow> placed UNIV s \<longrightarrow> cold_collect K l tb s \<noteq> None)"
  using assms(1-4)
proof (induction "List.length (Q l)" arbitrary: Q s tb rule: less_induct)
  case less
  let ?T = "TRANSITION HUGEP"
  show ?case
  proof (cases "Q l = []")
    case True
    then have "cold_collect K l tb s = Some (tb, s)" by (subst cold_collect.simps) (simp add: mm_take_empty [OF less(2) True])
    then show ?thesis using collected_refl [OF less(2,3)] less(4) by (auto intro!: exI [of _ Q])
  next
    case ne: False
    let ?Q1 = "(Q(l := butlast (Q l)))(?T := last (Q l) # Q ?T)" and ?tb = "tb + HUGEPAGE_SIZE"
    have lT: "l \<noteq> ?T" using l by auto
    have lf: "in_dram x = True \<and> present x" if "fits_list l x" for x using that l by auto
    obtain n t where nt: "node_remove l s = Some (n, t)" "n \<noteq> NULL" "\<And>s1. start_move K n t = Some s1 \<Longrightarrow> collected F True l Q s ?Q1 s1"
      "kernel_live K \<Longrightarrow> placed UNIV s \<Longrightarrow> start_move K n t \<noteq> None"
      using collect_step [OF less(2,3) ne less(5) lT lf] by auto
    have run: "cold_collect K l tb s = do { s1 \<leftarrow> start_move K n t;
        if fastmem_freebytes s1 + ?tb \<ge> ARMS_FASTFREE s1 then Some (?tb, s1) else cold_collect K l ?tb s1 }"
      by (subst cold_collect.simps) (simp add: nt(1,2) Let_def)
    have lt: "List.length (Q ?T) < 2 ^ 30" by (rule list_bound [OF less(2)])
    then have tb: "unat ?tb = unat tb + 2 ^ 21" using less(4) by (intro unat_add_page) simp
    show ?thesis
    proof (cases "start_move K n t")
      case None
      then show ?thesis using nt(4) by (auto simp: run)
    next
      case (Some s1)
      note C = nt(3) [OF Some]
      have c: "mm_inv F {} ?Q1 s1" "in_tier True ?Q1 s1" "same_pages s s1" "same_bytes s s1" using C by (simp_all add: collected_def)
      have fb: "fastmem_freebytes s1 = fastmem_freebytes s" "ARMS_FASTFREE s1 = ARMS_FASTFREE s" "placed UNIV s \<Longrightarrow> placed UNIV s1"
        using c(4) same_pages_placed [OF c(3)] by (simp_all add: same_bytes_def ARMS_FASTFREE_def)
      have tl: "unat ?tb = List.length (?Q1 ?T) * 2 ^ 21" using tb less(4) by simp
      show ?thesis
      proof (cases "fastmem_freebytes s + ?tb \<ge> ARMS_FASTFREE s")
        case True
        then have "cold_collect K l tb s = Some (?tb, s1)" by (simp add: run Some fb)
        moreover have "List.length (?Q1 ?T) \<le> List.length (Q ?T) + 1" by simp
        ultimately show ?thesis using C tl by (auto intro!: exI [of _ ?Q1])
      next
        case False
        then have e: "cold_collect K l tb s = cold_collect K l ?tb s1" by (simp add: run Some fb)
        have "List.length (?Q1 l) < List.length (Q l)" using ne lT by simp
        then have IH: "(\<forall>tb' s'. cold_collect K l ?tb s1 = Some (tb', s') \<longrightarrow> (\<exists>Q'. collected F True l ?Q1 s1 Q' s' \<and>
            unat tb' = List.length (Q' ?T) * 2 ^ 21 \<and>
            (unat (fastmem_freebytes s1) < 2 ^ 63 \<longrightarrow> List.length (Q' ?T) \<le> List.length (?Q1 ?T) + 1 \<or>
               unat (fastmem_freebytes s1) + unat tb' < unat (ARMS_FASTFREE s1) + 2 ^ 21))) \<and>
          (kernel_live K \<longrightarrow> placed UNIV s1 \<longrightarrow> cold_collect K l ?tb s1 \<noteq> None)"
          using less(1) c(1,2) tl less(5) by blast
        have small: "unat (fastmem_freebytes s) + unat ?tb < unat (ARMS_FASTFREE s)" if "unat (fastmem_freebytes s) < 2 ^ 63"
        proof -
          have "unat (fastmem_freebytes s + ?tb) = unat (fastmem_freebytes s) + unat ?tb"
            using that tb lt less(4) by (simp add: unat_add_lem [THEN iffD1])
          then show ?thesis using False by (simp add: word_le_nat_alt)
        qed
        show ?thesis unfolding e
        proof (intro conjI allI impI)
          fix tb' s' assume "cold_collect K l ?tb s1 = Some (tb', s')"
          then obtain Q' where Q': "collected F True l ?Q1 s1 Q' s'" "unat tb' = List.length (Q' ?T) * 2 ^ 21"
            "unat (fastmem_freebytes s) < 2 ^ 63 \<longrightarrow> List.length (Q' ?T) \<le> List.length (?Q1 ?T) + 1 \<or>
               unat (fastmem_freebytes s) + unat tb' < unat (ARMS_FASTFREE s) + 2 ^ 21" using IH unfolding fb by blast
          have "unat (fastmem_freebytes s) < 2 ^ 63 \<longrightarrow> List.length (Q' ?T) \<le> List.length (Q ?T) + 1 \<or>
               unat (fastmem_freebytes s) + unat tb' < unat (ARMS_FASTFREE s) + 2 ^ 21"
          proof
            assume f: "unat (fastmem_freebytes s) < 2 ^ 63"
            have "unat tb' \<le> unat ?tb + 2 ^ 21" if "List.length (Q' ?T) \<le> List.length (?Q1 ?T) + 1"
              using that Q'(2) tl by simp
            then show "List.length (Q' ?T) \<le> List.length (Q ?T) + 1 \<or> unat (fastmem_freebytes s) + unat tb' < unat (ARMS_FASTFREE s) + 2 ^ 21"
              using Q'(3) f small [OF f] by linarith
          qed
          then show "\<exists>Q'. collected F True l Q s Q' s' \<and> unat tb' = List.length (Q' ?T) * 2 ^ 21 \<and>
            (unat (fastmem_freebytes s) < 2 ^ 63 \<longrightarrow> List.length (Q' ?T) \<le> List.length (Q ?T) + 1 \<or>
               unat (fastmem_freebytes s) + unat tb' < unat (ARMS_FASTFREE s) + 2 ^ 21)"
            using collected_trans [OF C Q'(1)] Q'(2) by blast
        next
          assume "kernel_live K" "placed UNIV s"
          then show "cold_collect K l ?tb s1 \<noteq> None" using IH fb(3) by blast
        qed
      qed
    qed
  qed
qed

section \<open>The passes\<close>

definition pass_ok :: "addr set \<Rightarrow> (mmgr_list \<Rightarrow> addr list) \<Rightarrow> 'a mmgr_state_scheme \<Rightarrow> 'a mmgr_state_scheme \<Rightarrow> bool" where
  "pass_ok F Q s s' \<longleftrightarrow> (\<exists>Q'. mm_inv F {} Q' s' \<and> Q' (TRANSITION HUGEP) = [] \<and> same_pages s s' \<and>
     dramsize s' = dramsize s \<and> nvmsize s' = nvmsize s \<and> (\<forall>r r'. accounted r r' Q s \<longrightarrow> accounted r r' Q' s'))"

lemma pass_ok_refl: "mm_inv F {} Q s \<Longrightarrow> Q (TRANSITION HUGEP) = [] \<Longrightarrow> pass_ok F Q s s"
  by (auto simp: pass_ok_def same_pages_def)

lemma clear_transition_same:
  assumes "mm_inv F {} Q s" "Q (TRANSITION HUGEP) = []"
  shows "clear_transition s = s"
proof -
  note I = mm_invD [OF assms(1)]
  have "Q (TRANSITION t) = []" for t
  proof (cases t)
    case BASEP
    then show ?thesis using I(4) [of _ "TRANSITION BASEP"] by (cases "Q (TRANSITION BASEP)") auto
  qed (simp add: assms(2))
  then have e: "l_first (m_links s) (TRANSITION t) = NULL" "l_last (m_links s) (TRANSITION t) = NULL" "l_num (m_links s) (TRANSITION t) = 0" for t
    using dll_repD(4-6) [OF I(1)] by simp_all
  have "(\<lambda>l. case l of TRANSITION _ \<Rightarrow> NULL | _ \<Rightarrow> l_first (m_links s) l) = l_first (m_links s)"
    "(\<lambda>l. case l of TRANSITION _ \<Rightarrow> NULL | _ \<Rightarrow> l_last (m_links s) l) = l_last (m_links s)"
    "(\<lambda>l. case l of TRANSITION _ \<Rightarrow> 0 | _ \<Rightarrow> l_num (m_links s) l) = l_num (m_links s)"
    by (simp_all add: fun_eq_iff e split: mmgr_list.split)
  then show ?thesis by (simp add: clear_transition_def)
qed

text \<open>The state between the two halves of a pass.\<close>

definition ready :: "addr set \<Rightarrow> bool \<Rightarrow> (mmgr_list \<Rightarrow> addr list) \<Rightarrow> 'a mmgr_state_scheme \<Rightarrow> (mmgr_list \<Rightarrow> addr list) \<Rightarrow>
    'a mmgr_state_scheme \<Rightarrow> bool" where
  "ready F dram Q s Q' s' \<longleftrightarrow> mm_inv F {} Q' s' \<and> in_tier dram Q' s' \<and> same_pages s s' \<and> same_bytes s s' \<and>
     (\<forall>b. Q' (free_nodes b) = Q (free_nodes b))"

lemma collected_ready: "collected F dram l Q s Q' s' \<Longrightarrow> l \<notin> range free_nodes \<Longrightarrow> ready F dram Q s Q' s'"
  unfolding collected_def ready_def by (metis dst_list_simps(3) insertE rangeI singletonD)

lemma ready_trans: "ready F dram Q s Q1 s1 \<Longrightarrow> ready F dram Q1 s1 Q2 s2 \<Longrightarrow> ready F dram Q s Q2 s2"
  by (auto simp: ready_def same_bytes_def intro: same_pages_trans)

lemma ready_accounted: "ready F dram Q s Q' s' \<Longrightarrow> accounted r r' Q s \<Longrightarrow> accounted r r' Q' s'"
  by (simp add: ready_def accounted_def same_bytes_def)

lemma ready_pass: "ready F dram Q s Q' s' \<Longrightarrow> Q' (TRANSITION HUGEP) = [] \<Longrightarrow> pass_ok F Q s s'"
  using ready_accounted [of F dram Q s Q' s'] by (auto simp: pass_ok_def ready_def same_bytes_def)

lemma move_collected:
  assumes C: "ready F (\<not> up) Q s Q1 s1" and K: "kernel_ok K"
  shows "\<And>s'. move_all K up s1 = Some s' \<Longrightarrow> pass_ok F Q s s'"
    and "kernel_live K \<Longrightarrow> List.length (Q1 (TRANSITION HUGEP)) \<le> List.length (Q (free_nodes up)) \<Longrightarrow> move_all K up s1 \<noteq> None"
proof -
  have c: "mm_inv F {} Q1 s1" "in_tier (\<not> up) Q1 s1" "same_pages s s1" "same_bytes s s1" "\<And>b. Q1 (free_nodes b) = Q (free_nodes b)"
    using C by (simp_all add: ready_def)
  note M = move_all_ok [OF c(1,2) K]
  show "pass_ok F Q s s'" if r: "move_all K up s1 = Some s'" for s'
  proof -
    from M [THEN conjunct1, rule_format, OF r] obtain Q' where "mm_inv F {} Q' s'" "Q' (TRANSITION HUGEP) = []" "same_pages s1 s'"
      "dramsize s' = dramsize s1" "nvmsize s' = nvmsize s1" "\<forall>r r'. accounted r r' Q1 s1 \<longrightarrow> accounted r r' Q' s'" by auto
    then show ?thesis unfolding pass_ok_def using ready_accounted [OF C] same_pages_trans [OF c(3)] c(4)
      by (intro exI [of _ Q']) (simp add: same_bytes_def)
  qed
  show "kernel_live K \<Longrightarrow> List.length (Q1 (TRANSITION HUGEP)) \<le> List.length (Q (free_nodes up)) \<Longrightarrow> move_all K up s1 \<noteq> None"
    using M c(5) by simp
qed

lemma after_tlb: "do { s \<leftarrow> arms_tlb_shootdown G v t; f s } = Some t' \<Longrightarrow> f t = Some t'"
  by (auto simp: arms_tlb_shootdown_def bind_Some_iff)

lemma move_hot_ok:
  assumes inv: "mm_inv F {} Q s" and T: "Q (TRANSITION HUGEP) = []" and K: "kernel_ok K"
  shows "\<And>s'. move_hot K G s = Some s' \<Longrightarrow> pass_ok F Q s s'"
    and "kernel_live K \<Longrightarrow> placed UNIV s \<Longrightarrow> k_tlbflush G 0 \<Longrightarrow> accounted r r' Q s \<Longrightarrow> move_hot K G s \<noteq> None"
proof -
  have z: "unat (0 :: u64) = List.length (Q (TRANSITION HUGEP)) * 2 ^ 21" "in_tier False Q s" by (simp_all add: T in_tier_def)
  note H = hot_collect_ok [OF inv z(2,1) K] and c = clear_transition_same [OF inv T]
  have tail: "move_hot K G s = (if tb = 0 then Some s1 else do { s \<leftarrow> arms_tlb_shootdown G 0 s1; move_all K True s })"
    if "hot_collect K 0 s = Some (tb, s1)" for tb s1 using that by (simp add: move_hot_def c move_all_def)
  have free: "hot_src \<notin> range free_nodes" by (auto simp: free_nodes_def)
  show "pass_ok F Q s s'" if run: "move_hot K G s = Some s'" for s'
  proof -
    obtain tb s1 where h: "hot_collect K 0 s = Some (tb, s1)"
      using run by (cases "hot_collect K 0 s") (auto simp: move_hot_def c)
    obtain Q1 where Q1: "collected F False hot_src Q s Q1 s1" "unat tb = List.length (Q1 (TRANSITION HUGEP)) * 2 ^ 21" using H h by blast
    have C: "ready F (\<not> True) Q s Q1 s1" using collected_ready [OF Q1(1) free] by simp
    show ?thesis
    proof (cases "tb = 0")
      case True
      then have "s' = s1" "Q1 (TRANSITION HUGEP) = []" using run tail [OF h] Q1(2) by simp_all
      then show ?thesis using ready_pass [OF C] by simp
    next
      case False
      then have "do { s \<leftarrow> arms_tlb_shootdown G 0 s1; move_all K True s } = Some s'" using run tail [OF h] by simp
      from after_tlb [OF this] show ?thesis by (rule move_collected(1) [OF C K])
    qed
  qed
  show "move_hot K G s \<noteq> None" if live: "kernel_live K" "placed UNIV s" "k_tlbflush G 0" "accounted r r' Q s"
  proof -
    obtain tb s1 where h: "hot_collect K 0 s = Some (tb, s1)" using H live by fastforce
    obtain Q1 where Q1: "collected F False hot_src Q s Q1 s1" "unat tb = List.length (Q1 (TRANSITION HUGEP)) * 2 ^ 21"
      "tb = 0 \<or> unat tb < unat (fastmem_freebytes s)" using H h by blast
    have C: "ready F (\<not> True) Q s Q1 s1" using collected_ready [OF Q1(1) free] by simp
    have "List.length (Q1 (TRANSITION HUGEP)) \<le> List.length (Q (free_nodes True))"
      using Q1(2,3) live(4) by (auto simp: accounted_def)
    then have "move_all K True s1 \<noteq> None" by (rule move_collected(2) [OF C K live(1)])
    then show ?thesis using tail [OF h] live(3) by (simp add: arms_tlb_shootdown_def)
  qed
qed

text \<open>The cold pages: first the inactive ones, and when there are none and memory is short, active ones.\<close>

definition few :: "'a mmgr_state_scheme \<Rightarrow> nat \<Rightarrow> bool" where
  "few s k \<longleftrightarrow> (unat (fastmem_freebytes s) < 2 ^ 63 \<longrightarrow> k \<le> 1 \<or>
     unat (fastmem_freebytes s) + k * 2 ^ 21 < unat (ARMS_FASTFREE s) + 2 ^ 21)"

lemma cold_collect_ready:
  assumes inv: "mm_inv F {} Q s" and T: "Q (TRANSITION HUGEP) = []" and K: "kernel_ok K"
    and l: "l = MEM_INACTIVE FASTMEM HUGEP \<or> l = MEM_ACTIVE FASTMEM HUGEP"
  shows "cold_collect K l 0 s = Some (tb, s1) \<Longrightarrow> \<exists>Q1. ready F True Q s Q1 s1 \<and> (tb = 0 \<longleftrightarrow> Q1 (TRANSITION HUGEP) = []) \<and>
      few s (List.length (Q1 (TRANSITION HUGEP)))"
    and "kernel_live K \<Longrightarrow> placed UNIV s \<Longrightarrow> cold_collect K l 0 s \<noteq> None"
proof -
  have z: "unat (0 :: u64) = List.length (Q (TRANSITION HUGEP)) * 2 ^ 21" "in_tier True Q s" by (simp_all add: T in_tier_def)
  note H = cold_collect_ok [OF inv z(2,1) K l]
  have lf: "l \<notin> range free_nodes" using l by (auto simp: free_nodes_def)
  show "\<exists>Q1. ready F True Q s Q1 s1 \<and> (tb = 0 \<longleftrightarrow> Q1 (TRANSITION HUGEP) = []) \<and> few s (List.length (Q1 (TRANSITION HUGEP)))"
    if r: "cold_collect K l 0 s = Some (tb, s1)"
  proof -
    from H [THEN conjunct1, rule_format, OF r] obtain Q1 where Q1: "collected F True l Q s Q1 s1"
      "unat tb = List.length (Q1 (TRANSITION HUGEP)) * 2 ^ 21"
      "unat (fastmem_freebytes s) < 2 ^ 63 \<longrightarrow> List.length (Q1 (TRANSITION HUGEP)) \<le> List.length (Q (TRANSITION HUGEP)) + 1 \<or>
         unat (fastmem_freebytes s) + unat tb < unat (ARMS_FASTFREE s) + 2 ^ 21" by blast
    have "tb = 0 \<longleftrightarrow> unat tb = 0" by (simp add: unat_eq_0)
    then have "tb = 0 \<longleftrightarrow> Q1 (TRANSITION HUGEP) = []" unfolding Q1(2) by simp
    moreover have "few s (List.length (Q1 (TRANSITION HUGEP)))" using Q1(3) unfolding few_def Q1(2) T by simp
    ultimately show ?thesis using collected_ready [OF Q1(1) lf] by blast
  qed
  show "kernel_live K \<Longrightarrow> placed UNIV s \<Longrightarrow> cold_collect K l 0 s \<noteq> None" using H by blast
qed

lemma move_cold_run:
  assumes inv: "mm_inv F {} Q s" and T: "Q (TRANSITION HUGEP) = []" and K: "kernel_ok K"
  obtains s1 Q1 where "ready F True Q s Q1 s1" "few s (List.length (Q1 (TRANSITION HUGEP)))"
      "move_cold K G s = Some s1 \<and> Q1 (TRANSITION HUGEP) = [] \<or> move_cold K G s = do { s \<leftarrow> arms_tlb_shootdown G 0 s1; move_all K False s }"
    | "move_cold K G s = None" "\<not> (kernel_live K \<and> placed UNIV s)"
proof -
  let ?T = "TRANSITION HUGEP" and ?I = "MEM_INACTIVE FASTMEM HUGEP" and ?A = "MEM_ACTIVE FASTMEM HUGEP"
  note c = clear_transition_same [OF inv T]
  show thesis
  proof (cases "cold_collect K ?I 0 s")
    case None
    then have "move_cold K G s = None" by (simp add: move_cold_def c)
    then show thesis using cold_collect_ready(2) [OF inv T K, of ?I] None that(2) by blast
  next
    case (Some r)
    then obtain tb s1 where h: "cold_collect K ?I 0 s = Some (tb, s1)" by (cases r) auto
    obtain Q1 where Q1: "ready F True Q s Q1 s1" "tb = 0 \<longleftrightarrow> Q1 ?T = []" "few s (List.length (Q1 ?T))"
      using cold_collect_ready(1) [OF inv T K _ h] by auto
    show thesis
    proof (cases "tb = 0")
      case False
      then have "move_cold K G s = do { s \<leftarrow> arms_tlb_shootdown G 0 s1; move_all K False s }" by (simp add: move_cold_def c h move_all_def)
      then show thesis using that(1) [OF Q1(1,3)] by blast
    next
      case zero: True
      show thesis
      proof (cases "fastmem_freebytes s1 \<le> ARMS_FASTFREE s1")
        case False
        then have "move_cold K G s = Some s1" using zero by (simp add: move_cold_def c h)
        then show thesis using that(1) [OF Q1(1,3)] Q1(2) zero by blast
      next
        case low: True
        have q: "mm_inv F {} Q1 s1" "Q1 ?T = []" "same_pages s s1" "same_bytes s s1" using Q1(1,2) zero by (simp_all add: ready_def)
        have fb: "few s1 k = few s k" for k using q(4) by (simp add: few_def same_bytes_def ARMS_FASTFREE_def)
        have run: "move_cold K G s = do { (tb2, s2) \<leftarrow> cold_collect K ?A 0 s1; s \<leftarrow> arms_tlb_shootdown G 0 s2; move_all K False s }"
          using zero low by (simp add: move_cold_def c h move_all_def)
        show thesis
        proof (cases "cold_collect K ?A 0 s1")
          case None
          then have "move_cold K G s = None" by (simp add: run)
          moreover have "\<not> (kernel_live K \<and> placed UNIV s)"
            using cold_collect_ready(2) [OF q(1,2) K, of ?A] None same_pages_placed [OF q(3)] by blast
          ultimately show thesis by (rule that(2))
        next
          case (Some r)
          then obtain tb2 s2 where h2: "cold_collect K ?A 0 s1 = Some (tb2, s2)" by (cases r) auto
          obtain Q2 where Q2: "ready F True Q1 s1 Q2 s2" "few s1 (List.length (Q2 ?T))"
            using cold_collect_ready(1) [OF q(1,2) K _ h2] by auto
          have "move_cold K G s = do { s \<leftarrow> arms_tlb_shootdown G 0 s2; move_all K False s }" by (simp add: run h2)
          then show thesis using that(1) [OF ready_trans [OF Q1(1) Q2(1)]] Q2(2) unfolding fb by blast
        qed
      qed
    qed
  qed
qed

lemma move_cold_ok:
  assumes inv: "mm_inv F {} Q s" and T: "Q (TRANSITION HUGEP) = []" and K: "kernel_ok K"
  shows "\<And>s'. move_cold K G s = Some s' \<Longrightarrow> pass_ok F Q s s'"
    and "kernel_live K \<Longrightarrow> placed UNIV s \<Longrightarrow> k_tlbflush G 0 \<Longrightarrow> accounted r r' Q s \<Longrightarrow>
      unat (ARMS_FASTFREE s) div 2 ^ 21 + 1 \<le> List.length (Q (free_nodes False)) \<Longrightarrow> move_cold K G s \<noteq> None"
proof -
  show "pass_ok F Q s s'" if run: "move_cold K G s = Some s'" for s'
  proof (cases rule: move_cold_run [OF inv T K, of G])
    case (1 s1 Q1)
    from 1(3) show ?thesis
    proof
      assume "move_cold K G s = Some s1 \<and> Q1 (TRANSITION HUGEP) = []"
      then show ?thesis using run ready_pass [OF 1(1)] by simp
    next
      assume "move_cold K G s = do { s \<leftarrow> arms_tlb_shootdown G 0 s1; move_all K False s }"
      then have "do { s \<leftarrow> arms_tlb_shootdown G 0 s1; move_all K False s } = Some s'" using run by simp
      from after_tlb [OF this] show ?thesis using move_collected(1) [of F False Q s Q1 s1 K s'] 1(1) K by simp
    qed
  qed (use run in simp)
  show "move_cold K G s \<noteq> None"
    if live: "kernel_live K" "placed UNIV s" "k_tlbflush G 0" and acc: "accounted r r' Q s"
      and room: "unat (ARMS_FASTFREE s) div 2 ^ 21 + 1 \<le> List.length (Q (free_nodes False))"
  proof (cases rule: move_cold_run [OF inv T K, of G])
    case (1 s1 Q1)
    have r: "ready F (\<not> False) Q s Q1 s1" using 1(1) by simp
    have "List.length (Q1 (TRANSITION HUGEP)) \<le> List.length (Q (free_nodes False))"
    proof -
      have "unat (fastmem_freebytes s) < 2 ^ 63" using acc list_bound [OF inv, of "free_nodes True"] by (simp add: accounted_def)
      then have "List.length (Q1 (TRANSITION HUGEP)) \<le> 1 \<or> List.length (Q1 (TRANSITION HUGEP)) * 2 ^ 21 < unat (ARMS_FASTFREE s) + 2 ^ 21"
        using 1(2) by (auto simp: few_def)
      moreover have "k \<le> x div 2 ^ 21 + 1" if "k * 2 ^ 21 < x + 2 ^ 21" for k x :: nat using that by simp
      ultimately show ?thesis using room by (meson le_add2 order_trans)
    qed
    from move_collected(2) [OF r K live(1) this] show ?thesis using 1(3) live(3) by (auto simp: arms_tlb_shootdown_def)
  next
    case 2
    then show ?thesis using live by blast
  qed
qed

end
