(* ===== verification/Mmgr_Sweep.thy ===== *)
theory Mmgr_Sweep
  imports Mmgr_Moves
begin

text \<open>
  Cooling and thawing. Both are sweeps over one list per tier that put each node either back into its list
  or into another one; the locale \<open>node_sweep\<close> is the contract of one visit, and its lemma says what the lists
  are after the sweep: the nodes at the end of the list that were visited, divided in order, and the rest.
\<close>

section \<open>Sweeps\<close>

definition visited :: "(memtypes \<Rightarrow> mmgr_list) \<Rightarrow> (memtypes \<Rightarrow> mmgr_list) \<Rightarrow> (addr \<Rightarrow> bool) \<Rightarrow> memtypes \<Rightarrow> (mmgr_list \<Rightarrow> addr list) \<Rightarrow>
    mmgr_list \<Rightarrow> addr list" where
  "visited src dst keep mt Q =
     (let n = last (Q (src mt)); Q1 = Q(src mt := butlast (Q (src mt))); l = (if keep n then src mt else dst mt) in Q1(l := n # Q1 l))"

locale node_sweep =
  fixes visit :: "memtypes \<Rightarrow> (memtypes \<Rightarrow> addr) \<Rightarrow> u64 \<Rightarrow> 'a mmgr_state_scheme \<Rightarrow> ((memtypes \<Rightarrow> addr) \<times> u64 \<times> 'a mmgr_state_scheme) option"
    and src :: "memtypes \<Rightarrow> mmgr_list" and dst :: "memtypes \<Rightarrow> mmgr_list"
    and keep :: "addr \<Rightarrow> bool" and live :: bool and fresh :: "'a mmgr_state_scheme \<Rightarrow> addr \<Rightarrow> bool"
  assumes lists: "src mt = src mt' \<Longrightarrow> mt = mt'" "dst mt = dst mt' \<Longrightarrow> mt = mt'" "src mt \<noteq> dst mt'"
    and idle: "mm_inv F {} Q s \<Longrightarrow> Q (src mt) = [] \<or> bm mt = last (Q (src mt)) \<Longrightarrow> visit mt bm sw s = Some (bm, sw, s)"
    and busy: "\<lbrakk>mm_inv F {} Q s; Q (src mt) \<noteq> []; bm mt \<noteq> last (Q (src mt)); fresh s (last (Q (src mt)))\<rbrakk> \<Longrightarrow>
      (\<forall>r. visit mt bm sw s = Some r \<longrightarrow> (\<exists>s'. r = (if keep (last (Q (src mt))) then set_bookmark mt (last (Q (src mt))) bm else bm, sw + HUGEPAGE_SIZE, s') \<and>
         mm_inv F {} (visited src dst keep mt Q) s' \<and> same_nodes s s' \<and> same_bytes s s' \<and>
         (\<forall>m. m \<noteq> last (Q (src mt)) \<longrightarrow> fresh s m \<longrightarrow> fresh s' m))) \<and>
      (live \<longrightarrow> visit mt bm sw s \<noteq> None)"

text \<open>\<open>V\<close> are the nodes of the start that were visited, \<open>U\<close> those that were not.\<close>

definition divided :: "(memtypes \<Rightarrow> mmgr_list) \<Rightarrow> (memtypes \<Rightarrow> mmgr_list) \<Rightarrow> (addr \<Rightarrow> bool) \<Rightarrow> (mmgr_list \<Rightarrow> addr list) \<Rightarrow>
    (memtypes \<Rightarrow> addr list) \<Rightarrow> (memtypes \<Rightarrow> addr list) \<Rightarrow> (mmgr_list \<Rightarrow> addr list) \<Rightarrow> bool" where
  "divided src dst keep Q0 U V Q \<longleftrightarrow>
     (\<forall>mt. Q0 (src mt) = U mt @ V mt \<and> Q (src mt) = filter keep (V mt) @ U mt \<and> Q (dst mt) = filter (\<lambda>n. \<not> keep n) (V mt) @ Q0 (dst mt)) \<and>
     (\<forall>l. l \<notin> range src \<union> range dst \<longrightarrow> Q l = Q0 l)"

definition bookmark_of :: "(addr \<Rightarrow> bool) \<Rightarrow> addr list \<Rightarrow> addr" where
  "bookmark_of keep V = (if filter keep V = [] then NULL else last (filter keep V))"

definition node_total :: "(memtypes \<Rightarrow> addr list) \<Rightarrow> nat" where
  "node_total U = List.length (U FASTMEM) + List.length (U SLOWMEM)"

definition sweeping :: "addr set \<Rightarrow> (memtypes \<Rightarrow> mmgr_list) \<Rightarrow> (memtypes \<Rightarrow> mmgr_list) \<Rightarrow> (addr \<Rightarrow> bool) \<Rightarrow>
    ('a mmgr_state_scheme \<Rightarrow> addr \<Rightarrow> bool) \<Rightarrow> (mmgr_list \<Rightarrow> addr list) \<Rightarrow> 'a mmgr_state_scheme \<Rightarrow>
    (memtypes \<Rightarrow> addr list) \<Rightarrow> (memtypes \<Rightarrow> addr list) \<Rightarrow> (mmgr_list \<Rightarrow> addr list) \<Rightarrow> (memtypes \<Rightarrow> addr) \<Rightarrow> u64 \<Rightarrow> 'a mmgr_state_scheme \<Rightarrow> bool" where
  "sweeping F src dst keep fresh Q0 s0 U V Q bm sw s \<longleftrightarrow>
     mm_inv F {} Q0 s0 \<and> mm_inv F {} Q s \<and> divided src dst keep Q0 U V Q \<and> (\<forall>mt. bm mt = bookmark_of keep (V mt)) \<and>
     (\<forall>mt. \<forall>n\<in>set (U mt). fresh s n) \<and> unat sw = node_total V * 2 ^ 21 \<and> node_total U + node_total V < 2 ^ 32 \<and> same_nodes s0 s \<and> same_bytes s0 s"

lemma bookmark_Cons: "n \<noteq> NULL \<Longrightarrow> NULL \<notin> set V \<Longrightarrow>
    bookmark_of keep (n # V) = (if keep n \<and> bookmark_of keep V = NULL then n else bookmark_of keep V)"
proof -
  assume n: "n \<noteq> NULL" "NULL \<notin> set V"
  have "last (filter keep V) \<noteq> NULL" if "filter keep V \<noteq> []"
  proof -
    have "last (filter keep V) \<in> set V" using last_in_set [OF that] by simp
    then show ?thesis using n(2) by auto
  qed
  then show ?thesis by (auto simp: bookmark_of_def)
qed

context node_sweep
begin

lemma lists_neq: "src m = src mt \<longleftrightarrow> m = mt" "dst m = dst mt \<longleftrightarrow> m = mt" "src m \<noteq> dst mt" "dst m \<noteq> src mt"
  using lists(1) lists(2) lists(3) [of m mt] lists(3) [of mt m] by auto

lemma visit_done:
  assumes S: "sweeping F src dst keep fresh Q0 s0 U V Q bm sw s" and U: "U mt = []"
  shows "visit mt bm sw s = Some (bm, sw, s)"
proof (rule idle)
  show "mm_inv F {} Q s" using S by (simp add: sweeping_def)
  have "Q (src mt) = filter keep (V mt)" "bm mt = bookmark_of keep (V mt)" using S U by (simp_all add: sweeping_def divided_def)
  then show "Q (src mt) = [] \<or> bm mt = last (Q (src mt))" by (simp add: bookmark_of_def)
qed

lemma visit_next:
  assumes S: "sweeping F src dst keep fresh Q0 s0 U V Q bm sw s" and U: "U mt \<noteq> []"
  defines "n \<equiv> last (U mt)"
  shows "visit mt bm sw s = Some r \<Longrightarrow> \<exists>Q' bm' sw' s'. r = (bm', sw', s') \<and> unat sw' = unat sw + 2 ^ 21 \<and>
      sweeping F src dst keep fresh Q0 s0 (U(mt := butlast (U mt))) (V(mt := n # V mt)) Q' bm' sw' s'"
    and "live \<Longrightarrow> visit mt bm sw s \<noteq> None"
proof -
  have s: "mm_inv F {} Q s" "divided src dst keep Q0 U V Q" "\<And>mt. bm mt = bookmark_of keep (V mt)" "\<And>mt m. m \<in> set (U mt) \<Longrightarrow> fresh s m"
    "unat sw = node_total V * 2 ^ 21" "node_total U + node_total V < 2 ^ 32" "same_nodes s0 s" "same_bytes s0 s"
    "mm_inv F {} Q0 s0"
    using S by (simp_all add: sweeping_def)
  note D0 = dll_repD [OF mm_invD(1) [OF s(9)]]
  have q: "Q0 (src m) = U m @ V m" "Q (src m) = filter keep (V m) @ U m" "Q (dst m) = filter (\<lambda>n. \<not> keep n) (V m) @ Q0 (dst m)"
    "l \<notin> range src \<union> range dst \<Longrightarrow> Q l = Q0 l" for m l using s(2) by (simp_all add: divided_def)
  note D = dll_repD [OF mm_invD(1) [OF s(1)]]
  have l: "last (Q (src mt)) = n" "Q (src mt) \<noteq> []" "n \<in> set (U mt)" using U by (simp_all add: q(2) n_def)
  have nN: "n \<noteq> NULL" using D(2) [of "src mt"] l(3) q(2) [of mt] by auto
  have VN: "NULL \<notin> set (V mt)" using D0(2) [of "src mt"] unfolding q(1) by simp
  have bmn: "bm mt \<noteq> n"
  proof (cases "filter keep (V mt) = []")
    case True
    then show ?thesis using nN by (simp add: s(3) bookmark_of_def)
  next
    case False
    have "distinct (filter keep (V mt) @ U mt)" using D(1) [of "src mt"] unfolding q(2) .
    then show ?thesis using last_in_set [OF False] l(3) False by (auto simp: s(3) bookmark_of_def)
  qed
  have B: "(\<forall>r. visit mt bm sw s = Some r \<longrightarrow> (\<exists>s'. r = (if keep n then set_bookmark mt n bm else bm, sw + HUGEPAGE_SIZE, s') \<and>
         mm_inv F {} (visited src dst keep mt Q) s' \<and> same_nodes s s' \<and> same_bytes s s' \<and> (\<forall>m. m \<noteq> n \<longrightarrow> fresh s m \<longrightarrow> fresh s' m))) \<and>
      (live \<longrightarrow> visit mt bm sw s \<noteq> None)"
    using busy [where bm = bm and sw = sw, OF s(1) l(2), unfolded l(1), OF bmn s(4) [OF l(3)]] by blast
  then show "live \<Longrightarrow> visit mt bm sw s \<noteq> None" by blast
  assume "visit mt bm sw s = Some r"
  with B obtain s' where s': "r = (if keep n then set_bookmark mt n bm else bm, sw + HUGEPAGE_SIZE, s')"
    "mm_inv F {} (visited src dst keep mt Q) s'" "same_nodes s s'" "same_bytes s s'" "\<And>m. m \<noteq> n \<Longrightarrow> fresh s m \<Longrightarrow> fresh s' m" by blast
  let ?U = "U(mt := butlast (U mt))" and ?V = "V(mt := n # V mt)" and ?bm = "if keep n then set_bookmark mt n bm else bm"
  have ul: "U mt = butlast (U mt) @ [n]" using U by (simp add: n_def)
  have tot: "node_total ?V = Suc (node_total V)" "node_total ?U + 1 = node_total U"
    using U by (cases mt; simp add: node_total_def; cases "U mt" rule: rev_cases; simp)+
  have "divided src dst keep Q0 ?U ?V (visited src dst keep mt Q)"
    unfolding divided_def
  proof (intro conjI allI impI)
    fix m k
    have "Q0 (src mt) = (butlast (U mt) @ [n]) @ V mt" unfolding ul [symmetric] by (rule q(1))
    then show "Q0 (src m) = ?U m @ ?V m" using q(1) [of m] by (cases "m = mt") simp_all
    show "visited src dst keep mt Q (src m) = filter keep (?V m) @ ?U m" using q(2) U l(1)
      by (cases "m = mt") (auto simp: visited_def Let_def butlast_append lists_neq)
    show "visited src dst keep mt Q (dst m) = filter (\<lambda>n. \<not> keep n) (?V m) @ Q0 (dst m)" using q(3) l(1)
      by (cases "m = mt") (auto simp: visited_def Let_def lists_neq)
    show "visited src dst keep mt Q k = Q0 k" if "k \<notin> range src \<union> range dst"
      using that q(4) [OF that] by (auto simp: visited_def Let_def)
  qed
  moreover have "?bm m = bookmark_of keep (?V m)" for m
    using bookmark_Cons [OF nN VN] s(3) by (cases "m = mt") (auto simp: set_bookmark_def)
  moreover have "fresh s' x" if "x \<in> set (?U m)" for m x
  proof (cases "m = mt")
    case True
    then have "x \<in> set (butlast (U mt))" using that by simp
    moreover have "distinct (U mt)" using D0(1) [of "src mt"] unfolding q(1) by simp
    then have "n \<notin> set (butlast (U mt))" by (subst (asm) ul) simp
    ultimately show ?thesis using s'(5) s(4) [of x mt] in_set_butlastD by fast
  next
    case False
    then have "x \<in> set (U m)" using that by simp
    moreover have "x \<noteq> n"
    proof
      assume "x = n"
      then have "x \<in> set (Q0 (src m))" "x \<in> set (Q0 (src mt))" using \<open>x \<in> set (U m)\<close> l(3) unfolding q(1) by simp_all
      then show False using dll_rep_disjoint [OF mm_invD(1) [OF s(9)]] lists(1) False by blast
    qed
    ultimately show ?thesis using s'(5) s(4) by blast
  qed
  moreover have sw: "unat (sw + HUGEPAGE_SIZE) = unat sw + 2 ^ 21" using s(5,6) by (intro unat_add_page) simp
  ultimately have "sweeping F src dst keep fresh Q0 s0 ?U ?V (visited src dst keep mt Q) ?bm (sw + HUGEPAGE_SIZE) s'"
    using s' s tot same_nodes_trans [OF s(7) s'(3)] by (simp add: sweeping_def same_bytes_def)
  then show "\<exists>Q' bm' sw' s'. r = (bm', sw', s') \<and> unat sw' = unat sw + 2 ^ 21 \<and> sweeping F src dst keep fresh Q0 s0 ?U ?V Q' bm' sw' s'"
    using s'(1) sw by blast
qed

definition next_ok where
  "next_ok F Q0 s0 mt U sw r \<longleftrightarrow> (\<exists>U' V' Q' bm' sw' s'. r = (bm', sw', s') \<and> sweeping F src dst keep fresh Q0 s0 U' V' Q' bm' sw' s' \<and>
     (\<forall>m. m \<noteq> mt \<longrightarrow> U' m = U m) \<and> (if U mt = [] then U' = U \<and> sw' = sw else node_total U' + 1 = node_total U \<and> unat sw' = unat sw + 2 ^ 21))"

lemma visit_any:
  assumes S: "sweeping F src dst keep fresh Q0 s0 U V Q bm sw s"
  shows "visit mt bm sw s = Some r \<Longrightarrow> next_ok F Q0 s0 mt U sw r" and "live \<Longrightarrow> visit mt bm sw s \<noteq> None"
proof -
  show "next_ok F Q0 s0 mt U sw r" if r: "visit mt bm sw s = Some r"
  proof (cases "U mt = []")
    case True
    then have "r = (bm, sw, s)" using visit_done [OF S True] r by simp
    then show ?thesis using S True unfolding next_ok_def by (intro exI [of _ U] exI [of _ V] exI [of _ Q] exI [of _ bm] exI [of _ sw] exI [of _ s]) simp
  next
    case False
    let ?U = "U(mt := butlast (U mt))" and ?V = "V(mt := last (U mt) # V mt)"
    obtain Q' bm' sw' s' where "r = (bm', sw', s')" "unat sw' = unat sw + 2 ^ 21" "sweeping F src dst keep fresh Q0 s0 ?U ?V Q' bm' sw' s'"
      using visit_next(1) [OF S False r] by blast
    moreover have "node_total ?U + 1 = node_total U" using False by (cases mt; simp add: node_total_def; cases "U mt" rule: rev_cases; simp)
    ultimately show ?thesis using False unfolding next_ok_def
      by (intro exI [of _ ?U] exI [of _ ?V] exI [of _ Q'] exI [of _ bm'] exI [of _ sw'] exI [of _ s']) simp
  qed
  show "live \<Longrightarrow> visit mt bm sw s \<noteq> None" using visit_done [OF S] visit_next(2) [OF S] by (cases "U mt = []") auto
qed

text \<open>The sweep ends, either at its rate or after all nodes were visited.\<close>

lemma sweep_ok:
  assumes "sweeping F src dst keep fresh Q0 s0 U V Q bm sw s"
  shows "(\<forall>s'. sweep visit rate bm sw s = Some s' \<longrightarrow> (\<exists>U' V' Q' bm' sw'. sweeping F src dst keep fresh Q0 s0 U' V' Q' bm' sw' s' \<and>
      (rate \<le> sw' \<or> node_total U' = 0))) \<and> (live \<longrightarrow> sweep visit rate bm sw s \<noteq> None)"
  using assms
proof (induction "node_total U" arbitrary: U V Q bm sw s rule: less_induct)
  case less
  show ?case
  proof (cases "sw < rate")
    case False
    then have "sweep visit rate bm sw s = Some s" by (subst sweep.simps) simp
    moreover have "rate \<le> sw" using False by simp
    ultimately show ?thesis using less(2) by (metis option.distinct(1) option.inject)
  next
    case go: True
    have run: "sweep visit rate bm sw s = do { (bm1, sw1, s1) \<leftarrow> visit FASTMEM bm sw s; (bm2, sw2, s2) \<leftarrow> visit SLOWMEM bm1 sw1 s1;
        (if sw2 = sw then Some s2 else sweep visit rate bm2 sw2 s2) }"
      by (subst sweep.simps) (simp add: go Let_def)
    show ?thesis
    proof (cases "visit FASTMEM bm sw s")
      case None
      then show ?thesis using visit_any(2) [OF less(2), of FASTMEM] by (auto simp: run)
    next
      case (Some r)
      obtain U1 V1 Q1 bm1 sw1 s1 where 1: "r = (bm1, sw1, s1)" "sweeping F src dst keep fresh Q0 s0 U1 V1 Q1 bm1 sw1 s1" "U1 SLOWMEM = U SLOWMEM"
        "if U FASTMEM = [] then U1 = U \<and> sw1 = sw else node_total U1 + 1 = node_total U \<and> unat sw1 = unat sw + 2 ^ 21"
        using visit_any(1) [OF less(2) Some] unfolding next_ok_def by (metis memtypes.distinct(1))
      show ?thesis
      proof (cases "visit SLOWMEM bm1 sw1 s1")
        case None
        then show ?thesis using visit_any(2) [OF 1(2), of SLOWMEM] Some by (auto simp: run 1(1))
      next
        case r2: (Some r2)
        obtain U2 V2 Q2 bm2 sw2 s2 where 2: "r2 = (bm2, sw2, s2)" "sweeping F src dst keep fresh Q0 s0 U2 V2 Q2 bm2 sw2 s2"
          "if U1 SLOWMEM = [] then U2 = U1 \<and> sw2 = sw1 else node_total U2 + 1 = node_total U1 \<and> unat sw2 = unat sw1 + 2 ^ 21"
          using visit_any(1) [OF 1(2) r2] unfolding next_ok_def by blast
        have e: "sweep visit rate bm sw s = (if sw2 = sw then Some s2 else sweep visit rate bm2 sw2 s2)" by (simp add: run Some 1(1) r2 2(1))
        show ?thesis
        proof (cases "sw2 = sw")
          case True
          then have "unat sw2 = unat sw" by simp
          then have "U FASTMEM = [] \<and> U1 SLOWMEM = []" using 1(4) 2(3) by (auto split: if_splits)
          then have "node_total U2 = 0" using 1(3,4) 2(3) by (simp add: node_total_def)
          then have "sweeping F src dst keep fresh Q0 s0 U2 V2 Q2 bm2 sw2 s2 \<and> (rate \<le> sw2 \<or> node_total U2 = 0)" using 2(2) by blast
          then show ?thesis using True unfolding e by simp blast
        next
          case False
          have "node_total U2 < node_total U" using False 1(4) 2(3) by (auto split: if_splits)
          from less(1) [OF this 2(2)] show ?thesis using False unfolding e by simp
        qed
      qed
    qed
  qed
qed

lemma sweep_all:
  assumes inv: "mm_inv F {} Q s" and fr: "\<And>mt n. n \<in> set (Q (src mt)) \<Longrightarrow> fresh s n"
  shows "\<And>s'. sweep visit rate (\<lambda>_. NULL) 0 s = Some s' \<Longrightarrow> \<exists>U V Q'. mm_inv F {} Q' s' \<and> divided src dst keep Q U V Q' \<and> same_nodes s s' \<and>
      same_bytes s s' \<and> (node_total U = 0 \<or> unat rate \<le> node_total V * 2 ^ 21)"
    and "live \<Longrightarrow> sweep visit rate (\<lambda>_. NULL) 0 s \<noteq> None"
proof -
  have "node_total (\<lambda>mt. Q (src mt)) + node_total (\<lambda>_. []) < 2 ^ 32"
    using list_bound [OF inv, of "src FASTMEM"] list_bound [OF inv, of "src SLOWMEM"] by (simp add: node_total_def)
  then have "sweeping F src dst keep fresh Q s (\<lambda>mt. Q (src mt)) (\<lambda>_. []) Q (\<lambda>_. NULL) 0 s"
    using inv fr by (simp add: sweeping_def divided_def bookmark_of_def node_total_def same_bytes_def)
  note S = sweep_ok [OF this, of rate]
  show "live \<Longrightarrow> sweep visit rate (\<lambda>_. NULL) 0 s \<noteq> None" using S by blast
  fix s' assume "sweep visit rate (\<lambda>_. NULL) 0 s = Some s'"
  with S obtain U' V' Q' bm' sw' where s': "sweeping F src dst keep fresh Q s U' V' Q' bm' sw' s'" "rate \<le> sw' \<or> node_total U' = 0" by blast
  have "node_total U' = 0 \<or> unat rate \<le> node_total V' * 2 ^ 21" using s' by (auto simp: sweeping_def word_le_nat_alt)
  then show "\<exists>U V Q'. mm_inv F {} Q' s' \<and> divided src dst keep Q U V Q' \<and> same_nodes s s' \<and> same_bytes s s' \<and>
      (node_total U = 0 \<or> unat rate \<le> node_total V * 2 ^ 21)" using s'(1) unfolding sweeping_def by blast
qed

end

section \<open>Cooling and thawing are sweeps\<close>

abbreviation (input) active_of :: "memtypes \<Rightarrow> mmgr_list" where "active_of mt \<equiv> MEM_ACTIVE mt HUGEP"
abbreviation (input) inactive_of :: "memtypes \<Rightarrow> mmgr_list" where "inactive_of mt \<equiv> MEM_INACTIVE mt HUGEP"

lemma peek_last: "mm_inv F H Q s \<Longrightarrow> mmgr_list_peek (m_links s) l = (if Q l = [] then NULL else last (Q l))"
  by (simp add: mmgr_list_peek_def dll_repD(5) [OF mm_invD(1)])

text \<open>The node that a visit looks at: its flags, and that it can be put into either list.\<close>

lemma visit_node:
  assumes inv: "mm_inv F {} Q s" and ne: "Q l \<noteq> []" and l: "l = MEM_ACTIVE mt HUGEP \<or> l = MEM_INACTIVE mt HUGEP"
  defines "n \<equiv> last (Q l)"
  shows "\<exists>lk. node_remove l s = Some (n, s\<lparr>m_links := lk\<rparr>) \<and> n \<noteq> NULL \<and>
    arms_get_bits (with_flags f G) s (n_page s n) = Some (flag_bits f (n_page s n)) \<and> va (npage s n) mod HUGEPAGE_SIZE = 0 \<and>
    (\<forall>k t. k = MEM_ACTIVE mt HUGEP \<or> k = MEM_INACTIVE mt HUGEP \<longrightarrow> same_nodes s t \<longrightarrow> m_links t = lk \<longrightarrow>
       (\<exists>lk'. node_add k n t = Some (t\<lparr>m_links := lk'\<rparr>) \<and>
          mm_inv F {} ((Q(l := butlast (Q l)))(k := n # (Q(l := butlast (Q l))) k)) (t\<lparr>m_links := lk'\<rparr>)))"
proof -
  obtain lk where lk: "node_remove l s = Some (n, s\<lparr>m_links := lk\<rparr>)" "mm_inv F {n} (Q(l := butlast (Q l))) (s\<lparr>m_links := lk\<rparr>)" "n \<noteq> NULL"
    "fits_list l (npage s n)" "n \<in> F" unfolding n_def using mm_take [OF inv ne] by blast
  note N = nodes_okD [OF mm_invD(2) [OF inv]]
  have "arms_get_bits (with_flags f G) s (n_page s n) = Some (flag_bits f (n_page s n))"
    by (rule get_bits_with) (use N(5,6) [OF lk(5)] in simp_all)
  moreover have "\<exists>lk'. node_add k n t = Some (t\<lparr>m_links := lk'\<rparr>) \<and>
      mm_inv F {} ((Q(l := butlast (Q l)))(k := n # (Q(l := butlast (Q l))) k)) (t\<lparr>m_links := lk'\<rparr>)"
    if k: "k = MEM_ACTIVE mt HUGEP \<or> k = MEM_INACTIVE mt HUGEP" and t: "same_nodes s t" "m_links t = lk" for k t
  proof -
    have i: "mm_inv F {n} (Q(l := butlast (Q l))) t" by (rule mm_inv_same [OF lk(2)]) (use t in \<open>simp_all add: same_nodes_def\<close>)
    have "fits_list k (npage t n)" using k l lk(4) t(1) by (auto simp: same_nodes_def)
    from mm_put [OF i _ lk(3) this] show ?thesis by simp
  qed
  ultimately show ?thesis using lk(1,3) N(5) [OF lk(5)] by (intro exI [of _ lk] conjI) (simp, simp, simp, simp, blast)
qed

definition accessed_only :: "(addr \<Rightarrow> u64 \<times> u64) \<Rightarrow> 'a mmgr_state_scheme \<Rightarrow> addr \<Rightarrow> bool" where
  "accessed_only f s n \<longleftrightarrow> flag_bits f (n_page s n) = ARMS_ACCESSED_FLAG"

definition clears :: "flag_kernel \<Rightarrow> bool" where
  "clears G \<longleftrightarrow> (\<forall>v. v mod HUGEPAGE_SIZE = 0 \<longrightarrow> k_clear_flag G v)"

lemma clearsD: "clears G \<Longrightarrow> v mod HUGEPAGE_SIZE = 0 \<Longrightarrow> k_clear_flag G v"
  by (simp add: clears_def)

lemma clear_bits_same: "arms_clear_bits G v s = Some t \<Longrightarrow> t = s"
  by (auto simp: arms_clear_bits_def bind_Some_iff)

lemma clear_bits_with: "v mod HUGEPAGE_SIZE = 0 \<Longrightarrow> arms_clear_bits (with_flags f G) v s = (if k_clear_flag G v then Some s else None)"
  by (simp add: arms_clear_bits_def with_flags_def abort_simps)

interpretation cooling: node_sweep "cool_visit (with_flags f G)" "\<lambda>mt. MEM_ACTIVE mt HUGEP" "\<lambda>mt. MEM_INACTIVE mt HUGEP"
  "accessed_only f s0" "clears G" "\<lambda>s n. n_page s n = n_page s0 n"
proof
  fix F Q and s :: "'a mmgr_state_scheme" and bm :: "memtypes \<Rightarrow> addr" and sw :: u64 and mt
  assume inv: "mm_inv F {} Q s"
  let ?A = "MEM_ACTIVE mt HUGEP" and ?I = "MEM_INACTIVE mt HUGEP" and ?G = "with_flags f G"
  show "cool_visit ?G mt bm sw s = Some (bm, sw, s)" if "Q ?A = [] \<or> bm mt = last (Q ?A)"
    using that by (auto simp: cool_visit_def peek_last [OF inv] Let_def)
  assume ne: "Q ?A \<noteq> []" and bm: "bm mt \<noteq> last (Q ?A)" and fresh: "n_page s (last (Q ?A)) = n_page s0 (last (Q ?A))"
  let ?n = "last (Q ?A)"
  obtain lk where lk: "node_remove ?A s = Some (?n, s\<lparr>m_links := lk\<rparr>)" "?n \<noteq> NULL"
    "arms_get_bits ?G s (n_page s ?n) = Some (flag_bits f (n_page s ?n))" "va (npage s ?n) mod HUGEPAGE_SIZE = 0"
    and put: "\<forall>k t. k = ?A \<or> k = ?I \<longrightarrow> same_nodes s t \<longrightarrow> m_links t = lk \<longrightarrow> (\<exists>lk'. node_add k ?n t = Some (t\<lparr>m_links := lk'\<rparr>) \<and>
          mm_inv F {} ((Q(?A := butlast (Q ?A)))(k := ?n # (Q(?A := butlast (Q ?A))) k)) (t\<lparr>m_links := lk'\<rparr>))"
    using visit_node [OF inv ne disjI1 [OF HOL.refl], of f G] by (elim exE conjE) (rule that; assumption)
  let ?t = "s\<lparr>m_links := lk\<rparr>"
  have bits: "arms_get_bits ?G ?t (n_page s ?n) = Some (flag_bits f (n_page s ?n))" using lk(3) by (simp add: arms_get_bits_def)
  have keep: "accessed_only f s0 ?n \<longleftrightarrow> flag_bits f (n_page s ?n) = ARMS_ACCESSED_FLAG" by (simp add: accessed_only_def fresh)
  have sn: "same_nodes s ?t" "m_links ?t = lk" by (simp_all add: same_nodes_def)
  let ?l = "if accessed_only f s0 ?n then ?A else ?I"
  have l: "?l = ?A \<or> ?l = ?I" by simp
  from put [rule_format, OF l sn] obtain lk' where lk': "node_add ?l ?n ?t = Some (?t\<lparr>m_links := lk'\<rparr>)"
    "mm_inv F {} ((Q(?A := butlast (Q ?A)))(?l := ?n # (Q(?A := butlast (Q ?A))) ?l)) (?t\<lparr>m_links := lk'\<rparr>)"
    by (elim exE conjE) (rule that; assumption)
  have lk'2: "mm_inv F {} (visited (\<lambda>mt. MEM_ACTIVE mt HUGEP) (\<lambda>mt. MEM_INACTIVE mt HUGEP) (accessed_only f s0) mt Q) (?t\<lparr>m_links := lk'\<rparr>)"
    using lk'(2) unfolding visited_def Let_def .
  let ?bm = "if accessed_only f s0 ?n then set_bookmark mt ?n bm else bm"
  have run: "cool_visit ?G mt bm sw s = (if accessed_only f s0 ?n \<and> \<not> k_clear_flag G (va (npage s ?n)) then None
      else Some (?bm, sw + HUGEPAGE_SIZE, ?t\<lparr>m_links := lk'\<rparr>))"
  proof (cases "accessed_only f s0 ?n")
    case True
    then have b: "flag_bits f (n_page s ?n) = ARMS_ACCESSED_FLAG" and a: "node_add ?A ?n ?t = Some (?t\<lparr>m_links := lk'\<rparr>)"
      using keep lk'(1) by simp_all
    show ?thesis by (simp add: True cool_visit_def peek_last [OF inv] ne bm lk(1,2) bits b clear_bits_with [OF lk(4)] a)
  next
    case False
    then have b: "flag_bits f (n_page s ?n) \<noteq> ARMS_ACCESSED_FLAG" and a: "node_add ?I ?n ?t = Some (?t\<lparr>m_links := lk'\<rparr>)"
      using keep lk'(1) by simp_all
    show ?thesis by (simp add: False cool_visit_def peek_last [OF inv] ne bm lk(1,2) bits b a)
  qed
  have s': "same_nodes s (?t\<lparr>m_links := lk'\<rparr>)" "same_bytes s (?t\<lparr>m_links := lk'\<rparr>)" by (simp_all add: same_nodes_def same_bytes_def)
  show "(\<forall>r. cool_visit ?G mt bm sw s = Some r \<longrightarrow> (\<exists>s'. r = (?bm, sw + HUGEPAGE_SIZE, s') \<and>
         mm_inv F {} (visited (\<lambda>mt. MEM_ACTIVE mt HUGEP) (\<lambda>mt. MEM_INACTIVE mt HUGEP) (accessed_only f s0) mt Q) s' \<and> same_nodes s s' \<and> same_bytes s s' \<and>
         (\<forall>m. m \<noteq> ?n \<longrightarrow> n_page s m = n_page s0 m \<longrightarrow> n_page s' m = n_page s0 m))) \<and>
      (clears G \<longrightarrow> cool_visit ?G mt bm sw s \<noteq> None)"
    
    unfolding run using lk'2 s' lk(4) fresh by (cases "accessed_only f s0 ?n"; simp add: clears_def)
qed auto

text \<open>A node thaws when its page is accessed and it was seen accessed twice before.\<close>

definition warm :: "(addr \<Rightarrow> u64 \<times> u64) \<Rightarrow> 'a mmgr_state_scheme \<Rightarrow> addr \<Rightarrow> bool" where
  "warm f s n \<longleftrightarrow> accessed_only f s n \<and> n_accesses s n \<ge> 2"

interpretation thawing: node_sweep "thaw_visit (with_flags f G)" "\<lambda>mt. MEM_INACTIVE mt HUGEP" "\<lambda>mt. MEM_ACTIVE mt HUGEP"
  "\<lambda>n. \<not> warm f s0 n" "clears G" "\<lambda>s n. n_page s n = n_page s0 n \<and> n_accesses s n = n_accesses s0 n"
proof
  fix F Q and s :: "'a mmgr_state_scheme" and bm :: "memtypes \<Rightarrow> addr" and sw :: u64 and mt
  assume inv: "mm_inv F {} Q s"
  let ?A = "MEM_ACTIVE mt HUGEP" and ?I = "MEM_INACTIVE mt HUGEP" and ?G = "with_flags f G"
  show "thaw_visit ?G mt bm sw s = Some (bm, sw, s)" if "Q ?I = [] \<or> bm mt = last (Q ?I)"
    using that by (auto simp: thaw_visit_def peek_last [OF inv] Let_def)
  assume ne: "Q ?I \<noteq> []" and bm: "bm mt \<noteq> last (Q ?I)"
    and fresh: "n_page s (last (Q ?I)) = n_page s0 (last (Q ?I)) \<and> n_accesses s (last (Q ?I)) = n_accesses s0 (last (Q ?I))"
  let ?n = "last (Q ?I)"
  obtain lk where lk: "node_remove ?I s = Some (?n, s\<lparr>m_links := lk\<rparr>)" "?n \<noteq> NULL"
    "arms_get_bits ?G s (n_page s ?n) = Some (flag_bits f (n_page s ?n))" "va (npage s ?n) mod HUGEPAGE_SIZE = 0"
    and put: "\<forall>k t. k = ?A \<or> k = ?I \<longrightarrow> same_nodes s t \<longrightarrow> m_links t = lk \<longrightarrow> (\<exists>lk'. node_add k ?n t = Some (t\<lparr>m_links := lk'\<rparr>) \<and>
          mm_inv F {} ((Q(?I := butlast (Q ?I)))(k := ?n # (Q(?I := butlast (Q ?I))) k)) (t\<lparr>m_links := lk'\<rparr>))"
    using visit_node [OF inv ne disjI2 [OF HOL.refl], of f G] by (elim exE conjE) (rule that; assumption)
  let ?acc = "accessed_only f s0 ?n"
  let ?u = "s\<lparr>m_links := lk\<rparr>"
  let ?t = "if ?acc then ?u\<lparr>n_tot_accesses := (n_tot_accesses ?u)(?n := n_tot_accesses ?u ?n + 1),
      n_accesses := (n_accesses ?u)(?n := if warm f s0 ?n then 0 else n_accesses ?u ?n + 1)\<rparr> else ?u"
  have bits: "arms_get_bits ?G ?u (n_page s ?n) = Some (flag_bits f (n_page s ?n))" using lk(3) by (simp add: arms_get_bits_def)
  have keep: "?acc \<longleftrightarrow> flag_bits f (n_page s ?n) = ARMS_ACCESSED_FLAG" "warm f s0 ?n \<longleftrightarrow> ?acc \<and> n_accesses s ?n \<ge> 2"
    by (simp_all add: accessed_only_def warm_def fresh)
  have sn: "same_nodes s ?t" "m_links ?t = lk" by (simp_all add: same_nodes_def)
  let ?l = "if \<not> warm f s0 ?n then ?I else ?A"
  have l: "?l = ?A \<or> ?l = ?I" by simp
  from put [rule_format, OF l sn] obtain lk' where lk': "node_add ?l ?n ?t = Some (?t\<lparr>m_links := lk'\<rparr>)"
    "mm_inv F {} ((Q(?I := butlast (Q ?I)))(?l := ?n # (Q(?I := butlast (Q ?I))) ?l)) (?t\<lparr>m_links := lk'\<rparr>)"
    by (elim exE conjE) (rule that; assumption)
  have lk'2: "mm_inv F {} (visited (\<lambda>mt. MEM_INACTIVE mt HUGEP) (\<lambda>mt. MEM_ACTIVE mt HUGEP) (\<lambda>n. \<not> warm f s0 n) mt Q) (?t\<lparr>m_links := lk'\<rparr>)"
    using lk'(2) unfolding visited_def Let_def .
  let ?bm = "if \<not> warm f s0 ?n then set_bookmark mt ?n bm else bm"
  have run: "thaw_visit ?G mt bm sw s = (if ?acc \<and> \<not> k_clear_flag G (va (npage s ?n)) then None
      else Some (?bm, sw + HUGEPAGE_SIZE, ?t\<lparr>m_links := lk'\<rparr>))"
  proof (cases ?acc)
    case True
    then have b: "flag_bits f (n_page s ?n) = ARMS_ACCESSED_FLAG" using keep by simp
    show ?thesis
    proof (cases "2 \<le> n_accesses s ?n")
      case w: True
      then have w': "warm f s0 ?n" using True keep by simp
      then have a: "node_add ?A ?n ?t = Some (?t\<lparr>m_links := lk'\<rparr>)" using lk'(1) by simp
      show ?thesis using a by (simp add: True w w' thaw_visit_def peek_last [OF inv] ne bm lk(1,2) bits b clear_bits_with [OF lk(4)] Let_def)
    next
      case w: False
      then have w': "\<not> warm f s0 ?n" using keep by simp
      then have a: "node_add ?I ?n ?t = Some (?t\<lparr>m_links := lk'\<rparr>)" using lk'(1) by simp
      show ?thesis using a by (simp add: True w w' thaw_visit_def peek_last [OF inv] ne bm lk(1,2) bits b clear_bits_with [OF lk(4)] Let_def)
    qed
  next
    case False
    then have b: "flag_bits f (n_page s ?n) \<noteq> ARMS_ACCESSED_FLAG" and w: "\<not> warm f s0 ?n" and a: "node_add ?I ?n ?u = Some (?u\<lparr>m_links := lk'\<rparr>)"
      using keep lk'(1) by simp_all
    show ?thesis by (simp add: False w thaw_visit_def peek_last [OF inv] ne bm lk(1,2) bits b a)
  qed
  have s': "same_nodes s (?t\<lparr>m_links := lk'\<rparr>)" "same_bytes s (?t\<lparr>m_links := lk'\<rparr>)"
    "\<And>m. n_page (?t\<lparr>m_links := lk'\<rparr>) m = n_page s m" "\<And>m. m \<noteq> ?n \<Longrightarrow> n_accesses (?t\<lparr>m_links := lk'\<rparr>) m = n_accesses s m"
    by (simp_all add: same_nodes_def same_bytes_def)
  show "(\<forall>r. thaw_visit ?G mt bm sw s = Some r \<longrightarrow> (\<exists>s'. r = (?bm, sw + HUGEPAGE_SIZE, s') \<and>
         mm_inv F {} (visited (\<lambda>mt. MEM_INACTIVE mt HUGEP) (\<lambda>mt. MEM_ACTIVE mt HUGEP) (\<lambda>n. \<not> warm f s0 n) mt Q) s' \<and> same_nodes s s' \<and> same_bytes s s' \<and>
         (\<forall>m. m \<noteq> ?n \<longrightarrow> n_page s m = n_page s0 m \<and> n_accesses s m = n_accesses s0 m \<longrightarrow> n_page s' m = n_page s0 m \<and> n_accesses s' m = n_accesses s0 m))) \<and>
      (clears G \<longrightarrow> thaw_visit ?G mt bm sw s \<noteq> None)"
  proof (cases "?acc \<and> \<not> k_clear_flag G (va (npage s ?n))")
    case True
    then have "thaw_visit ?G mt bm sw s = None" unfolding run by simp
    moreover have "\<not> clears G" using clearsD [OF _ lk(4), of G] True by (intro notI) simp
    ultimately show ?thesis by simp
  next
    case False
    then have "thaw_visit ?G mt bm sw s = Some (?bm, sw + HUGEPAGE_SIZE, ?t\<lparr>m_links := lk'\<rparr>)" unfolding run by simp
    then show ?thesis using lk'2 s' by (intro conjI allI impI exI [of _ "?t\<lparr>m_links := lk'\<rparr>"]) simp_all
  qed
qed auto

text \<open>Cooling divides the active lists by the accessed bit, thawing the inactive lists by the warm nodes.\<close>

lemma cool_divides:
  assumes "mm_inv F {} Q s"
  shows "cool (with_flags f G) s = Some s' \<Longrightarrow> \<exists>U V Q'. mm_inv F {} Q' s' \<and>
      divided (\<lambda>mt. MEM_ACTIVE mt HUGEP) (\<lambda>mt. MEM_INACTIVE mt HUGEP) (accessed_only f s) Q U V Q' \<and> same_nodes s s' \<and> same_bytes s s' \<and>
      (node_total U = 0 \<or> unat ARMS_COOL_RATE \<le> node_total V * 2 ^ 21)"
    and "clears G \<Longrightarrow> cool (with_flags f G) s \<noteq> None"
  unfolding cool_def
  using cooling.sweep_all(1) [OF assms, where f = f and G = G and ?s0.0 = s] apply blast
  using cooling.sweep_all(2) [OF assms, where f = f and G = G and ?s0.0 = s] by blast

lemma thaw_divides:
  assumes "mm_inv F {} Q s"
  shows "thaw (with_flags f G) s = Some s' \<Longrightarrow> \<exists>U V Q'. mm_inv F {} Q' s' \<and>
      divided (\<lambda>mt. MEM_INACTIVE mt HUGEP) (\<lambda>mt. MEM_ACTIVE mt HUGEP) (\<lambda>n. \<not> warm f s n) Q U V Q' \<and> same_nodes s s' \<and> same_bytes s s' \<and>
      (node_total U = 0 \<or> unat (ARMS_THAW_RATE s) \<le> node_total V * 2 ^ 21)"
    and "clears G \<Longrightarrow> thaw (with_flags f G) s \<noteq> None"
  unfolding thaw_def
  using thawing.sweep_all(1) [OF assms, where f = f and G = G and ?s0.0 = s] apply blast
  using thawing.sweep_all(2) [OF assms, where f = f and G = G and ?s0.0 = s] by blast

end
