(* ===== verification/Mmgr_System.thy ===== *)
theory Mmgr_System
  imports Mmgr_Sweep
begin

text \<open>
  The memory manager with cooling and thawing as a whole: its initial state, faults and removals, a turn of
  its thread, and what holds in every state that they reach.
\<close>

section \<open>The initial state\<close>

text \<open>The part of the state that the initialisation of one tier writes.\<close>

definition nodes_made :: "(nat \<Rightarrow> addr) \<Rightarrow> (nat \<Rightarrow> addr) \<Rightarrow> memtypes \<Rightarrow> nat set \<Rightarrow> 'a mmgr_state_scheme \<Rightarrow> 'a mmgr_state_scheme \<Rightarrow> bool" where
  "nodes_made dn dp mt I s s' \<longleftrightarrow>
     (\<forall>j\<in>I. n_page s' (dn j) = dp j \<and> n_offset s' (dn j) = of_nat j * HUGEPAGE_SIZE \<and> n_accesses s' (dn j) = 0 \<and>
        management s' (dp j) = dn j \<and> body s' (dp j) = new_page (mt = FASTMEM) j) \<and>
     (\<forall>n. n \<notin> dn ` I \<longrightarrow> n_page s' n = n_page s n \<and> n_offset s' n = n_offset s n \<and> n_accesses s' n = n_accesses s n) \<and>
     (\<forall>p. p \<notin> dp ` I \<longrightarrow> management s' p = management s p \<and> body s' p = body s p) \<and> same_bytes s s'"

lemma huge_pt: "pagesize_to_pt HUGEPAGE_SIZE = Some HUGEP"
  by (simp add: pagesize_to_pt_def page_size_defs)

lemma nodes_made_step:
  assumes 1: "nodes_made dn dp mt {i} s t" and 2: "nodes_made dn dp mt J t s'"
    and i: "i \<notin> J" "inj_on dn (insert i J)" "inj_on dp (insert i J)"
  shows "nodes_made dn dp mt (insert i J) s s'"
proof -
  have "dn i \<notin> dn ` J" "dp i \<notin> dp ` J" using i by (auto dest: inj_onD)
  then show ?thesis using 1 2 by (auto simp: nodes_made_def same_bytes_def)
qed

lemma init_nodes_made:
  assumes "dll_rep (m_links s) Q" "inj_on dn {i..<i + k}" "inj_on dp {i..<i + k}" "\<And>j. j \<in> {i..<i + k} \<Longrightarrow> dn j \<noteq> NULL"
    "\<And>j l. j \<in> {i..<i + k} \<Longrightarrow> dn j \<notin> set (Q l)"
  shows "\<exists>s'. init_nodes dn dp mt i k s = Some s' \<and> nodes_made dn dp mt {i..<i + k} s s' \<and>
    dll_rep (m_links s') (Q(MEM_FREE mt HUGEP := rev (map dn [i..<i + k]) @ Q (MEM_FREE mt HUGEP)))"
  using assms
proof (induction k arbitrary: i s Q)
  case 0
  then show ?case by (simp add: nodes_made_def same_bytes_def)
next
  case (Suc k)
  let ?n = "dn i" and ?p = "dp i" and ?l = "MEM_FREE mt HUGEP" and ?I = "{Suc i..<Suc i + k}"
  have I: "{i..<i + Suc k} = insert i ?I" by auto
  let ?t = "s\<lparr>n_accesses := (n_accesses s)(?n := 0), n_tot_accesses := (n_tot_accesses s)(?n := 0),
      n_offset := (n_offset s)(?n := of_nat i * HUGEPAGE_SIZE)\<rparr>"
  let ?u = "(upd_page ?p (\<lambda>_. zero_page\<lparr>devdax_offset := of_nat i * HUGEPAGE_SIZE, present := False, in_dram := (mt = FASTMEM), pt := HUGEP\<rparr>) ?t)
      \<lparr>n_page := (n_page s)(?n := ?p), management := (management s)(?p := ?n)\<rparr>"
  have lk: "m_links ?u = m_links s" by (simp add: upd_page_def)
  obtain lk where a: "node_add ?l ?n ?u = Some (?u\<lparr>m_links := lk\<rparr>)" "dll_rep lk (Q(?l := ?n # Q ?l))"
    using mm_links_put [of ?u Q ?n ?l] Suc.prems(1,4,5) unfolding lk by auto
  have run: "init_nodes dn dp mt i (Suc k) s = init_nodes dn dp mt (Suc i) k (?u\<lparr>m_links := lk\<rparr>)"
    using a(1) by (simp add: huge_pt Let_def upd_page_def)
  have made: "nodes_made dn dp mt {i} s (?u\<lparr>m_links := lk\<rparr>)"
    by (simp add: nodes_made_def same_bytes_def upd_page_def new_page_def page_size_defs)
  have inj: "inj_on dn ?I" "inj_on dp ?I" using Suc.prems(2,3) unfolding I by simp_all
  have ni: "dn j \<noteq> ?n" if "j \<in> ?I" for j
    using inj_onD [OF Suc.prems(2), of j i] that by auto
  have new: "dn j \<notin> set ((Q(?l := ?n # Q ?l)) k')" if "j \<in> ?I" for j k'
    using Suc.prems(5) [of j] ni [OF that] that by simp
  have "dll_rep (m_links (?u\<lparr>m_links := lk\<rparr>)) (Q(?l := ?n # Q ?l))" using a(2) by simp
  moreover have "\<And>j. j \<in> ?I \<Longrightarrow> dn j \<noteq> NULL" using Suc.prems(4) by simp
  ultimately obtain s' where s': "init_nodes dn dp mt (Suc i) k (?u\<lparr>m_links := lk\<rparr>) = Some s'" "nodes_made dn dp mt ?I (?u\<lparr>m_links := lk\<rparr>) s'"
    "dll_rep (m_links s') ((Q(?l := ?n # Q ?l))(?l := rev (map dn [Suc i..<Suc i + k]) @ (Q(?l := ?n # Q ?l)) ?l))"
    using Suc.IH [where s = "?u\<lparr>m_links := lk\<rparr>" and Q = "Q(?l := ?n # Q ?l)" and i = "Suc i", OF _ inj _ new] by blast
  have made': "nodes_made dn dp mt (insert i ?I) s s'" by (rule nodes_made_step [OF made s'(2)]) (use Suc.prems(2,3) I in auto)
  have "rev (map dn [i..<i + Suc k]) @ Q ?l = rev (map dn [Suc i..<Suc i + k]) @ ?n # Q ?l"
    by (subst upt_conv_Cons) simp_all
  then have "dll_rep (m_links s') (Q(?l := rev (map dn [i..<i + Suc k]) @ Q ?l))" using s'(3) by simp
  moreover have "init_nodes dn dp mt i (Suc k) s = Some s'" using run s'(1) by (rule trans)
  ultimately show ?case unfolding I using made' by (intro exI [of _ s'] conjI)
qed

lemma disjointD: "A \<inter> B = {} \<Longrightarrow> x \<in> A \<Longrightarrow> x \<in> B \<Longrightarrow> False" by blast

text \<open>Both tiers, with distinct nodes and distinct pages.\<close>

definition mm_allocs :: "(nat \<Rightarrow> addr) \<Rightarrow> (nat \<Rightarrow> addr) \<Rightarrow> (nat \<Rightarrow> addr) \<Rightarrow> (nat \<Rightarrow> addr) \<Rightarrow> 'a arms_state_scheme \<Rightarrow> bool" where
  "mm_allocs dn dp nn np s \<longleftrightarrow> allocs_ok dn (frame_count (dramsize s)) nn (frame_count (nvmsize s)) \<and>
     allocs_ok dp (frame_count (dramsize s)) np (frame_count (nvmsize s))"

definition mm_nodes :: "(nat \<Rightarrow> addr) \<Rightarrow> (nat \<Rightarrow> addr) \<Rightarrow> 'a arms_state_scheme \<Rightarrow> addr set" where
  "mm_nodes dn nn s = dn ` {..<frame_count (dramsize s)} \<union> nn ` {..<frame_count (nvmsize s)}"

definition mm_fresh :: "(nat \<Rightarrow> addr) \<Rightarrow> (nat \<Rightarrow> addr) \<Rightarrow> 'a arms_state_scheme \<Rightarrow> mmgr_list \<Rightarrow> addr list" where
  "mm_fresh dn nn s = (\<lambda>_. [])(MEM_FREE FASTMEM HUGEP := rev (map dn [0..<frame_count (dramsize s)]),
     MEM_FREE SLOWMEM HUGEP := rev (map nn [0..<frame_count (nvmsize s)]))"

lemma two_tiers_made:
  assumes f: "nodes_made dn dp FASTMEM {..<k} s s1" and g: "nodes_made nn np SLOWMEM {..<m} s1 s2"
    and d: "dn ` {..<k} \<inter> nn ` {..<m} = {}" "dp ` {..<k} \<inter> np ` {..<m} = {}"
  shows "j < k \<Longrightarrow> n_page s2 (dn j) = dp j \<and> n_offset s2 (dn j) = of_nat j * HUGEPAGE_SIZE \<and> management s2 (dp j) = dn j \<and> body s2 (dp j) = new_page True j"
    and "j < m \<Longrightarrow> n_page s2 (nn j) = np j \<and> n_offset s2 (nn j) = of_nat j * HUGEPAGE_SIZE \<and> management s2 (np j) = nn j \<and> body s2 (np j) = new_page False j"
    and "same_bytes s s2"
proof -
  show "n_page s2 (dn j) = dp j \<and> n_offset s2 (dn j) = of_nat j * HUGEPAGE_SIZE \<and> management s2 (dp j) = dn j \<and> body s2 (dp j) = new_page True j"
    if j: "j < k"
  proof -
    have "dn j \<notin> nn ` {..<m}" "dp j \<notin> np ` {..<m}" using d j by blast+
    then show ?thesis using f g j by (simp add: nodes_made_def)
  qed
qed (use f g in \<open>simp_all add: nodes_made_def same_bytes_def\<close>)

lemma mmgr_init_ok:
  fixes s :: "'a mmgr_state_scheme"
  assumes al: "mm_allocs dn dp nn np s"
  shows "\<exists>s0. arms_mmgr_init dn dp nn np s = Some s0 \<and> mm_inv (mm_nodes dn nn s) {} (mm_fresh dn nn s) s0 \<and>
    dramsize s0 = dramsize s \<and> nvmsize s0 = nvmsize s \<and> fastmem_freebytes s0 = dramsize s \<and> slowmem_freebytes s0 = nvmsize s \<and>
    (\<forall>p. present (body s0 p) \<longrightarrow> present (body s p))"
proof -
  let ?k = "frame_count (dramsize s)" and ?m = "frame_count (nvmsize s)" and ?Q = "\<lambda>_::mmgr_list. [] :: addr list"
  let ?s = "s\<lparr>fastmem_freebytes := dramsize s, slowmem_freebytes := nvmsize s, m_links := dll_empty\<rparr>"
  have A: "inj_on dn {..<?k}" "inj_on nn {..<?m}" "dn ` {..<?k} \<inter> nn ` {..<?m} = {}" "NULL \<notin> dn ` {..<?k} \<union> nn ` {..<?m}"
    "inj_on dp {..<?k}" "inj_on np {..<?m}" "dp ` {..<?k} \<inter> np ` {..<?m} = {}" "NULL \<notin> dp ` {..<?k} \<union> np ` {..<?m}"
    "?k + ?m < 2 ^ 30" "allocs_ok dp ?k np ?m"
    using al by (simp_all add: mm_allocs_def allocs_ok_def)
  have B: "inj_on dn {0..<0 + ?k}" "inj_on dp {0..<0 + ?k}" "\<And>j. j \<in> {0..<0 + ?k} \<Longrightarrow> dn j \<noteq> NULL"
    "inj_on nn {0..<0 + ?m}" "inj_on np {0..<0 + ?m}" "\<And>j. j \<in> {0..<0 + ?m} \<Longrightarrow> nn j \<noteq> NULL"
    using A(1,2,4,5,6) by (auto simp: lessThan_atLeast0)
  have "dll_rep (m_links ?s) ?Q" by (simp add: dll_rep_empty)
  from init_nodes_made [OF this B(1-3), of FASTMEM] obtain s1 where s1: "init_nodes dn dp FASTMEM 0 ?k ?s = Some s1"
    "nodes_made dn dp FASTMEM {..<?k} ?s s1" "dll_rep (m_links s1) (?Q(MEM_FREE FASTMEM HUGEP := rev (map dn [0..<?k])))"
    by (auto simp: lessThan_atLeast0)
  have "nn j \<notin> set ((?Q(MEM_FREE FASTMEM HUGEP := rev (map dn [0..<?k]))) l)" if "j \<in> {0..<0 + ?m}" for j l
    using disjointD [OF A(3), of "nn j"] that by auto
  moreover have "(?Q(MEM_FREE FASTMEM HUGEP := rev (map dn [0..<?k]))) (MEM_FREE SLOWMEM HUGEP) = []" by simp
  ultimately obtain s2 where s2: "init_nodes nn np SLOWMEM 0 ?m s1 = Some s2"
    "nodes_made nn np SLOWMEM {..<?m} s1 s2" "dll_rep (m_links s2) (mm_fresh dn nn s)"
    using init_nodes_made [OF s1(3) B(4-6), of SLOWMEM] unfolding mm_fresh_def lessThan_atLeast0 by (metis add_0 append_Nil2)
  note T = two_tiers_made [OF s1(2) s2(2) A(3,7)]
  have sz: "dramsize s2 = dramsize s" "nvmsize s2 = nvmsize s" "fastmem_freebytes s2 = dramsize s" "slowmem_freebytes s2 = nvmsize s"
    using T(3) by (simp_all add: same_bytes_def)
  let ?F = "mm_nodes dn nn s"
  have img: "n_page s2 ` ?F = dp ` {..<?k} \<union> np ` {..<?m}" using T(1,2) by (simp add: mm_nodes_def image_Un image_image)
  have fr: "frames_ok (n_page s2 ` ?F) s2"
    unfolding img using frames_ok_start [of dp s2 np] A(10) T(1,2) by (simp add: sz new_page_frame)
  have inj: "inj_on (n_page s2) ?F"
    by (rule inj_on_inverseI [where g = "management s2"]) (use T(1,2) in \<open>auto simp: mm_nodes_def\<close>)
  have "nodes_ok ?F s2"
    unfolding nodes_ok_def using fr inj T(1,2) by (auto simp: mm_nodes_def new_page_def zero_page_def page_size_defs)
  moreover have "shares ?F {} (mm_fresh dn nn s)"
  proof -
    have "(\<Union>l. set (mm_fresh dn nn s l)) = set (mm_fresh dn nn s (MEM_FREE FASTMEM HUGEP)) \<union> set (mm_fresh dn nn s (MEM_FREE SLOWMEM HUGEP))"
      (is "?U = ?V")
    proof
      show "?U \<subseteq> ?V" by (auto simp: mm_fresh_def split: if_splits)
    qed blast
    then show ?thesis unfolding shares_def by (simp add: mm_nodes_def mm_fresh_def lessThan_atLeast0)
  qed
  moreover have "fits_list l (npage s2 x)" if "x \<in> set (mm_fresh dn nn s l)" for x l
    using that T(1,2) by (auto simp: mm_fresh_def new_page_def zero_page_def split: if_splits)
  ultimately have "mm_inv ?F {} (mm_fresh dn nn s) s2" using s2(3) by (simp add: mm_inv_def)
  moreover have "arms_mmgr_init dn dp nn np s = Some s2"
    using s1(1) s2(1) T(3) s1(2) by (simp add: arms_mmgr_init_def frame_count_def page_size_defs nodes_made_def same_bytes_def)
  moreover have "present (body s p)" if "present (body s2 p)" for p
  proof -
    have "present (body s1 p)" using s2(2) that by (cases "p \<in> np ` {..<?m}") (auto simp: nodes_made_def new_page_def)
    then have "present (body ?s p)" using s1(2) by (cases "p \<in> dp ` {..<?k}") (auto simp: nodes_made_def new_page_def)
    then show ?thesis by simp
  qed
  ultimately show ?thesis using sz by blast
qed

lemma fresh_accounted:
  assumes "arms_mmgr_init dn dp nn np s = Some s0" "mm_allocs dn dp nn np s"
  shows "accounted (unat (dramsize s) mod 2 ^ 21) (unat (nvmsize s) mod 2 ^ 21) (mm_fresh dn nn s) s0"
proof -
  have "fastmem_freebytes s0 = dramsize s" "slowmem_freebytes s0 = nvmsize s" using mmgr_init_ok [OF assms(2)] assms(1) by auto
  moreover have "frame_count x = unat x div 2 ^ 21" for x by (simp add: frame_count_def unat_div_distrib unat_PAGE_SIZE)
  ultimately show ?thesis by (simp add: accounted_def mm_fresh_def free_nodes_def)
qed

section \<open>Faults and removals\<close>

definition mm_fault_lists :: "(mmgr_list \<Rightarrow> addr list) \<Rightarrow> (bool \<times> addr \<times> (mmgr_list \<Rightarrow> addr list)) option" where
  "mm_fault_lists Q = (
     let take = (\<lambda>fast. let n = last (Q (free_nodes fast)); Q' = Q(free_nodes fast := butlast (Q (free_nodes fast))); a = MEM_ACTIVE (if fast then FASTMEM else SLOWMEM) HUGEP
                 in Some (fast, n, Q'(a := n # Q' a))) in
     if Q (free_nodes True) \<noteq> [] then take True else if Q (free_nodes False) \<noteq> [] then take False else None)"

lemma hand_out_ok:
  fixes s :: "'a mmgr_state_scheme"
  assumes inv: "mm_inv F {} Q s" and ne: "Q (free_nodes fast) \<noteq> []"
  defines "n \<equiv> last (Q (free_nodes fast))" and "Q1 \<equiv> Q(free_nodes fast := butlast (Q (free_nodes fast)))" and "mt \<equiv> if fast then FASTMEM else SLOWMEM"
  shows "\<exists>s' s1. node_remove (free_nodes fast) s = Some (n, s1) \<and> n \<noteq> NULL \<and> mmgr_hand_out mt n s1 = Some (n_page s n, s') \<and>
    mm_inv F {} (Q1(MEM_ACTIVE mt HUGEP := n # Q1 (MEM_ACTIVE mt HUGEP))) s' \<and>
    body s' = (body s)(n_page s n := (npage s n)\<lparr>present := True\<rparr>) \<and> n_page s' = n_page s \<and> dramsize s' = dramsize s \<and> nvmsize s' = nvmsize s \<and>
    fastmem_freebytes s' = (if fast then fastmem_freebytes s - HUGEPAGE_SIZE else fastmem_freebytes s) \<and>
    slowmem_freebytes s' = (if fast then slowmem_freebytes s else slowmem_freebytes s - HUGEPAGE_SIZE)"
proof -
  note N = nodes_okD [OF mm_invD(2) [OF inv]]
  obtain lk where lk: "node_remove (free_nodes fast) s = Some (n, s\<lparr>m_links := lk\<rparr>)" "mm_inv F {n} Q1 (s\<lparr>m_links := lk\<rparr>)" "n \<noteq> NULL"
    "fits_list (free_nodes fast) (npage s n)" "n \<in> F" unfolding n_def Q1_def using mm_take [OF inv ne] by blast
  have f: "in_dram (npage s n) = fast" "\<not> present (npage s n)" "pt (npage s n) = HUGEP"
    using lk(4) N(7) [OF lk(5)] by (cases fast; simp add: free_nodes_def)+
  let ?s1 = "s\<lparr>m_links := lk\<rparr>"
  let ?u = "upd_page (n_page s n) (\<lambda>x. x\<lparr>present := True\<rparr>) ?s1"
  have 1: "mm_inv F {n} Q1 ?u"
    using mm_held_page [OF lk(2), of n "\<lambda>x. x\<lparr>present := True\<rparr>"] N(5) [OF lk(5)] by (simp add: frame_of_def)
  have "fits_list (MEM_ACTIVE mt HUGEP) (npage ?u n)" using f(1) by (cases fast) (simp_all add: mt_def upd_page_def)
  from mm_put [OF 1 _ lk(3) this] obtain lk' where lk': "node_add (MEM_ACTIVE mt HUGEP) n ?u = Some (?u\<lparr>m_links := lk'\<rparr>)"
    "mm_inv F {} (Q1(MEM_ACTIVE mt HUGEP := n # Q1 (MEM_ACTIVE mt HUGEP))) (?u\<lparr>m_links := lk'\<rparr>)" by auto
  let ?v = "?u\<lparr>m_links := lk'\<rparr>"
  let ?s' = "(if fast then ?v\<lparr>fastmem_freebytes := fastmem_freebytes ?v - HUGEPAGE_SIZE\<rparr> else ?v\<lparr>slowmem_freebytes := slowmem_freebytes ?v - HUGEPAGE_SIZE\<rparr>)"
  have mg: "(management ?s')(n_page s n := n) = management ?s'" using N(3) [OF lk(5)] by (auto simp: upd_page_def fun_eq_iff)
  have same: "same_nodes ?v ?s'" "m_links ?s' = m_links ?v" by (simp_all add: same_nodes_def)
  have out: "mmgr_hand_out mt n ?s1 = Some (n_page s n, ?s'\<lparr>management := (management ?s')(n_page s n := n)\<rparr>)"
    using f lk'(1) by (cases fast) (simp_all add: mmgr_hand_out_def mt_def upd_page_def abort_simps)
  have "mmgr_hand_out mt n ?s1 = Some (n_page s n, ?s')" unfolding out mg by simp
  moreover have "mm_inv F {} (Q1(MEM_ACTIVE mt HUGEP := n # Q1 (MEM_ACTIVE mt HUGEP))) ?s'" by (rule mm_inv_same [OF lk'(2) same])
  ultimately show ?thesis using lk(1,3) by (intro exI [of _ ?s'] exI [of _ ?s1]) (simp add: upd_page_def)
qed

lemma fault_ok:
  fixes s :: "'a mmgr_state_scheme"
  assumes inv: "mm_inv F {} Q s"
  shows "case mm_fault_lists Q of None \<Rightarrow> arms_mmgr_pagefault s = None
    | Some (fast, n, Q') \<Rightarrow> (\<exists>s'. arms_mmgr_pagefault s = Some (n_page s n, s') \<and> mm_inv F {} Q' s' \<and> n \<in> set (Q (free_nodes fast)) \<and> Q (free_nodes fast) \<noteq> [] \<and>
        (\<not> fast \<longrightarrow> Q (free_nodes True) = []) \<and>
        body s' = (body s)(n_page s n := (npage s n)\<lparr>present := True\<rparr>) \<and> n_page s' = n_page s \<and> dramsize s' = dramsize s \<and> nvmsize s' = nvmsize s \<and>
        fastmem_freebytes s' = (if fast then fastmem_freebytes s - HUGEPAGE_SIZE else fastmem_freebytes s) \<and>
        slowmem_freebytes s' = (if fast then slowmem_freebytes s else slowmem_freebytes s - HUGEPAGE_SIZE))"
proof -
  note N = nodes_okD [OF mm_invD(2) [OF inv]] and I = mm_invD [OF inv]
  have fn: "free_nodes True = MEM_FREE FASTMEM HUGEP" "free_nodes False = MEM_FREE SLOWMEM HUGEP" by (simp_all add: free_nodes_def)
  have np: "n_page s (last (Q l)) \<noteq> NULL" if "Q l \<noteq> []" for l using N(6) I(5) last_in_set [OF that] by blast
  show ?thesis
  proof (cases "Q (free_nodes True) = []")
    case False
    from hand_out_ok [OF inv this] np [OF False] show ?thesis
      using False by (auto simp: mm_fault_lists_def Let_def arms_mmgr_pagefault_def mmgr_allocate_page_def fn abort_simps)
  next
    case empty: True
    have r: "node_remove (free_nodes True) s = Some (NULL, s)" by (rule mm_take_empty [OF inv empty])
    show ?thesis
    proof (cases "Q (free_nodes False) = []")
      case False
      from hand_out_ok [OF inv this] np [OF False] r show ?thesis
        using empty False by (auto simp: mm_fault_lists_def Let_def arms_mmgr_pagefault_def mmgr_allocate_page_def fn abort_simps)
    next
      case True
      then show ?thesis using r mm_take_empty [OF inv True] empty
        by (simp add: mm_fault_lists_def arms_mmgr_pagefault_def mmgr_allocate_page_def fn abort_simps)
    qed
  qed
qed

lemma remove_ok:
  fixes s :: "'a mmgr_state_scheme"
  assumes inv: "mm_inv F {} Q s" and n: "n \<in> set (Q l)"
  defines "Q1 \<equiv> Q(l := remove1 n (Q l))" and "m \<equiv> free_nodes (in_dram (npage s n))"
  shows "\<exists>s'. arms_mmgr_remove_page s (n_page s n) = Some s' \<and> mm_inv F {} (Q1(m := n # Q1 m)) s' \<and>
    body s' = (body s)(n_page s n := (npage s n)\<lparr>present := False\<rparr>) \<and> n_page s' = n_page s \<and> same_bytes s s'"
proof -
  note I = mm_invD [OF inv] and N = nodes_okD [OF mm_invD(2) [OF inv]]
  have nF: "n \<in> F" by (rule I(5) [OF n])
  have nn: "n \<noteq> NULL" using dll_repD(2) [OF I(1), of l] n by auto
  have own: "d_list (m_links s) n = Some l" using dll_repD(7) [OF I(1), of n l] n by simp
  obtain lk where lk: "mmgr_list_remove_node (m_links s) l n = Some lk" "dll_rep lk Q1"
    using mmgrq.del_rep [OF I(1) n] unfolding Q1_def by blast
  note S = shares_del [OF I(3,1) n, folded Q1_def]
  let ?s = "s\<lparr>m_links := lk\<rparr>"
  have 1: "mm_inv F {n} Q1 ?s"
    unfolding mm_inv_def using lk(2) S(1) S(2) I(2,4) nodes_ok_same [of s ?s F] by (simp add: same_nodes_def)
  let ?u = "upd_page (n_page s n) (\<lambda>x. x\<lparr>present := False\<rparr>) ?s"
  have 2: "mm_inv F {n} Q1 ?u"
    using mm_held_page [OF 1, of n "\<lambda>x. x\<lparr>present := False\<rparr>"] N(5) [OF nF] by (simp add: frame_of_def)
  have "fits_list m (npage ?u n)" by (cases "in_dram (npage s n)") (simp_all add: m_def free_nodes_def upd_page_def)
  from mm_put [OF 2 _ nn this] obtain lk' where lk': "node_add m n ?u = Some (?u\<lparr>m_links := lk'\<rparr>)"
    "mm_inv F {} (Q1(m := n # Q1 m)) (?u\<lparr>m_links := lk'\<rparr>)" by auto
  have "arms_mmgr_remove_page s (n_page s n) = Some (?u\<lparr>m_links := lk'\<rparr>)"
    using lk'(1) lk(1) own nn N(3,6,7) [OF nF] by (simp add: arms_mmgr_remove_page_def Let_def abort_simps m_def free_nodes_def upd_page_def split: if_splits)
  then show ?thesis using lk'(2) by (intro exI [of _ "?u\<lparr>m_links := lk'\<rparr>"]) (simp add: upd_page_def same_bytes_def)
qed

section \<open>A turn of the thread\<close>

text \<open>What a sweep leaves as it is.\<close>

definition swept :: "addr set \<Rightarrow> (mmgr_list \<Rightarrow> addr list) \<Rightarrow> 'a mmgr_state_scheme \<Rightarrow> 'a mmgr_state_scheme \<Rightarrow> bool" where
  "swept F Q s s' \<longleftrightarrow> (\<exists>Q'. mm_inv F {} Q' s' \<and> (\<forall>b. Q' (free_nodes b) = Q (free_nodes b)) \<and> Q' (TRANSITION HUGEP) = Q (TRANSITION HUGEP) \<and>
     same_nodes s s' \<and> same_bytes s s')"

lemma cool_swept:
  assumes "mm_inv F {} Q s"
  shows "cool (with_flags f G) s = Some s' \<Longrightarrow> swept F Q s s'"
  unfolding swept_def
proof -
  assume "cool (with_flags f G) s = Some s'"
  from cool_divides(1) [OF assms this] obtain U V Q' where Q': "mm_inv F {} Q' s'" "same_nodes s s'" "same_bytes s s'"
    "divided (\<lambda>mt. MEM_ACTIVE mt HUGEP) (\<lambda>mt. MEM_INACTIVE mt HUGEP) (accessed_only f s) Q U V Q'" by blast
  have "Q' l = Q l" if "\<And>mt. l \<noteq> MEM_ACTIVE mt HUGEP" "\<And>mt. l \<noteq> MEM_INACTIVE mt HUGEP" for l
    using Q'(4) that unfolding divided_def by blast
  then show "\<exists>Q'. mm_inv F {} Q' s' \<and> (\<forall>b. Q' (free_nodes b) = Q (free_nodes b)) \<and> Q' (TRANSITION HUGEP) = Q (TRANSITION HUGEP) \<and>
     same_nodes s s' \<and> same_bytes s s'" using Q'(1-3) by (intro exI [of _ Q']) (simp add: free_nodes_def)
qed

lemma thaw_swept:
  assumes "mm_inv F {} Q s"
  shows "thaw (with_flags f G) s = Some s' \<Longrightarrow> swept F Q s s'"
  unfolding swept_def
proof -
  assume "thaw (with_flags f G) s = Some s'"
  from thaw_divides(1) [OF assms this] obtain U V Q' where Q': "mm_inv F {} Q' s'" "same_nodes s s'" "same_bytes s s'"
    "divided (\<lambda>mt. MEM_INACTIVE mt HUGEP) (\<lambda>mt. MEM_ACTIVE mt HUGEP) (\<lambda>n. \<not> warm f s n) Q U V Q'" by blast
  have "Q' l = Q l" if "\<And>mt. l \<noteq> MEM_ACTIVE mt HUGEP" "\<And>mt. l \<noteq> MEM_INACTIVE mt HUGEP" for l
    using Q'(4) that unfolding divided_def by blast
  then show "\<exists>Q'. mm_inv F {} Q' s' \<and> (\<forall>b. Q' (free_nodes b) = Q (free_nodes b)) \<and> Q' (TRANSITION HUGEP) = Q (TRANSITION HUGEP) \<and>
     same_nodes s s' \<and> same_bytes s s'" using Q'(1-3) by (intro exI [of _ Q']) (simp add: free_nodes_def)
qed

lemma swept_pass:
  assumes "swept F Q s s'" "Q (TRANSITION HUGEP) = []"
  shows "pass_ok F Q s s'"
  using assms by (auto simp: swept_def pass_ok_def same_pages_def same_nodes_def same_bytes_def accounted_def)

lemma pass_ok_trans:
  assumes "pass_ok F Q s s1" "\<And>Q1. mm_inv F {} Q1 s1 \<Longrightarrow> Q1 (TRANSITION HUGEP) = [] \<Longrightarrow> pass_ok F Q1 s1 s2"
  shows "pass_ok F Q s s2"
proof -
  from assms(1) obtain Q1 where 1: "mm_inv F {} Q1 s1" "Q1 (TRANSITION HUGEP) = []" "same_pages s s1" "dramsize s1 = dramsize s" "nvmsize s1 = nvmsize s"
    "\<And>r r'. accounted r r' Q s \<Longrightarrow> accounted r r' Q1 s1" unfolding pass_ok_def by auto
  from assms(2) [OF 1(1,2)] obtain Q2 where 2: "mm_inv F {} Q2 s2" "Q2 (TRANSITION HUGEP) = []" "same_pages s1 s2" "dramsize s2 = dramsize s1"
    "nvmsize s2 = nvmsize s1" "\<And>r r'. accounted r r' Q1 s1 \<Longrightarrow> accounted r r' Q2 s2" unfolding pass_ok_def by auto
  show ?thesis unfolding pass_ok_def using 1 2 same_pages_trans [OF 1(3) 2(3)] by (intro exI [of _ Q2]) simp
qed

lemma tlb_same: "arms_tlb_shootdown G v s = Some t \<Longrightarrow> t = s"
  by (auto simp: arms_tlb_shootdown_def bind_Some_iff)

lemma turn_ok:
  assumes inv: "mm_inv F {} Q s" and T: "Q (TRANSITION HUGEP) = []" and K: "kernel_ok K" and run: "mmgr_thread K (with_flags f G) s = Some s'"
  shows "pass_ok F Q s s'"
proof -
  let ?G = "with_flags f G"
  from run obtain s1 s2 s3 s4 where 1: "cool ?G s = Some s1" "thaw ?G s1 = Some s2"
    "(if fastmem_freebytes s2 < ARMS_FASTFREE s2 then move_cold K ?G s2 else Some s2) = Some s3"
    "(if fastmem_freebytes s3 > 0 then move_hot K ?G s3 else Some s3) = Some s4" "s' = s4"
    by (auto simp: mmgr_thread_def bind_Some_iff dest!: tlb_same)
  have a: "pass_ok F Q s s1" by (rule swept_pass [OF cool_swept [OF inv 1(1)] T])
  have b: "pass_ok F Q1 s1 s2" if "mm_inv F {} Q1 s1" "Q1 (TRANSITION HUGEP) = []" for Q1
    by (rule swept_pass [OF thaw_swept [OF that(1) 1(2)] that(2)])
  have c: "pass_ok F Q1 s2 s3" if "mm_inv F {} Q1 s2" "Q1 (TRANSITION HUGEP) = []" for Q1
    using 1(3) move_cold_ok(1) [OF that K] pass_ok_refl [OF that] by (auto split: if_splits)
  have d: "pass_ok F Q1 s3 s4" if "mm_inv F {} Q1 s3" "Q1 (TRANSITION HUGEP) = []" for Q1
    using 1(4) move_hot_ok(1) [OF that K] pass_ok_refl [OF that] by (auto split: if_splits)
  show ?thesis unfolding 1(5) by (rule pass_ok_trans [OF pass_ok_trans [OF pass_ok_trans [OF a b] c] d])
qed

lemma turn_returns:
  fixes s :: "'a mmgr_state_scheme"
  assumes inv: "mm_inv F {} Q s" and T: "Q (TRANSITION HUGEP) = []" and K: "kernel_ok K" "kernel_live K"
    and G: "clears G" "k_tlbflush G 0" and pl: "placed UNIV s" and acc: "accounted r r' Q s"
    and room: "unat (ARMS_FASTFREE s) div 2 ^ 21 + 1 \<le> List.length (Q (free_nodes False))"
  shows "mmgr_thread K (with_flags f G) s \<noteq> None"
proof -
  let ?G = "with_flags f G"
  have tlb: "arms_tlb_shootdown ?G 0 t = Some t" for t :: "'a mmgr_state_scheme" using G(2) by (simp add: arms_tlb_shootdown_def with_flags_def)
  have flush: "k_tlbflush ?G 0" using G(2) by (simp add: with_flags_def)
  obtain s1 where 1: "cool ?G s = Some s1" using cool_divides(2) [OF inv G(1)] by fast
  obtain Q1 where Q1: "mm_inv F {} Q1 s1" "\<And>b. Q1 (free_nodes b) = Q (free_nodes b)" "Q1 (TRANSITION HUGEP) = []" "same_nodes s s1" "same_bytes s s1"
    using cool_swept [OF inv 1] T unfolding swept_def by auto
  obtain s2 where 2: "thaw ?G s1 = Some s2" using thaw_divides(2) [OF Q1(1) G(1)] by fast
  obtain Q2 where Q2: "mm_inv F {} Q2 s2" "\<And>b. Q2 (free_nodes b) = Q (free_nodes b)" "Q2 (TRANSITION HUGEP) = []" "same_nodes s1 s2" "same_bytes s1 s2"
    using thaw_swept [OF Q1(1) 2] Q1(2,3) unfolding swept_def by auto
  have s2: "placed UNIV s2" "accounted r r' Q2 s2" "ARMS_FASTFREE s2 = ARMS_FASTFREE s"
    using pl acc Q1(2,4,5) Q2(2,4,5) by (simp_all add: placed_def same_nodes_def same_bytes_def accounted_def ARMS_FASTFREE_def)
  have "\<exists>s3. (if fastmem_freebytes s2 < ARMS_FASTFREE s2 then move_cold K ?G s2 else Some s2) = Some s3"
    using move_cold_ok(2) [OF Q2(1,3) K(1,2) s2(1) flush s2(2)] room unfolding s2(3) Q2(2) by (cases "move_cold K ?G s2") auto
  then obtain s3 where 3: "(if fastmem_freebytes s2 < ARMS_FASTFREE s2 then move_cold K ?G s2 else Some s2) = Some s3" by blast
  have "pass_ok F Q2 s2 s3" using 3 move_cold_ok(1) [OF Q2(1,3) K(1)] pass_ok_refl [OF Q2(1,3)] by (auto split: if_splits)
  then obtain Q3 where Q3: "mm_inv F {} Q3 s3" "Q3 (TRANSITION HUGEP) = []" "same_pages s2 s3" "accounted r r' Q3 s3"
    unfolding pass_ok_def using s2(2) by blast
  have "move_hot K ?G s3 \<noteq> None"
    by (rule move_hot_ok(2) [OF Q3(1,2) K(1,2) same_pages_placed [OF Q3(3) s2(1)] flush Q3(4)])
  then show ?thesis by (simp add: mmgr_thread_def 1 2 3 tlb)
qed

section \<open>Runs\<close>

text \<open>Faults, the address that the fault handler sets after one, and turns of the thread; then also removals.\<close>

inductive mm_work :: "kernel \<Rightarrow> flag_kernel \<Rightarrow> 'a mmgr_state_scheme \<Rightarrow> 'a mmgr_state_scheme \<Rightarrow> bool" for K G where
  fault: "arms_mmgr_pagefault s = Some (p, s') \<Longrightarrow> mm_work K G s s'"
| placed: "present (body s p) \<Longrightarrow> v mod HUGEPAGE_SIZE = 0 \<Longrightarrow> mm_work K G s (upd_page p (\<lambda>x. x\<lparr>va := v\<rparr>) s)"
| turn: "mmgr_thread K (with_flags f G) s = Some s' \<Longrightarrow> mm_work K G s s'"

inductive mm_step :: "kernel \<Rightarrow> flag_kernel \<Rightarrow> 'a mmgr_state_scheme \<Rightarrow> 'a mmgr_state_scheme \<Rightarrow> bool" for K G where
  work: "mm_work K G s s' \<Longrightarrow> mm_step K G s s'"
| remove: "d_list (m_links s) n = Some l \<Longrightarrow> arms_mmgr_remove_page s (n_page s n) = Some s' \<Longrightarrow> mm_step K G s s'"

definition mm_at_rest :: "addr set \<Rightarrow> (mmgr_list \<Rightarrow> addr list) \<Rightarrow> 'a mmgr_state_scheme \<Rightarrow> bool" where
  "mm_at_rest F Q s \<longleftrightarrow> mm_inv F {} Q s \<and> Q (TRANSITION HUGEP) = []"

lemma mm_upd_va:
  assumes inv: "mm_inv F {} Q s" and v: "v mod HUGEPAGE_SIZE = 0"
  shows "mm_inv F {} Q (upd_page p (\<lambda>x. x\<lparr>va := v\<rparr>) s)"
proof -
  let ?f = "\<lambda>x. x\<lparr>va := v\<rparr>" and ?s = "upd_page p (\<lambda>x. x\<lparr>va := v\<rparr>) s"
  note I = mm_invD [OF inv] and N = nodes_okD [OF mm_invD(2) [OF inv]]
  have fl: "n_page ?s = n_page s" "management ?s = management s" "n_offset ?s = n_offset s" "m_links ?s = m_links s" by (simp_all add: upd_page_def)
  have b: "body ?s q = (if q = p then ?f (body s q) else body s q)" for q by (simp add: upd_page_def)
  have "nodes_ok F ?s"
    unfolding nodes_ok_def fl using N frames_ok_upd [of "n_page s ` F" s ?f p] v by (auto simp: b frame_of_def)
  moreover have "fits_list l (npage ?s n)" if n: "n \<in> set (Q l)" for n l
    unfolding fl b using I(4) [OF n] by (cases "(l, npage s n)" rule: fits_list.cases) auto
  ultimately show ?thesis using I(1,3) by (simp add: mm_inv_def fl)
qed

lemma mm_work_ok:
  fixes s :: "'a mmgr_state_scheme"
  assumes st: "mm_work K G s s'" and inv: "mm_at_rest F Q s" and K: "kernel_ok K"
  shows "\<exists>Q'. mm_at_rest F Q' s' \<and> dramsize s' = dramsize s \<and> nvmsize s' = nvmsize s \<and> (accounted r r' Q s \<longrightarrow> accounted r r' Q' s')"
  using st
proof cases
  case (fault p)
  have I: "mm_inv F {} Q s" "Q (TRANSITION HUGEP) = []" using inv by (simp_all add: mm_at_rest_def)
  obtain fast n Q' where l: "mm_fault_lists Q = Some (fast, n, Q')" using fault_ok [OF I(1)] fault by (auto split: option.splits)
  with fault_ok [OF I(1)] fault have f: "mm_inv F {} Q' s'" "Q (free_nodes fast) \<noteq> []" "dramsize s' = dramsize s" "nvmsize s' = nvmsize s"
    "fastmem_freebytes s' = (if fast then fastmem_freebytes s - HUGEPAGE_SIZE else fastmem_freebytes s)"
    "slowmem_freebytes s' = (if fast then slowmem_freebytes s else slowmem_freebytes s - HUGEPAGE_SIZE)" by auto
  have Q': "Q' = (let Q1 = Q(free_nodes fast := butlast (Q (free_nodes fast))); a = MEM_ACTIVE (if fast then FASTMEM else SLOWMEM) HUGEP in Q1(a := n # Q1 a))"
    using l by (auto simp: mm_fault_lists_def Let_def split: if_splits)
  have q: "Q' (TRANSITION HUGEP) = []" "Q' (free_nodes b) = (if b = fast then butlast (Q (free_nodes b)) else Q (free_nodes b))" for b
    unfolding Q' Let_def using I(2) by (auto simp: free_nodes_def)
  have sub: "unat (x - HUGEPAGE_SIZE) = unat x - 2 ^ 21" if "2 ^ 21 \<le> unat x" for x :: u64
    using that by (subst unat_sub) (simp_all add: word_le_nat_alt unat_HUGEPAGE)
  have "accounted r r' Q' s'" if a: "accounted r r' Q s"
  proof -
    have len: "List.length (Q (free_nodes fast)) = Suc (List.length (butlast (Q (free_nodes fast))))" using f(2) by simp
    show ?thesis using a len sub [of "fastmem_freebytes s"] sub [of "slowmem_freebytes s"] by (cases fast) (simp_all add: accounted_def f(5,6) q(2))
  qed
  then show ?thesis using f(1,3,4) q(1) by (intro exI [of _ Q']) (simp add: mm_at_rest_def)
next
  case (placed p v)
  have "mm_at_rest F Q s'" unfolding placed(1) mm_at_rest_def using inv mm_upd_va [where F = F and Q = Q and s = s and p = p, OF _ placed(3)] by (simp add: mm_at_rest_def)
  then show ?thesis using placed(1) by (intro exI [of _ Q]) (simp add: upd_page_def accounted_def)
next
  case (turn f)
  have "pass_ok F Q s s'" using turn_ok [OF _ _ K turn] inv by (simp add: mm_at_rest_def)
  then show ?thesis by (auto simp: pass_ok_def mm_at_rest_def)
qed

lemma mm_work_run:
  fixes s0 :: "'a mmgr_state_scheme"
  assumes "rtranclp (mm_work K G) s0 s'" "mm_at_rest F Q s0" "accounted r r' Q s0" "kernel_ok K"
  shows "\<exists>Q'. mm_at_rest F Q' s' \<and> accounted r r' Q' s' \<and> dramsize s' = dramsize s0 \<and> nvmsize s' = nvmsize s0"
  using assms(1)
proof (induction rule: rtranclp_induct)
  case (step t u)
  then show ?case using mm_work_ok [OF step(2) _ assms(4), where F = F and r = r and r' = r'] by metis
qed (use assms in blast)

lemma mm_step_ok:
  fixes s :: "'a mmgr_state_scheme"
  assumes st: "mm_step K G s s'" and inv: "mm_at_rest F Q s" and K: "kernel_ok K"
  shows "\<exists>Q'. mm_at_rest F Q' s'"
  using st
proof cases
  case work
  then show ?thesis using mm_work_ok [OF work inv K] by blast
next
  case (remove n l)
  have I: "mm_inv F {} Q s" "Q (TRANSITION HUGEP) = []" using inv by (simp_all add: mm_at_rest_def)
  have "n \<in> set (Q l)" using dll_repD(7) [OF mm_invD(1) [OF I(1)]] remove(1) by blast
  then show ?thesis using remove_ok [OF I(1), of n l] remove(2) I(2) unfolding mm_at_rest_def by (auto intro!: exI)
qed

lemma mm_step_run:
  fixes s0 :: "'a mmgr_state_scheme"
  assumes "rtranclp (mm_step K G) s0 s'" "mm_at_rest F Q s0" "kernel_ok K"
  shows "\<exists>Q'. mm_at_rest F Q' s'"
  using assms(1)
proof (induction rule: rtranclp_induct)
  case (step t u)
  then show ?case using mm_step_ok [OF step(2) _ assms(3), where F = F] by blast
qed (use assms in blast)

lemma num_length: "mm_inv F H Q s \<Longrightarrow> unat (l_num (m_links s) l) = List.length (Q l)"
  using list_bound [of F H Q s l] dll_repD(6) [OF mm_invD(1), of F H Q s l] by (simp add: unat_of_nat)

section \<open>A small machine\<close>

definition mm_start :: "u64 \<Rightarrow> u64 \<Rightarrow> mmgr_state" where
  "mm_start ds ns = arms_state.extend (arms_start\<lparr>dramsize := ds, nvmsize := ns\<rparr>)
     (mmgr_state.fields dll_empty (\<lambda>_. NULL) (\<lambda>_. 0) (\<lambda>_. 0) (\<lambda>_. 0) (\<lambda>_. NULL) 0 0)"

lemma mm_start_simps [simp]: "dramsize (mm_start ds ns) = ds" "nvmsize (mm_start ds ns) = ns"
  by (simp_all add: mm_start_def arms_state.defs arms_start_def)

text \<open>The node of a frame has the address of its page: the two are fields of different objects.\<close>

lemma mm_demo_allocs: "mm_allocs demo_dram demo_dram demo_nvm demo_nvm (mm_start 0x200000 0x400000)"
  using demo_allocs_sub [of 1 2] by (simp add: mm_allocs_def demo_sizes)

lemma mm_demo_nodes: "mm_nodes demo_dram demo_nvm (mm_start 0x200000 0x400000) = {demo_dram 0, demo_nvm 0, demo_nvm 1}"
  by (auto simp: mm_nodes_def demo_sizes less_Suc_eq numeral_2_eq_2)

lemma mm_demo_fresh: "mm_fresh demo_dram demo_nvm (mm_start 0x200000 0x400000) =
    (\<lambda>_. [])(MEM_FREE FASTMEM HUGEP := [demo_dram 0], MEM_FREE SLOWMEM HUGEP := [demo_nvm 1, demo_nvm 0])"
  by (simp add: mm_fresh_def demo_sizes numeral_2_eq_2)

definition one_active :: "mmgr_list \<Rightarrow> addr list" where
  "one_active = (\<lambda>_. [])(MEM_ACTIVE FASTMEM HUGEP := [demo_dram 0], MEM_FREE SLOWMEM HUGEP := [demo_nvm 1, demo_nvm 0])"

text \<open>A fault takes the fast frame; its page is placed, or removed again.\<close>

lemma mm_demo:
  "\<exists>s0 p s1 s2. arms_mmgr_init demo_dram demo_dram demo_nvm demo_nvm (mm_start 0x200000 0x400000) = Some s0 \<and>
     arms_mmgr_pagefault s0 = Some (p, s1) \<and> arms_mmgr_remove_page s1 p = Some s2 \<and>
     rtranclp (mm_work host_kernel quiet_flags) s0 (upd_page p (\<lambda>x. x\<lparr>va := 0x200000\<rparr>) s1) \<and>
     placed UNIV (upd_page p (\<lambda>x. x\<lparr>va := 0x200000\<rparr>) s1) \<and>
     mm_inv {demo_dram 0, demo_nvm 0, demo_nvm 1} {} one_active (upd_page p (\<lambda>x. x\<lparr>va := 0x200000\<rparr>) s1) \<and>
     rtranclp (mm_step host_kernel quiet_flags) s0 s2 \<and>
     mm_inv {demo_dram 0, demo_nvm 0, demo_nvm 1} {} (one_active(MEM_ACTIVE FASTMEM HUGEP := [], MEM_FREE FASTMEM HUGEP := [demo_dram 0])) s2 \<and>
     fastmem_freebytes s2 = 0"
proof -
  let ?F = "{demo_dram 0, demo_nvm 0, demo_nvm 1}" and ?s = "mm_start 0x200000 0x400000" and ?d = "demo_dram 0"
  let ?Q0 = "(\<lambda>_. [])(MEM_FREE FASTMEM HUGEP := [?d], MEM_FREE SLOWMEM HUGEP := [demo_nvm 1, demo_nvm 0])"
  obtain s0 where s0: "arms_mmgr_init demo_dram demo_dram demo_nvm demo_nvm ?s = Some s0" "mm_inv ?F {} ?Q0 s0"
    "fastmem_freebytes s0 = 0x200000" "\<forall>p. \<not> present (body s0 p)"
    using mmgr_init_ok [OF mm_demo_allocs] unfolding mm_demo_nodes mm_demo_fresh
    by (auto simp: mm_start_def arms_state.defs arms_start_def zero_page_def)
  have "mm_fault_lists ?Q0 = Some (True, ?d, one_active)"
    by (auto simp: mm_fault_lists_def free_nodes_def one_active_def fun_eq_iff Let_def)
  then obtain s1 where s1: "arms_mmgr_pagefault s0 = Some (n_page s0 ?d, s1)" "mm_inv ?F {} one_active s1" "n_page s1 = n_page s0"
    "body s1 = (body s0)(n_page s0 ?d := (npage s0 ?d)\<lparr>present := True\<rparr>)" "fastmem_freebytes s1 = 0"
    using fault_ok [OF s0(2)] s0(3) by (auto simp: HUGEPAGE_SIZE_def)
  let ?p = "n_page s0 ?d" and ?A = "MEM_ACTIVE FASTMEM HUGEP"
  let ?t = "upd_page ?p (\<lambda>x. x\<lparr>va := 0x200000\<rparr>) s1"
  have d: "?d \<in> set (one_active ?A)" "in_dram (npage s1 ?d)"
    using mm_invD(4) [OF s1(2), of ?d ?A] by (simp_all add: one_active_def)
  have "(one_active(?A := remove1 ?d (one_active ?A)))(free_nodes True := ?d # (one_active(?A := remove1 ?d (one_active ?A))) (free_nodes True)) =
      one_active(?A := [], MEM_FREE FASTMEM HUGEP := [?d])" by (auto simp: one_active_def free_nodes_def fun_eq_iff)
  with remove_ok [OF s1(2) d(1)] d(2) obtain s2 where s2: "arms_mmgr_remove_page s1 ?p = Some s2" "same_bytes s1 s2"
    "mm_inv ?F {} (one_active(?A := [], MEM_FREE FASTMEM HUGEP := [?d])) s2" unfolding s1(3) by auto
  have v: "(0x200000 :: u64) mod HUGEPAGE_SIZE = 0" "(0x200000 :: u64) \<noteq> 0" by (simp_all add: HUGEPAGE_SIZE_def)
  have f: "mm_work host_kernel quiet_flags s0 s1" by (rule mm_work.fault [OF s1(1)])
  have "mm_work host_kernel quiet_flags s1 ?t" by (rule mm_work.placed) (use v(1) s1(4) in simp_all)
  then have r1: "rtranclp (mm_work host_kernel quiet_flags) s0 ?t" using f by (meson r_into_rtranclp rtranclp.rtrancl_into_rtrancl)
  have own: "d_list (m_links s1) ?d = Some ?A" using dll_repD(7) [OF mm_invD(1) [OF s1(2)], of ?d ?A] d(1) by simp
  have "mm_step host_kernel quiet_flags s1 s2" by (rule mm_step.remove [OF own]) (simp add: s1(3) s2(1))
  then have r2: "rtranclp (mm_step host_kernel quiet_flags) s0 s2" using mm_step.work [OF f] by (meson r_into_rtranclp rtranclp.rtrancl_into_rtrancl)
  have "placed UNIV ?t" using s0(4) s1(4) v(2) by (auto simp: placed_def upd_page_def)
  moreover have "mm_inv ?F {} one_active ?t" by (rule mm_upd_va [OF s1(2) v(1)])
  moreover have "fastmem_freebytes s2 = 0" using s2(2) s1(5) by (simp add: same_bytes_def)
  ultimately show ?thesis using s0(1) s1(1) s2(1,3) r1 r2 by blast
qed

lemma host_flags: "kernel_ok host_kernel" "kernel_live host_kernel" "clears quiet_flags" "k_tlbflush quiet_flags 0"
  by (simp_all add: host_kernel_ok host_kernel_live clears_def)

section \<open>The properties\<close>

text \<open>With its one fast frame in use the small machine has no free fast bytes.\<close>

lemma mm_demo_bytes:
  assumes "arms_mmgr_init demo_dram demo_dram demo_nvm demo_nvm (mm_start 0x200000 0x400000) = Some s0"
    "rtranclp (mm_work host_kernel quiet_flags) s0 s1" "mm_inv {demo_dram 0, demo_nvm 0, demo_nvm 1} {} one_active s1"
  shows "unat (fastmem_freebytes s1) = 0"
proof -
  let ?s = "mm_start 0x200000 0x400000"
  have "mm_at_rest (mm_nodes demo_dram demo_nvm ?s) (mm_fresh demo_dram demo_nvm ?s) s0"
    using mmgr_init_ok [OF mm_demo_allocs] assms(1) by (auto simp: mm_at_rest_def mm_fresh_def)
  from mm_work_run [OF assms(2) this fresh_accounted [OF assms(1) mm_demo_allocs] host_flags(1)] obtain Q where
    Q: "mm_inv {demo_dram 0, demo_nvm 0, demo_nvm 1} {} Q s1"
    "accounted (unat (dramsize ?s) mod 2 ^ 21) (unat (nvmsize ?s) mod 2 ^ 21) Q s1" unfolding mm_demo_nodes by (auto simp: mm_at_rest_def)
  have "List.length (Q (MEM_FREE FASTMEM HUGEP)) = List.length (one_active (MEM_FREE FASTMEM HUGEP))"
    using num_length [OF Q(1), of "MEM_FREE FASTMEM HUGEP"] num_length [OF assms(3), of "MEM_FREE FASTMEM HUGEP"] by simp
  then show ?thesis using Q(2) by (simp add: accounted_def free_nodes_def one_active_def)
qed

text \<open>
  C30: The lists of the memory manager with cooling are well typed between its operations: after
  any sequence of faults, address updates, removals and turns of its thread each node is in
  exactly one list, its page lies in the tier and has the present flag of that list and is a
  huge page, node and page point to each other and agree on the offset, no two nodes share a
  page, and no node is left on the local list. Removals come between the turns, not during one,
  although the code takes no lock that would enforce this (mmgr_removal_race shows what happens
  otherwise), and the flags of the pages are fixed within a turn and arbitrary from turn to
  turn.
\<close>

lemma mmgr_nodes_kept:
  assumes "mm_allocs dn dp nn np s" "arms_mmgr_init dn dp nn np s = Some s0" "kernel_ok K" "rtranclp (mm_step K G) s0 s'"
  shows "\<exists>Q. dll_rep (m_links s') Q \<and> (\<Union>l. set (Q l)) = mm_nodes dn nn s \<and> (\<forall>k l. k \<noteq> l \<longrightarrow> set (Q k) \<inter> set (Q l) = {}) \<and>
    (\<forall>l. \<forall>n\<in>set (Q l). fits_list l (npage s' n)) \<and>
    (\<forall>n\<in>mm_nodes dn nn s. pt (npage s' n) = HUGEP \<and> management s' (n_page s' n) = n \<and> devdax_offset (npage s' n) = n_offset s' n) \<and>
    inj_on (n_page s') (mm_nodes dn nn s) \<and> Q (TRANSITION HUGEP) = []"
proof -
  have "mm_at_rest (mm_nodes dn nn s) (mm_fresh dn nn s) s0"
    using mmgr_init_ok [OF assms(1)] assms(2) by (auto simp: mm_at_rest_def mm_fresh_def)
  from mm_step_run [OF assms(4) this assms(3)] obtain Q where Q: "mm_inv (mm_nodes dn nn s) {} Q s'" "Q (TRANSITION HUGEP) = []"
    by (auto simp: mm_at_rest_def)
  note I = mm_invD [OF Q(1)] and N = nodes_okD [OF mm_invD(2) [OF Q(1)]]
  have U: "(\<Union>l. set (Q l)) = mm_nodes dn nn s" using I(3) unfolding shares_def by simp
  have "set (Q k) \<inter> set (Q l) = {}" if "k \<noteq> l" for k l using dll_rep_disjoint [OF I(1)] that by blast
  then show ?thesis using Q(2) U I(1,4) N(2,3,4,7) by (intro exI [of _ Q]) simp
qed

lemma mmgr_nodes_kept_witness:
  "\<exists>s0 s2 Q. arms_mmgr_init demo_dram demo_dram demo_nvm demo_nvm (mm_start 0x200000 0x400000) = Some s0 \<and>
     rtranclp (mm_step host_kernel quiet_flags) s0 s2 \<and> dll_rep (m_links s2) Q \<and>
     (\<Union>l. set (Q l)) = {demo_dram 0, demo_nvm 0, demo_nvm 1}"
proof -
  obtain s0 s2 where s: "arms_mmgr_init demo_dram demo_dram demo_nvm demo_nvm (mm_start 0x200000 0x400000) = Some s0"
    "rtranclp (mm_step host_kernel quiet_flags) s0 s2" using mm_demo by blast
  from mmgr_nodes_kept [OF mm_demo_allocs s(1) host_flags(1) s(2)] show ?thesis using s unfolding mm_demo_nodes by blast
qed

text \<open>
  C31: As long as no page is removed, both counters of free bytes are exact after any faults,
  address updates and turns: each is 2 MiB times the number of free nodes of its tier plus what
  the size of the device has beyond a multiple of 2 MiB, so no fault and no move wraps it.
\<close>

lemma mmgr_bytes_exact:
  assumes "mm_allocs dn dp nn np s" "arms_mmgr_init dn dp nn np s = Some s0" "kernel_ok K" "rtranclp (mm_work K G) s0 s'"
  shows "unat (fastmem_freebytes s') = unat (dramsize s) mod 2 ^ 21 + unat (l_num (m_links s') (MEM_FREE FASTMEM HUGEP)) * 2 ^ 21 \<and>
    unat (slowmem_freebytes s') = unat (nvmsize s) mod 2 ^ 21 + unat (l_num (m_links s') (MEM_FREE SLOWMEM HUGEP)) * 2 ^ 21"
proof -
  have "mm_at_rest (mm_nodes dn nn s) (mm_fresh dn nn s) s0"
    using mmgr_init_ok [OF assms(1)] assms(2) by (auto simp: mm_at_rest_def mm_fresh_def)
  from mm_work_run [OF assms(4) this fresh_accounted [OF assms(2,1)] assms(3)] obtain Q where Q: "mm_inv (mm_nodes dn nn s) {} Q s'"
    "accounted (unat (dramsize s) mod 2 ^ 21) (unat (nvmsize s) mod 2 ^ 21) Q s'" by (auto simp: mm_at_rest_def)
  then show ?thesis by (simp add: accounted_def free_nodes_def num_length [OF Q(1)])
qed

lemma mmgr_bytes_exact_witness:
  "\<exists>s0 s1. arms_mmgr_init demo_dram demo_dram demo_nvm demo_nvm (mm_start 0x200000 0x400000) = Some s0 \<and>
     rtranclp (mm_work host_kernel quiet_flags) s0 s1 \<and> unat (fastmem_freebytes s1) = 0 \<and> unat (slowmem_freebytes s1) = 0x400000"
proof -
  obtain s0 s1 where s: "arms_mmgr_init demo_dram demo_dram demo_nvm demo_nvm (mm_start 0x200000 0x400000) = Some s0"
    "rtranclp (mm_work host_kernel quiet_flags) s0 s1" and i: "mm_inv {demo_dram 0, demo_nvm 0, demo_nvm 1} {} one_active s1"
    using mm_demo by blast
  from mmgr_bytes_exact [OF mm_demo_allocs s(1) host_flags(1) s(2)] show ?thesis
    using s by (intro exI [of _ s0] exI [of _ s1]) (simp add: num_length [OF i] one_active_def)
qed

text \<open>
  C32: A turn of the thread of the memory manager ends without a failed assertion after any
  faults and turns without removals, when the kernel serves the requests and the ioctls on the
  flags succeed, the flags are fixed within a turn, the present pages have addresses and the
  slow tier has one free node more than a tenth of the fast tier: both sweeps end, and no move
  runs out of free nodes.
\<close>

lemma mmgr_turn_returns:
  fixes s :: "'a mmgr_state_scheme"
  assumes "mm_allocs dn dp nn np s" "arms_mmgr_init dn dp nn np s = Some s0" "kernel_ok K" "rtranclp (mm_work K G) s0 s'"
    "kernel_live K" "clears G" "k_tlbflush G 0" "placed UNIV s'"
    "unat (ARMS_FASTFREE s) div 2 ^ 21 + 1 \<le> unat (l_num (m_links s') (MEM_FREE SLOWMEM HUGEP))"
  shows "\<exists>t. mmgr_thread K (with_flags f G) s' = Some t"
proof -
  have "mm_at_rest (mm_nodes dn nn s) (mm_fresh dn nn s) s0" and sz: "dramsize s0 = dramsize s"
    using mmgr_init_ok [OF assms(1)] assms(2) by (auto simp: mm_at_rest_def mm_fresh_def)
  from mm_work_run [OF assms(4) this(1) fresh_accounted [OF assms(2,1)] assms(3)] obtain Q where Q: "mm_inv (mm_nodes dn nn s) {} Q s'"
    "Q (TRANSITION HUGEP) = []" "accounted (unat (dramsize s) mod 2 ^ 21) (unat (nvmsize s) mod 2 ^ 21) Q s'" "dramsize s' = dramsize s0"
    by (auto simp: mm_at_rest_def)
  have "unat (ARMS_FASTFREE s') div 2 ^ 21 + 1 \<le> List.length (Q (free_nodes False))"
    using assms(9) Q(4) sz by (simp add: ARMS_FASTFREE_def free_nodes_def num_length [OF Q(1)])
  from turn_returns [OF Q(1,2) assms(3,5,6,7,8) Q(3) this, of f] show ?thesis by auto
qed

lemma mmgr_turn_returns_witness:
  "\<exists>s0 s1 t. arms_mmgr_init demo_dram demo_dram demo_nvm demo_nvm (mm_start 0x200000 0x400000) = Some s0 \<and>
     rtranclp (mm_work host_kernel quiet_flags) s0 s1 \<and> mmgr_thread host_kernel (with_flags one_cold quiet_flags) s1 = Some t"
proof -
  obtain s0 s1 where s: "arms_mmgr_init demo_dram demo_dram demo_nvm demo_nvm (mm_start 0x200000 0x400000) = Some s0"
    "rtranclp (mm_work host_kernel quiet_flags) s0 s1" "placed UNIV s1" and i: "mm_inv {demo_dram 0, demo_nvm 0, demo_nvm 1} {} one_active s1"
    using mm_demo by blast
  have room: "unat (ARMS_FASTFREE (mm_start 0x200000 0x400000)) div 2 ^ 21 + 1 \<le> unat (l_num (m_links s1) (MEM_FREE SLOWMEM HUGEP))"
    by (simp add: num_length [OF i] one_active_def ARMS_FASTFREE_def)
  from mmgr_turn_returns [OF mm_demo_allocs s(1) host_flags(1) s(2) host_flags(2-4) s(3) room, of one_cold]
  show ?thesis using s(1,2) by blast
qed

text \<open>
  C33: A cooling sweep over at most 5120 active nodes, with ioctls that succeed, looks at each
  of them once: the nodes whose page has the accessed flag and no other stay active in their
  order, the others go to the front of the inactive list of their tier in their order, and the
  pages and the free lists stay as they are.
\<close>

lemma mmgr_cools:
  fixes s :: "'a mmgr_state_scheme"
  assumes "mm_inv F {} Q s" "clears G" "List.length (Q (MEM_ACTIVE FASTMEM HUGEP)) + List.length (Q (MEM_ACTIVE SLOWMEM HUGEP)) \<le> 5120"
  shows "\<exists>s' Q'. cool (with_flags f G) s = Some s' \<and> mm_inv F {} Q' s' \<and> body s' = body s \<and> n_page s' = n_page s \<and>
    (\<forall>mt. Q' (MEM_ACTIVE mt HUGEP) = filter (accessed_only f s) (Q (MEM_ACTIVE mt HUGEP)) \<and>
      Q' (MEM_INACTIVE mt HUGEP) = filter (\<lambda>n. \<not> accessed_only f s n) (Q (MEM_ACTIVE mt HUGEP)) @ Q (MEM_INACTIVE mt HUGEP)) \<and>
    (\<forall>mt. Q' (MEM_FREE mt HUGEP) = Q (MEM_FREE mt HUGEP))"
proof -
  obtain s' where s': "cool (with_flags f G) s = Some s'" using cool_divides(2) [OF assms(1,2)] by fast
  obtain U V Q' where d: "mm_inv F {} Q' s'" "divided (\<lambda>mt. MEM_ACTIVE mt HUGEP) (\<lambda>mt. MEM_INACTIVE mt HUGEP) (accessed_only f s) Q U V Q'"
    "same_nodes s s'" "node_total U = 0 \<or> unat ARMS_COOL_RATE \<le> node_total V * 2 ^ 21" using cool_divides(1) [OF assms(1) s'] by blast
  have q: "Q (MEM_ACTIVE mt HUGEP) = U mt @ V mt" "Q' (MEM_ACTIVE mt HUGEP) = filter (accessed_only f s) (V mt) @ U mt"
    "Q' (MEM_INACTIVE mt HUGEP) = filter (\<lambda>n. \<not> accessed_only f s n) (V mt) @ Q (MEM_INACTIVE mt HUGEP)"
    "Q' (MEM_FREE mt HUGEP) = Q (MEM_FREE mt HUGEP)" for mt using d(2) by (auto simp: divided_def)
  have "node_total U + node_total V \<le> 5120" using assms(3) by (simp add: q(1) node_total_def)
  moreover have "unat ARMS_COOL_RATE = 5120 * 2 ^ 21" by (simp add: ARMS_COOL_RATE_def)
  ultimately have "node_total U = 0" using d(4) by auto
  then have "U mt = []" for mt by (cases mt) (simp_all add: node_total_def)
  then show ?thesis using s' d(1,3) q by (intro exI [of _ s'] exI [of _ Q']) (simp add: same_nodes_def)
qed

lemma mmgr_cools_witness:
  "\<exists>s s' Q'. cool (with_flags (\<lambda>_. (0, 0)) quiet_flags) (s :: mmgr_state) = Some s' \<and>
     mm_inv {demo_dram 0, demo_nvm 0, demo_nvm 1} {} Q' s' \<and> Q' (MEM_ACTIVE FASTMEM HUGEP) = [] \<and> Q' (MEM_INACTIVE FASTMEM HUGEP) = [demo_dram 0]"
proof -
  obtain s :: mmgr_state where i: "mm_inv {demo_dram 0, demo_nvm 0, demo_nvm 1} {} one_active s" using mm_demo by blast
  have "List.length (one_active (MEM_ACTIVE FASTMEM HUGEP)) + List.length (one_active (MEM_ACTIVE SLOWMEM HUGEP)) \<le> 5120"
    by (simp add: one_active_def)
  from mmgr_cools [OF i host_flags(3) this, of "\<lambda>_. (0, 0)"] obtain s' Q' where
    "cool (with_flags (\<lambda>_. (0, 0)) quiet_flags) s = Some s'" "mm_inv {demo_dram 0, demo_nvm 0, demo_nvm 1} {} Q' s'"
    "Q' (MEM_ACTIVE FASTMEM HUGEP) = filter (accessed_only (\<lambda>_. (0, 0)) s) (one_active (MEM_ACTIVE FASTMEM HUGEP))"
    "Q' (MEM_INACTIVE FASTMEM HUGEP) = filter (\<lambda>n. \<not> accessed_only (\<lambda>_. (0, 0)) s n) (one_active (MEM_ACTIVE FASTMEM HUGEP)) @
       one_active (MEM_INACTIVE FASTMEM HUGEP)" by blast
  moreover have "\<not> accessed_only (\<lambda>_. (0, 0)) s n" for n by (simp add: accessed_only_def flag_bits_def ARMS_ACCESSED_FLAG_def)
  ultimately show ?thesis by (intro exI [of _ s] exI [of _ s'] exI [of _ Q']) (simp add: one_active_def)
qed

text \<open>
  C34: A removal of a fast page puts its node into the free list but leaves the counter of free
  fast bytes as it is. When that counter is below 2 MiB, the next fault is served with a fast
  node all the same, the counter wraps to almost 2^64, and the test for memory pressure then
  fails.
\<close>

lemma mmgr_fault_wraps:
  fixes s :: "'a mmgr_state_scheme"
  assumes "mm_inv F {} Q s" "n \<in> set (Q l)" "in_dram (npage s n)" "unat (fastmem_freebytes s) < 2 ^ 21"
  shows "\<exists>s1 p s2. arms_mmgr_remove_page s (n_page s n) = Some s1 \<and>
    d_list (m_links s1) n = Some (MEM_FREE FASTMEM HUGEP) \<and> fastmem_freebytes s1 = fastmem_freebytes s \<and>
    arms_mmgr_pagefault s1 = Some (p, s2) \<and> 2 ^ 64 - 2 ^ 21 \<le> unat (fastmem_freebytes s2) \<and>
    \<not> fastmem_freebytes s2 < ARMS_FASTFREE s2"
proof -
  let ?Q1 = "Q(l := remove1 n (Q l))" and ?m = "MEM_FREE FASTMEM HUGEP"
  obtain s1 where s1: "arms_mmgr_remove_page s (n_page s n) = Some s1" "mm_inv F {} (?Q1(?m := n # ?Q1 ?m)) s1" "same_bytes s s1"
    using remove_ok [OF assms(1,2)] assms(3) by (auto simp: free_nodes_def)
  have own: "d_list (m_links s1) n = Some ?m" using dll_repD(7) [OF mm_invD(1) [OF s1(2)], of n ?m] by simp
  have b: "fastmem_freebytes s1 = fastmem_freebytes s" using s1(3) by (simp add: same_bytes_def)
  have "(?Q1(?m := n # ?Q1 ?m)) (free_nodes True) \<noteq> []" by (simp add: free_nodes_def)
  then obtain s2 p where s2: "arms_mmgr_pagefault s1 = Some (p, s2)" "fastmem_freebytes s2 = fastmem_freebytes s1 - HUGEPAGE_SIZE" "dramsize s2 = dramsize s1"
    using fault_ok [OF s1(2)] by (auto simp: mm_fault_lists_def Let_def)
  have "unat (fastmem_freebytes s2) = 2 ^ 64 + unat (fastmem_freebytes s) - 2 ^ 21"
    unfolding s2(2) b using assms(4) by (simp add: unat_sub_if_size unat_HUGEPAGE word_size)
  then have le: "2 ^ 64 - 2 ^ 21 \<le> unat (fastmem_freebytes s2)" by simp
  have "unat (ARMS_FASTFREE s2) \<le> unat (dramsize s2) div 10" by (simp add: ARMS_FASTFREE_def unat_div_distrib)
  then have "unat (ARMS_FASTFREE s2) < 2 ^ 64 div 10 + 1" using unat_less_u64 [of "dramsize s2"] by linarith
  then have "\<not> fastmem_freebytes s2 < ARMS_FASTFREE s2" using le by (simp add: word_less_nat_alt)
  then show ?thesis using s1(1) own b s2(1) le by blast
qed

text \<open>The fast tier of the small machine has one frame; it is handed out, given back and handed out again.\<close>

lemma mmgr_fault_wraps_witness:
  "\<exists>s0 s1 s2 p s3. arms_mmgr_init demo_dram demo_dram demo_nvm demo_nvm (mm_start 0x200000 0x400000) = Some s0 \<and>
     rtranclp (mm_work host_kernel quiet_flags) s0 s1 \<and> arms_mmgr_remove_page s1 (n_page s1 (demo_dram 0)) = Some s2 \<and>
     arms_mmgr_pagefault s2 = Some (p, s3) \<and> 2 ^ 64 - 2 ^ 21 \<le> unat (fastmem_freebytes s3)"
proof -
  let ?F = "{demo_dram 0, demo_nvm 0, demo_nvm 1}" and ?A = "MEM_ACTIVE FASTMEM HUGEP"
  obtain s0 s1 where s: "arms_mmgr_init demo_dram demo_dram demo_nvm demo_nvm (mm_start 0x200000 0x400000) = Some s0"
    "rtranclp (mm_work host_kernel quiet_flags) s0 s1" and i: "mm_inv ?F {} one_active s1" using mm_demo by blast
  have n: "demo_dram 0 \<in> set (one_active ?A)" by (simp add: one_active_def)
  from mm_invD(4) [OF i n] have t: "in_dram (npage s1 (demo_dram 0))" by simp
  have "unat (fastmem_freebytes s1) = 0" using mm_demo_bytes [OF s i] .
  from mmgr_fault_wraps [OF i n t] this show ?thesis using s by auto
qed

end
