(* ===== verification/Mmgr_Race.thy ===== *)
theory Mmgr_Race
  imports Mmgr_System
begin

text \<open>
  A removal in the middle of a move. In theory Mmgr_System removals come between the turns of the thread; in the
  code nothing keeps them there. Here one comes between the second insertion of \<open>hot_one\<close> and the exchange of the
  page pointers: the page is fast by then, but its node is still the slow one.
\<close>

lemma listed: "dll_rep lk Q \<Longrightarrow> n \<in> set (Q l) \<Longrightarrow> d_list lk n = Some l"
  using dll_repD(7) [of lk Q n l] by simp

text \<open>The removal takes the slow node out of its free list and puts it into the one of the fast tier.\<close>

lemma removal_misfiles:
  assumes rep: "dll_rep (m_links s) Q" and n: "n \<noteq> NULL" "n \<in> set (Q (MEM_FREE SLOWMEM HUGEP))" "\<And>k. k \<noteq> MEM_FREE SLOWMEM HUGEP \<Longrightarrow> n \<notin> set (Q k)"
    and p: "p \<noteq> NULL" "management s p = n" "in_dram (body s p)" "pt (body s p) = HUGEP"
  defines "Q' \<equiv> (Q(MEM_FREE SLOWMEM HUGEP := remove1 n (Q (MEM_FREE SLOWMEM HUGEP))))
     (MEM_FREE FASTMEM HUGEP := n # Q (MEM_FREE FASTMEM HUGEP))"
  shows "\<exists>lk. arms_mmgr_remove_page s p = Some (upd_page p (\<lambda>x. x\<lparr>present := False\<rparr>) (s\<lparr>m_links := lk\<rparr>)) \<and> dll_rep lk Q'"
proof -
  let ?l = "MEM_FREE SLOWMEM HUGEP" and ?m = "MEM_FREE FASTMEM HUGEP"
  let ?Q1 = "Q(?l := remove1 n (Q ?l))"
  obtain lk1 where 1: "mmgr_list_remove_node (m_links s) ?l n = Some lk1" "dll_rep lk1 ?Q1" using mmgrq.del_rep [OF rep n(2)] by blast
  have "n \<notin> set (?Q1 k)" for k using dll_repD(1) [OF rep, of ?l] n(3) [of k] by (auto simp: distinct_remove1_removeAll)
  then obtain lk2 where 2: "mmgr_list_add lk1 ?m n = Some lk2" "dll_rep lk2 (?Q1(?m := n # ?Q1 ?m))"
    using mmgrq.enq_rep [OF 1(2) n(1), of ?m] by blast
  have "?Q1(?m := n # ?Q1 ?m) = Q'" by (simp add: Q'_def)
  moreover have "(upd_page p (\<lambda>x. x\<lparr>present := False\<rparr>) (s\<lparr>m_links := lk1\<rparr>))\<lparr>m_links := lk2\<rparr> =
      upd_page p (\<lambda>x. x\<lparr>present := False\<rparr>) (s\<lparr>m_links := lk2\<rparr>)" by (cases s) (simp add: upd_page_def)
  moreover have "arms_mmgr_remove_page s p = Some ((upd_page p (\<lambda>x. x\<lparr>present := False\<rparr>) (s\<lparr>m_links := lk1\<rparr>))\<lparr>m_links := lk2\<rparr>)"
    using 1(1) 2(1) p n(1) listed [OF rep n(2)] by (simp add: arms_mmgr_remove_page_def node_add_def Let_def) (simp add: upd_page_def)
  ultimately show ?thesis using 2(2) by auto
qed

section \<open>Properties\<close>

text \<open>
  C35: A removal in the middle of a move breaks the lists, since arms_mmgr_remove_page takes
  none of the locks of the move: when a present slow page is about to move, a fast node is free
  and the kernel serves the requests, the steps of the move run up to the exchange of the page
  pointers, and uninterrupted they go on with it; a removal of the page at this point succeeds
  and files its slow node under the free nodes of the fast tier, so that after the exchange a
  free fast node has a page of the slow tier, and the node of the fast frame is active with a
  page that is not present.
\<close>

lemma mmgr_removal_race:
  fixes s :: "'a mmgr_state_scheme"
  assumes "mm_inv F {n} Q s" "n \<noteq> NULL" "\<not> in_dram (npage s n)" "present (npage s n)" "Q (MEM_FREE FASTMEM HUGEP) \<noteq> []"
    "kernel_ok K" "kernel_live K"
  shows "\<exists>nn s1 s2 s3 s4 s5 t.
    node_remove (MEM_FREE FASTMEM HUGEP) s = Some (nn, s1) \<and>
    arms_migrate_up K (s1\<lparr>fastmem_freebytes := fastmem_freebytes s1 - pt_to_pagesize HUGEP,
      slowmem_freebytes := slowmem_freebytes s1 + pt_to_pagesize HUGEP\<rparr>) (n_page s1 n) (n_offset s1 nn) = Some s2 \<and>
    node_add (MEM_ACTIVE FASTMEM HUGEP) nn s2 = Some s3 \<and> node_add (MEM_FREE SLOWMEM HUGEP) n s3 = Some s4 \<and>
    hot_one K n s = swap_nodes n nn False s4 \<and> hot_one K n s \<noteq> None \<and>
    arms_mmgr_remove_page s4 (n_page s n) = Some s5 \<and> swap_nodes n nn False s5 = Some t \<and>
    d_list (m_links t) n = Some (MEM_FREE FASTMEM HUGEP) \<and> \<not> in_dram (npage t n) \<and>
    d_list (m_links t) nn = Some (MEM_ACTIVE FASTMEM HUGEP) \<and> \<not> present (npage t nn)"
proof -
  let ?f = "MEM_FREE FASTMEM HUGEP" and ?a = "MEM_ACTIVE FASTMEM HUGEP" and ?l = "MEM_FREE SLOWMEM HUGEP"
  let ?nn = "last (Q ?f)" and ?p = "n_page s n"
  obtain lk where lk: "node_remove ?f s = Some (?nn, s\<lparr>m_links := lk\<rparr>)"
    "mm_inv F (insert ?nn {n}) (Q(?f := butlast (Q ?f))) (s\<lparr>m_links := lk\<rparr>)" "?nn \<noteq> NULL"
    "fits_list ?f (npage s ?nn)" "?nn \<notin> {n}" using mm_take [OF assms(1,5)] by blast
  define s1 where "s1 = (s\<lparr>m_links := lk\<rparr>)\<lparr>fastmem_freebytes := fastmem_freebytes s - pt_to_pagesize HUGEP,
    slowmem_freebytes := slowmem_freebytes s + pt_to_pagesize HUGEP\<rparr>"
  let ?Q1 = "Q(?f := butlast (Q ?f))"
  have inv1: "mm_inv F {n, ?nn} ?Q1 s1" and e1: "body s1 = body s" "n_page s1 = n_page s" "n_offset s1 = n_offset s" "management s1 = management s"
    using mm_inv_same [OF lk(2), of s1] by (simp_all add: s1_def same_nodes_def insert_commute)
  note I = mm_invD [OF inv1] and N = nodes_okD [OF mm_invD(2) [OF inv1]]
  have F: "n \<in> F" "?nn \<in> F" using I(6) by simp_all
  have pne: "?p \<noteq> n_page s ?nn" using N(2) F lk(5) by (auto simp: e1 dest: inj_onD)
  have t: "in_dram (npage s1 n) = (\<not> True)" "in_dram (npage s1 ?nn) = True" using assms(3) lk(4) by (simp_all add: e1)
  obtain s2 where s2: "(if True then arms_migrate_up else arms_migrate_down) K s1 (n_page s1 n) (n_offset s1 ?nn) = Some s2"
    using migrate_node [OF inv1 _ _ t assms(6,7)] by auto
  note M = arms_migrate_fields [OF s2 assms(6)] and mm = mmgr_more [OF arms_migrate_fields(4) [OF s2 assms(6)]]
  have rep2: "dll_rep (m_links s2) ?Q1" using I(1) by (simp add: mm)
  have out: "?nn \<notin> set (?Q1 k)" "n \<notin> set (?Q1 k)" for k using I(7) [of ?nn k] I(7) [of n k] by simp_all
  obtain lk3 where 3: "node_add ?a ?nn s2 = Some (s2\<lparr>m_links := lk3\<rparr>)" "dll_rep lk3 (?Q1(?a := ?nn # ?Q1 ?a))"
    using mm_links_put [OF rep2 lk(3) out(1)] by blast
  let ?Q3 = "?Q1(?a := ?nn # ?Q1 ?a)" and ?s3 = "s2\<lparr>m_links := lk3\<rparr>"
  have rep3: "dll_rep (m_links ?s3) ?Q3" using 3(2) by simp
  have out3: "n \<notin> set (?Q3 k)" for k using out(2) [of k] out(2) [of ?a] lk(5) by auto
  obtain lk4 where 4: "node_add ?l n ?s3 = Some (?s3\<lparr>m_links := lk4\<rparr>)" "dll_rep lk4 (?Q3(?l := n # ?Q3 ?l))"
    using mm_links_put [OF rep3 assms(2) out3] by blast
  let ?Q4 = "?Q3(?l := n # ?Q3 ?l)" and ?s4 = "?s3\<lparr>m_links := lk4\<rparr>"
  have b2: "body s2 = (body s)(?p := (npage s n)\<lparr>devdax_offset := n_offset s ?nn, in_dram := True\<rparr>)" using M(1) by (simp add: e1)
  have hot: "hot_one K n s = swap_nodes n ?nn False ?s4"
    using lk(1,3) s2 3(1) 4(1) by (simp add: hot_one_def s1_def Let_def)
  have run: "\<exists>u. swap_nodes n ?nn False ?s4 = Some u"
    using swap_nodes_run [OF pne, of ?s4 True] b2 lk(5) mm by (auto simp: e1)
  have rep4: "dll_rep (m_links ?s4) ?Q4" using 4(2) by simp
  have in4: "n \<in> set (?Q4 ?l)" "\<And>k. k \<noteq> ?l \<Longrightarrow> n \<notin> set (?Q4 k)" using out3 by simp_all
  have p4: "?p \<noteq> NULL" "management ?s4 ?p = n" "in_dram (body ?s4 ?p)" "pt (body ?s4 ?p) = HUGEP"
    using N(3,6,7) [OF F(1)] by (simp_all add: b2 mm e1)
  obtain lk5 where 5: "arms_mmgr_remove_page ?s4 ?p = Some (upd_page ?p (\<lambda>x. x\<lparr>present := False\<rparr>) (?s4\<lparr>m_links := lk5\<rparr>))"
    "dll_rep lk5 ((?Q4(?l := remove1 n (?Q4 ?l)))(?f := n # ?Q4 ?f))"
    using removal_misfiles [OF rep4 assms(2) in4 p4] by blast
  let ?s5 = "upd_page ?p (\<lambda>x. x\<lparr>present := False\<rparr>) (?s4\<lparr>m_links := lk5\<rparr>)" and ?g = "upd_page ?p (\<lambda>x. x\<lparr>present := False\<rparr>) s"
  have g: "n_page ?g = n_page s" "n_offset ?g = n_offset s" "management ?g = management s" by (simp_all add: upd_page_def)
  have b5: "body ?s5 = (body ?g)(n_page ?g n := (npage ?g n)\<lparr>devdax_offset := n_offset ?g ?nn, in_dram := True\<rparr>)"
    by (cases "body s ?p") (simp add: upd_page_def b2)
  have e5: "n_page ?s5 = n_page ?g" "n_offset ?s5 = n_offset ?g" "management ?s5 = management ?g" by (simp_all add: upd_page_def mm e1)
  have pne5: "n_page ?g n \<noteq> n_page ?g ?nn" and n5: "n \<noteq> ?nn" using pne lk(5) by (simp_all add: g)
  obtain u where u: "swap_nodes n ?nn False ?s5 = Some u" "n_page u = (n_page s)(?nn := ?p, n := n_page s ?nn)" "m_links u = lk5"
    "body u = (body ?g)(n_page s ?nn := left_page True (n_offset s n) (npage ?g ?nn), ?p := moved_page True (n_offset s ?nn) (npage ?g n))"
    using swap_nodes_run [OF pne5 n5 b5 e5] by (auto simp: g upd_page_def)
  have m: "arms_migrate_up K ((s\<lparr>m_links := lk\<rparr>)\<lparr>fastmem_freebytes := fastmem_freebytes (s\<lparr>m_links := lk\<rparr>) - pt_to_pagesize HUGEP,
      slowmem_freebytes := slowmem_freebytes (s\<lparr>m_links := lk\<rparr>) + pt_to_pagesize HUGEP\<rparr>) (n_page (s\<lparr>m_links := lk\<rparr>) n)
      (n_offset (s\<lparr>m_links := lk\<rparr>) ?nn) = Some s2"
    using s2 by (simp add: s1_def)
  have "\<not> in_dram (npage u n)" "\<not> present (npage u ?nn)"
    using n5 pne by (simp_all add: u(2,4) g left_page_def moved_page_def)
  moreover have "d_list (m_links u) n = Some ?f" "d_list (m_links u) ?nn = Some ?a"
    unfolding u(3) using n5 by (auto intro!: listed [OF 5(2)])
  moreover have "hot_one K n s \<noteq> None" using run unfolding hot by auto
  ultimately show ?thesis using lk(1) m 3(1) 4(1) hot 5(1) u(1) by blast
qed

text \<open>The small machine with a slow node that is about to move.\<close>

lemma mmgr_removal_race_witness:
  "\<exists>(s :: mmgr_state) n nn s4 s5 t. hot_one host_kernel n s = swap_nodes n nn False s4 \<and>
     arms_mmgr_remove_page s4 (n_page s n) = Some s5 \<and> swap_nodes n nn False s5 = Some t \<and>
     d_list (m_links t) n = Some (MEM_FREE FASTMEM HUGEP) \<and> \<not> in_dram (npage t n)"
proof -
  let ?F = "{demo_dram 0, demo_nvm 0, demo_nvm 1}" and ?l = "MEM_FREE SLOWMEM HUGEP"
  let ?Q0 = "(\<lambda>_. [])(MEM_FREE FASTMEM HUGEP := [demo_dram 0], ?l := [demo_nvm 1, demo_nvm 0])"
  obtain s0 :: mmgr_state where s0: "mm_inv ?F {} ?Q0 s0"
    using mmgr_init_ok [OF mm_demo_allocs] unfolding mm_demo_nodes mm_demo_fresh by blast
  obtain lk where lk: "mm_inv ?F {demo_nvm 0} (?Q0(?l := [demo_nvm 1])) (s0\<lparr>m_links := lk\<rparr>)" "demo_nvm 0 \<noteq> NULL"
    "fits_list ?l (npage s0 (demo_nvm 0))" "demo_nvm 0 \<in> ?F" using mm_take [OF s0, of ?l] by auto
  let ?s = "upd_page (n_page s0 (demo_nvm 0)) (\<lambda>x. x\<lparr>present := True\<rparr>) (s0\<lparr>m_links := lk\<rparr>)"
  have "va (npage s0 (demo_nvm 0)) mod HUGEPAGE_SIZE = 0" using nodes_okD(5) [OF mm_invD(2) [OF s0] lk(4)] .
  then have inv: "mm_inv ?F {demo_nvm 0} (?Q0(?l := [demo_nvm 1])) ?s"
    using mm_held_page [OF lk(1), of "demo_nvm 0" "\<lambda>x. x\<lparr>present := True\<rparr>"] by (simp add: frame_of_def)
  have "\<not> in_dram (npage ?s (demo_nvm 0))" "present (npage ?s (demo_nvm 0))" using lk(3) by (simp_all add: upd_page_def)
  from mmgr_removal_race [OF inv lk(2) this _ host_flags(1,2)] show ?thesis by (fastforce simp: fun_eq_iff)
qed

end
