(* ===== verification/Paging.thy ===== *)
theory Paging
  imports Lru
begin

text \<open>
  The walk over the page tables of the process, \<open>src/policies/paging.c\<close>: four levels of tables in physical
  memory, which is read through \<open>/dev/mem\<close>. The memory and the log files are the state; which files can be
  opened and which pages can be mapped is a parameter.
\<close>

section \<open>Flags\<close>

definition ADDRESS_MASK :: u64 where "ADDRESS_MASK = 0x00000ffffffff000"
definition FLAGS_MASK :: u64 where "FLAGS_MASK = 0xfff"
definition ARMS_PRESENT_FLAG :: u64 where "ARMS_PRESENT_FLAG = 1"
definition ARMS_WRITE_FLAG :: u64 where "ARMS_WRITE_FLAG = 2"
definition ARMS_USER_FLAG :: u64 where "ARMS_USER_FLAG = 4"
definition ARMS_PWT_FLAG :: u64 where "ARMS_PWT_FLAG = 8"
definition ARMS_PCD_FLAG :: u64 where "ARMS_PCD_FLAG = 0x10"

definition ARMS_PAGE_WALK_FLAGS :: u64 where
  "ARMS_PAGE_WALK_FLAGS = ARMS_PRESENT_FLAG OR ARMS_WRITE_FLAG OR ARMS_USER_FLAG OR ARMS_ACCESSED_FLAG OR ARMS_DIRTY_FLAG"

definition ARMS_PWTPCD_FLAGS :: u64 where "ARMS_PWTPCD_FLAGS = ARMS_PWT_FLAG OR ARMS_PCD_FLAG"

definition walked :: "u64 \<Rightarrow> bool" where
  "walked e = ((e AND FLAGS_MASK) AND ARMS_PAGE_WALK_FLAGS = ARMS_PAGE_WALK_FLAGS)"

definition cached :: "u64 \<Rightarrow> bool" where
  "cached e = ((e AND FLAGS_MASK) AND ARMS_PWTPCD_FLAGS = 0)"

section \<open>The scan\<close>

datatype table_level = PTE | PDE | PDTPE | PML4E

record paging_state =
  pmem :: "u64 \<Rightarrow> u64"
  ptes :: "u64 list"
  pdes :: "u64 list"
  pdtpes :: "u64 list"
  pml4es :: "u64 list"
  valid :: "(table_level \<times> nat \<times> u64) list"

record mem_device =
  d_open :: "string \<Rightarrow> bool"
  d_map :: "u64 \<Rightarrow> bool"

text \<open>The loop over the 512 entries of a table.\<close>

fun for_entries :: "(nat \<Rightarrow> 's \<Rightarrow> 's option) \<Rightarrow> nat \<Rightarrow> nat \<Rightarrow> 's \<Rightarrow> 's option" where
  "for_entries visit i 0 s = Some s"
| "for_entries visit i (Suc n) s = do {
     s \<leftarrow> visit i s;
     for_entries visit (Suc i) n s
   }"

definition entry_at :: "'a paging_state_scheme \<Rightarrow> u64 \<Rightarrow> nat \<Rightarrow> u64" where
  "entry_at s table i = pmem s (table + 8 * of_nat i)"

text \<open>The flag is cleared in the local variable \<open>pte\<close> only.\<close>

definition fourth_entry :: "u64 \<Rightarrow> bool \<Rightarrow> u64 \<Rightarrow> nat \<Rightarrow> 'a paging_state_scheme \<Rightarrow> 'a paging_state_scheme option" where
  "fourth_entry table clear_flag flag i s = (
     let pte = entry_at s table i;
         s = s\<lparr>ptes := ptes s @ [pte]\<rparr>;
         (pte, s) = (if walked pte then
                       (if cached pte then
                          (let s = s\<lparr>valid := valid s @ [(PTE, i, pte)]\<rparr>;
                               pte = (if clear_flag then pte AND NOT flag else pte)
                           in (pte, s))
                        else (pte, s))
                     else (pte, s))
     in Some s)"

definition scan_fourth_level :: "mem_device \<Rightarrow> u64 \<Rightarrow> bool \<Rightarrow> u64 \<Rightarrow> 'a paging_state_scheme \<Rightarrow> 'a paging_state_scheme option" where
  "scan_fourth_level D pde clear_flag flag s = do {
     let table = pde AND ADDRESS_MASK;
     assert_that (d_map D table);
     for_entries (fourth_entry table clear_flag flag) 0 512 s
   }"

definition third_entry :: "mem_device \<Rightarrow> u64 \<Rightarrow> bool \<Rightarrow> u64 \<Rightarrow> nat \<Rightarrow> 'a paging_state_scheme \<Rightarrow> 'a paging_state_scheme option" where
  "third_entry D table clear_flag flag i s = (
     let pde = entry_at s table i;
         s = s\<lparr>pdes := pdes s @ [pde]\<rparr>
     in if walked pde then
          (if cached pde then
             (let s = s\<lparr>valid := valid s @ [(PDE, i, pde)]\<rparr>
              in scan_fourth_level D pde clear_flag flag s)
           else Some s)
        else Some s)"

definition scan_third_level :: "mem_device \<Rightarrow> u64 \<Rightarrow> bool \<Rightarrow> u64 \<Rightarrow> 'a paging_state_scheme \<Rightarrow> 'a paging_state_scheme option" where
  "scan_third_level D pdtpe clear_flag flag s = do {
     let table = pdtpe AND ADDRESS_MASK;
     assert_that (d_map D table);
     for_entries (third_entry D table clear_flag flag) 0 512 s
   }"

definition second_entry :: "mem_device \<Rightarrow> u64 \<Rightarrow> bool \<Rightarrow> u64 \<Rightarrow> nat \<Rightarrow> 'a paging_state_scheme \<Rightarrow> 'a paging_state_scheme option" where
  "second_entry D table clear_flag flag i s = (
     let pdtpe = entry_at s table i;
         s = s\<lparr>pdtpes := pdtpes s @ [pdtpe]\<rparr>
     in if walked pdtpe then
          (if cached pdtpe then
             (let s = s\<lparr>valid := valid s @ [(PDTPE, i, pdtpe)]\<rparr>
              in scan_third_level D pdtpe clear_flag flag s)
           else Some s)
        else Some s)"

definition scan_second_level :: "mem_device \<Rightarrow> u64 \<Rightarrow> bool \<Rightarrow> u64 \<Rightarrow> 'a paging_state_scheme \<Rightarrow> 'a paging_state_scheme option" where
  "scan_second_level D pml4e clear_flag flag s = do {
     let table = pml4e AND ADDRESS_MASK;
     assert_that (d_map D table);
     for_entries (second_entry D table clear_flag flag) 0 512 s
   }"

definition root_entry :: "mem_device \<Rightarrow> u64 \<Rightarrow> bool \<Rightarrow> u64 \<Rightarrow> nat \<Rightarrow> 'a paging_state_scheme \<Rightarrow> 'a paging_state_scheme option" where
  "root_entry D table clear_flag flag i s = (
     let pml4e = entry_at s table i;
         s = s\<lparr>pml4es := pml4es s @ [pml4e]\<rparr>
     in if walked pml4e then
          (if cached pml4e then
             (let s = s\<lparr>valid := valid s @ [(PML4E, i, pml4e)]\<rparr>
              in scan_second_level D pml4e clear_flag flag s)
           else Some s)
        else Some s)"

text \<open>Opening a log with mode \<open>w+\<close> empties it.\<close>

definition scan_pagetable_flag :: "mem_device \<Rightarrow> u64 \<Rightarrow> bool \<Rightarrow> u64 \<Rightarrow> 'a paging_state_scheme \<Rightarrow> 'a paging_state_scheme option" where
  "scan_pagetable_flag D cr3_val clear_flag flag s = do {
     assert_that (d_open D ''logs/pml4es.txt'');
     let s = s\<lparr>pml4es := []\<rparr>;
     assert_that (d_open D ''logs/pdtpes.txt'');
     let s = s\<lparr>pdtpes := []\<rparr>;
     assert_that (d_open D ''logs/pdes.txt'');
     let s = s\<lparr>pdes := []\<rparr>;
     assert_that (d_open D ''logs/ptes.txt'');
     let s = s\<lparr>ptes := []\<rparr>;
     assert_that (d_open D ''logs/valid.txt'');
     let s = s\<lparr>valid := []\<rparr>;
     let table = cr3_val AND ADDRESS_MASK;
     assert_that (d_map D table);
     for_entries (root_entry D table clear_flag flag) 0 512 s
   }"

definition scan_pagetable :: "mem_device \<Rightarrow> u64 \<Rightarrow> 'a paging_state_scheme \<Rightarrow> 'a paging_state_scheme option" where
  "scan_pagetable D cr3_val s = scan_pagetable_flag D cr3_val False 0 s"

section \<open>What a scan is\<close>

text \<open>The entries that a walk reads, those that it finds valid, and the tables that it maps.\<close>

primrec reads :: "(u64 \<Rightarrow> u64) \<Rightarrow> table_level list \<Rightarrow> u64 \<Rightarrow> (table_level \<times> u64) list" where
  "reads m [] table = []"
| "reads m (l # ls) table = concat (map (\<lambda>i. let e = m (table + 8 * of_nat i) in
     (l, e) # (if walked e \<and> cached e then reads m ls (e AND ADDRESS_MASK) else [])) [0..<512])"

primrec walk :: "(u64 \<Rightarrow> u64) \<Rightarrow> table_level list \<Rightarrow> u64 \<Rightarrow> (table_level \<times> nat \<times> u64) list" where
  "walk m [] table = []"
| "walk m (l # ls) table = concat (map (\<lambda>i. let e = m (table + 8 * of_nat i) in
     if walked e \<and> cached e then (l, i, e) # walk m ls (e AND ADDRESS_MASK) else []) [0..<512])"

primrec mappable :: "mem_device \<Rightarrow> (u64 \<Rightarrow> u64) \<Rightarrow> table_level list \<Rightarrow> u64 \<Rightarrow> bool" where
  "mappable D m [] table = True"
| "mappable D m (l # ls) table = (d_map D table \<and>
     list_all (\<lambda>i. let e = m (table + 8 * of_nat i) in walked e \<and> cached e \<longrightarrow> mappable D m ls (e AND ADDRESS_MASK)) [0..<512])"

definition column :: "table_level \<Rightarrow> (table_level \<times> u64) list \<Rightarrow> u64 list" where
  "column l A = map snd (filter (\<lambda>x. fst x = l) A)"

definition log_more :: "(table_level \<times> u64) list \<Rightarrow> (table_level \<times> nat \<times> u64) list \<Rightarrow> 'a paging_state_scheme \<Rightarrow> 'a paging_state_scheme" where
  "log_more A B s = s\<lparr>ptes := ptes s @ column PTE A, pdes := pdes s @ column PDE A, pdtpes := pdtpes s @ column PDTPE A,
     pml4es := pml4es s @ column PML4E A, valid := valid s @ B\<rparr>"

lemma column_simps [simp]: "column l [] = []" "column l (x # A) = (if fst x = l then [snd x] else []) @ column l A"
  "column l (A @ A') = column l A @ column l A'"
  by (simp_all add: column_def)

lemma log_more_simps [simp]: "pmem (log_more A B s) = pmem s" "log_more [] [] s = s" "log_more A' B' (log_more A B s) = log_more (A @ A') (B @ B') s"
  by (simp_all add: log_more_def)

lemma for_entries_log:
  assumes "\<And>i s. pmem s = m \<Longrightarrow> visit i s = (if ok i then Some (log_more (A i) (B i) s) else None)" "pmem s = m"
  shows "for_entries visit i n s = (if list_all ok [i..<i + n] then Some (log_more (concat (map A [i..<i + n])) (concat (map B [i..<i + n])) s) else None)"
  using assms(2)
proof (induction n arbitrary: i s)
  case (Suc n)
  have e: "[i..<i + Suc n] = i # [Suc i..<Suc i + n]" by (subst upt_conv_Cons) simp_all
  show ?case using Suc.IH [of "log_more (A i) (B i) s" "Suc i"] Suc.prems unfolding e by (simp add: assms(1) [OF Suc.prems])
qed simp

text \<open>One level, over a scan \<open>sub\<close> of the levels below it.\<close>

lemma level_scan:
  fixes s :: "'a paging_state_scheme"
  assumes visit: "\<And>i s. pmem s = m \<Longrightarrow> visit i s = (let e = m (table + 8 * of_nat i) in
       if walked e \<and> cached e then sub e (log_more [(l, e)] [(l, i, e)] s) else Some (log_more [(l, e)] [] s))"
    and sub: "\<And>e s. pmem s = m \<Longrightarrow> sub e s = (if mappable D m ls (e AND ADDRESS_MASK)
       then Some (log_more (reads m ls (e AND ADDRESS_MASK)) (walk m ls (e AND ADDRESS_MASK)) s) else None)"
    and m: "pmem s = m"
  shows "(if d_map D table then for_entries visit 0 512 s else None) =
    (if mappable D m (l # ls) table then Some (log_more (reads m (l # ls) table) (walk m (l # ls) table) s) else None)"
proof -
  let ?e = "\<lambda>i. m (table + 8 * of_nat i)"
  have "visit i s = (if walked (?e i) \<and> cached (?e i) \<longrightarrow> mappable D m ls (?e i AND ADDRESS_MASK)
      then Some (log_more ((l, ?e i) # (if walked (?e i) \<and> cached (?e i) then reads m ls (?e i AND ADDRESS_MASK) else []))
        (if walked (?e i) \<and> cached (?e i) then (l, i, ?e i) # walk m ls (?e i AND ADDRESS_MASK) else []) s) else None)"
    if "pmem s = m" for i and s :: "'a paging_state_scheme" using that by (simp add: visit sub Let_def)
  then have "for_entries visit 0 512 s = (if list_all (\<lambda>i. walked (?e i) \<and> cached (?e i) \<longrightarrow> mappable D m ls (?e i AND ADDRESS_MASK)) [0..<0 + 512]
      then Some (log_more (concat (map (\<lambda>i. (l, ?e i) # (if walked (?e i) \<and> cached (?e i) then reads m ls (?e i AND ADDRESS_MASK) else [])) [0..<0 + 512]))
        (concat (map (\<lambda>i. if walked (?e i) \<and> cached (?e i) then (l, i, ?e i) # walk m ls (?e i AND ADDRESS_MASK) else []) [0..<0 + 512])) s) else None)"
    using m by (rule for_entries_log)
  then show ?thesis by (simp add: Let_def)
qed

lemma log_one: "s\<lparr>ptes := ptes s @ [e]\<rparr> = log_more [(PTE, e)] [] s" "s\<lparr>pdes := pdes s @ [e]\<rparr> = log_more [(PDE, e)] [] s"
    "s\<lparr>pdtpes := pdtpes s @ [e]\<rparr> = log_more [(PDTPE, e)] [] s" "s\<lparr>pml4es := pml4es s @ [e]\<rparr> = log_more [(PML4E, e)] [] s"
    "s\<lparr>valid := valid s @ [v]\<rparr> = log_more [] [v] s"
  by (simp_all add: log_more_def)

text \<open>A scan of the levels \<open>ls\<close> from the table of an entry.\<close>

definition scan_result :: "mem_device \<Rightarrow> table_level list \<Rightarrow> u64 \<Rightarrow> 'a paging_state_scheme \<Rightarrow> 'a paging_state_scheme option" where
  "scan_result D ls table s = (if mappable D (pmem s) ls table then Some (log_more (reads (pmem s) ls table) (walk (pmem s) ls table) s) else None)"

lemma level_result:
  fixes s :: "'a paging_state_scheme"
  assumes "\<And>i s. visit i s = (let e = entry_at s table i in
       if walked e \<and> cached e then sub e (log_more [(l, e)] [(l, i, e)] s) else Some (log_more [(l, e)] [] s))"
    and "\<And>e s. sub e s = scan_result D ls (e AND ADDRESS_MASK) s"
  shows "do { assert_that (d_map D table); for_entries visit 0 512 s } = scan_result D (l # ls) table s"
  unfolding bind_assert_that scan_result_def
  by (rule level_scan [where sub = sub]) (simp_all add: assms scan_result_def entry_at_def)

lemma fourth_scan: "scan_fourth_level D e c f s = scan_result D [PTE] (e AND ADDRESS_MASK) s"
  unfolding scan_fourth_level_def Let_def
  by (rule level_result [where sub = "\<lambda>e. Some"]) (simp_all add: fourth_entry_def Let_def log_one scan_result_def)

lemma third_scan: "scan_third_level D e c f s = scan_result D [PDE, PTE] (e AND ADDRESS_MASK) s"
  unfolding scan_third_level_def Let_def
  by (rule level_result [where sub = "\<lambda>e. scan_fourth_level D e c f"]) (simp_all add: third_entry_def Let_def log_one fourth_scan)

lemma second_scan: "scan_second_level D e c f s = scan_result D [PDTPE, PDE, PTE] (e AND ADDRESS_MASK) s"
  unfolding scan_second_level_def Let_def
  by (rule level_result [where sub = "\<lambda>e. scan_third_level D e c f"]) (simp_all add: second_entry_def Let_def log_one third_scan)

lemma root_scan: "do { assert_that (d_map D table); for_entries (root_entry D table c f) 0 512 s } = scan_result D [PML4E, PDTPE, PDE, PTE] table s"
  by (rule level_result [where sub = "\<lambda>e. scan_second_level D e c f"]) (simp_all add: root_entry_def Let_def log_one second_scan)

definition logs_open :: "mem_device \<Rightarrow> bool" where
  "logs_open D = list_all (d_open D) [''logs/pml4es.txt'', ''logs/pdtpes.txt'', ''logs/pdes.txt'', ''logs/ptes.txt'', ''logs/valid.txt'']"

text \<open>
  C36: The four nested loops of the page table scan do what the short recursive walk does: the
  scan succeeds exactly when the logs open and every table on the way can be mapped, the list of
  valid entries is the depth-first walk of the entries whose flags allow it, each log holds all
  entries read at its level, and neither the memory nor the result depends on the arguments that
  ask for a flag to be cleared.
\<close>

lemma scan_lists_tables:
  "scan_pagetable_flag D cr3_val clear_flag flag s =
     (let ls = [PML4E, PDTPE, PDE, PTE]; root = cr3_val AND ADDRESS_MASK; log = reads (pmem s) ls root in
      if logs_open D \<and> mappable D (pmem s) ls root
      then Some (s\<lparr>ptes := column PTE log, pdes := column PDE log, pdtpes := column PDTPE log, pml4es := column PML4E log, valid := walk (pmem s) ls root\<rparr>)
      else None)"
proof (cases "logs_open D")
  case True
  let ?s = "s\<lparr>pml4es := [], pdtpes := [], pdes := [], ptes := [], valid := []\<rparr>"
  have "scan_pagetable_flag D cr3_val clear_flag flag s = scan_result D [PML4E, PDTPE, PDE, PTE] (cr3_val AND ADDRESS_MASK) ?s"
    using True root_scan [of D "cr3_val AND ADDRESS_MASK" clear_flag flag ?s] by (simp add: scan_pagetable_flag_def logs_open_def Let_def)
  then show ?thesis using True by (simp add: scan_result_def log_more_def Let_def)
next
  case False
  then show ?thesis by (auto simp: scan_pagetable_flag_def logs_open_def Let_def abort_simps)
qed

text \<open>The argument that asks for clearing has no effect.\<close>

lemma scan_clears_nothing:
  "scan_pagetable_flag D cr3_val True flag s = scan_pagetable D cr3_val s"
  unfolding scan_pagetable_def scan_lists_tables ..

end
