(* ===== verification/Startup.thy ===== *)
theory Startup
  imports Arms_Faults Hot_Change Pebs_System
begin

text \<open>
  Start-up: \<open>arms_init\<close> of \<open>src/arms.c\<close>, which reads the configuration from the environment, and the
  counters of the memory controllers in \<open>src/pebs.c\<close>, whose types and event codes are read from text files
  of the kernel. Strings are C strings; the conversion functions of the C library are defined as the standard
  has them.
\<close>

section \<open>Text to numbers\<close>

definition char_val :: "char \<Rightarrow> nat" where "char_val c = of_char c"

definition isspace :: "char \<Rightarrow> bool" where
  "isspace c = (char_val c = 32 \<or> 9 \<le> char_val c \<and> char_val c \<le> 13)"

definition digit_val :: "char \<Rightarrow> nat option" where
  "digit_val c = (let k = char_val c in
     if 48 \<le> k \<and> k \<le> 57 then Some (k - 48)
     else if 97 \<le> k \<and> k \<le> 122 then Some (k - 87)
     else if 65 \<le> k \<and> k \<le> 90 then Some (k - 55)
     else None)"

definition is_digit :: "nat \<Rightarrow> char \<Rightarrow> bool" where
  "is_digit base c = (case digit_val c of None \<Rightarrow> False | Some d \<Rightarrow> d < base)"

fun digits :: "nat \<Rightarrow> nat \<Rightarrow> string \<Rightarrow> nat" where
  "digits base acc [] = acc"
| "digits base acc (c # cs) = (if is_digit base c then digits base (acc * base + the (digit_val c)) cs else acc)"

fun drop_prefix :: "nat \<Rightarrow> string \<Rightarrow> string" where
  "drop_prefix base (z # x # d # cs) =
     (if base = 16 \<and> z = CHR ''0'' \<and> (x = CHR ''x'' \<or> x = CHR ''X'') \<and> is_digit 16 d then d # cs else z # x # d # cs)"
| "drop_prefix base cs = cs"

text \<open>\<open>strtoul\<close> and \<open>strtoull\<close>, which agree on this machine: an overflow gives the largest value.\<close>

definition strtoul :: "nat \<Rightarrow> string \<Rightarrow> u64" where
  "strtoul base cs = (
     let cs = dropWhile isspace cs;
         (neg, cs) = (case cs of [] \<Rightarrow> (False, cs) | c # r \<Rightarrow> (if c = CHR ''-'' then (True, r) else if c = CHR ''+'' then (False, r) else (False, cs)));
         v = digits base 0 (drop_prefix base cs)
     in if v \<ge> 2 ^ 64 then - 1 else if neg then - of_nat v else of_nat v)"

fun strstr :: "string \<Rightarrow> string \<Rightarrow> string option" where
  "strstr hay needle = (if take (List.length needle) hay = needle then Some hay
     else (case hay of [] \<Rightarrow> None | c # cs \<Rightarrow> strstr cs needle))"

definition digit_char :: "nat \<Rightarrow> char" where
  "digit_char d = (if d < 10 then char_of (48 + d) else char_of (87 + d))"

fun numeral_in :: "nat \<Rightarrow> nat \<Rightarrow> string" where
  "numeral_in base n = (if n < base \<or> base < 2 then [digit_char n] else numeral_in base (n div base) @ [digit_char (n mod base)])"

text \<open>What \<open>%d\<close> prints.\<close>

definition dec :: "nat \<Rightarrow> string" where "dec n = numeral_in 10 n"

text \<open>
  A read of at most \<open>bufsz - 1\<close> bytes into a buffer that is then ended with a null character, and the string in
  that buffer. The result of the read is \<open>None\<close> when the file cannot be opened.
\<close>

definition read_text :: "string option \<Rightarrow> nat \<Rightarrow> string option" where
  "read_text file bufsz = do {
     content \<leftarrow> file;
     let buf = take (bufsz - 1) content;
     assert_that (buf \<noteq> []);
     Some (takeWhile (\<lambda>c. c \<noteq> CHR 0x00) buf)
   }"

section \<open>The counters of the memory controllers\<close>

text \<open>\<open>fs\<close> are the contents of the files that can be opened.\<close>

definition read_imc_event_config :: "(string \<Rightarrow> string option) \<Rightarrow> string \<Rightarrow> u64 option" where
  "read_imc_event_config fs event_name = do {
     let path = take 127 (''/sys/devices/uncore_imc_0/events/'' @ event_name);
     buf \<leftarrow> read_text (fs path) 64;
     let event = (case strstr buf ''event='' of Some p \<Rightarrow> strtoul 16 (drop 6 p) | None \<Rightarrow> 0);
     let umask = (case strstr buf ''umask='' of Some p \<Rightarrow> strtoul 16 (drop 6 p) | None \<Rightarrow> 0);
     Some (push_bit 8 umask OR event)
   }"

definition read_imc_type :: "(string \<Rightarrow> string option) \<Rightarrow> nat \<Rightarrow> u32 option" where
  "read_imc_type fs imc_idx = do {
     let path = take 63 (''/sys/devices/uncore_imc_'' @ dec imc_idx @ ''/type'');
     buf \<leftarrow> read_text (fs path) 16;
     Some (ucast (strtoul 10 buf))
   }"

definition NUM_TIERS :: nat where "NUM_TIERS = 2"

text \<open>\<open>perf type config cpu\<close> is the result of \<open>perf_event_open\<close>, -1 when it fails.\<close>

fun open_events :: "(string \<Rightarrow> string option) \<Rightarrow> (u32 \<Rightarrow> u64 \<Rightarrow> nat \<Rightarrow> int) \<Rightarrow> (nat \<times> nat \<times> nat) list \<Rightarrow>
    (nat \<Rightarrow> nat \<Rightarrow> nat \<Rightarrow> int) \<Rightarrow> (nat \<Rightarrow> nat \<Rightarrow> nat \<Rightarrow> int) option" where
  "open_events fs perf [] bw_fds = Some bw_fds"
| "open_events fs perf ((i, j, k) # r) bw_fds = do {
     t \<leftarrow> read_imc_type fs k;
     c \<leftarrow> read_imc_event_config fs (if j = 0 then ''cas_count_read'' else ''cas_count_write'');
     let fd = perf t c (if i = 0 then 0 else 10);
     assert_that (fd \<noteq> - 1);
     open_events fs perf r (bw_fds(i := (bw_fds i)(j := (bw_fds i j)(k := fd))))
   }"

definition open_perf_events :: "(string \<Rightarrow> string option) \<Rightarrow> (u32 \<Rightarrow> u64 \<Rightarrow> nat \<Rightarrow> int) \<Rightarrow>
    (nat \<Rightarrow> nat \<Rightarrow> nat \<Rightarrow> int) \<Rightarrow> (nat \<Rightarrow> nat \<Rightarrow> nat \<Rightarrow> int) option" where
  "open_perf_events fs perf bw_fds =
     open_events fs perf (List.product [0..<NUM_TIERS] (List.product [0..<NUM_EVENTS] [0..<NUM_IMC])) bw_fds"

text \<open>\<open>rd fd\<close> is the first reading of a counter after its reset; the results of \<open>ioctl\<close> are not looked at.\<close>

definition setup_imc_bw_counters :: "(string \<Rightarrow> string option) \<Rightarrow> (u32 \<Rightarrow> u64 \<Rightarrow> nat \<Rightarrow> int) \<Rightarrow> (int \<Rightarrow> u64 option) \<Rightarrow>
    (nat \<Rightarrow> nat \<Rightarrow> nat \<Rightarrow> int) \<times> (nat \<Rightarrow> nat \<Rightarrow> nat \<Rightarrow> u64) \<Rightarrow> ((nat \<Rightarrow> nat \<Rightarrow> nat \<Rightarrow> int) \<times> (nat \<Rightarrow> nat \<Rightarrow> nat \<Rightarrow> u64)) option" where
  "setup_imc_bw_counters fs perf rd st = (
     let (bw_fds, prev) = st in do {
       bw_fds \<leftarrow> open_perf_events fs perf bw_fds;
       (bw, p) \<leftarrow> measure_bw (\<lambda>j k. rd (bw_fds 0 j k)) (prev 0);
       let prev = prev(0 := p);
       (bw, p) \<leftarrow> measure_bw (\<lambda>j k. rd (bw_fds 1 j k)) (prev 1);
       Some (bw_fds, prev(1 := p))
     })"

section \<open>Initialisation\<close>

record host =
  h_getenv :: "string \<Rightarrow> string option"
  h_fopen :: "string \<Rightarrow> bool"
  h_open :: "string \<Rightarrow> int"
  h_userfaultfd :: int
  h_uffd_api :: bool
  h_thread :: "string \<Rightarrow> bool"
  h_devmap :: "int \<Rightarrow> u64 \<Rightarrow> u64 option"
  h_dma :: bool

record devices =
  drampath :: string
  nvmpath :: string
  uffd :: int
  dram_devdax_mmap :: u64
  nvm_devdax_mmap :: u64

definition NVMSIZE_DEFAULT :: u64 where "NVMSIZE_DEFAULT = 64 * (1024 * 1024 * 1024)"
definition DRAMSIZE_DEFAULT :: u64 where "DRAMSIZE_DEFAULT = 32 * (1024 * 1024 * 1024)"
definition DRAMPATH_DEFAULT :: string where "DRAMPATH_DEFAULT = ''/dev/dax0.0''"
definition NVMPATH_DEFAULT :: string where "NVMPATH_DEFAULT = ''/dev/dax1.0''"
definition MIN_INTERPOSE_MEM_SIZE_DEFAULT :: u64 where "MIN_INTERPOSE_MEM_SIZE_DEFAULT = 1 * 1024 * 1024 * 1024"

definition env_size :: "host \<Rightarrow> string \<Rightarrow> u64 \<Rightarrow> u64" where
  "env_size H name dflt = (case h_getenv H name of Some x \<Rightarrow> strtoul 10 x | None \<Rightarrow> dflt)"

definition env_path :: "host \<Rightarrow> string \<Rightarrow> string \<Rightarrow> string" where
  "env_path H name dflt = (case h_getenv H name of Some x \<Rightarrow> x | None \<Rightarrow> dflt)"

definition arms_init :: "host \<Rightarrow> ('a pebs_state_scheme \<Rightarrow> 'a pebs_state_scheme option) \<Rightarrow>
    arms_globals \<times> devices \<times> 'a pebs_state_scheme \<Rightarrow> (arms_globals \<times> devices \<times> 'a pebs_state_scheme) option" where
  "arms_init H paging_init gvs = (
     let (g, v, s) = gvs in do {
       let s = s\<lparr>internal_call := True\<rparr>;
       assert_that (h_fopen H ''logs.txt'');
       let v = v\<lparr>drampath := env_path H ''DRAMPATH'' DRAMPATH_DEFAULT\<rparr>;
       let g = g\<lparr>dramfd := h_open H (drampath v)\<rparr>;
       assert_that (dramfd g \<ge> 0);
       let v = v\<lparr>nvmpath := env_path H ''NVMPATH'' NVMPATH_DEFAULT\<rparr>;
       let g = g\<lparr>nvmfd := h_open H (nvmpath v)\<rparr>;
       assert_that (nvmfd g \<ge> 0);
       let v = v\<lparr>uffd := h_userfaultfd H\<rparr>;
       assert_that (uffd v \<noteq> - 1);
       assert_that (h_uffd_api H);
       assert_that (h_thread H ''handle_fault'');
       assert_that (h_fopen H ''times.txt'');
       assert_that (h_fopen H ''stats.txt'');
       let g = g\<lparr>min_interpose_mem_size := env_size H ''MIN_INTERPOSE_MEM_SIZE'' MIN_INTERPOSE_MEM_SIZE_DEFAULT\<rparr>;
       let s = s\<lparr>dramsize := env_size H ''DRAMSIZE'' DRAMSIZE_DEFAULT\<rparr>;
       v \<leftarrow> (if dramsize s \<noteq> 0 then do {
               p \<leftarrow> h_devmap H (dramfd g) (dramsize s);
               Some (v\<lparr>dram_devdax_mmap := p\<rparr>)
             } else Some v);
       let s = s\<lparr>nvmsize := env_size H ''NVMSIZE'' NVMSIZE_DEFAULT\<rparr>;
       p \<leftarrow> h_devmap H (nvmfd g) (nvmsize s);
       let v = v\<lparr>nvm_devdax_mmap := p\<rparr>;
       assert_that (h_thread H ''arms_stats_thread'');
       s \<leftarrow> paging_init s;
       let g = g\<lparr>is_init := True\<rparr>;
       assert_that (h_dma H);
       Some (g, v, s\<lparr>internal_call := False\<rparr>)
     })"

section \<open>Numbers that are printed and read again\<close>

lemma digit_char_val: "d < 36 \<Longrightarrow> char_val (digit_char d) = (if d < 10 then 48 + d else 87 + d)"
  by (simp add: digit_char_def char_val_def)

lemma digit_val_char: "d < 36 \<Longrightarrow> digit_val (digit_char d) = Some d"
  by (simp add: digit_val_def digit_char_val Let_def)

lemma is_digit_char: "d < base \<Longrightarrow> base \<le> 36 \<Longrightarrow> is_digit base (digit_char d)"
  by (simp add: is_digit_def digit_val_char)

lemma digit_char_neq: "d < 36 \<Longrightarrow> char_val c < 48 \<or> char_val c = 117 \<and> d < 16 \<Longrightarrow> digit_char d \<noteq> c"
  using digit_char_val [of d] by (auto split: if_splits)

declare numeral_in.simps [simp del]

lemma digits_numeral:
  assumes "2 \<le> base" "base \<le> 36"
  shows "digits base acc (numeral_in base n @ rest) = digits base (acc * base ^ List.length (numeral_in base n) + n) rest"
  using assms
proof (induction base n arbitrary: rest rule: numeral_in.induct)
  case (1 base n)
  show ?case
  proof (cases "n < base")
    case True
    then show ?thesis using 1(2,3) by (simp add: numeral_in.simps [of base n] is_digit_char digit_val_char)
  next
    case False
    then have e: "numeral_in base n = numeral_in base (n div base) @ [digit_char (n mod base)]" using 1(2) by (simp add: numeral_in.simps [of base n])
    have m: "n mod base < base" using 1(2) by simp
    have "digits base acc (numeral_in base n @ rest) =
        digits base (acc * base ^ List.length (numeral_in base (n div base)) + n div base) (digit_char (n mod base) # rest)"
      unfolding e using 1(1) [of "digit_char (n mod base) # rest"] False 1(2,3) by simp
    also have "\<dots> = digits base (acc * base ^ List.length (numeral_in base n) + n) rest"
      using m 1(3) by (simp add: e is_digit_char digit_val_char algebra_simps)
    finally show ?thesis .
  qed
qed

lemma numeral_in_length: "2 \<le> base \<Longrightarrow> n < base ^ k \<Longrightarrow> 0 < k \<Longrightarrow> List.length (numeral_in base n) \<le> k"
proof (induction k arbitrary: n)
  case (Suc k)
  show ?case
  proof (cases "n < base")
    case False
    then have "0 < k" using Suc.prems(2) by (cases k) auto
    moreover have "n div base < base ^ k" using Suc.prems(1,2) by (simp add: less_mult_imp_div_less mult.commute)
    ultimately have "List.length (numeral_in base (n div base)) \<le> k" using Suc.IH Suc.prems(1) by blast
    then show ?thesis using False Suc.prems(1) by (simp add: numeral_in.simps [of base n])
  qed (simp add: numeral_in.simps [of base n])
qed simp

lemma numeral_in_chars: "c \<in> set (numeral_in base n) \<Longrightarrow> 2 \<le> base \<Longrightarrow> \<exists>d<base. c = digit_char d"
proof (induction base n rule: numeral_in.induct)
  case (1 base n)
  show ?case
  proof (cases "n < base")
    case True
    then show ?thesis using 1(2) by (auto simp: numeral_in.simps [of base n])
  next
    case False
    then have e: "numeral_in base n = numeral_in base (n div base) @ [digit_char (n mod base)]" using 1(3) by (simp add: numeral_in.simps [of base n])
    have "n mod base < base" using 1(3) by simp
    then show ?thesis using 1 False unfolding e by (auto intro: exI [of _ "n mod base"])
  qed
qed

lemma numeral_in_nonempty: "numeral_in base n \<noteq> []"
  by (simp add: numeral_in.simps [of base n])

definition stops :: "nat \<Rightarrow> string \<Rightarrow> bool" where
  "stops base rest = (case rest of [] \<Rightarrow> True | c # cs \<Rightarrow> \<not> is_digit base c)"

lemma digits_stop: "stops base rest \<Longrightarrow> digits base acc rest = acc"
  by (cases rest) (simp_all add: stops_def)

lemma drop_prefix_other: "base \<noteq> 16 \<Longrightarrow> drop_prefix base cs = cs"
  by (cases "(base, cs)" rule: drop_prefix.cases) simp_all

lemma digit_starts:
  assumes "d < 36" "cs = digit_char d # r"
  shows "dropWhile isspace cs = cs" "(case cs of [] \<Rightarrow> (False, cs) | c # r \<Rightarrow> (if c = CHR ''-'' then (True, r) else if c = CHR ''+'' then (False, r) else (False, cs))) = (False, cs)"
proof -
  have v: "48 \<le> char_val (digit_char d)" using digit_char_val [OF assms(1)] by simp
  have "digit_char d \<noteq> CHR ''-''" "digit_char d \<noteq> CHR ''+''" using v by (auto simp: char_val_def)
  then show "(case cs of [] \<Rightarrow> (False, cs) | c # r \<Rightarrow> (if c = CHR ''-'' then (True, r) else if c = CHR ''+'' then (False, r) else (False, cs))) = (False, cs)"
    by (simp add: assms(2))
  show "dropWhile isspace cs = cs" using v by (simp add: assms(2) isspace_def)
qed

lemma strtoul_dec: "stops 10 rest \<Longrightarrow> strtoul 10 (dec n @ rest) = (if n < 2 ^ 64 then of_nat n else - 1)"
proof -
  assume st: "stops 10 rest"
  obtain c cs where c: "dec n = c # cs" using numeral_in_nonempty [of 10 n] by (cases "dec n") (auto simp: dec_def)
  then obtain d where d: "d < 10" "c = digit_char d" using numeral_in_chars [of c 10 n] by (auto simp: dec_def)
  have "dec n @ rest = digit_char d # (cs @ rest)" using c d(2) by simp
  note S = digit_starts [OF _ this]
  have "digits 10 0 (dec n @ rest) = n" using digits_numeral [of 10 0 n rest] digits_stop [OF st] by (simp add: dec_def)
  then show ?thesis using S d(1) by (simp add: strtoul_def drop_prefix_other Let_def)
qed

text \<open>Two hexadecimal digits, as the kernel prints event codes.\<close>

definition hex2 :: "nat \<Rightarrow> string" where
  "hex2 n = [digit_char (n div 16), digit_char (n mod 16)]"

lemma strtoul_hex2:
  assumes "n < 256" "stops 16 rest"
  shows "strtoul 16 (''0x'' @ hex2 n @ rest) = of_nat n"
proof -
  have d: "n div 16 < 16" "n mod 16 < 16" using assms(1) by simp_all
  have "CHR ''0'' = digit_char 0" using char_of_char [where ?'a = nat, of "CHR ''0''"] by (simp add: digit_char_def)
  then have "''0x'' @ hex2 n @ rest = digit_char 0 # (''x'' @ hex2 n @ rest)" by simp
  note S = digit_starts [OF _ this]
  have "drop_prefix 16 (''0x'' @ hex2 n @ rest) = hex2 n @ rest" using d by (simp add: hex2_def is_digit_char)
  moreover have "digits 16 0 (hex2 n @ rest) = n" using d digits_stop [OF assms(2)] by (simp add: hex2_def is_digit_char digit_val_char)
  ultimately show ?thesis using S assms(1) by (simp add: strtoul_def Let_def)
qed

section \<open>Event codes\<close>

definition event_text :: "nat \<Rightarrow> nat \<Rightarrow> string" where
  "event_text e u = ''event=0x'' @ hex2 e @ '',umask=0x'' @ hex2 u @ [CHR 0x0A]"

lemma event_config_read:
  assumes "e < 256" "u < 256" "fs (''/sys/devices/uncore_imc_0/events/'' @ name) = Some (event_text e u)" "List.length name < 90"
  shows "read_imc_event_config fs name = Some (of_nat (u * 256 + e))"
proof -
  let ?t = "event_text e u"
  have d: "e div 16 < 16" "e mod 16 < 16" "u div 16 < 16" "u mod 16 < 16" using assms(1,2) by simp_all
  have nz: "digit_char k \<noteq> CHR 0x00" "digit_char k \<noteq> CHR ''u''" if "k < 16" for k
    using digit_char_neq [of k "CHR 0x00"] digit_char_neq [of k "CHR ''u''"] that by (simp_all add: char_val_def)
  have r: "read_text (Some ?t) 64 = Some ?t" using nz d by (simp add: read_text_def event_text_def hex2_def)
  have "strstr ?t ''event='' = Some ?t" by (simp add: event_text_def)
  moreover have "strstr ?t ''umask='' = Some (''umask=0x'' @ hex2 u @ [CHR 0x0A])" using nz d by (simp add: event_text_def hex2_def)
  moreover have "strtoul 16 (drop 6 ?t) = of_nat e"
    using strtoul_hex2 [OF assms(1), of "'',umask=0x'' @ hex2 u @ [CHR 0x0A]"] by (simp add: event_text_def stops_def is_digit_def digit_val_def char_val_def)
  moreover have "strtoul 16 (drop 6 (''umask=0x'' @ hex2 u @ [CHR 0x0A])) = of_nat u"
    using strtoul_hex2 [OF assms(2), of "[CHR 0x0A]"] by (simp add: stops_def is_digit_def digit_val_def char_val_def)
  ultimately have "read_imc_event_config fs name = Some (push_bit 8 (of_nat u) OR of_nat e)"
    using assms(3,4) r by (simp add: read_imc_event_config_def)
  moreover have "push_bit 8 (of_nat u) OR of_nat e = (of_nat (u * 256 + e) :: u64)"
  proof -
    have "(of_nat e :: u64) AND push_bit 8 (of_nat u) = 0"
    proof (rule bit_word_eqI)
      fix k
      have "\<not> bit (of_nat e :: u64) k" if "8 \<le> k"
      proof -
        have "take_bit 8 e = e" using assms(1) by (simp add: take_bit_nat_eq_self)
        then have "take_bit 8 (of_nat e :: u64) = of_nat e" by (metis take_bit_of_nat)
        then show ?thesis using that by (metis bit_take_bit_iff not_le)
      qed
      then show "bit ((of_nat e :: u64) AND push_bit 8 (of_nat u)) k \<longleftrightarrow> bit (0 :: u64) k"
        by (auto simp: bit_and_iff bit_push_bit_iff)
    qed
    then have "push_bit 8 (of_nat u :: u64) OR of_nat e = push_bit 8 (of_nat u) + of_nat e"
      using disjunctive_add_eq_or [of "of_nat e :: u64" "push_bit 8 (of_nat u)"] by (simp add: or.commute add.commute)
    then show ?thesis by (simp add: push_bit_eq_mult)
  qed
  ultimately show ?thesis by simp
qed

lemma imc_type_read:
  assumes "t < 2 ^ 32" "k < 10" "fs (''/sys/devices/uncore_imc_'' @ dec k @ ''/type'') = Some (dec t @ [CHR 0x0A])"
  shows "read_imc_type fs k = Some (of_nat t)"
proof -
  have len: "List.length (dec t) \<le> 10" "List.length (dec k) \<le> 1"
    using numeral_in_length [of 10 t 10] numeral_in_length [of 10 k 1] assms(1,2) by (simp_all add: dec_def)
  have nz: "digit_char d \<noteq> CHR 0x00" if "d < 10" for d using digit_char_neq [of d "CHR 0x00"] that by (simp add: char_val_def)
  have "c \<noteq> CHR 0x00" if c: "c \<in> set (dec t)" for c
  proof -
    obtain d where "d < 10" "c = digit_char d" using c numeral_in_chars [of c 10 t] by (auto simp: dec_def)
    then show ?thesis using nz by simp
  qed
  then have "c \<noteq> CHR 0x00" if "c \<in> set (dec t @ [CHR 0x0A])" for c using that by fastforce
  then have "takeWhile (\<lambda>c. c \<noteq> CHR 0x00) (dec t @ [CHR 0x0A]) = dec t @ [CHR 0x0A]" by (simp only: takeWhile_eq_all_conv) blast
  then have r: "read_text (Some (dec t @ [CHR 0x0A])) 16 = Some (dec t @ [CHR 0x0A])" using len(1) by (simp add: read_text_def)
  have "strtoul 10 (dec t @ [CHR 0x0A]) = of_nat t"
    using strtoul_dec [of "[CHR 0x0A]" t] assms(1) by (simp add: stops_def is_digit_def digit_val_def char_val_def)
  moreover have "take 63 (''/sys/devices/uncore_imc_'' @ dec k @ ''/type'') = ''/sys/devices/uncore_imc_'' @ dec k @ ''/type''"
    using len(2) by simp
  ultimately show ?thesis using r assms(3) using take_bit_nat_eq_self [of t 64] assms(1) by (simp add: read_imc_type_def unsigned_of_nat)
qed

text \<open>The loop over the counters.\<close>

lemma open_events_all:
  assumes "\<And>i j k. (i, j, k) \<in> set L \<Longrightarrow> read_imc_type fs k = Some (ty k) \<and>
      read_imc_event_config fs (if j = 0 then ''cas_count_read'' else ''cas_count_write'') = Some (cf j) \<and> perf (ty k) (cf j) (if i = 0 then 0 else 10) \<noteq> - 1"
  shows "open_events fs perf L w = Some (\<lambda>i j k. if (i, j, k) \<in> set L then perf (ty k) (cf j) (if i = 0 then 0 else 10) else w i j k)"
  using assms
proof (induction L arbitrary: w)
  case (Cons x L)
  obtain i j k where x: "x = (i, j, k)" by (cases x)
  have h: "read_imc_type fs k = Some (ty k)" "read_imc_event_config fs (if j = 0 then ''cas_count_read'' else ''cas_count_write'') = Some (cf j)"
    "perf (ty k) (cf j) (if i = 0 then 0 else 10) \<noteq> - 1" using Cons.prems [of i j k] by (simp_all add: x)
  let ?w = "w(i := (w i)(j := (w i j)(k := perf (ty k) (cf j) (if i = 0 then 0 else 10))))"
  have "open_events fs perf L ?w = Some (\<lambda>i j k. if (i, j, k) \<in> set L then perf (ty k) (cf j) (if i = 0 then 0 else 10) else ?w i j k)"
    by (rule Cons.IH, rule Cons.prems) simp
  moreover have "open_events fs perf (x # L) w = open_events fs perf L ?w" using h by (simp add: x)
  ultimately show ?case by (auto simp: x fun_eq_iff)
qed simp

definition imc_files :: "(nat \<Rightarrow> nat) \<Rightarrow> (nat \<Rightarrow> nat) \<Rightarrow> (nat \<Rightarrow> nat) \<Rightarrow> (string \<Rightarrow> string option) \<Rightarrow> bool" where
  "imc_files ty ev um fs \<longleftrightarrow> (\<forall>k<NUM_IMC. ty k < 2 ^ 32 \<and> fs (''/sys/devices/uncore_imc_'' @ dec k @ ''/type'') = Some (dec (ty k) @ [CHR 0x0A])) \<and>
     (\<forall>j<NUM_EVENTS. ev j < 256 \<and> um j < 256 \<and>
       fs (''/sys/devices/uncore_imc_0/events/'' @ (if j = 0 then ''cas_count_read'' else ''cas_count_write'')) = Some (event_text (ev j) (um j)))"

text \<open>
  C37: The numbers that the kernel prints for the memory controllers are read back exactly: when
  the type files hold decimal numbers and the event files event and umask bytes in hexadecimal,
  the start-up opens for every tier, event and controller the counter of that type with the code
  umask * 256 + event on the processor of the tier, and touches no other entry of the table.
\<close>

lemma counters_opened:
  assumes "imc_files ty ev um fs"
    "\<And>i j k. i < NUM_TIERS \<Longrightarrow> j < NUM_EVENTS \<Longrightarrow> k < NUM_IMC \<Longrightarrow> perf (of_nat (ty k)) (of_nat (um j * 256 + ev j)) (if i = 0 then 0 else 10) \<noteq> - 1"
  shows "open_perf_events fs perf fds = Some (\<lambda>i j k. if i < NUM_TIERS \<and> j < NUM_EVENTS \<and> k < NUM_IMC
      then perf (of_nat (ty k)) (of_nat (um j * 256 + ev j)) (if i = 0 then 0 else 10) else fds i j k)"
proof -
  have f: "ty k < 2 ^ 32" "fs (''/sys/devices/uncore_imc_'' @ dec k @ ''/type'') = Some (dec (ty k) @ [CHR 0x0A])" if "k < NUM_IMC" for k
    using assms(1) that by (simp_all add: imc_files_def)
  have g: "ev j < 256" "um j < 256"
    "fs (''/sys/devices/uncore_imc_0/events/'' @ (if j = 0 then ''cas_count_read'' else ''cas_count_write'')) = Some (event_text (ev j) (um j))"
    if "j < NUM_EVENTS" for j using assms(1) that unfolding imc_files_def by blast+
  have t: "read_imc_type fs k = Some (of_nat (ty k))" if "k < NUM_IMC" for k
    by (rule imc_type_read) (use f [OF that] that in \<open>simp_all add: NUM_IMC_def\<close>)
  have c: "read_imc_event_config fs (if j = 0 then ''cas_count_read'' else ''cas_count_write'') = Some (of_nat (um j * 256 + ev j))"
    if "j < NUM_EVENTS" for j
    by (rule event_config_read) (use g [OF that] in simp_all)
  show ?thesis
    unfolding open_perf_events_def
    by (subst open_events_all [where ty = "\<lambda>k. of_nat (ty k)" and cf = "\<lambda>j. of_nat (um j * 256 + ev j)"]) (use t c assms(2) in auto)
qed

text \<open>The event codes of the machine for reads and writes.\<close>

definition sky_files :: "string \<Rightarrow> string option" where
  "sky_files path = (if path = ''/sys/devices/uncore_imc_0/events/cas_count_read'' then Some ''event=0x04,umask=0x03\<newline>''
     else if path = ''/sys/devices/uncore_imc_0/events/cas_count_write'' then Some ''event=0x04,umask=0x0c\<newline>''
     else if path \<in> set (map (\<lambda>k. ''/sys/devices/uncore_imc_'' @ dec k @ ''/type'') [0..<NUM_IMC]) then Some ''24\<newline>''
     else None)"

lemma digit_char_is: "char_val c = (if d < 10 then 48 + d else 87 + d) \<Longrightarrow> digit_char d = c"
  by (metis char_of_char char_val_def digit_char_def)

lemma digit_chars: "digit_char 0 = CHR ''0''" "digit_char 2 = CHR ''2''" "digit_char 3 = CHR ''3''" "digit_char 4 = CHR ''4''" "digit_char 12 = CHR ''c''"
  by (rule digit_char_is, simp add: char_val_def)+

lemma sky_files_ok: "imc_files (\<lambda>_. 24) (\<lambda>_. 4) (\<lambda>j. if j = 0 then 3 else 12) sky_files"
proof -
  have d: "dec 24 = ''24''" "hex2 4 = ''04''" "hex2 3 = ''03''" "hex2 12 = ''0c''"
    by (simp_all add: dec_def numeral_in.simps hex2_def digit_chars)
  then have e: "event_text 4 3 = ''event=0x04,umask=0x03\<newline>''" "event_text 4 12 = ''event=0x04,umask=0x0c\<newline>''" by (simp_all add: event_text_def)
  show ?thesis unfolding imc_files_def using d(1) e by (auto simp: sky_files_def)
qed

lemma counters_opened_witness:
  "\<exists>fds. open_perf_events sky_files (\<lambda>t c cpu. int cpu) (\<lambda>_ _ _. - 1) = Some fds \<and> fds 1 1 5 = 10 \<and> fds 2 0 0 = - 1"
  using counters_opened [OF sky_files_ok, of "\<lambda>t c cpu. int cpu" "\<lambda>_ _ _. - 1"] by (simp add: NUM_TIERS_def NUM_EVENTS_def NUM_IMC_def)

section \<open>The configuration\<close>

definition host_ok :: "host \<Rightarrow> bool" where
  "host_ok H \<longleftrightarrow> (\<forall>f. h_fopen H f) \<and> (\<forall>p. h_open H p \<ge> 0) \<and> h_userfaultfd H \<noteq> - 1 \<and> h_uffd_api H \<and> (\<forall>t. h_thread H t) \<and> h_dma H \<and>
     (\<forall>fd len. h_devmap H fd len = None \<longleftrightarrow> len = 0)"

lemma env_size_dec: "h_getenv H name = Some (dec n) \<Longrightarrow> n < 2 ^ 64 \<Longrightarrow> env_size H name d = of_nat n"
  using strtoul_dec [of "[]" n] by (simp add: env_size_def stops_def)

lemma unat_of_small: "k < 2 ^ 64 \<Longrightarrow> unat (of_nat k :: u64) = k"
  by (simp add: unat_of_nat)

lemma arms_init_run:
  assumes "\<And>f. h_fopen H f" "\<And>p. h_open H p \<ge> 0" "h_userfaultfd H \<noteq> - 1" "h_uffd_api H" "\<And>t. h_thread H t" "h_dma H"
    "env_size H ''DRAMSIZE'' DRAMSIZE_DEFAULT = x" "env_size H ''NVMSIZE'' NVMSIZE_DEFAULT = y"
    "x \<noteq> 0 \<Longrightarrow> h_devmap H (h_open H (env_path H ''DRAMPATH'' DRAMPATH_DEFAULT)) x = Some pd"
    "h_devmap H (h_open H (env_path H ''NVMPATH'' NVMPATH_DEFAULT)) y = Some pn"
    "pinit (s\<lparr>internal_call := True, dramsize := x, nvmsize := y\<rparr>) = Some s0"
  shows "\<exists>g' v'. arms_init H pinit (g, v, s) = Some (g', v', s0\<lparr>internal_call := False\<rparr>) \<and> is_init g' \<and>
    dramfd g' = h_open H (env_path H ''DRAMPATH'' DRAMPATH_DEFAULT) \<and> nvmfd g' = h_open H (env_path H ''NVMPATH'' NVMPATH_DEFAULT) \<and>
    (x \<noteq> 0 \<longrightarrow> dram_devdax_mmap v' = pd) \<and> nvm_devdax_mmap v' = pn"
proof (cases "x = 0")
  case True
  then show ?thesis using assms(11) unfolding arms_init_def Let_def by (simp add: assms(1-8,10))
next
  case False
  then show ?thesis using assms(11) unfolding arms_init_def Let_def by (simp add: assms(1-8,10) assms(9) [OF False])
qed

text \<open>
  C38: When the host grants all requests and DRAMSIZE and NVMSIZE are decimal numbers below
  2^64, the second one not 0, and together they make fewer than 2^30 pages, arms_init returns:
  it runs the initialisation of the policy on the state with exactly these sizes, whose
  invariant then holds with one page for every 2 MiB, maps each device with its size (the fast
  one only when its size is not 0), and marks the program as initialised.
\<close>

lemma arms_init_configures:
  fixes s :: "'a pebs_state_scheme"
  assumes "host_ok H" "h_getenv H ''DRAMSIZE'' = Some (dec a)" "h_getenv H ''NVMSIZE'' = Some (dec b)" "a < 2 ^ 64" "0 < b" "b < 2 ^ 64"
    "allocs_ok d (a div 2 ^ 21) n (b div 2 ^ 21)" "vmap s = Map.empty"
  shows "\<exists>g' v' s0. pebs_init d n (s\<lparr>internal_call := True, dramsize := of_nat a, nvmsize := of_nat b\<rparr>) = Some s0 \<and>
    sys_inv (d ` {..<a div 2 ^ 21} \<union> n ` {..<b div 2 ^ 21}) (False, s0, []) \<and>
    arms_init H (pebs_init d n) (g, v, s) = Some (g', v', s0\<lparr>internal_call := False\<rparr>) \<and> is_init g' \<and>
    h_devmap H (dramfd g') (of_nat a) = (if a = 0 then None else Some (dram_devdax_mmap v')) \<and>
    h_devmap H (nvmfd g') (of_nat b) = Some (nvm_devdax_mmap v')"
proof -
  have H: "h_fopen H f" "h_open H p \<ge> 0" "h_userfaultfd H \<noteq> - 1" "h_uffd_api H" "h_thread H t" "h_dma H" "h_devmap H fd len = None \<longleftrightarrow> len = 0"
    for f p t fd len using assms(1) by (simp_all add: host_ok_def)
  let ?s = "s\<lparr>internal_call := True, dramsize := of_nat a, nvmsize := of_nat b\<rparr>"
  have sz: "env_size H ''DRAMSIZE'' DRAMSIZE_DEFAULT = of_nat a" "env_size H ''NVMSIZE'' NVMSIZE_DEFAULT = of_nat b"
    using env_size_dec assms(2-6) by blast+
  have un: "unat (of_nat a :: u64) = a" "unat (of_nat b :: u64) = b" by (rule unat_of_small [OF assms(4)], rule unat_of_small [OF assms(6)])
  have z: "(of_nat a :: u64) = 0 \<longleftrightarrow> a = 0" using unat_eq_0 [of "of_nat a :: u64"] unfolding un(1) by blast
  have zb: "(of_nat b :: u64) \<noteq> 0" using unat_eq_0 [of "of_nat b :: u64"] assms(5) unfolding un(2) by blast
  have fc: "frame_count (of_nat a) = a div 2 ^ 21" "frame_count (of_nat b) = b div 2 ^ 21"
    using un by (simp_all add: frame_count_def unat_div_distrib unat_PAGE_SIZE)
  obtain s0 where s0: "pebs_init d n ?s = Some s0" "sys_inv (d ` {..<a div 2 ^ 21} \<union> n ` {..<b div 2 ^ 21}) (False, s0, [])"
    using pebs_init_inv [of d ?s n] assms(7,8) by (auto simp: fc)
  let ?fd = "h_open H (env_path H ''DRAMPATH'' DRAMPATH_DEFAULT)" and ?fn = "h_open H (env_path H ''NVMPATH'' NVMPATH_DEFAULT)"
  obtain pn where pn: "h_devmap H ?fn (of_nat b) = Some pn" using H(7) [of ?fn "of_nat b"] zb by (metis option.exhaust)
  obtain pd where pd: "(of_nat a :: u64) \<noteq> 0 \<Longrightarrow> h_devmap H ?fd (of_nat a) = Some pd" using H(7) [of ?fd "of_nat a"] by (metis option.exhaust)
  from arms_init_run [where pinit = "pebs_init d n" and s = s and g = g and v = v, OF H(1-6) sz pd pn s0(1)] obtain g' v' where
    r: "arms_init H (pebs_init d n) (g, v, s) = Some (g', v', s0\<lparr>internal_call := False\<rparr>)" "is_init g'" "dramfd g' = ?fd" "nvmfd g' = ?fn"
      "(of_nat a :: u64) \<noteq> 0 \<longrightarrow> dram_devdax_mmap v' = pd" "nvm_devdax_mmap v' = pn" by blast
  have "h_devmap H (dramfd g') (of_nat a) = (if a = 0 then None else Some (dram_devdax_mmap v'))"
    using pd r(3,5) z H(7) [of ?fd 0] by (cases "a = 0") simp_all
  moreover have "h_devmap H (nvmfd g') (of_nat b) = Some (nvm_devdax_mmap v')" unfolding r(4,6) by (rule pn)
  ultimately show ?thesis using s0 r(1,2) by (intro exI [of _ g'] exI [of _ v'] exI [of _ s0]) simp
qed

definition demo_host :: host where
  "demo_host = \<lparr>h_getenv = (\<lambda>n. if n = ''DRAMSIZE'' \<or> n = ''NVMSIZE'' then Some (dec 0x400000) else None), h_fopen = (\<lambda>_. True),
     h_open = (\<lambda>_. 3), h_userfaultfd = 4, h_uffd_api = True, h_thread = (\<lambda>_. True),
     h_devmap = (\<lambda>fd len. if len = 0 then None else Some 0x200000), h_dma = True\<rparr>"

lemma arms_init_configures_witness:
  "\<exists>g' v' s'. arms_init demo_host (pebs_init demo_dram demo_nvm)
       (\<lparr>is_init = False, dramfd = - 1, nvmfd = - 1, cr3_set = False, cr3 = 0, min_interpose_mem_size = 0, dram_small_allocation_bytes = 0\<rparr>,
        \<lparr>drampath = [], nvmpath = [], uffd = - 1, dram_devdax_mmap = 0, nvm_devdax_mmap = 0\<rparr>, pebs_start 0 0) = Some (g', v', s') \<and> is_init g'"
proof -
  have 1: "host_ok demo_host" "h_getenv demo_host ''DRAMSIZE'' = Some (dec 0x400000)" "h_getenv demo_host ''NVMSIZE'' = Some (dec 0x400000)"
    by (simp_all add: host_ok_def demo_host_def)
  have 2: "(0x400000 :: nat) < 2 ^ 64" "0 < (0x400000 :: nat)" "allocs_ok demo_dram (0x400000 div 2 ^ 21) demo_nvm (0x400000 div 2 ^ 21)" "vmap (pebs_start 0 0) = Map.empty"
    using demo_allocs by (simp_all add: demo_count)
  from arms_init_configures [OF 1 2(1,2,1,3,4)] show ?thesis by blast
qed

end
